(* ===== verification/Go_Prelude.thy ===== *)
theory Go_Prelude
  imports Main "HOL-Library.Word"
begin

text \<open>
  The vocabulary the component theories share: bytes and machine words, Go slicing with its
  bounds check, results as sums, and the interface of a self-delimiting codec (a writer whose
  output can be read back whatever follows it), which the varint, item, record and skeleton
  formats of the repository all provide.
\<close>

unbundle bit_operations_syntax

type_synonym byte = "8 word"
type_synonym u16 = "16 word"
type_synonym u32 = "32 word"
type_synonym u64 = "64 word"
type_synonym bytes = "byte list"

section \<open>Go slices\<close>

text \<open>
  \<open>xs[lo:hi]\<close> and \<open>xs[i]\<close> of Go on a slice: \<open>None\<close> is the run-time panic of an index that
  is out of range. A Go slice may be resliced up to its capacity; the model stops at the
  length, so a property that \<open>None\<close> never happens is the stronger one.
\<close>

definition go_slice :: "'a list \<Rightarrow> int \<Rightarrow> int \<Rightarrow> 'a list option" where
  "go_slice xs lo hi =
     (if 0 \<le> lo \<and> lo \<le> hi \<and> hi \<le> int (length xs)
      then Some (take (nat (hi - lo)) (drop (nat lo) xs)) else None)"

definition go_index :: "'a list \<Rightarrow> int \<Rightarrow> 'a option" where
  "go_index xs i = (if 0 \<le> i \<and> i < int (length xs) then Some (xs ! nat i) else None)"

lemma go_slice_nat [simp]:
  "lo \<le> hi \<Longrightarrow> hi \<le> length xs \<Longrightarrow>
     go_slice xs (int lo) (int hi) = Some (take (hi - lo) (drop lo xs))"
  by (simp add: go_slice_def nat_diff_distrib)

lemma go_slice_length: "go_slice xs lo hi = Some ys \<Longrightarrow> int (length ys) = hi - lo"
  by (auto simp: go_slice_def split: if_splits)

lemma go_index_nat [simp]: "i < length xs \<Longrightarrow> go_index xs (int i) = Some (xs ! i)"
  by (simp add: go_index_def)

text \<open>
  \<open>for index := 0; index < n; index++ { out = append(out, out[position+index]) }\<close>: the copy of a
  slice onto its own end, which may overlap what it appends.
\<close>

fun copy_forward :: "nat \<Rightarrow> int \<Rightarrow> 'a list \<Rightarrow> 'a list option" where
  "copy_forward 0 position out = Some out"
| "copy_forward (Suc n) position out =
     (case go_index out position of
        None \<Rightarrow> None
      | Some b \<Rightarrow> copy_forward n (position + 1) (out @ [b]))"

lemma copy_forward_total:
  assumes "p < length out"
  shows "\<exists>ys. copy_forward n (int p) out = Some (out @ ys) \<and> length ys = n \<and>
           (\<forall>i<n. ys ! i = (out @ ys) ! (p + i))"
  using assms
proof (induction n arbitrary: p out)
  case 0
  then show ?case by simp
next
  case (Suc n)
  have "Suc p < length (out @ [out ! p])" using Suc.prems by simp
  from Suc.IH [OF this] obtain ys where ys:
      "copy_forward n (int (Suc p)) (out @ [out ! p]) = Some ((out @ [out ! p]) @ ys)"
      "length ys = n" "\<forall>i<n. ys ! i = ((out @ [out ! p]) @ ys) ! (Suc p + i)"
    by blast
  have "copy_forward (Suc n) (int p) out = Some (out @ (out ! p # ys))"
    using ys(1) Suc.prems by (simp add: algebra_simps)
  moreover have "\<forall>i<Suc n. (out ! p # ys) ! i = (out @ (out ! p # ys)) ! (p + i)"
    using ys(3) Suc.prems by (auto simp: nth_Cons' nth_append All_less_Suc2)
  ultimately show ?case using ys(2) by (intro exI [of _ "out ! p # ys"]) simp
qed

section \<open>Lists\<close>

lemma take_drop_append_middle [simp]: "take (length ys) (drop (length xs) (xs @ ys @ zs)) = ys"
  by simp

lemma drop_eq_Cons_nth: "i < length xs \<Longrightarrow> drop i xs = xs ! i # drop (Suc i) xs"
  by (simp add: Cons_nth_drop_Suc)

lemma takeWhile_dropWhile_append_stop:
  assumes "\<forall>x\<in>set xs. P x" "\<not> P y"
  shows "takeWhile P (xs @ y # zs) = xs" "dropWhile P (xs @ y # zs) = y # zs"
  using assms by (simp_all add: takeWhile_append2 dropWhile_append2)

section \<open>Self-delimiting codecs\<close>

text \<open>
  Read \<open>n\<close> items one after the other, stopping at the first error: the counted loops of the
  decoders.
\<close>

fun decode_count :: "('b list \<Rightarrow> 'e + 'a \<times> 'b list) \<Rightarrow> nat \<Rightarrow> 'b list \<Rightarrow> 'e + 'a list \<times> 'b list" where
  "decode_count dec 0 bs = Inr ([], bs)"
| "decode_count dec (Suc n) bs =
     (case dec bs of
        Inl e \<Rightarrow> Inl e
      | Inr (x, bs') \<Rightarrow>
          (case decode_count dec n bs' of
             Inl e \<Rightarrow> Inl e
           | Inr (xs, bs'') \<Rightarrow> Inr (x # xs, bs'')))"

text \<open>
  The contract between a writer and its reader: what was written is read back, and reading
  stops exactly where the writer stopped.
\<close>

locale prefix_codec =
  fixes ok :: "'a \<Rightarrow> bool"
    and enc :: "'a \<Rightarrow> 'b list"
    and dec :: "'b list \<Rightarrow> 'e + 'a \<times> 'b list"
  assumes dec_enc: "ok a \<Longrightarrow> dec (enc a @ rest) = Inr (a, rest)"
begin

lemma dec_enc_exact: "ok a \<Longrightarrow> dec (enc a) = Inr (a, [])"
  using dec_enc [of a "[]"] by simp

lemma enc_prefix_free:
  assumes "ok a" "ok b" "enc a @ r = enc b @ s"
  shows "a = b \<and> r = s"
  by (metis assms dec_enc old.sum.inject(2) prod.inject)

lemma decode_count_enc:
  "list_all ok xs \<Longrightarrow>
     decode_count dec (length xs) (concat (map enc xs) @ rest) = Inr (xs, rest)"
  by (induction xs) (simp_all add: dec_enc)

end

end
