(* ===== verification/Delta_Varint.thy ===== *)
theory Delta_Varint
  imports Go_Prelude
begin

text \<open>
  The variable-length integers of svndiff, \<^verbatim>\<open>delta/varint.go\<close>: a \<open>uint64\<close> is written as
  base-128 digits, most significant first, every byte but the last with the high bit set.
  \<open>appendVarint\<close> fills a buffer of ten bytes from the end; \<open>readVarint\<close> reads from a stream
  and \<open>consumeVarint\<close> from a slice at a position. The lemmas give the round trip for every
  64-bit value, the length bound the ten-byte buffer relies on, and the agreement of the two
  readers.
\<close>

datatype varint_error = VarintEOF | VarintUnexpectedEOF | VarintOverflow

section \<open>Definitions\<close>

text \<open>
  \<open>varint_fill value buf\<close> is the loop of \<open>appendVarint\<close>: \<open>buf\<close> is the filled tail of the
  buffer, each turn puts one byte in front of it.
\<close>

lemma unat_drop_bit_7: "unat (drop_bit 7 v) = unat v div 128"
  by (simp only: unat_drop_bit_eq) (simp add: drop_bit_eq_div)

lemma drop_bit_7_less: "v \<noteq> (0 :: u64) \<Longrightarrow> unat (drop_bit 7 v) < unat v"
  by (simp add: unat_drop_bit_7 unat_gt_0)

function varint_fill :: "u64 \<Rightarrow> bytes \<Rightarrow> bytes" where
  "varint_fill v buf =
     (if v = 0 then buf
      else varint_fill (drop_bit 7 v) ((ucast (v AND 0x7f) OR 0x80) # buf))"
  by pat_completeness auto
termination
  by (relation "measure (\<lambda>(v, buf). unat v)") (auto simp: drop_bit_7_less)

declare varint_fill.simps [simp del]

definition appendVarint :: "bytes \<Rightarrow> u64 \<Rightarrow> bytes" where
  "appendVarint destination value =
     destination @ varint_fill (drop_bit 7 value) [ucast (value AND 0x7f)]"

text \<open>
  One turn of the reading loops: \<open>math.MaxUint64 >> 7\<close> bounds the value that may still be
  shifted left by seven bits.
\<close>

definition varint_shift :: "u64 \<Rightarrow> byte \<Rightarrow> u64" where
  "varint_shift value current = push_bit 7 value OR ucast (current AND 0x7f)"

fun readVarint_loop :: "nat \<Rightarrow> u64 \<Rightarrow> bytes \<Rightarrow> varint_error + u64 \<times> bytes" where
  "readVarint_loop 0 value stream = Inl VarintOverflow"
| "readVarint_loop (Suc n) value [] = Inl VarintEOF"
| "readVarint_loop (Suc n) value (current # stream) =
     (if value > drop_bit 7 (- 1) then Inl VarintOverflow
      else if current AND 0x80 = 0 then Inr (varint_shift value current, stream)
      else readVarint_loop n (varint_shift value current) stream)"

definition readVarint :: "bytes \<Rightarrow> varint_error + u64 \<times> bytes" where
  "readVarint stream = readVarint_loop 10 0 stream"

fun consumeVarint_loop :: "nat \<Rightarrow> u64 \<Rightarrow> bytes \<Rightarrow> nat \<Rightarrow> varint_error + u64 \<times> nat" where
  "consumeVarint_loop 0 value data position = Inl VarintOverflow"
| "consumeVarint_loop (Suc n) value data position =
     (if position \<ge> length data then Inl VarintUnexpectedEOF
      else let current = data ! position in
        if value > drop_bit 7 (- 1) then Inl VarintOverflow
        else if current AND 0x80 = 0 then Inr (varint_shift value current, Suc position)
        else consumeVarint_loop n (varint_shift value current) data (Suc position))"

definition consumeVarint :: "bytes \<Rightarrow> nat \<Rightarrow> varint_error + u64 \<times> nat" where
  "consumeVarint data position = consumeVarint_loop 10 0 data position"

section \<open>Bits of one digit\<close>

lemma bit_int_128: "bit (0x80 :: int) n \<longleftrightarrow> n = 7"
proof -
  have "bit (push_bit 7 1 :: int) n \<longleftrightarrow> n = 7"
    by (simp only: bit_push_bit_iff bit_1_iff) auto
  moreover have "push_bit 7 1 = (0x80 :: int)" by simp
  ultimately show ?thesis by simp
qed

lemma mask_7: "(0x7f :: u64) = mask 7" "(0x7f :: byte) = mask 7"
  by (simp_all add: mask_eq_exp_minus_1)

lemma varint_shift_last:
  "varint_shift (drop_bit 7 v) (ucast (v AND 0x7f)) = v"
  unfolding varint_shift_def mask_7
proof (rule bit_word_eqI)
  fix n :: nat
  assume "n < LENGTH(64)"
  then show "bit (push_bit 7 (drop_bit 7 v) OR ucast (ucast (v AND mask 7 :: u64) AND mask 7 :: byte)) n
      \<longleftrightarrow> bit v n"
    by (cases "n < 7") (auto simp: bit_simps)
qed

lemma varint_shift_more:
  "varint_shift (drop_bit 7 v) (ucast (v AND 0x7f) OR 0x80) = v"
  unfolding varint_shift_def mask_7
proof (rule bit_word_eqI)
  fix n :: nat
  assume "n < LENGTH(64)"
  then show "bit (push_bit 7 (drop_bit 7 v) OR
      ucast ((ucast (v AND mask 7 :: u64) OR 0x80) AND mask 7 :: byte)) n \<longleftrightarrow> bit v n"
    by (cases "n < 7") (auto simp: bit_simps bit_int_128)
qed

lemma last_byte_stops: "ucast (v AND 0x7f :: u64) AND 0x80 = (0 :: byte)"
  unfolding mask_7 by (rule bit_word_eqI) (auto simp: bit_simps bit_int_128)

lemma more_byte_continues: "(x OR 0x80) AND 0x80 \<noteq> (0 :: byte)"
proof -
  have "bit ((x OR 0x80 :: byte) AND 0x80) 7" by (simp add: bit_simps)
  then show ?thesis by (metis bit_0_eq bot_apply bot_bool_def)
qed

lemma drop_bit_7_small: "\<not> drop_bit 7 v > (drop_bit 7 (- 1) :: u64)"
proof -
  have "unat v \<le> unat (- 1 :: u64)" by (simp add: word_le_nat_alt [symmetric])
  then have "unat v div 128 \<le> unat (- 1 :: u64) div 128" by (rule div_le_mono)
  then show ?thesis by (simp only: word_less_nat_alt unat_drop_bit_7 not_less)
qed

section \<open>The round trip\<close>

text \<open>The bytes in front of the last one, separated from the buffer they are put on.\<close>

function varint_high :: "u64 \<Rightarrow> bytes" where
  "varint_high v =
     (if v = 0 then [] else varint_high (drop_bit 7 v) @ [ucast (v AND 0x7f) OR 0x80])"
  by pat_completeness auto
termination
  by (relation "measure unat") (auto simp: drop_bit_7_less)

declare varint_high.simps [simp del]

lemma varint_fill_high: "varint_fill v buf = varint_high v @ buf"
proof (induction v buf rule: varint_fill.induct)
  case (1 v buf)
  then show ?case by (simp add: varint_fill.simps [of v] varint_high.simps [of v])
qed

lemma varint_high_length: "unat v < 128 ^ k \<Longrightarrow> length (varint_high v) \<le> k"
proof (induction k arbitrary: v)
  case 0
  then show ?case by (simp add: unat_eq_0 varint_high.simps)
next
  case (Suc k)
  show ?case
  proof (cases "v = 0")
    case True
    then show ?thesis by (simp add: varint_high.simps)
  next
    case False
    have "unat (drop_bit 7 v) < 128 ^ k"
      unfolding unat_drop_bit_7 using Suc.prems by (intro less_mult_imp_div_less) (simp add: mult.commute)
    then have "length (varint_high (drop_bit 7 v)) \<le> k" by (rule Suc.IH)
    with False show ?thesis by (simp add: varint_high.simps [of v])
  qed
qed

lemma varint_high_read:
  "length (varint_high v) \<le> n \<Longrightarrow>
     readVarint_loop n 0 (varint_high v @ rest) = readVarint_loop (n - length (varint_high v)) v rest"
proof (induction v arbitrary: rest rule: varint_high.induct)
  case (1 v)
  show ?case
  proof (cases "v = 0")
    case True
    then show ?thesis by (simp add: varint_high.simps)
  next
    case False
    let ?h = "varint_high (drop_bit 7 v)"
    have high: "varint_high v = ?h @ [ucast (v AND 0x7f) OR 0x80]"
      using False by (simp add: varint_high.simps [of v])
    with "1.prems" have len: "length ?h < n" by simp
    then obtain m where m: "n - length ?h = Suc m" by (metis Suc_diff_Suc)
    have "readVarint_loop n 0 (varint_high v @ rest) =
        readVarint_loop (Suc m) (drop_bit 7 v) ((ucast (v AND 0x7f) OR 0x80) # rest)"
      using "1.IH" [OF False] len m by (simp add: high)
    also have "\<dots> = readVarint_loop m v rest"
      using drop_bit_7_small more_byte_continues by (simp add: varint_shift_more)
    also have "m = n - length (varint_high v)" using m by (simp add: high)
    finally show ?thesis .
  qed
qed

lemma varint_high_9: "length (varint_high (drop_bit 7 v)) \<le> 9"
proof -
  have "unat v < 2 ^ 64" using unsigned_less [of v] by simp
  then have "unat (drop_bit 7 v) < 128 ^ 9"
    unfolding unat_drop_bit_7 by (intro less_mult_imp_div_less) simp
  then show ?thesis by (rule varint_high_length)
qed

lemma readVarint_append: "readVarint (appendVarint [] v @ rest) = Inr (v, rest)"
proof -
  let ?h = "varint_high (drop_bit 7 v)"
  from varint_high_9 [of v] have "10 - length ?h = Suc (9 - length ?h)" by simp
  then obtain m where m: "10 - length ?h = Suc m" by blast
  have "readVarint (appendVarint [] v @ rest) =
      readVarint_loop (Suc m) (drop_bit 7 v) (ucast (v AND 0x7f) # rest)"
    using varint_high_read [of "drop_bit 7 v" 10 "ucast (v AND 0x7f) # rest"] varint_high_9 [of v] m
    by (simp add: readVarint_def appendVarint_def varint_fill_high)
  also have "\<dots> = Inr (v, rest)"
    using drop_bit_7_small by (simp add: last_byte_stops varint_shift_last)
  finally show ?thesis .
qed

interpretation varint: prefix_codec "\<lambda>_. True" "appendVarint []" readVarint
  by unfold_locales (rule readVarint_append)

lemma appendVarint_bounds:
  "1 \<le> length (appendVarint [] v)" "length (appendVarint [] v) \<le> 10"
  using varint_high_9 [of v] by (simp_all add: appendVarint_def varint_fill_high)

lemma appendVarint_dest: "appendVarint destination v = destination @ appendVarint [] v"
  by (simp add: appendVarint_def)

section \<open>The two readers agree\<close>

lemma consumeVarint_loop_read:
  "position \<le> length data \<Longrightarrow>
     consumeVarint_loop n acc data position =
       (case readVarint_loop n acc (drop position data) of
          Inl VarintEOF \<Rightarrow> Inl VarintUnexpectedEOF
        | Inl e \<Rightarrow> Inl e
        | Inr (v, rest) \<Rightarrow> Inr (v, length data - length rest))"
proof (induction n arbitrary: acc position)
  case 0
  then show ?case by simp
next
  case (Suc n)
  show ?case
  proof (cases "position = length data")
    case True
    then show ?thesis by simp
  next
    case False
    with Suc.prems have lt: "position < length data" by simp
    then have "drop position data = data ! position # drop (Suc position) data"
      by (rule drop_eq_Cons_nth)
    with Suc.IH [of "Suc position"] lt show ?thesis by (simp add: Let_def)
  qed
qed

lemma consumeVarint_at:
  "consumeVarint (pre @ appendVarint [] v @ rest) (length pre) =
     Inr (v, length pre + length (appendVarint [] v))"
  using consumeVarint_loop_read [of "length pre" "pre @ appendVarint [] v @ rest" 10 0]
    readVarint_append [of v rest]
  by (simp add: consumeVarint_def readVarint_def)

section \<open>Properties\<close>

text \<open>C10: every 64-bit value that \<open>appendVarint\<close> writes is read back by the stream reader and by
  the slice reader, which stop exactly behind it whatever follows; the encoding takes between one
  and ten bytes, the size of the buffer it is built in.\<close>

theorem varint_roundtrip:
  "readVarint (appendVarint [] v @ rest) = Inr (v, rest) \<and>
   consumeVarint (pre @ appendVarint [] v @ rest) (length pre) =
     Inr (v, length pre + length (appendVarint [] v)) \<and>
   1 \<le> length (appendVarint [] v) \<and> length (appendVarint [] v) \<le> 10"
  using varint.dec_enc [of v rest] consumeVarint_at appendVarint_bounds by simp

end
