(* ===== verification/Delta_Window.thy ===== *)
theory Delta_Window
  imports Go_Prelude
begin

text \<open>
  Delta windows, \<^verbatim>\<open>delta/window.go\<close>: the operations of a window, \<open>Window.Validate\<close> and
  \<open>ApplyWindow\<close>. Go's \<open>int\<close> and \<open>int64\<close> fields are integers: every sum and difference that
  \<open>Validate\<close> forms lies between zero and a length it has already checked, so none wraps.
  An index out of range is the value \<open>Panic\<close>. The lemmas show that a window \<open>Validate\<close>
  accepts is applied without a panic, and that the result is the one target the operations
  describe.
\<close>

datatype op_kind = OpSource | OpTarget | OpNew | OpOther byte

record op =
  Kind :: op_kind
  Offset :: int
  Length :: int

record window =
  SourceOffset :: int
  SourceLength :: int
  TargetLength :: int
  Ops :: "op list"
  NewData :: bytes

datatype ops_fault =
    NegativeWindow
  | SourceViewLength int int
  | OpBadOffsetOrLength nat
  | OpExceedsTarget nat
  | OpExceedsSource nat
  | OpBeyondProduced nat
  | OpExceedsNewData nat
  | OpUnknownKind nat byte
  | ProducedMismatch int int
  | BadSelector
  | BadLengthVarint
  | BadLength
  | BadOffsetVarint
  | NewDataMismatch int int

datatype delta_error =
    InvalidOps ops_fault
  | InvalidHeader
  | UnexpectedEndHeader
  | UnexpectedEndSection
  | CorruptWindow
  | NilWindow
  | BackwardView int int
  | InvalidSectionSize
  | InvalidCompressedData
  | UnsupportedVersion int
  | InvalidCompressionLevel int
  | EncoderClosed
  | SeekSource
  | ReadSource
  | ReadDeltaSource
  | ReadDeltaTarget
  | ChecksumMismatch
  | DeltaEOF
  | Panic

section \<open>Validate\<close>

fun validate_ops :: "window \<Rightarrow> nat \<Rightarrow> int \<Rightarrow> op list \<Rightarrow> ops_fault + int" where
  "validate_ops w index produced [] = Inr produced"
| "validate_ops w index produced (operation # ops) =
     (if Offset operation < 0 \<or> Length operation \<le> 0 then Inl (OpBadOffsetOrLength index)
      else if Length operation > TargetLength w - produced then Inl (OpExceedsTarget index)
      else case Kind operation of
          OpSource \<Rightarrow>
            if Offset operation > SourceLength w - Length operation then Inl (OpExceedsSource index)
            else validate_ops w (Suc index) (produced + Length operation) ops
        | OpTarget \<Rightarrow>
            if Offset operation \<ge> produced then Inl (OpBeyondProduced index)
            else validate_ops w (Suc index) (produced + Length operation) ops
        | OpNew \<Rightarrow>
            if Offset operation > int (length (NewData w)) - Length operation
            then Inl (OpExceedsNewData index)
            else validate_ops w (Suc index) (produced + Length operation) ops
        | OpOther k \<Rightarrow> Inl (OpUnknownKind index k))"

definition Validate :: "window \<Rightarrow> ops_fault + unit" where
  "Validate w =
     (if SourceOffset w < 0 \<or> SourceLength w < 0 \<or> TargetLength w < 0 then Inl NegativeWindow
      else case validate_ops w 0 0 (Ops w) of
          Inl e \<Rightarrow> Inl e
        | Inr produced \<Rightarrow>
            if produced \<noteq> TargetLength w then Inl (ProducedMismatch produced (TargetLength w))
            else Inr ())"

section \<open>ApplyWindow\<close>

text \<open>One turn of the loop; an unknown kind falls through the \<open>switch\<close>.\<close>

definition apply_op :: "bytes \<Rightarrow> bytes \<Rightarrow> bytes \<Rightarrow> op \<Rightarrow> bytes option" where
  "apply_op source new_data target operation =
     (case Kind operation of
        OpSource \<Rightarrow>
          map_option (\<lambda>s. target @ s)
            (go_slice source (Offset operation) (Offset operation + Length operation))
      | OpTarget \<Rightarrow> copy_forward (nat (Length operation)) (Offset operation) target
      | OpNew \<Rightarrow>
          map_option (\<lambda>s. target @ s)
            (go_slice new_data (Offset operation) (Offset operation + Length operation))
      | OpOther k \<Rightarrow> Some target)"

fun apply_ops :: "bytes \<Rightarrow> bytes \<Rightarrow> bytes \<Rightarrow> op list \<Rightarrow> bytes option" where
  "apply_ops source new_data target [] = Some target"
| "apply_ops source new_data target (operation # ops) =
     (case apply_op source new_data target operation of
        None \<Rightarrow> None
      | Some target' \<Rightarrow> apply_ops source new_data target' ops)"

definition ApplyWindow :: "bytes \<Rightarrow> window \<Rightarrow> delta_error + bytes" where
  "ApplyWindow source w =
     (case Validate w of
        Inl e \<Rightarrow> Inl (InvalidOps e)
      | Inr _ \<Rightarrow>
          if int (length source) \<noteq> SourceLength w
          then Inl (InvalidOps (SourceViewLength (int (length source)) (SourceLength w)))
          else case apply_ops source (NewData w) [] (Ops w) of
              None \<Rightarrow> Inl Panic
            | Some target \<Rightarrow> Inr target)"

section \<open>What a window describes\<close>

text \<open>
  The target a window stands for, without building it: the operation that starts at target
  position \<open>start\<close> fixes the \<open>Length\<close> bytes from there on, a target operation by bytes of the
  target itself.
\<close>

definition op_describes :: "bytes \<Rightarrow> bytes \<Rightarrow> op \<Rightarrow> nat \<Rightarrow> bytes \<Rightarrow> bool" where
  "op_describes source new_data operation start target \<longleftrightarrow>
     (\<forall>i<nat (Length operation).
        target ! (start + i) =
          (case Kind operation of
             OpSource \<Rightarrow> source ! (nat (Offset operation) + i)
           | OpTarget \<Rightarrow> target ! (nat (Offset operation) + i)
           | OpNew \<Rightarrow> new_data ! (nat (Offset operation) + i)
           | OpOther k \<Rightarrow> target ! (start + i)))"

fun ops_describe :: "bytes \<Rightarrow> bytes \<Rightarrow> op list \<Rightarrow> nat \<Rightarrow> bytes \<Rightarrow> bool" where
  "ops_describe source new_data [] start target \<longleftrightarrow> length target = start"
| "ops_describe source new_data (operation # ops) start target \<longleftrightarrow>
     op_describes source new_data operation start target \<and>
     ops_describe source new_data ops (start + nat (Length operation)) target"

text \<open>The bounds \<open>Validate\<close> checks, as a predicate on the list of operations.\<close>

definition op_in_bounds :: "nat \<Rightarrow> nat \<Rightarrow> int \<Rightarrow> op \<Rightarrow> bool" where
  "op_in_bounds n_source n_new produced operation \<longleftrightarrow>
     0 \<le> Offset operation \<and> 0 < Length operation \<and>
     (case Kind operation of
        OpSource \<Rightarrow> Offset operation + Length operation \<le> int n_source
      | OpTarget \<Rightarrow> Offset operation < produced
      | OpNew \<Rightarrow> Offset operation + Length operation \<le> int n_new
      | OpOther k \<Rightarrow> False)"

fun ops_in_bounds :: "nat \<Rightarrow> nat \<Rightarrow> int \<Rightarrow> op list \<Rightarrow> bool" where
  "ops_in_bounds n_source n_new produced [] \<longleftrightarrow> True"
| "ops_in_bounds n_source n_new produced (operation # ops) \<longleftrightarrow>
     op_in_bounds n_source n_new produced operation \<and>
     ops_in_bounds n_source n_new (produced + Length operation) ops"

definition ops_length :: "op list \<Rightarrow> int" where
  "ops_length ops = sum_list (map Length ops)"

lemma ops_length_simps [simp]:
  "ops_length [] = 0" "ops_length (operation # ops) = Length operation + ops_length ops"
  by (simp_all add: ops_length_def)

lemma ops_length_append [simp]: "ops_length (xs @ ys) = ops_length xs + ops_length ys"
  by (simp add: ops_length_def)

lemma ops_length_nonneg: "ops_in_bounds n m p ops \<Longrightarrow> 0 \<le> ops_length ops"
  by (induction ops arbitrary: p) (auto simp: op_in_bounds_def)

lemma ops_in_bounds_append:
  "ops_in_bounds n m p (xs @ ys) \<longleftrightarrow>
     ops_in_bounds n m p xs \<and> ops_in_bounds n m (p + ops_length xs) ys"
  by (induction xs arbitrary: p) (auto simp: algebra_simps)

lemma validate_ops_iff:
  assumes "SourceLength w = int n"
  shows "validate_ops w index produced ops = Inr t \<and> produced \<le> TargetLength w \<longleftrightarrow>
     ops_in_bounds n (length (NewData w)) produced ops \<and>
     t = produced + ops_length ops \<and> t \<le> TargetLength w"
proof (induction ops arbitrary: index produced)
  case Nil
  then show ?case by auto
next
  case (Cons operation ops)
  have "ops_in_bounds n (length (NewData w)) p ops \<Longrightarrow> 0 \<le> ops_length ops" for p
    by (rule ops_length_nonneg)
  with Cons.IH [of "Suc index" "produced + Length operation"] assms show ?case
    by (cases "Kind operation") (auto simp: op_in_bounds_def split: if_splits)
qed

lemma Validate_iff:
  "Validate w = Inr () \<longleftrightarrow>
     0 \<le> SourceOffset w \<and> 0 \<le> SourceLength w \<and>
     ops_in_bounds (nat (SourceLength w)) (length (NewData w)) 0 (Ops w) \<and>
     ops_length (Ops w) = TargetLength w"
proof (cases "0 \<le> SourceOffset w \<and> 0 \<le> SourceLength w \<and> 0 \<le> TargetLength w")
  case True
  then have "SourceLength w = int (nat (SourceLength w))" by simp
  note iff = validate_ops_iff [OF this, of 0 0 "Ops w" "TargetLength w"]
  have "Validate w = Inr () \<longleftrightarrow> validate_ops w 0 0 (Ops w) = Inr (TargetLength w)"
    using True by (auto simp: Validate_def split: sum.splits)
  with iff True show ?thesis by auto
next
  case False
  then have "Validate w \<noteq> Inr ()" by (auto simp: Validate_def)
  moreover have "0 \<le> TargetLength w"
    if "ops_in_bounds (nat (SourceLength w)) (length (NewData w)) 0 (Ops w)"
      "ops_length (Ops w) = TargetLength w"
    using ops_length_nonneg [OF that(1)] that(2) by simp
  ultimately show ?thesis using False by blast
qed

lemma Validate_bounds:
  assumes "Validate w = Inr ()" "int (length source) = SourceLength w"
  shows "ops_in_bounds (length source) (length (NewData w)) 0 (Ops w)"
    "ops_length (Ops w) = TargetLength w"
proof -
  have "nat (SourceLength w) = length source" using assms(2) by simp
  with assms(1) show "ops_in_bounds (length source) (length (NewData w)) 0 (Ops w)"
    "ops_length (Ops w) = TargetLength w"
    by (simp_all add: Validate_iff)
qed

section \<open>Applying a window that validates\<close>

lemma apply_op_describes:
  assumes "op_in_bounds (length source) (length new_data) (int (length target)) operation"
  shows "\<exists>ys. apply_op source new_data target operation = Some (target @ ys) \<and>
           length ys = nat (Length operation) \<and>
           (\<forall>zs. op_describes source new_data operation (length target) (target @ ys @ zs))"
proof (cases "Kind operation")
  case OpTarget
  then have off: "0 \<le> Offset operation" "nat (Offset operation) < length target"
    using assms by (auto simp: op_in_bounds_def)
  from copy_forward_total [OF off(2), of "nat (Length operation)"] off(1)
  obtain ys where ys: "copy_forward (nat (Length operation)) (Offset operation) target = Some (target @ ys)"
      "length ys = nat (Length operation)"
      "\<forall>i<nat (Length operation). ys ! i = (target @ ys) ! (nat (Offset operation) + i)"
    by auto
  have "op_describes source new_data operation (length target) (target @ ys @ zs)" for zs
    unfolding op_describes_def
  proof (intro allI impI)
    fix i assume i: "i < nat (Length operation)"
    have "(target @ ys @ zs) ! (nat (Offset operation) + i) = (target @ ys) ! (nat (Offset operation) + i)"
      using i off ys(2) by (simp add: nth_append flip: append_assoc)
    with i ys OpTarget show "(target @ ys @ zs) ! (length target + i) =
        (case Kind operation of
           OpSource \<Rightarrow> source ! (nat (Offset operation) + i)
         | OpTarget \<Rightarrow> (target @ ys @ zs) ! (nat (Offset operation) + i)
         | OpNew \<Rightarrow> new_data ! (nat (Offset operation) + i)
         | OpOther k \<Rightarrow> (target @ ys @ zs) ! (length target + i))"
      by (simp add: nth_append)
  qed
  with ys OpTarget show ?thesis by (auto simp: apply_op_def)
next
  case OpSource
  let ?ys = "take (nat (Length operation)) (drop (nat (Offset operation)) source)"
  from OpSource assms have "apply_op source new_data target operation = Some (target @ ?ys)"
      "length ?ys = nat (Length operation)"
    by (auto simp: apply_op_def go_slice_def op_in_bounds_def)
  with OpSource show ?thesis
    by (intro exI [of _ ?ys]) (simp add: op_describes_def nth_append)
next
  case OpNew
  let ?ys = "take (nat (Length operation)) (drop (nat (Offset operation)) new_data)"
  from OpNew assms have "apply_op source new_data target operation = Some (target @ ?ys)"
      "length ?ys = nat (Length operation)"
    by (auto simp: apply_op_def go_slice_def op_in_bounds_def)
  with OpNew show ?thesis
    by (intro exI [of _ ?ys]) (simp add: op_describes_def nth_append)
next
  case (OpOther k)
  with assms show ?thesis by (simp add: op_in_bounds_def)
qed

lemma apply_ops_describe:
  assumes "ops_in_bounds (length source) (length new_data) (int (length target)) ops"
  shows "\<exists>ys. apply_ops source new_data target ops = Some (target @ ys) \<and>
           ops_describe source new_data ops (length target) (target @ ys)"
  using assms
proof (induction ops arbitrary: target)
  case Nil
  then show ?case by simp
next
  case (Cons operation ops)
  then have "op_in_bounds (length source) (length new_data) (int (length target)) operation"
    by simp
  from apply_op_describes [OF this] obtain ys where ys:
      "apply_op source new_data target operation = Some (target @ ys)"
      "length ys = nat (Length operation)"
      "\<And>zs. op_describes source new_data operation (length target) (target @ ys @ zs)"
    by blast
  have "int (length (target @ ys)) = int (length target) + Length operation"
    using ys(2) Cons.prems by (simp add: op_in_bounds_def)
  with Cons.prems Cons.IH [of "target @ ys"] obtain zs where zs:
      "apply_ops source new_data (target @ ys) ops = Some ((target @ ys) @ zs)"
      "ops_describe source new_data ops (length (target @ ys)) ((target @ ys) @ zs)"
    by auto
  with ys show ?case by (intro exI [of _ "ys @ zs"]) simp
qed

lemma ops_describe_length:
  "ops_in_bounds n m p ops \<Longrightarrow> ops_describe source new_data ops start target \<Longrightarrow>
     int (length target) = int start + ops_length ops"
  by (induction ops arbitrary: p start) (fastforce simp: op_in_bounds_def)+

text \<open>The description fixes the target: two targets that agree up to \<open>start\<close> agree everywhere.\<close>

lemma op_describes_agree:
  assumes "op_in_bounds n m (int start) operation"
    and "op_describes source new_data operation start xs" "op_describes source new_data operation start ys"
    and "\<forall>i < start. xs ! i = ys ! i"
  shows "\<forall>i < start + nat (Length operation). xs ! i = ys ! i"
proof (intro allI impI)
  fix i assume "i < start + nat (Length operation)"
  then show "xs ! i = ys ! i"
  proof (induction i rule: less_induct)
    case (less i)
    show ?case
    proof (cases "i < start")
      case False
      then obtain j where j: "i = start + j" "j < nat (Length operation)"
        using less.prems by (metis add_diff_inverse_nat nat_add_left_cancel_less)
      show ?thesis
      proof (cases "Kind operation")
        case OpTarget
        with assms(1) have "nat (Offset operation) + j < i"
          using j by (auto simp: op_in_bounds_def)
        with less show ?thesis
          using assms(2,3) j OpTarget unfolding op_describes_def by auto
      next
        case (OpOther k)
        with assms(1) show ?thesis by (simp add: op_in_bounds_def)
      qed (use assms(2,3) j in \<open>auto simp: op_describes_def\<close>)
    qed (use assms(4) in simp)
  qed
qed

lemma ops_describe_unique:
  assumes "ops_in_bounds n m (int start) ops"
    and "ops_describe source new_data ops start xs" "ops_describe source new_data ops start ys"
    and "\<forall>i < start. xs ! i = ys ! i"
  shows "xs = ys"
  using assms
proof (induction ops arbitrary: start)
  case Nil
  then show ?case by (simp add: list_eq_iff_nth_eq)
next
  case (Cons operation ops)
  let ?next = "start + nat (Length operation)"
  have "int ?next = int start + Length operation"
    using Cons.prems(1) by (simp add: op_in_bounds_def)
  moreover have "\<forall>i<?next. xs ! i = ys ! i"
    using Cons.prems by (intro op_describes_agree) auto
  ultimately show ?case using Cons.prems by (intro Cons.IH [of ?next]) auto
qed

lemma ApplyWindow_Inr_iff:
  "ApplyWindow source w = Inr target \<longleftrightarrow>
     Validate w = Inr () \<and> int (length source) = SourceLength w \<and>
     ops_describe source (NewData w) (Ops w) 0 target"
proof (cases "Validate w = Inr () \<and> int (length source) = SourceLength w")
  case True
  then have b: "ops_in_bounds (length source) (length (NewData w)) (int 0) (Ops w)"
    using Validate_bounds(1) [of w source] by simp
  from apply_ops_describe [of source "NewData w" "[]" "Ops w"] b obtain t where
      t: "apply_ops source (NewData w) [] (Ops w) = Some t" "ops_describe source (NewData w) (Ops w) 0 t"
    by auto
  have "target = t" if "ops_describe source (NewData w) (Ops w) 0 target"
    using ops_describe_unique [OF b that t(2)] by simp
  with t True show ?thesis by (auto simp: ApplyWindow_def)
next
  case False
  then show ?thesis by (auto simp: ApplyWindow_def split: sum.splits option.splits)
qed

lemma ApplyWindow_no_panic: "ApplyWindow source w \<noteq> Inl Panic"
proof
  assume p: "ApplyWindow source w = Inl Panic"
  then have "Validate w = Inr ()" "int (length source) = SourceLength w"
      "apply_ops source (NewData w) [] (Ops w) = None"
    by (auto simp: ApplyWindow_def split: sum.splits option.splits if_splits)
  with apply_ops_describe [of source "NewData w" "[]" "Ops w"] Validate_bounds(1) show False
    by auto
qed

lemma ApplyWindow_length:
  assumes "ApplyWindow source w = Inr target"
  shows "int (length target) = TargetLength w"
proof -
  from assms have "ops_in_bounds (length source) (length (NewData w)) (int 0) (Ops w)"
      "ops_describe source (NewData w) (Ops w) 0 target" "ops_length (Ops w) = TargetLength w"
    using Validate_bounds [of w source] by (auto simp: ApplyWindow_Inr_iff)
  from ops_describe_length [OF this(1,2)] this(3) show ?thesis by simp
qed

lemma ApplyWindow_accepts:
  assumes "Validate w = Inr ()" "int (length source) = SourceLength w"
  shows "\<exists>target. ApplyWindow source w = Inr target"
  using assms ApplyWindow_no_panic [of source w]
  by (auto simp: ApplyWindow_def split: option.splits)

section \<open>Appending operations and new data\<close>

lemma apply_ops_append:
  "apply_ops source new_data target (xs @ ys) =
     (case apply_ops source new_data target xs of
        None \<Rightarrow> None | Some t \<Rightarrow> apply_ops source new_data t ys)"
  by (induction xs arbitrary: target) (auto split: option.splits)

lemma go_slice_prefix: "hi \<le> int (length xs) \<Longrightarrow> go_slice (xs @ ys) lo hi = go_slice xs lo hi"
  by (auto simp: go_slice_def)

lemma ops_in_bounds_mono: "ops_in_bounds n m p ops \<Longrightarrow> m \<le> m' \<Longrightarrow> ops_in_bounds n m' p ops"
proof (induction ops arbitrary: p)
  case (Cons operation ops)
  then show ?case by (cases "Kind operation") (auto simp: op_in_bounds_def)
qed simp

lemma apply_ops_more_data:
  "ops_in_bounds n (length new_data) p ops \<Longrightarrow>
     apply_ops source (new_data @ extra) target ops = apply_ops source new_data target ops"
proof (induction ops arbitrary: p target)
  case (Cons operation ops)
  then have "apply_op source (new_data @ extra) target operation = apply_op source new_data target operation"
    by (cases "Kind operation") (auto simp: apply_op_def op_in_bounds_def go_slice_prefix)
  with Cons show ?case by (auto split: option.split)
qed simp

section \<open>New data used in order\<close>

text \<open>
  \<open>new_end n ops\<close> is where the new data used by \<open>ops\<close> ends, when every operation takes up where
  the last one stopped, starting at \<open>n\<close>: the order the encoded form of a window can express.
\<close>

fun new_end :: "int \<Rightarrow> op list \<Rightarrow> int option" where
  "new_end n [] = Some n"
| "new_end n (operation # ops) =
     (if Kind operation = OpNew
      then if Offset operation = n then new_end (n + Length operation) ops else None
      else new_end n ops)"

definition sequential :: "window \<Rightarrow> bool" where
  "sequential w \<longleftrightarrow> new_end 0 (Ops w) = Some (int (length (NewData w)))"

lemma new_end_append:
  "new_end n (xs @ ys) = (case new_end n xs of None \<Rightarrow> None | Some m \<Rightarrow> new_end m ys)"
  by (induction xs arbitrary: n) auto

section \<open>Properties\<close>

text \<open>C6: \<open>ApplyWindow\<close> succeeds exactly on a valid window over a source view of the announced
  length, and its result is the one byte sequence the operations describe.\<close>

theorem ApplyWindow_refines:
  "ApplyWindow source w = Inr target \<longleftrightarrow>
     Validate w = Inr () \<and> int (length source) = SourceLength w \<and>
     ops_describe source (NewData w) (Ops w) 0 target"
  by (rule ApplyWindow_Inr_iff)

text \<open>\<open>Validate\<close> accepts a window exactly when its lengths are not negative, every operation
  lies within the source view, the bytes produced so far or the new data, and the operations
  produce the announced target length.\<close>

theorem Validate_accepts:
  "Validate w = Inr () \<longleftrightarrow>
     0 \<le> SourceOffset w \<and> 0 \<le> SourceLength w \<and>
     ops_in_bounds (nat (SourceLength w)) (length (NewData w)) 0 (Ops w) \<and>
     ops_length (Ops w) = TargetLength w"
  by (rule Validate_iff)

text \<open>C11: whatever window it is given, \<open>ApplyWindow\<close> never indexes out of range, and a target it
  returns has the announced length.\<close>

theorem ApplyWindow_safe:
  "ApplyWindow source w \<noteq> Inl Panic \<and>
   (\<forall>target. ApplyWindow source w = Inr target \<longrightarrow> int (length target) = TargetLength w)"
  using ApplyWindow_no_panic ApplyWindow_length by blast

theorem ApplyWindow_safe_witness:
  "int (length [7, 7, 7 :: byte]) = (3 :: int) \<and>
   ApplyWindow [] \<lparr>SourceOffset = 0, SourceLength = 0, TargetLength = 3,
     Ops = [\<lparr>Kind = OpNew, Offset = 0, Length = 1\<rparr>, \<lparr>Kind = OpTarget, Offset = 0, Length = 2\<rparr>],
     NewData = [7]\<rparr> = Inr [7, 7, 7]"
proof -
  let ?w = "\<lparr>SourceOffset = 0, SourceLength = 0, TargetLength = 3,
     Ops = [\<lparr>Kind = OpNew, Offset = 0, Length = 1\<rparr>, \<lparr>Kind = OpTarget, Offset = 0, Length = 2\<rparr>],
     NewData = [7]\<rparr>"
  have w: "ApplyWindow [] ?w = Inr [7, 7, 7]" by code_simp
  then have "int (length [7, 7, 7 :: byte]) = TargetLength ?w"
    using ApplyWindow_safe [of "[]" ?w] by blast
  with w show ?thesis by simp
qed

end
