(* ===== verification/Delta_Xdelta.thy ===== *)
theory Delta_Xdelta
  imports Delta_Window
begin

text \<open>
  The delta generator, \<^verbatim>\<open>delta/xdelta.go\<close>: an index of the 64-byte blocks of the source by
  rolling hash, and the greedy search that turns a target into copies from the source and new
  data. The lemmas show that rolling a hash gives the hash of the shifted block, that the index
  lists exactly the positions of each hash, and that the window built reproduces the target.
\<close>

definition xdeltaBlockSize :: nat where "xdeltaBlockSize = 64"
definition xdeltaMaxCandidates :: nat where "xdeltaMaxCandidates = 64"
definition xdeltaGoodMatch :: nat where "xdeltaGoodMatch = 1024"

lemmas xdelta_constants = xdeltaBlockSize_def xdeltaMaxCandidates_def xdeltaGoodMatch_def

section \<open>Rolling hash\<close>

text \<open>\<open>len(block) - index\<close> is the number of bytes from \<open>index\<close> on.\<close>

fun rolling_sums :: "bytes \<Rightarrow> u32 \<Rightarrow> u32 \<Rightarrow> u32 \<times> u32" where
  "rolling_sums [] low high = (low, high)"
| "rolling_sums (v # block) low high =
     rolling_sums block (low + ucast v) (high + of_nat (Suc (length block)) * ucast v)"

definition rollingHash :: "bytes \<Rightarrow> u32" where
  "rollingHash block = (case rolling_sums block 0 0 of (low, high) \<Rightarrow> low OR push_bit 16 high)"

definition rollHash :: "u32 \<Rightarrow> byte \<Rightarrow> byte \<Rightarrow> u32" where
  "rollHash hash outgoing incoming =
     (let low = ucast (ucast hash :: u16) - ucast outgoing + ucast incoming :: u32;
          high = ucast (ucast (drop_bit 16 hash) :: u16)
                   - of_nat xdeltaBlockSize * ucast outgoing + low
      in ucast (ucast low :: u16) OR push_bit 16 (ucast (ucast high :: u16)))"

section \<open>Source index\<close>

type_synonym source_index = "u32 \<Rightarrow> nat list"

definition block_at :: "bytes \<Rightarrow> nat \<Rightarrow> bytes" where
  "block_at data position = take xdeltaBlockSize (drop position data)"

function index_loop :: "bytes \<Rightarrow> nat \<Rightarrow> u32 \<Rightarrow> source_index \<Rightarrow> source_index" where
  "index_loop source position hash index =
     (if position + xdeltaBlockSize \<le> length source then
        let hash' = rollHash hash (source ! (position - 1))
                      (source ! (position + xdeltaBlockSize - 1))
        in index_loop source (Suc position) hash' (index(hash' := index hash' @ [position]))
      else index)"
  by pat_completeness auto
termination
  by (relation "measure (\<lambda>(source, position, hash, index). Suc (length source) - position)")
    (auto simp: xdeltaBlockSize_def)

declare index_loop.simps [simp del]

definition buildSourceIndex :: "bytes \<Rightarrow> source_index" where
  "buildSourceIndex source =
     (if length source < xdeltaBlockSize then (\<lambda>_. [])
      else let hash = rollingHash (take xdeltaBlockSize source)
        in index_loop source 1 hash ((\<lambda>_. [])(hash := [0])))"

section \<open>Building a window\<close>

function extend_copy :: "bytes \<Rightarrow> bytes \<Rightarrow> nat \<Rightarrow> nat \<Rightarrow> nat \<Rightarrow> nat" where
  "extend_copy source target candidate position len =
     (if candidate + len < length source \<and> position + len < length target \<and>
         source ! (candidate + len) = target ! (position + len)
      then extend_copy source target candidate position (Suc len)
      else len)"
  by pat_completeness auto
termination
  by (relation "measure (\<lambda>(source, target, candidate, position, len). length target - (position + len))")
    auto

declare extend_copy.simps [simp del]

text \<open>
  The loop over the candidates; \<open>matchOffset\<close> and \<open>matchLength\<close> are the best match so far, and
  a match of \<open>xdeltaGoodMatch\<close> bytes ends the loop.
\<close>

fun best_match :: "bytes \<Rightarrow> bytes \<Rightarrow> nat \<Rightarrow> nat list \<Rightarrow> int \<Rightarrow> nat \<Rightarrow> int \<times> nat" where
  "best_match source target position [] matchOffset matchLength = (matchOffset, matchLength)"
| "best_match source target position (candidate # candidates) matchOffset matchLength =
     (if block_at source candidate \<noteq> block_at target position
      then best_match source target position candidates matchOffset matchLength
      else
        let len = extend_copy source target candidate position xdeltaBlockSize in
        if len > matchLength then
          if len \<ge> xdeltaGoodMatch then (int candidate, len)
          else best_match source target position candidates (int candidate) len
        else best_match source target position candidates matchOffset matchLength)"

definition match_at :: "bytes \<Rightarrow> bytes \<Rightarrow> source_index \<Rightarrow> nat \<Rightarrow> int \<times> nat" where
  "match_at source target index position =
     (if position + xdeltaBlockSize \<le> length target
      then best_match source target position
             (take xdeltaMaxCandidates (index (rollingHash (block_at target position)))) (- 1) 0
      else (- 1, 0))"

definition appendLiteral :: "window \<Rightarrow> bytes \<Rightarrow> window" where
  "appendLiteral w literal =
     (if literal = [] then w
      else w\<lparr>NewData := NewData w @ literal,
             Ops := Ops w @ [\<lparr>Kind = OpNew, Offset = int (length (NewData w)),
                              Length = int (length literal)\<rparr>]\<rparr>)"

function build_loop ::
    "bytes \<Rightarrow> bytes \<Rightarrow> source_index \<Rightarrow> nat \<Rightarrow> nat \<Rightarrow> window \<Rightarrow> window" where
  "build_loop source target index literalStart position w =
     (if position < length target then
        case match_at source target index position of
          (matchOffset, matchLength) \<Rightarrow>
            if matchLength = 0 then build_loop source target index literalStart (Suc position) w
            else
              let w1 = appendLiteral w (take (position - literalStart) (drop literalStart target));
                  w2 = w1\<lparr>Ops := Ops w1 @ [\<lparr>Kind = OpSource, Offset = matchOffset,
                                            Length = int matchLength\<rparr>]\<rparr>
              in build_loop source target index (position + matchLength) (position + matchLength) w2
      else appendLiteral w (drop literalStart target))"
  by pat_completeness auto
termination
  by (relation "measure (\<lambda>(source, target, index, literalStart, position, w). length target - position)")
    auto

declare build_loop.simps [simp del]

definition buildWindow :: "bytes \<Rightarrow> bytes \<Rightarrow> int \<Rightarrow> window" where
  "buildWindow source target sourceOffset =
     build_loop source target (buildSourceIndex source) 0 0
       \<lparr>SourceOffset = sourceOffset, SourceLength = int (length source),
        TargetLength = int (length target), Ops = [], NewData = []\<rparr>"

section \<open>Rolling\<close>

text \<open>The two sums over the integers, and a hash as a pair of 16-bit halves.\<close>

definition pack :: "u32 \<Rightarrow> u32 \<Rightarrow> u32" where
  "pack low high = ucast (ucast low :: u16) OR push_bit 16 (ucast (ucast high :: u16))"

lemma pack_halves:
  "ucast (pack low high) = (ucast low :: u16)" "ucast (drop_bit 16 (pack low high)) = (ucast high :: u16)"
  unfolding pack_def by (rule bit_word_eqI, auto simp: bit_simps dest: bit_imp_le_length)+

lemma pack_cong: "ucast a = (ucast a' :: u16) \<Longrightarrow> ucast b = (ucast b' :: u16) \<Longrightarrow> pack a b = pack a' b'"
  by (simp add: pack_def)

lemma ucast_16_hom:
  fixes a b :: u32
  shows "ucast (a + b) = (ucast a + ucast b :: u16)"
    and "ucast (a - b) = (ucast a - ucast b :: u16)"
    and "ucast (a * b) = (ucast a * ucast b :: u16)"
  by (rule word_uint_eqI, simp add: unsigned_ucast_eq uint_word_ariths take_bit_eq_mod
      mod_mod_cancel mod_add_eq mod_diff_eq mod_mult_eq)+

lemma ucast_16_back: "ucast (ucast (a :: u16) :: u32) = a"
  by (rule bit_word_eqI) (auto simp: bit_simps)

fun byte_sum :: "bytes \<Rightarrow> u32" where
  "byte_sum [] = 0"
| "byte_sum (v # block) = ucast v + byte_sum block"

fun weighted_sum :: "bytes \<Rightarrow> u32" where
  "weighted_sum [] = 0"
| "weighted_sum (v # block) = of_nat (Suc (length block)) * ucast v + weighted_sum block"

lemma rolling_sums_eq: "rolling_sums block low high = (low + byte_sum block, high + weighted_sum block)"
  by (induction block low high rule: rolling_sums.induct) (simp_all add: algebra_simps)

lemma byte_sum_snoc: "byte_sum (block @ [v]) = byte_sum block + ucast v"
  by (induction block) (simp_all add: algebra_simps)

lemma weighted_sum_snoc:
  "weighted_sum (block @ [v]) = weighted_sum block + byte_sum block + ucast v"
  by (induction block) (simp_all add: algebra_simps)

lemma byte_sum_bound: "uint (byte_sum block) \<le> 255 * int (length block)"
proof (induction block)
  case (Cons v block)
  have "uint (ucast v :: u32) = uint v" by (rule uint_up_ucast) (simp add: is_up)
  then have "uint (ucast v :: u32) \<le> 255" using uint_lt2p [of v] by simp
  with Cons uint_add_le [of "ucast v" "byte_sum block"] show ?case by simp
qed simp

lemma rollingHash_pack:
  assumes "length block \<le> 257"
  shows "rollingHash block = pack (byte_sum block) (weighted_sum block)"
proof -
  have "uint (byte_sum block) < 2 ^ 16" using byte_sum_bound [of block] assms by simp
  then have "take_bit 16 (byte_sum block) = byte_sum block"
    by (intro word_uint_eqI) (simp add: unsigned_take_bit_eq take_bit_int_eq_self)
  moreover have "ucast (ucast w :: u16) = take_bit 16 (w :: u32)" for w
    by (rule bit_word_eqI) (auto simp: bit_simps)
  moreover have "push_bit 16 (ucast (ucast w :: u16)) = push_bit 16 (w :: u32)" for w
    by (rule bit_word_eqI) (auto simp: bit_simps)
  ultimately show ?thesis by (simp add: rollingHash_def rolling_sums_eq pack_def)
qed

lemma rollHash_shift:
  assumes "length block = xdeltaBlockSize - 1"
  shows "rollHash (rollingHash (outgoing # block)) outgoing incoming = rollingHash (block @ [incoming])"
proof -
  have len: "length (outgoing # block) \<le> 257" "length (block @ [incoming]) \<le> 257"
    using assms by (simp_all add: xdeltaBlockSize_def)
  show ?thesis
    unfolding rollingHash_pack [OF len(1)] rollingHash_pack [OF len(2)] rollHash_def Let_def
      pack_halves pack_def [symmetric]
    using assms
    by (intro pack_cong)
      (simp_all add: ucast_16_hom ucast_16_back byte_sum_snoc weighted_sum_snoc xdeltaBlockSize_def)
qed

section \<open>The index lists every position of a hash\<close>

lemma block_at_Suc:
  assumes "Suc p + xdeltaBlockSize \<le> length source"
  shows "block_at source (Suc p) =
    take (xdeltaBlockSize - 1) (drop (Suc p) source) @ [source ! (p + xdeltaBlockSize)]"
    and "block_at source p = source ! p # take (xdeltaBlockSize - 1) (drop (Suc p) source)"
  using assms
  by (simp_all add: block_at_def xdeltaBlockSize_def drop_eq_Cons_nth [of p] take_Suc_conv_app_nth
      flip: take_Suc_conv_app_nth)
    (simp add: take_Suc_conv_app_nth numeral_eq_Suc)

definition positions_of :: "bytes \<Rightarrow> nat \<Rightarrow> source_index" where
  "positions_of source n = (\<lambda>h. filter (\<lambda>p. rollingHash (block_at source p) = h) [0..<n])"

lemma positions_of_Suc:
  "positions_of source (Suc n) =
     (positions_of source n)
       (rollingHash (block_at source n) := positions_of source n (rollingHash (block_at source n)) @ [n])"
  by (auto simp: positions_of_def)

lemma index_loop_positions:
  assumes "1 \<le> position" "position + xdeltaBlockSize \<le> Suc (length source)"
    and "hash = rollingHash (block_at source (position - 1))"
    and "index = positions_of source position"
  shows "index_loop source position hash index =
    positions_of source (Suc (length source) - xdeltaBlockSize)"
  using assms
proof (induction source position hash index rule: index_loop.induct)
  case (1 source position hash index)
  show ?case
  proof (cases "position + xdeltaBlockSize \<le> length source")
    case True
    let ?hash = "rollHash hash (source ! (position - 1)) (source ! (position + xdeltaBlockSize - 1))"
    obtain p where p: "position = Suc p" using "1.prems"(1) by (cases position) auto
    have "?hash = rollingHash (block_at source position)"
      using True block_at_Suc [of p source] "1.prems"(3) p
        rollHash_shift [of "take (xdeltaBlockSize - 1) (drop (Suc p) source)"]
      by (simp add: xdeltaBlockSize_def add.commute)
    moreover from this have "index(?hash := index ?hash @ [position]) = positions_of source (Suc position)"
      using "1.prems"(4) by (simp add: positions_of_Suc)
    ultimately have "index_loop source (Suc position) ?hash (index(?hash := index ?hash @ [position])) =
        positions_of source (Suc (length source) - xdeltaBlockSize)"
      using True "1.prems"(1) by (intro "1.IH") auto
    moreover have "index_loop source position hash index =
        index_loop source (Suc position) ?hash (index(?hash := index ?hash @ [position]))"
      using True by (subst index_loop.simps) (simp only: Let_def if_True)
    ultimately show ?thesis by simp
  next
    case False
    with "1.prems" have p: "position = Suc (length source) - xdeltaBlockSize" by simp
    have "index_loop source position hash index = index"
      using False by (subst index_loop.simps) simp
    then show ?thesis unfolding "1.prems"(4) p .
  qed
qed

lemma buildSourceIndex_positions:
  "buildSourceIndex source = positions_of source (Suc (length source) - xdeltaBlockSize)"
proof (cases "length source < xdeltaBlockSize")
  case True
  then show ?thesis by (simp add: buildSourceIndex_def positions_of_def)
next
  case False
  have "(\<lambda>_. [])(rollingHash (take xdeltaBlockSize source) := [0]) = positions_of source 1"
    by (auto simp: positions_of_def block_at_def)
  with False index_loop_positions [of 1 source "rollingHash (take xdeltaBlockSize source)"] show ?thesis
    by (simp add: buildSourceIndex_def Let_def block_at_def)
qed

lemma source_index_bounds:
  "p \<in> set (buildSourceIndex source h) \<Longrightarrow> p + xdeltaBlockSize \<le> length source"
  by (auto simp: buildSourceIndex_positions positions_of_def)

section \<open>The window reproduces the target\<close>

lemma extend_copy_spec:
  assumes "\<forall>i<len. source ! (candidate + i) = target ! (position + i)"
    and "candidate + len \<le> length source" "position + len \<le> length target"
  shows "\<forall>i<extend_copy source target candidate position len.
      source ! (candidate + i) = target ! (position + i)"
    and "candidate + extend_copy source target candidate position len \<le> length source"
    and "position + extend_copy source target candidate position len \<le> length target"
    and "len \<le> extend_copy source target candidate position len"
  using assms
proof (induction source target candidate position len rule: extend_copy.induct)
  case (1 source target candidate position len)
  note unfold = extend_copy.simps [of source target candidate position len]
  {
    case 1 with "1.IH"(1) show ?case by (simp add: unfold less_Suc_eq)
  next
    case 2 with "1.IH"(2) show ?case by (simp add: unfold less_Suc_eq)
  next
    case 3 with "1.IH"(3) show ?case by (simp add: unfold less_Suc_eq)
  next
    case 4 with "1.IH"(4) show ?case by (auto simp: unfold less_Suc_eq)
  }
qed

text \<open>A match is a run of equal bytes inside both texts.\<close>

definition is_match :: "bytes \<Rightarrow> bytes \<Rightarrow> nat \<Rightarrow> int \<Rightarrow> nat \<Rightarrow> bool" where
  "is_match source target position offset len \<longleftrightarrow>
     len = 0 \<or>
     0 \<le> offset \<and> nat offset + len \<le> length source \<and> position + len \<le> length target \<and>
     take len (drop (nat offset) source) = take len (drop position target)"

lemma candidate_is_match:
  assumes "block_at source candidate = block_at target position"
    and "candidate + xdeltaBlockSize \<le> length source" "position + xdeltaBlockSize \<le> length target"
  shows "is_match source target position (int candidate)
    (extend_copy source target candidate position xdeltaBlockSize)"
proof -
  have "source ! (candidate + i) = target ! (position + i)" if "i < xdeltaBlockSize" for i
  proof -
    have "source ! (candidate + i) = block_at source candidate ! i"
      using that assms(2) by (simp add: block_at_def)
    also have "\<dots> = target ! (position + i)"
      unfolding assms(1) using that assms(3) by (simp add: block_at_def)
    finally show ?thesis .
  qed
  then have same: "\<forall>i<xdeltaBlockSize. source ! (candidate + i) = target ! (position + i)" by simp
  note spec = extend_copy_spec [OF same assms(2,3)]
  have "take (extend_copy source target candidate position xdeltaBlockSize) (drop candidate source) =
      take (extend_copy source target candidate position xdeltaBlockSize) (drop position target)"
    using spec(1-3) by (intro nth_equalityI) auto
  with spec(2,3) show ?thesis by (simp add: is_match_def)
qed

lemma best_match_is_match:
  assumes "\<forall>c\<in>set candidates. c + xdeltaBlockSize \<le> length source"
    and "position + xdeltaBlockSize \<le> length target"
    and "is_match source target position offset len"
    and "best_match source target position candidates offset len = (offset', len')"
  shows "is_match source target position offset' len'"
  using assms
proof (induction source target position candidates offset len rule: best_match.induct)
  case (2 source target position candidate candidates offset len)
  let ?len = "extend_copy source target candidate position xdeltaBlockSize"
  have m: "is_match source target position (int candidate) ?len"
    if "block_at source candidate = block_at target position"
    using that 2 by (intro candidate_is_match) auto
  consider (skip) "block_at source candidate \<noteq> block_at target position"
    | (good) "block_at source candidate = block_at target position" "?len > len"
        "?len \<ge> xdeltaGoodMatch"
    | (better) "block_at source candidate = block_at target position" "?len > len"
        "\<not> ?len \<ge> xdeltaGoodMatch"
    | (worse) "block_at source candidate = block_at target position" "\<not> ?len > len"
    by blast
  then show ?case
  proof cases
    case good
    with 2(7) m show ?thesis by (auto simp: Let_def)
  qed (use 2 m in \<open>simp_all add: Let_def\<close>)
qed simp

lemma match_at_is_match:
  assumes "match_at source target (buildSourceIndex source) position = (offset, len)"
  shows "is_match source target position offset len"
proof (cases "position + xdeltaBlockSize \<le> length target")
  case True
  let ?cs = "take xdeltaMaxCandidates (buildSourceIndex source (rollingHash (block_at target position)))"
  have cs: "\<forall>c \<in> set ?cs. c + xdeltaBlockSize \<le> length source"
    by (meson in_set_takeD source_index_bounds)
  have start: "is_match source target position (- 1) 0" by (simp add: is_match_def)
  have "best_match source target position ?cs (- 1) 0 = (offset, len)"
    using assms True by (simp add: match_at_def)
  then show ?thesis by (rule best_match_is_match [OF cs True start])
next
  case False
  with assms show ?thesis by (simp add: match_at_def is_match_def)
qed

text \<open>The loop invariant: \<open>w\<close> is a window that produces the first \<open>n\<close> bytes of the target.\<close>

definition builds :: "bytes \<Rightarrow> bytes \<Rightarrow> int \<Rightarrow> nat \<Rightarrow> window \<Rightarrow> bool" where
  "builds source target sourceOffset n w \<longleftrightarrow>
     SourceOffset w = sourceOffset \<and> SourceLength w = int (length source) \<and>
     TargetLength w = int (length target) \<and>
     ops_in_bounds (length source) (length (NewData w)) 0 (Ops w) \<and>
     ops_length (Ops w) = int n \<and>
     apply_ops source (NewData w) [] (Ops w) = Some (take n target) \<and>
     sequential w"

lemma builds_literal:
  assumes "builds source target sourceOffset n w" "n \<le> p" "p \<le> length target"
  shows "builds source target sourceOffset p
    (appendLiteral w (take (p - n) (drop n target)))"
proof (cases "n = p")
  case True
  with assms show ?thesis by (simp add: appendLiteral_def)
next
  case False
  define lit where "lit = take (p - n) (drop n target)"
  from False assms have lit: "p = n + length lit" "lit \<noteq> []"
    by (auto simp: lit_def simp flip: length_0_conv)
  have target: "take n target @ lit = take p target"
    unfolding lit_def using assms(2) by (metis le_add_diff_inverse take_add)
  have "apply_ops source (NewData w @ lit) [] (Ops w) = Some (take n target)"
    using assms(1) apply_ops_more_data [of "length source" "NewData w" 0 "Ops w"]
    by (simp add: builds_def)
  moreover have "ops_in_bounds (length source) (length (NewData w @ lit)) 0 (Ops w)"
    using assms(1) by (auto simp: builds_def intro: ops_in_bounds_mono)
  moreover have "go_slice (xs @ ys) (int (length xs)) (int (length xs) + int (length ys)) = Some ys"
    for xs ys :: bytes by (simp add: go_slice_def)
  ultimately show ?thesis
    using assms(1) lit target unfolding lit_def [symmetric]
    by (simp add: builds_def appendLiteral_def apply_ops_append apply_op_def ops_in_bounds_append
        op_in_bounds_def sequential_def new_end_append)
qed

lemma builds_copy:
  assumes "builds source target sourceOffset n w" "is_match source target n offset len" "0 < len"
  shows "builds source target sourceOffset (n + len)
    (w\<lparr>Ops := Ops w @ [\<lparr>Kind = OpSource, Offset = offset, Length = int len\<rparr>]\<rparr>)"
proof -
  from assms(2,3) have m: "0 \<le> offset" "nat offset + len \<le> length source" "n + len \<le> length target"
      "take len (drop (nat offset) source) = take len (drop n target)"
    by (auto simp: is_match_def)
  then have "go_slice source offset (offset + int len) = Some (take len (drop n target))"
    by (auto simp: go_slice_def)
  moreover have "take n target @ take len (drop n target) = take (n + len) target"
    by (simp add: take_add)
  ultimately show ?thesis
    using assms m
    by (auto simp: builds_def apply_ops_append apply_op_def ops_in_bounds_append
        op_in_bounds_def sequential_def new_end_append)
qed

lemma build_loop_builds:
  assumes "builds source target sourceOffset literalStart w"
    and "literalStart \<le> position" "position \<le> length target"
    and "index = buildSourceIndex source"
  shows "builds source target sourceOffset (length target)
    (build_loop source target index literalStart position w)"
  using assms
proof (induction source target index literalStart position w rule: build_loop.induct)
  case (1 source target index literalStart position w)
  show ?case
  proof (cases "position < length target")
    case False
    then have "build_loop source target index literalStart position w =
        appendLiteral w (drop literalStart target)"
      by (subst build_loop.simps) simp
    with "1.prems" builds_literal [of source target sourceOffset literalStart w "length target"]
    show ?thesis by simp
  next
    case True
    obtain offset len where m: "match_at source target index position = (offset, len)" by fastforce
    have match: "is_match source target position offset len"
      using m "1.prems"(4) by (simp add: match_at_is_match)
    show ?thesis
    proof (cases "len = 0")
      case zero: True
      have "build_loop source target index literalStart position w =
          build_loop source target index literalStart (Suc position) w"
        using True m zero by (subst build_loop.simps) simp
      with True "1.IH"(1) [OF True m [symmetric] zero] "1.prems" show ?thesis by simp
    next
      case False
      let ?w1 = "appendLiteral w (take (position - literalStart) (drop literalStart target))"
      let ?w2 = "?w1\<lparr>Ops := Ops ?w1 @ [\<lparr>Kind = OpSource, Offset = offset, Length = int len\<rparr>]\<rparr>"
      have "builds source target sourceOffset (position + len) ?w2"
        using "1.prems" match False by (intro builds_copy builds_literal) auto
      moreover have "position + len \<le> length target"
        using match False by (simp add: is_match_def)
      ultimately have "builds source target sourceOffset (length target)
          (build_loop source target index (position + len) (position + len) ?w2)"
        using "1.IH"(2) [OF True m [symmetric] False refl refl] "1.prems"(4) by simp
      moreover have "build_loop source target index literalStart position w =
          build_loop source target index (position + len) (position + len) ?w2"
        using True m False by (subst build_loop.simps) (simp add: Let_def)
      ultimately show ?thesis by simp
    qed
  qed
qed

lemma buildWindow_builds:
  "builds source target sourceOffset (length target) (buildWindow source target sourceOffset)"
  unfolding buildWindow_def
  by (rule build_loop_builds) (simp_all add: builds_def sequential_def)

lemma buildWindow_fields:
  "SourceOffset (buildWindow source target sourceOffset) = sourceOffset"
  "SourceLength (buildWindow source target sourceOffset) = int (length source)"
  "TargetLength (buildWindow source target sourceOffset) = int (length target)"
  "sequential (buildWindow source target sourceOffset)"
  using buildWindow_builds [of source target sourceOffset] by (simp_all add: builds_def)

lemma buildWindow_Validate:
  "0 \<le> sourceOffset \<Longrightarrow> Validate (buildWindow source target sourceOffset) = Inr ()"
  using buildWindow_builds [of source target sourceOffset] by (simp add: builds_def Validate_iff)

lemma buildWindow_apply:
  assumes "0 \<le> sourceOffset"
  shows "ApplyWindow source (buildWindow source target sourceOffset) = Inr target"
  using buildWindow_builds [of source target sourceOffset] buildWindow_Validate [OF assms, of source target]
  by (simp add: builds_def ApplyWindow_def)

section \<open>Properties\<close>

text \<open>C8: the window the delta builder computes for any source and target is valid, uses its new
  data in order, and applying it to the source gives the target.\<close>

theorem buildWindow_correct:
  assumes "0 \<le> sourceOffset"
  shows "Validate (buildWindow source target sourceOffset) = Inr () \<and>
     sequential (buildWindow source target sourceOffset) \<and>
     ApplyWindow source (buildWindow source target sourceOffset) = Inr target"
  using buildWindow_Validate [OF assms] buildWindow_fields(4) buildWindow_apply [OF assms] by simp

theorem buildWindow_correct_witness:
  "Validate (buildWindow (replicate 70 1) (replicate 90 1) 5) = Inr () \<and>
   sequential (buildWindow (replicate 70 1) (replicate 90 1) 5) \<and>
   ApplyWindow (replicate 70 1) (buildWindow (replicate 70 1) (replicate 90 1) 5) = Inr (replicate 90 1)"
  by (rule buildWindow_correct) simp

text \<open>updating the rolling hash by one byte gives the hash computed afresh for the block moved
  by one byte, with every sum kept at 32 bits.\<close>

theorem rollHash_correct:
  assumes "length block = xdeltaBlockSize - 1"
  shows "rollHash (rollingHash (outgoing # block)) outgoing incoming = rollingHash (block @ [incoming])"
  by (rule rollHash_shift [OF assms])

theorem rollHash_correct_witness:
  "rollHash (rollingHash (250 # replicate 63 255)) 250 9 = rollingHash (replicate 63 255 @ [9])"
  by (rule rollHash_correct) (simp add: xdelta_constants)

end
