(* ===== verification/Lz4_Block.thy ===== *)
theory Lz4_Block
  imports Go_Prelude
begin

text \<open>
  LZ4 blocks, \<^verbatim>\<open>internal/lz4/lz4.go\<close>. A slice with a read position is modelled by the bytes
  that are left; the encoder's hash table by a function from the 16-bit hash to the last position
  (\<open>-1\<close> at first). \<open>None\<close> of the encoder and \<open>Lz4Panic\<close> of the decoder are index panics, which
  the lemmas exclude. The main lemma is the round trip of \<open>EncodeBlock\<close> and \<open>DecodeBlock\<close>.
\<close>

datatype lz4_error =
    NegativeOutputSize
  | LiteralExceedsBounds
  | TruncatedOffset
  | InvalidMatchOffset nat
  | MatchExceedsBounds
  | TruncatedLength
  | LengthOverflow
  | DecodedSizeMismatch
  | Lz4Panic

section \<open>Decoder\<close>

definition max_int :: int where
  "max_int = 2 ^ 63 - 1"

fun readLength_loop :: "bytes \<Rightarrow> int \<Rightarrow> lz4_error + int \<times> bytes" where
  "readLength_loop [] len = Inl TruncatedLength"
| "readLength_loop (b # rest) len =
     (if len > max_int - uint b then Inl LengthOverflow
      else if b \<noteq> 255 then Inr (len + uint b, rest)
      else readLength_loop rest (len + uint b))"

definition readLength :: "bytes \<Rightarrow> int \<Rightarrow> lz4_error + int \<times> bytes" where
  "readLength rest len = (if len \<noteq> 15 then Inr (len, rest) else readLength_loop rest len)"

lemma readLength_loop_shrinks: "readLength_loop bs len = Inr (n, rest) \<Longrightarrow> length rest < length bs"
  by (induction bs len rule: readLength_loop.induct) (auto split: if_splits)

lemma readLength_shrinks: "readLength bs len = Inr (n, rest) \<Longrightarrow> length rest \<le> length bs"
  by (auto simp: readLength_def split: if_splits dest: readLength_loop_shrinks)

definition le16 :: "byte \<Rightarrow> byte \<Rightarrow> nat" where
  "le16 lo hi = unat lo + 256 * unat hi"

text \<open>A sum of lengths, in the 64 bits of an \<open>int\<close>.\<close>

definition wrap_int :: "int \<Rightarrow> int" where
  "wrap_int n = (if n > max_int then n - 2 ^ 64 else n)"

text \<open>The match half of one turn of the decoder's loop: offset, length and copy.\<close>

definition decode_match ::
    "int \<Rightarrow> byte \<Rightarrow> nat \<Rightarrow> bytes \<Rightarrow> bytes \<Rightarrow> lz4_error + bytes \<times> bytes" where
  "decode_match osize token offset source output =
     (if offset = 0 \<or> offset > length output then Inl (InvalidMatchOffset offset)
      else case readLength source (uint (token AND 0x0f)) of
          Inl e \<Rightarrow> Inl e
        | Inr (len, rest) \<Rightarrow>
            let matchLength = wrap_int (len + 4) in
            if matchLength > osize - int (length output) then Inl MatchExceedsBounds
            else case copy_forward (nat matchLength) (int (length output) - int offset) output of
                None \<Rightarrow> Inl Lz4Panic
              | Some output' \<Rightarrow> Inr (output', rest))"

text \<open>
  One turn of the decoder's loop: \<open>Inr (output, None)\<close> is the \<open>break\<close> after the last literals,
  \<open>Inr (output, Some rest)\<close> goes on with the bytes that are left.
\<close>

definition decode_sequence ::
    "int \<Rightarrow> byte \<Rightarrow> bytes \<Rightarrow> bytes \<Rightarrow> lz4_error + bytes \<times> bytes option" where
  "decode_sequence osize token source output =
     (case readLength source (uint (drop_bit 4 token)) of
        Inl e \<Rightarrow> Inl e
      | Inr (literalLength, source1) \<Rightarrow>
          if literalLength > osize - int (length output) \<or> literalLength > int (length source1)
          then Inl LiteralExceedsBounds
          else
            case go_slice source1 0 literalLength of
              None \<Rightarrow> Inl Lz4Panic
            | Some literals \<Rightarrow>
                let output1 = output @ literals; source2 = drop (nat literalLength) source1 in
                if source2 = [] then Inr (output1, None)
                else if length source2 < 2 then Inl TruncatedOffset
                else
                  case source2 of
                    lo # hi # source3 \<Rightarrow>
                      (case decode_match osize token (le16 lo hi) source3 output1 of
                         Inl e \<Rightarrow> Inl e
                       | Inr (output2, rest) \<Rightarrow> Inr (output2, Some rest))
                  | _ \<Rightarrow> Inl Lz4Panic)"

lemma decode_match_shrinks:
  "decode_match osize token offset source output = Inr (output', rest) \<Longrightarrow>
     length rest \<le> length source"
  by (auto simp: decode_match_def Let_def split: sum.splits if_splits option.splits
      dest!: readLength_shrinks)

lemma decode_sequence_shrinks:
  "decode_sequence osize token source output = Inr (output', Some rest) \<Longrightarrow>
     length rest \<le> length source"
  by (auto simp: decode_sequence_def Let_def split: sum.splits if_splits list.splits option.splits
      dest!: readLength_shrinks decode_match_shrinks)
    (metis Suc_leD diff_le_self length_Cons length_drop order_trans)

function decode_loop :: "int \<Rightarrow> bytes \<Rightarrow> bytes \<Rightarrow> lz4_error + bytes" where
  "decode_loop osize [] output = Inr output"
| "decode_loop osize (token # source) output =
     (case decode_sequence osize token source output of
        Inl e \<Rightarrow> Inl e
      | Inr (output', None) \<Rightarrow> Inr output'
      | Inr (output', Some rest) \<Rightarrow> decode_loop osize rest output')"
  by pat_completeness auto
termination
  by (relation "measure (\<lambda>(osize, source, output). length source)")
    (auto dest: decode_sequence_shrinks simp: less_Suc_eq_le)

definition DecodeBlock :: "bytes \<Rightarrow> int \<Rightarrow> lz4_error + bytes" where
  "DecodeBlock source osize =
     (if osize < 0 then Inl NegativeOutputSize
      else case decode_loop osize source [] of
          Inl e \<Rightarrow> Inl e
        | Inr output \<Rightarrow>
            if int (length output) \<noteq> osize then Inl DecodedSizeMismatch else Inr output)"

section \<open>Encoder\<close>

function appendExtendedLength :: "bytes \<Rightarrow> int \<Rightarrow> bytes" where
  "appendExtendedLength output extra =
     (if extra < 0 then output
      else if extra \<ge> 255 then appendExtendedLength (output @ [255]) (extra - 255)
      else output @ [word_of_int extra])"
  by pat_completeness auto
termination
  by (relation "measure (\<lambda>(output, extra). nat extra)") auto

declare appendExtendedLength.simps [simp del]

definition appendSequence :: "bytes \<Rightarrow> bytes \<Rightarrow> nat \<Rightarrow> nat \<Rightarrow> bytes" where
  "appendSequence output literals offset matchLength =
     (let literalNibble = min 15 (length literals);
          matchNibble = min 15 (matchLength - 4);
          token = push_bit 4 (of_nat literalNibble) OR of_nat matchNibble;
          output1 = appendExtendedLength (output @ [token]) (int (length literals) - 15);
          output2 = output1 @ literals @ [of_nat offset, of_nat (offset div 256)]
      in appendExtendedLength output2 (int matchLength - 4 - 15))"

definition appendLastLiterals :: "bytes \<Rightarrow> bytes \<Rightarrow> bytes" where
  "appendLastLiterals output literals =
     (let token = min 15 (length literals) in
      appendExtendedLength (output @ [push_bit 4 (of_nat token)]) (int (length literals) - 15)
        @ literals)"

text \<open>\<open>binary.LittleEndian.Uint32\<close>, which panics on fewer than four bytes.\<close>

fun le32 :: "bytes \<Rightarrow> u32 option" where
  "le32 (a # b # c # d # rest) =
     Some (ucast a OR push_bit 8 (ucast b) OR push_bit 16 (ucast c) OR push_bit 24 (ucast d))"
| "le32 bs = None"

definition lz4_hash :: "u32 \<Rightarrow> u32" where
  "lz4_hash sequence = drop_bit 16 (sequence * 2654435761)"

definition equal4 :: "bytes \<Rightarrow> bytes \<Rightarrow> bool option" where
  "equal4 first second =
     (case (le32 first, le32 second) of (Some a, Some b) \<Rightarrow> Some (a = b) | _ \<Rightarrow> None)"

function extend_match :: "bytes \<Rightarrow> nat \<Rightarrow> nat \<Rightarrow> nat \<Rightarrow> nat" where
  "extend_match source candidate position matchLength =
     (if position + matchLength + 5 < length source \<and>
         source ! (candidate + matchLength) = source ! (position + matchLength)
      then extend_match source candidate position (Suc matchLength)
      else matchLength)"
  by pat_completeness auto
termination
  by (relation "measure (\<lambda>(source, candidate, position, m). length source - (position + m))") auto

declare extend_match.simps [simp del]

text \<open>
  What one turn of the encoder's loop decides at \<open>position\<close>: the table after the lookup, and the
  candidate and length of the match if there is one.
\<close>

definition find_match ::
    "bytes \<Rightarrow> (u32 \<Rightarrow> int) \<Rightarrow> nat \<Rightarrow> ((u32 \<Rightarrow> int) \<times> (nat \<times> nat) option) option" where
  "find_match source table position =
     (case le32 (drop position source) of
        None \<Rightarrow> None
      | Some sequence \<Rightarrow>
          let hash = lz4_hash sequence; candidate = table hash;
              table' = table(hash := int position) in
          if candidate < 0 \<or> int position - candidate > 65535 then Some (table', None)
          else case equal4 (drop (nat candidate) source) (drop position source) of
              None \<Rightarrow> None
            | Some False \<Rightarrow> Some (table', None)
            | Some True \<Rightarrow>
                Some (table', Some (nat candidate, extend_match source (nat candidate) position 4)))"

definition remember_previous :: "bytes \<Rightarrow> (u32 \<Rightarrow> int) \<Rightarrow> nat \<Rightarrow> (u32 \<Rightarrow> int) option" where
  "remember_previous source table position =
     (if position + 12 \<le> length source
      then case le32 (drop (position - 2) source) of
          None \<Rightarrow> None
        | Some sequence \<Rightarrow> Some (table(lz4_hash sequence := int (position - 2)))
      else Some table)"

lemma extend_match_ge: "m \<le> extend_match source candidate position m"
proof (induction source candidate position m rule: extend_match.induct)
  case (1 source candidate position m)
  then show ?case by (auto simp: extend_match.simps [of source candidate position m])
qed

lemma find_match_ge: "find_match source table position = Some (table', Some (c, m)) \<Longrightarrow> 4 \<le> m"
  by (auto simp: find_match_def Let_def extend_match_ge split: option.splits if_splits bool.splits)

function encode_loop ::
    "bytes \<Rightarrow> (u32 \<Rightarrow> int) \<Rightarrow> nat \<Rightarrow> nat \<Rightarrow> bytes \<Rightarrow> (bytes \<times> nat) option" where
  "encode_loop source table position anchor output =
     (if position + 12 \<le> length source
      then case find_match source table position of
          None \<Rightarrow> None
        | Some (table', None) \<Rightarrow> encode_loop source table' (Suc position) anchor output
        | Some (table', Some (candidate, matchLength)) \<Rightarrow>
            let output' = appendSequence output (take (position - anchor) (drop anchor source))
                            (position - candidate) matchLength;
                position' = position + matchLength in
            case remember_previous source table' position' of
              None \<Rightarrow> None
            | Some table'' \<Rightarrow> encode_loop source table'' position' position' output'
      else Some (output, anchor))"
  by pat_completeness auto
termination
  by (relation "measure (\<lambda>(source, table, position, anchor, output). length source - position)")
    (auto dest!: find_match_ge)

declare encode_loop.simps [simp del]

definition EncodeBlock :: "bytes \<Rightarrow> bytes option" where
  "EncodeBlock source =
     (if source = [] then Some [0]
      else case encode_loop source (\<lambda>_. - 1) 0 0 [] of
          None \<Rightarrow> None
        | Some (output, anchor) \<Rightarrow> Some (appendLastLiterals output (drop anchor source)))"

section \<open>Lengths\<close>

lemma appendExtendedLength_append:
  "appendExtendedLength (xs @ ys) extra = xs @ appendExtendedLength ys extra"
proof (induction ys extra rule: appendExtendedLength.induct)
  case (1 ys extra)
  then show ?case
    by (simp add: appendExtendedLength.simps [of "xs @ ys" extra]
        appendExtendedLength.simps [of ys extra])
qed

lemma appendExtendedLength_Nil:
  "appendExtendedLength out extra = out @ appendExtendedLength [] extra"
  using appendExtendedLength_append [of out "[]"] by simp

lemma readLength_loop_extended:
  "0 \<le> extra \<Longrightarrow> 0 \<le> len \<Longrightarrow> len + extra \<le> max_int \<Longrightarrow>
     readLength_loop (appendExtendedLength [] extra @ rest) len = Inr (len + extra, rest)"
proof (induction "nat extra" arbitrary: extra len rule: less_induct)
  case less
  show ?case
  proof (cases "255 \<le> extra")
    case True
    have "appendExtendedLength [] extra = 255 # appendExtendedLength [] (extra - 255)"
      using True appendExtendedLength_Nil [of "[255]" "extra - 255"]
      by (simp add: appendExtendedLength.simps [of "[]" extra])
    moreover have "readLength_loop (appendExtendedLength [] (extra - 255) @ rest) (len + 255)
        = Inr (len + 255 + (extra - 255), rest)"
      using less.prems True by (intro less.hyps) auto
    ultimately show ?thesis using less.prems True by simp
  next
    case False
    with less.prems have "appendExtendedLength [] extra = [word_of_int extra]"
      by (simp add: appendExtendedLength.simps [of "[]" extra])
    moreover have "uint (word_of_int extra :: byte) = extra"
      using False less.prems by (simp add: uint_word_of_int_eq take_bit_int_eq_self)
    moreover from this have "(word_of_int extra :: byte) \<noteq> 255" using False by auto
    ultimately show ?thesis using less.prems by simp
  qed
qed

lemma readLength_nibble:
  assumes "int n \<le> max_int"
  shows "readLength (appendExtendedLength [] (int n - 15) @ rest) (int (min 15 n)) = Inr (int n, rest)"
proof (cases "n < 15")
  case True
  then show ?thesis by (simp add: readLength_def appendExtendedLength.simps)
next
  case False
  then show ?thesis
    using readLength_loop_extended [of "int n - 15" 15 rest] assms by (simp add: readLength_def)
qed

lemma token_nibbles:
  assumes "a \<le> 15" "b \<le> 15"
  shows "uint (drop_bit 4 (push_bit 4 (of_nat a) OR of_nat b :: byte)) = int a"
    and "uint ((push_bit 4 (of_nat a) OR of_nat b :: byte) AND 0x0f) = int b"
proof -
  have "\<forall>a \<in> {0..15}. \<forall>b \<in> {0..15}.
      uint (drop_bit 4 (push_bit 4 (of_nat a) OR of_nat b :: byte)) = int a \<and>
      uint ((push_bit 4 (of_nat a) OR of_nat b :: byte) AND 0x0f) = int b"
    by code_simp
  with assms show "uint (drop_bit 4 (push_bit 4 (of_nat a) OR of_nat b :: byte)) = int a"
    "uint ((push_bit 4 (of_nat a) OR of_nat b :: byte) AND 0x0f) = int b"
    by simp_all
qed

lemma le16_of_nat:
  assumes "n < 65536"
  shows "le16 (of_nat n) (of_nat (n div 256)) = n"
  using assms by (simp add: le16_def unat_of_nat take_bit_eq_mod)

section \<open>One sequence\<close>

lemma literals_slice: "0 \<le> n \<Longrightarrow> n \<le> int (length xs) \<Longrightarrow> go_slice xs 0 n = Some (take (nat n) xs)"
  by (simp add: go_slice_def)

lemma appendSequence_Nil: "appendSequence out lits offset m = out @ appendSequence [] lits offset m"
  by (simp add: appendSequence_def Let_def appendExtendedLength_append
      appendExtendedLength_Nil [of "[_]"] appendExtendedLength_Nil [of "_ # _"]
      appendExtendedLength_Nil [of "_ @ _"])

lemma decode_loop_sequence:
  assumes copy: "copy_forward m (int (length (out @ lits)) - int offset) (out @ lits) = Some out2"
    and offset: "0 < offset" "offset \<le> length (out @ lits)" "offset < 65536"
    and m: "4 \<le> m" "int (length (out @ lits)) + int m \<le> osize"
    and osize: "osize \<le> max_int"
  shows "decode_loop osize (appendSequence [] lits offset m @ rest) out = decode_loop osize rest out2"
proof -
  let ?token = "push_bit 4 (of_nat (min 15 (length lits))) OR of_nat (min 15 (m - 4)) :: byte"
  let ?tail = "of_nat offset # of_nat (offset div 256) #
      appendExtendedLength [] (int m - 4 - 15) @ rest :: bytes"
  have shape: "appendSequence [] lits offset m @ rest =
      ?token # appendExtendedLength [] (int (length lits) - 15) @ lits @ ?tail"
    using appendExtendedLength_Nil [of "[?token]"]
      appendExtendedLength_Nil [of "appendExtendedLength [?token] (int (length lits) - 15) @
        lits @ [of_nat offset, of_nat (offset div 256)]"]
    by (simp add: appendSequence_def Let_def)
  have lits: "readLength (appendExtendedLength [] (int (length lits) - 15) @ lits @ ?tail)
      (uint (drop_bit 4 ?token)) = Inr (int (length lits), lits @ ?tail)"
    using m osize readLength_nibble [of "length lits" "lits @ ?tail"]
      token_nibbles(1) [of "min 15 (length lits)" "min 15 (m - 4)"] by simp
  have match: "readLength (appendExtendedLength [] (int m - 4 - 15) @ rest) (uint (?token AND 0x0f))
      = Inr (int (m - 4), rest)"
    using m osize readLength_nibble [of "m - 4" rest]
      token_nibbles(2) [of "min 15 (length lits)" "min 15 (m - 4)"] by (simp add: of_nat_diff)
  have "decode_sequence osize ?token (appendExtendedLength [] (int (length lits) - 15) @ lits @ ?tail) out
      = Inr (out2, Some rest)"
    using lits match m offset copy osize le16_of_nat [OF offset(3)]
    by (simp add: decode_sequence_def decode_match_def Let_def of_nat_diff literals_slice wrap_int_def)
  then show ?thesis unfolding shape by simp
qed

lemma decode_loop_last:
  assumes "int (length out + length lits) \<le> osize" "osize \<le> max_int"
  shows "decode_loop osize (appendLastLiterals [] lits) out = Inr (out @ lits)"
proof -
  let ?token = "push_bit 4 (of_nat (min 15 (length lits))) :: byte"
  have shape: "appendLastLiterals [] lits =
      ?token # appendExtendedLength [] (int (length lits) - 15) @ lits"
    using appendExtendedLength_Nil [of "[?token]"]
    by (simp add: appendLastLiterals_def Let_def)
  have "readLength (appendExtendedLength [] (int (length lits) - 15) @ lits) (uint (drop_bit 4 ?token))
      = Inr (int (length lits), lits)"
    using assms readLength_nibble [of "length lits" lits]
      token_nibbles(1) [of "min 15 (length lits)" 0] by simp
  then have "decode_sequence osize ?token
      (appendExtendedLength [] (int (length lits) - 15) @ lits) out = Inr (out @ lits, None)"
    using assms by (simp add: decode_sequence_def Let_def literals_slice)
  then show ?thesis unfolding shape by simp
qed

section \<open>Matches\<close>

lemma le32_append: "4 \<le> length bs \<Longrightarrow> \<exists>a b c d rest. bs = a # b # c # d # rest"
  by (auto simp: numeral_eq_Suc Suc_le_length_iff)

lemma le32_total: "4 \<le> length bs \<Longrightarrow> \<exists>w. le32 bs = Some w"
  using le32_append by fastforce

lemma le32_bytes:
  fixes a b c d :: byte
  assumes "w = (ucast a OR push_bit 8 (ucast b) OR push_bit 16 (ucast c) OR push_bit 24 (ucast d) :: u32)"
  shows "a = ucast w" "b = ucast (drop_bit 8 w)" "c = ucast (drop_bit 16 w)" "d = ucast (drop_bit 24 w)"
  unfolding assms by (rule bit_word_eqI, auto simp: bit_simps dest: bit_imp_le_length)+

lemma le32_inj:
  assumes "le32 xs = Some w" "le32 ys = Some w"
  shows "take 4 xs = take 4 ys" "4 \<le> length xs" "4 \<le> length ys"
proof -
  have "4 \<le> length zs" if "le32 zs = Some w" for zs
    using that by (cases zs rule: le32.cases) auto
  with assms show len: "4 \<le> length xs" "4 \<le> length ys" by auto
  from le32_append [OF len(1)] le32_append [OF len(2)] obtain a b c d r a' b' c' d' r'
    where xs: "xs = a # b # c # d # r" and ys: "ys = a' # b' # c' # d' # r'" by blast
  from assms(1) have "w = ucast a OR push_bit 8 (ucast b) OR push_bit 16 (ucast c) OR push_bit 24 (ucast d)"
    unfolding xs by simp
  note bx = le32_bytes [OF this]
  from assms(2) have "w = ucast a' OR push_bit 8 (ucast b') OR push_bit 16 (ucast c') OR push_bit 24 (ucast d')"
    unfolding ys by simp
  note by' = le32_bytes [OF this]
  show "take 4 xs = take 4 ys" unfolding xs ys bx by' by simp
qed

lemma extend_match_spec:
  assumes "\<forall>i<m. source ! (candidate + i) = source ! (position + i)"
    and "position + m \<le> length source"
  shows "\<forall>i<extend_match source candidate position m. source ! (candidate + i) = source ! (position + i)"
    and "position + extend_match source candidate position m \<le> length source"
  using assms
proof (induction source candidate position m rule: extend_match.induct)
  case (1 source candidate position m)
  {
    case 1
    with "1.IH"(1) show ?case
      by (simp add: extend_match.simps [of source candidate position m] less_Suc_eq)
  next
    case 2
    with "1.IH"(2) show ?case
      by (simp add: extend_match.simps [of source candidate position m] less_Suc_eq)
  }
qed

definition table_before :: "(u32 \<Rightarrow> int) \<Rightarrow> nat \<Rightarrow> bool" where
  "table_before table position \<longleftrightarrow> (\<forall>h. table h < int position)"

lemma table_before_Suc: "table_before table position \<Longrightarrow> position \<le> p \<Longrightarrow> table_before table p"
  unfolding table_before_def by (meson of_nat_le_iff order_less_le_trans)

lemma equal4_total:
  "4 \<le> length xs \<Longrightarrow> 4 \<le> length ys \<Longrightarrow> equal4 xs ys = Some (take 4 xs = take 4 ys)"
  using le32_total [of xs] le32_total [of ys] le32_append [of xs] le32_append [of ys]
    le32_inj(1) [of xs _ ys]
  by (fastforce simp: equal4_def)

text \<open>What \<open>find_match\<close> promises the loop: no panic, and any match it reports is a real one.\<close>

lemma find_match_spec:
  assumes p: "position + 12 \<le> length source" and t: "table_before table position"
  obtains table' where "find_match source table position = Some (table', None)"
      "table_before table' (Suc position)"
  | table' c m where "find_match source table position = Some (table', Some (c, m))"
      "table_before table' (Suc position)" "c < position" "position - c < 65536" "4 \<le> m"
      "position + m \<le> length source" "\<forall>i<m. source ! (c + i) = source ! (position + i)"
proof -
  have "4 \<le> length (drop position source)" using p by simp
  then obtain w where w: "le32 (drop position source) = Some w" using le32_total by blast
  let ?c = "table (lz4_hash w)" and ?t = "table(lz4_hash w := int position)"
  have t': "table_before ?t (Suc position)"
    using t by (auto simp: table_before_def intro: less_SucI order_less_trans)
  have c: "?c < int position" using t by (simp add: table_before_def)
  show thesis
  proof (cases "?c < 0 \<or> int position - ?c > 65535")
    case True
    with w t' that(1) show thesis by (simp add: find_match_def Let_def)
  next
    case False
    then have nc: "nat ?c < position" "position - nat ?c < 65536" using c by auto
    then have eq: "equal4 (drop (nat ?c) source) (drop position source)
        = Some (take 4 (drop (nat ?c) source) = take 4 (drop position source))"
      using p by (intro equal4_total) auto
    show thesis
    proof (cases "take 4 (drop (nat ?c) source) = take 4 (drop position source)")
      case False': False
      with w eq t' False that(1) show thesis by (simp add: find_match_def Let_def)
    next
      case True
      let ?m = "extend_match source (nat ?c) position 4"
      have same: "source ! (nat ?c + i) = source ! (position + i)" if "i < 4" for i
      proof -
        have "take 4 (drop (nat ?c) source) ! i = take 4 (drop position source) ! i"
          by (simp add: True)
        with that p nc show ?thesis by simp
      qed
      have "find_match source table position = Some (?t, Some (nat ?c, ?m))"
        using w eq True False by (simp add: find_match_def Let_def)
      then show thesis
        using t' nc extend_match_ge extend_match_spec [of 4 source "nat ?c" position] same p
        by (intro that(2)) auto
    qed
  qed
qed

lemma remember_previous_spec:
  assumes "table_before table position" "2 \<le> position"
  obtains table' where "remember_previous source table position = Some table'"
    "table_before table' position"
proof (cases "position + 12 \<le> length source")
  case True
  then have "4 \<le> length (drop (position - 2) source)" by simp
  then obtain w where w: "le32 (drop (position - 2) source) = Some w" using le32_total by blast
  have "table_before (table(lz4_hash w := int (position - 2))) position"
    using assms by (auto simp: table_before_def)
  with w True that show ?thesis by (simp add: remember_previous_def)
next
  case False
  with assms that show ?thesis by (simp add: remember_previous_def)
qed

lemma copy_forward_match:
  assumes "c < position" "position + m \<le> length source"
    and "\<forall>i<m. source ! (c + i) = source ! (position + i)"
  shows "copy_forward m (int c) (take position source) = Some (take (position + m) source)"
proof -
  have len: "length (take position source) = position" using assms(2) by simp
  have "c < length (take position source)" unfolding len by (rule assms(1))
  from copy_forward_total [OF this, of m] obtain ys where
    ys: "copy_forward m (int c) (take position source) = Some (take position source @ ys)"
      "length ys = m" "\<forall>i<m. ys ! i = (take position source @ ys) ! (c + i)"
    by blast
  have "i < m \<Longrightarrow> ys ! i = source ! (position + i)" for i
  proof (induction i rule: less_induct)
    case (less i)
    have "ys ! i = (take position source @ ys) ! (c + i)" using ys(3) less.prems by simp
    also have "\<dots> = source ! (c + i)"
    proof (cases "c + i < position")
      case True
      then show ?thesis using len by (simp add: nth_append)
    next
      case False
      then have "(take position source @ ys) ! (c + i) = ys ! (c + i - position)"
        using len by (simp add: nth_append)
      also have "\<dots> = source ! (position + (c + i - position))"
        using False less.prems assms(1) by (intro less.IH) auto
      finally show ?thesis using False by simp
    qed
    also have "\<dots> = source ! (position + i)" using assms(3) less.prems by simp
    finally show ?case .
  qed
  then have "take position source @ ys = take (position + m) source"
    using ys(2) assms(2) len by (intro nth_equalityI) (auto simp: nth_append)
  with ys(1) show ?thesis by simp
qed

section \<open>The round trip\<close>

text \<open>
  The invariant of the encoder's loop: what has been written decodes to the source up to
  \<open>anchor\<close>, whatever follows it.
\<close>

definition encodes :: "int \<Rightarrow> bytes \<Rightarrow> nat \<Rightarrow> bytes \<Rightarrow> bool" where
  "encodes osize source anchor out \<longleftrightarrow>
     (\<forall>rest. decode_loop osize (out @ rest) [] = decode_loop osize rest (take anchor source))"

lemma encodes_step:
  assumes enc: "encodes (int (length source)) source anchor out"
    and b: "anchor \<le> position" "c < position" "position - c < 65536" "4 \<le> m"
      "position + m \<le> length source" "\<forall>i<m. source ! (c + i) = source ! (position + i)"
    and max: "int (length source) \<le> max_int"
  shows "encodes (int (length source)) source (position + m)
     (appendSequence out (take (position - anchor) (drop anchor source)) (position - c) m)"
  unfolding encodes_def
proof
  fix rest
  let ?lits = "take (position - anchor) (drop anchor source)"
  have prefix: "take anchor source @ ?lits = take position source"
    using b(1) by (metis le_add_diff_inverse take_add)
  have len: "length (take anchor source @ ?lits) = position"
    unfolding prefix using b(5) by simp
  have "copy_forward m (int (length (take anchor source @ ?lits)) - int (position - c))
      (take anchor source @ ?lits) = Some (take (position + m) source)"
    unfolding len unfolding prefix
    using copy_forward_match [OF b(2,5,6)] b(2) by (simp add: of_nat_diff)
  then have "decode_loop (int (length source))
      (appendSequence [] ?lits (position - c) m @ rest) (take anchor source) =
      decode_loop (int (length source)) rest (take (position + m) source)"
  proof (rule decode_loop_sequence)
    show "0 < position - c" using b(2) by simp
    show "position - c \<le> length (take anchor source @ ?lits)" unfolding len by simp
    show "int (length (take anchor source @ ?lits)) + int m \<le> int (length source)"
      unfolding len using b(5) by simp
  qed (use b max in simp_all)
  then show "decode_loop (int (length source)) (appendSequence out ?lits (position - c) m @ rest) [] =
      decode_loop (int (length source)) rest (take (position + m) source)"
    using enc unfolding encodes_def by (simp add: appendSequence_Nil [of out])
qed

lemma encode_loop_encodes:
  assumes "encodes (int (length source)) source anchor out" "anchor \<le> position"
    and "position \<le> length source" "table_before table position" "int (length source) \<le> max_int"
  shows "\<exists>out' anchor'. encode_loop source table position anchor out = Some (out', anchor') \<and>
           encodes (int (length source)) source anchor' out' \<and> anchor' \<le> length source"
  using assms
proof (induction source table position anchor out rule: encode_loop.induct)
  case (1 source table position anchor out)
  show ?case
  proof (cases "position + 12 \<le> length source")
    case False
    with "1.prems" show ?thesis
      by (auto simp: encode_loop.simps [of source table position anchor out])
  next
    case True
    from find_match_spec [OF True "1.prems"(4)] show ?thesis
    proof cases
      case (1 table')
      with "1.IH"(1) [OF True 1(1)] "1.prems" True show ?thesis
        by (simp add: encode_loop.simps [of source table position anchor out])
    next
      case (2 table' c m)
      have "table_before table' (position + m)" "2 \<le> position + m"
        using 2 by (auto intro: table_before_Suc)
      then obtain table'' where t: "remember_previous source table' (position + m) = Some table''"
          "table_before table'' (position + m)"
        by (rule remember_previous_spec)
      let ?out = "appendSequence out (take (position - anchor) (drop anchor source)) (position - c) m"
      have "encodes (int (length source)) source (position + m) ?out"
        using "1.prems" 2 by (intro encodes_step) auto
      with "1.IH"(2) [OF True 2(1) refl refl refl refl refl] t 2 "1.prems" True show ?thesis
        by (simp add: encode_loop.simps [of source table position anchor out] Let_def)
    qed
  qed
qed

lemma EncodeBlock_DecodeBlock:
  assumes "int (length source) \<le> max_int"
  obtains encoded where "EncodeBlock source = Some encoded"
    "DecodeBlock encoded (int (length source)) = Inr source"
proof (cases "source = []")
  case True
  have "decode_loop 0 [0] [] = Inr []"
    by (simp add: decode_sequence_def readLength_def literals_slice)
  with True that show ?thesis by (simp add: EncodeBlock_def DecodeBlock_def)
next
  case False
  have "encodes (int (length source)) source 0 []" by (simp add: encodes_def)
  moreover have "table_before (\<lambda>_. - 1) 0" by (simp add: table_before_def)
  ultimately obtain out anchor where loop:
      "encode_loop source (\<lambda>_. - 1) 0 0 [] = Some (out, anchor)"
      "encodes (int (length source)) source anchor out" "anchor \<le> length source"
    using encode_loop_encodes [of source 0 "[]" 0 "\<lambda>_. - 1"] assms by auto
  let ?last = "appendLastLiterals [] (drop anchor source)"
  have last: "appendLastLiterals out (drop anchor source) = out @ ?last"
    using appendExtendedLength_append [of out] by (simp add: appendLastLiterals_def Let_def)
  have "decode_loop (int (length source)) (out @ ?last) [] =
      decode_loop (int (length source)) ?last (take anchor source)"
    using loop(2) by (simp add: encodes_def)
  also have "\<dots> = Inr source"
    using decode_loop_last [of "take anchor source" "drop anchor source"] loop(3) assms by simp
  finally have "DecodeBlock (out @ ?last) (int (length source)) = Inr source"
    by (simp add: DecodeBlock_def)
  with that [of "out @ ?last"] loop(1) False last show ?thesis by (simp add: EncodeBlock_def)
qed

section \<open>The decoder on any input\<close>

lemma readLength_no_panic: "readLength bs len \<noteq> Inl Lz4Panic"
proof -
  have "readLength_loop bs len \<noteq> Inl Lz4Panic" for bs len
    by (induction bs len rule: readLength_loop.induct) auto
  then show ?thesis by (simp add: readLength_def)
qed

lemma copy_match_total:
  fixes xs :: bytes
  assumes "off \<noteq> 0" "off \<le> length xs"
  shows "\<exists>ys. copy_forward n (int (length xs) - int off) xs = Some (xs @ ys) \<and> length ys = n"
proof -
  have "length xs - off < length xs" using assms by simp
  from copy_forward_total [OF this, of n] assms show ?thesis by (auto simp: of_nat_diff)
qed

lemma decode_match_no_panic: "decode_match osize token offset source out \<noteq> Inl Lz4Panic"
proof
  assume p: "decode_match osize token offset source out = Inl Lz4Panic"
  then have o: "offset \<noteq> 0" "offset \<le> length out" by (auto simp: decode_match_def split: if_splits)
  have total: "copy_forward n (int (length out) - int offset) out \<noteq> None" for n
    using copy_match_total [OF o, of n] by auto
  from p readLength_no_panic [of source "uint (token AND 0x0f)"] o
  obtain n where "copy_forward n (int (length out) - int offset) out = None"
    by (auto simp: decode_match_def Let_def split: sum.splits if_splits option.splits)
  with total show False by blast
qed

lemma decode_match_bound:
  assumes "decode_match osize token offset source out = Inr (out', rest)"
  shows "int (length out') \<le> max osize (int (length out))"
proof -
  from assms have o: "offset \<noteq> 0" "offset \<le> length out"
    by (auto simp: decode_match_def split: if_splits)
  from assms obtain n where n: "copy_forward (nat n) (int (length out) - int offset) out = Some out'"
      "n \<le> osize - int (length out)"
    by (auto simp: decode_match_def Let_def split: sum.splits if_splits option.splits)
  from copy_match_total [OF o, of "nat n"] n show ?thesis by auto
qed

lemma readLength_nonneg: "readLength bs len = Inr (n, rest) \<Longrightarrow> 0 \<le> len \<Longrightarrow> 0 \<le> n"
proof -
  have "readLength_loop bs len = Inr (n, rest) \<Longrightarrow> 0 \<le> len \<Longrightarrow> 0 \<le> n"
    by (induction bs len rule: readLength_loop.induct) (auto split: if_splits)
  then show "readLength bs len = Inr (n, rest) \<Longrightarrow> 0 \<le> len \<Longrightarrow> 0 \<le> n"
    by (auto simp: readLength_def split: if_splits)
qed

lemma decode_sequence_no_panic: "decode_sequence osize token source out \<noteq> Inl Lz4Panic"
proof (cases "readLength source (uint (drop_bit 4 token))")
  case (Inl e)
  then show ?thesis using readLength_no_panic [of source "uint (drop_bit 4 token)"] by (auto simp: decode_sequence_def)
next
  case (Inr r)
  obtain n source1 where r: "r = (n, source1)" by (cases r)
  have "0 \<le> n" using readLength_nonneg [of source "uint (drop_bit 4 token)"] Inr r by simp
  have two: "\<exists>lo hi s. xs = lo # hi # s" if "\<not> length xs < 2" for xs :: bytes
    using that by (cases xs; cases "tl xs") auto
  show ?thesis
  proof (cases "n > osize - int (length out) \<or> n > int (length source1)")
    case True
    then show ?thesis by (simp add: decode_sequence_def Inr r)
  next
    case False
    then show ?thesis using \<open>0 \<le> n\<close> two [of "drop (nat n) source1"] decode_match_no_panic
      by (auto simp: decode_sequence_def Inr r Let_def literals_slice simp del: length_drop
        split: sum.splits)
  qed
qed

lemma decode_sequence_bound:
  assumes "decode_sequence osize token source out = Inr (out', rest)" "int (length out) \<le> osize"
  shows "int (length out') \<le> osize"
proof -
  obtain n src1 where r: "readLength source (uint (drop_bit 4 token)) = Inr (n, src1)"
      "n \<le> osize - int (length out)" "n \<le> int (length src1)"
    using assms(1) by (auto simp: decode_sequence_def split: sum.splits if_splits)
  have "0 \<le> n" using readLength_nonneg [OF r(1)] by simp
  note slice = literals_slice [OF this r(3)]
  let ?out1 = "out @ take (nat n) src1"
  have len: "int (length ?out1) \<le> osize" using r assms(2) by auto
  from assms(1) r consider "out' = ?out1"
    | t l s rest' where "decode_match osize t l s ?out1 = Inr (out', rest')"
    by (auto simp: decode_sequence_def Let_def slice split: list.splits sum.splits if_splits)
  then show ?thesis using len by cases (auto dest: decode_match_bound)
qed

lemma decode_loop_no_panic: "decode_loop osize source out \<noteq> Inl Lz4Panic"
proof (induction osize source out rule: decode_loop.induct)
  case (2 osize token source out)
  then show ?case
    using decode_sequence_no_panic [of osize token source out]
    by (auto split: sum.splits option.splits)
qed simp

lemma DecodeBlock_no_panic: "DecodeBlock source osize \<noteq> Inl Lz4Panic"
  using decode_loop_no_panic [of osize source "[]"] by (auto simp: DecodeBlock_def split: sum.splits)

lemma DecodeBlock_length: "DecodeBlock source osize = Inr out \<Longrightarrow> int (length out) = osize"
  by (auto simp: DecodeBlock_def split: sum.splits if_splits)

lemma decode_loop_bound:
  "decode_loop osize source out = Inr out' \<Longrightarrow> int (length out) \<le> osize \<Longrightarrow>
     int (length out') \<le> osize"
proof (induction osize source out rule: decode_loop.induct)
  case (2 osize token source out)
  then show ?case
    by (auto split: sum.splits option.splits dest: decode_sequence_bound)
qed simp

section \<open>Properties\<close>

text \<open>C9: every block \<open>EncodeBlock\<close> compresses, of any length a Go slice can have, is restored by
  \<open>DecodeBlock\<close>; the encoder never indexes out of range.\<close>

theorem lz4_roundtrip:
  assumes "int (length source) \<le> max_int"
  shows "\<exists>encoded. EncodeBlock source = Some encoded \<and>
     DecodeBlock encoded (int (length source)) = Inr source"
  using EncodeBlock_DecodeBlock [OF assms] by metis

theorem lz4_roundtrip_witness:
  "\<exists>encoded. EncodeBlock (replicate 40 7 @ [1, 2, 3]) = Some encoded \<and>
     DecodeBlock encoded 43 = Inr (replicate 40 7 @ [1, 2, 3])"
  using lz4_roundtrip [of "replicate 40 7 @ [1, 2, 3]"] by (simp add: max_int_def)

text \<open>C12: on any input \<open>DecodeBlock\<close> returns without indexing out of range, and what it returns has
  exactly the length that was asked for.\<close>

theorem lz4_decode_safe:
  "DecodeBlock source osize \<noteq> Inl Lz4Panic \<and>
   (\<forall>out. DecodeBlock source osize = Inr out \<longrightarrow> int (length out) = osize)"
  using DecodeBlock_no_panic DecodeBlock_length by blast

theorem lz4_decode_safe_witness:
  "DecodeBlock [0x20, 5, 6] 2 = Inr [5, 6] \<and> int (length [5, 6 :: byte]) = 2"
proof -
  have d: "DecodeBlock [0x20, 5, 6] 2 = Inr [5, 6]" by code_simp
  with lz4_decode_safe [of "[0x20, 5, 6]" 2] show ?thesis by blast
qed

end
