(* ===== verification/Delta_Svndiff.thy ===== *)
theory Delta_Svndiff
  imports Delta_Varint Delta_Xdelta Lz4_Block
begin

text \<open>
  The svndiff stream, \<^verbatim>\<open>delta/svndiff_write.go\<close> and \<^verbatim>\<open>delta/svndiff_read.go\<close>, in versions 0
  (plain), 1 (zlib) and 2 (LZ4). The writer of the encoder is the list of bytes written, the
  reader of the decoder the bytes left. The zlib package is a parameter: \<open>deflate level data\<close> is
  the compressed data, \<open>inflate payload limit\<close> is what a reader limited to \<open>limit\<close> bytes returns
  together with the part of the payload it left unread, \<open>None\<close> if opening, reading or closing
  fails. The lemmas give the round trip of instructions, sections, windows and streams.
\<close>

type_synonym deflater = "int \<Rightarrow> bytes \<Rightarrow> bytes"
type_synonym inflater = "bytes \<Rightarrow> nat \<Rightarrow> (bytes \<times> bytes) option"

definition MaxWindowSize :: nat where "MaxWindowSize = 100 * 1024"
definition maxInstructionSectionSize :: nat where
  "maxInstructionSectionSize = MaxWindowSize * 21"

section \<open>Instructions\<close>

fun op_kind_byte :: "op_kind \<Rightarrow> byte" where
  "op_kind_byte OpSource = 0"
| "op_kind_byte OpTarget = 1"
| "op_kind_byte OpNew = 2"
| "op_kind_byte (OpOther k) = k"

definition op_kind_of :: "byte \<Rightarrow> op_kind" where
  "op_kind_of k = (if k = 0 then OpSource else if k = 1 then OpTarget
                   else if k = 2 then OpNew else OpOther k)"

definition encode_op :: "op \<Rightarrow> bytes" where
  "encode_op operation =
     (let first = push_bit 6 (op_kind_byte (Kind operation));
          head = (if Length operation < 64 then [first OR word_of_int (Length operation)]
                  else appendVarint [first] (word_of_int (Length operation)))
      in if Kind operation \<noteq> OpNew then appendVarint head (word_of_int (Offset operation)) else head)"

definition encodeInstructions :: "op list \<Rightarrow> bytes" where
  "encodeInstructions operations = concat (map encode_op operations)"

text \<open>
  One turn of the loop of \<open>decodeInstructions\<close>; \<open>newPosition\<close> is a Go \<open>int\<close> that may wrap, a
  64-bit word read with \<open>sint\<close>.
\<close>

definition decode_op :: "bytes \<Rightarrow> nat \<Rightarrow> u64 \<Rightarrow> ops_fault + op \<times> nat \<times> u64" where
  "decode_op data position newPosition =
     (let instruction = data ! position;
          kind = drop_bit 6 instruction;
          short = ucast (instruction AND 0x3f) :: u64 in
      if kind > 2 then Inl BadSelector
      else
        case (if short = 0 then consumeVarint data (Suc position)
              else Inr (short, Suc position)) of
          Inl e \<Rightarrow> Inl BadLengthVarint
        | Inr (len, position1) \<Rightarrow>
            if len = 0 \<or> len > of_int max_int then Inl BadLength
            else if kind \<noteq> 2 then
              case consumeVarint data position1 of
                Inl e \<Rightarrow> Inl BadOffsetVarint
              | Inr (offset, position2) \<Rightarrow>
                  if offset > of_int max_int then Inl BadOffsetVarint
                  else Inr (\<lparr>Kind = op_kind_of kind, Offset = sint offset, Length = sint len\<rparr>,
                            position2, newPosition)
            else Inr (\<lparr>Kind = OpNew, Offset = sint newPosition, Length = sint len\<rparr>,
                      position1, newPosition + len))"

lemma consumeVarint_loop_forward:
  "consumeVarint_loop n v data position = Inr (w, p) \<Longrightarrow> position < p \<and> p \<le> length data"
  by (induction n v data position rule: consumeVarint_loop.induct)
    (auto simp: Let_def split: if_splits)

lemma consumeVarint_forward:
  "consumeVarint data position = Inr (w, p) \<Longrightarrow> position < p \<and> p \<le> length data"
  unfolding consumeVarint_def by (rule consumeVarint_loop_forward)

lemma decode_op_forward: "decode_op data position n = Inr (operation, p, n') \<Longrightarrow> position < p"
  by (auto simp: decode_op_def Let_def split: if_splits sum.splits dest!: consumeVarint_forward)

function decode_ops :: "bytes \<Rightarrow> nat \<Rightarrow> u64 \<Rightarrow> ops_fault + op list \<times> u64" where
  "decode_ops data position newPosition =
     (if position < length data
      then case decode_op data position newPosition of
          Inl e \<Rightarrow> Inl e
        | Inr (operation, position', newPosition') \<Rightarrow>
            (case decode_ops data position' newPosition' of
               Inl e \<Rightarrow> Inl e
             | Inr (operations, n) \<Rightarrow> Inr (operation # operations, n))
      else Inr ([], newPosition))"
  by pat_completeness auto
termination
  by (relation "measure (\<lambda>(data, position, n). length data - position)")
    (auto dest: decode_op_forward)

declare decode_ops.simps [simp del]

definition decodeInstructions :: "bytes \<Rightarrow> int \<Rightarrow> int \<Rightarrow> nat \<Rightarrow> ops_fault + op list" where
  "decodeInstructions data sourceLength targetLength newLength =
     (case decode_ops data 0 0 of
        Inl e \<Rightarrow> Inl e
      | Inr (operations, newPosition) \<Rightarrow>
          (case Validate \<lparr>SourceOffset = 0, SourceLength = sourceLength, TargetLength = targetLength,
                          Ops = operations, NewData = replicate newLength 0\<rparr> of
             Inl e \<Rightarrow> Inl e
           | Inr _ \<Rightarrow>
               if sint newPosition \<noteq> int newLength
               then Inl (NewDataMismatch (sint newPosition) (int newLength))
               else Inr operations))"

section \<open>Sections\<close>

definition encodeLZ4Section :: "bytes \<Rightarrow> bytes option" where
  "encodeLZ4Section data =
     (case EncodeBlock data of
        None \<Rightarrow> None
      | Some compressed \<Rightarrow>
          Some (appendVarint [] (of_nat (length data)) @
            (if length compressed \<ge> length data then data else compressed)))"

definition encodeZlibSection :: "deflater \<Rightarrow> bytes \<Rightarrow> int \<Rightarrow> bytes" where
  "encodeZlibSection deflate data compression =
     appendVarint [] (of_nat (length data)) @
       (if length data < 512 then data
        else if length (deflate compression data) \<ge> length data then data
        else deflate compression data)"

definition readSection ::
    "inflater \<Rightarrow> bytes \<Rightarrow> nat \<Rightarrow> byte \<Rightarrow> nat \<Rightarrow> delta_error + bytes \<times> bytes" where
  "readSection inflate reader encodedLength version limit =
     (if length reader < encodedLength then Inl UnexpectedEndSection
      else
        let encoded = take encodedLength reader; reader' = drop encodedLength reader in
        if version = 0 then Inr (encoded, reader')
        else case consumeVarint encoded 0 of
            Inl e \<Rightarrow> Inl InvalidSectionSize
          | Inr (originalLength, position) \<Rightarrow>
              if originalLength > of_nat limit then Inl InvalidSectionSize
              else
                let payload = drop position encoded in
                if of_nat (length payload) = originalLength then Inr (payload, reader')
                else if version = 2 then
                  case DecodeBlock payload (sint originalLength) of
                    Inl e \<Rightarrow> Inl InvalidCompressedData
                  | Inr decoded \<Rightarrow> Inr (decoded, reader')
                else
                  case inflate payload (unat originalLength + 1) of
                    None \<Rightarrow> Inl InvalidCompressedData
                  | Some (decoded, unread) \<Rightarrow>
                      if unread \<noteq> [] \<or> of_nat (length decoded) \<noteq> originalLength
                      then Inl InvalidCompressedData
                      else Inr (decoded, reader'))"

section \<open>Encoder\<close>

record encoder =
  enc_writer :: bytes
  enc_version :: byte
  enc_compression :: int
  enc_closed :: bool

definition NewEncoder :: "bytes \<Rightarrow> int \<Rightarrow> delta_error + encoder" where
  "NewEncoder out version =
     (if version < 0 \<or> version > 2 then Inl (UnsupportedVersion version)
      else Inr \<lparr>enc_writer = out @ [0x53, 0x56, 0x4E, word_of_int version],
                enc_version = word_of_int version, enc_compression = - 1, enc_closed = False\<rparr>)"

definition newEncoder :: "bytes \<Rightarrow> int \<Rightarrow> int \<Rightarrow> delta_error + encoder" where
  "newEncoder out version compression =
     (if compression < - 2 \<or> compression > 9 then Inl (InvalidCompressionLevel compression)
      else case NewEncoder out version of
          Inl e \<Rightarrow> Inl e
        | Inr encoder \<Rightarrow> Inr (encoder\<lparr>enc_compression := compression\<rparr>))"

definition encode_sections :: "deflater \<Rightarrow> encoder \<Rightarrow> window \<Rightarrow> (bytes \<times> bytes) option" where
  "encode_sections deflate encoder w =
     (let instructions = encodeInstructions (Ops w); newData = NewData w in
      if enc_version encoder = 1 then
        Some (encodeZlibSection deflate instructions (enc_compression encoder),
              encodeZlibSection deflate newData (enc_compression encoder))
      else if enc_version encoder = 2 then
        (case (encodeLZ4Section instructions, encodeLZ4Section newData) of
           (Some i, Some d) \<Rightarrow> Some (i, d)
         | _ \<Rightarrow> None)
      else Some (instructions, newData))"

definition WriteWindow :: "deflater \<Rightarrow> encoder \<Rightarrow> window \<Rightarrow> delta_error + encoder" where
  "WriteWindow deflate encoder w =
     (if enc_closed encoder then Inl EncoderClosed
      else case Validate w of
          Inl e \<Rightarrow> Inl (InvalidOps e)
        | Inr _ \<Rightarrow>
            (case encode_sections deflate encoder w of
               None \<Rightarrow> Inl Panic
             | Some (instructions, newData) \<Rightarrow>
                 let header =
                   appendVarint (appendVarint (appendVarint (appendVarint (appendVarint []
                     (word_of_int (SourceOffset w))) (word_of_int (SourceLength w)))
                     (word_of_int (TargetLength w))) (of_nat (length instructions)))
                     (of_nat (length newData))
                 in Inr (encoder\<lparr>enc_writer := enc_writer encoder @ header @ instructions @ newData\<rparr>)))"

definition close_encoder :: "encoder \<Rightarrow> encoder" where
  "close_encoder encoder = encoder\<lparr>enc_closed := True\<rparr>"

text \<open>\<open>Encoder.Window\<close>: a nil window closes the stream.\<close>

definition encoder_window :: "deflater \<Rightarrow> encoder \<Rightarrow> window option \<Rightarrow> delta_error + encoder" where
  "encoder_window deflate encoder wo =
     (case wo of None \<Rightarrow> Inr (close_encoder encoder) | Some w \<Rightarrow> WriteWindow deflate encoder w)"

section \<open>Decoder\<close>

record decoder =
  dec_reader :: bytes
  dec_version :: byte
  dec_last :: int
  dec_started :: bool

definition NewDecoder :: "bytes \<Rightarrow> delta_error + decoder" where
  "NewDecoder input =
     (if length input < 4 then Inl InvalidHeader
      else if take 3 input \<noteq> [0x53, 0x56, 0x4E] \<or> input ! 3 > 2 then Inl InvalidHeader
      else Inr \<lparr>dec_reader = drop 4 input, dec_version = input ! 3, dec_last = 0,
                dec_started = False\<rparr>)"

definition NextWindow :: "inflater \<Rightarrow> decoder \<Rightarrow> delta_error + window \<times> decoder" where
  "NextWindow inflate decoder =
     (if dec_reader decoder = [] then Inl DeltaEOF
      else case decode_count readVarint 5 (dec_reader decoder) of
          Inl e \<Rightarrow> Inl UnexpectedEndHeader
        | Inr (header, reader) \<Rightarrow>
            if header ! 0 > of_int max_int \<or> header ! 1 > of_nat MaxWindowSize
               \<or> header ! 2 > of_nat MaxWindowSize \<or> header ! 3 > of_nat maxInstructionSectionSize
               \<or> header ! 4 > of_nat MaxWindowSize
            then Inl CorruptWindow
            else
              let sourceOffset = sint (header ! 0) in
              if dec_started decoder \<and> sourceOffset < dec_last decoder
              then Inl (BackwardView (dec_last decoder) sourceOffset)
              else case readSection inflate reader (unat (header ! 3)) (dec_version decoder)
                          maxInstructionSectionSize of
                  Inl e \<Rightarrow> Inl e
                | Inr (instructions, reader1) \<Rightarrow>
                    (case readSection inflate reader1 (unat (header ! 4)) (dec_version decoder)
                            MaxWindowSize of
                       Inl e \<Rightarrow> Inl e
                     | Inr (newData, reader2) \<Rightarrow>
                         (case decodeInstructions instructions (sint (header ! 1))
                                 (sint (header ! 2)) (length newData) of
                            Inl e \<Rightarrow> Inl (InvalidOps e)
                          | Inr operations \<Rightarrow>
                              let w = \<lparr>SourceOffset = sourceOffset, SourceLength = sint (header ! 1),
                                       TargetLength = sint (header ! 2), Ops = operations,
                                       NewData = newData\<rparr> in
                              (case Validate w of
                                 Inl e \<Rightarrow> Inl (InvalidOps e)
                               | Inr _ \<Rightarrow>
                                   Inr (w, decoder\<lparr>dec_reader := reader2, dec_started := True,
                                                   dec_last := sourceOffset\<rparr>)))))"

text \<open>Reading windows until the end of the stream, as every caller of the decoder does.\<close>

fun read_windows :: "inflater \<Rightarrow> nat \<Rightarrow> decoder \<Rightarrow> delta_error + window list" where
  "read_windows inflate 0 decoder = Inl DeltaEOF"
| "read_windows inflate (Suc fuel) decoder =
     (case NextWindow inflate decoder of
        Inl DeltaEOF \<Rightarrow> Inr []
      | Inl e \<Rightarrow> Inl e
      | Inr (w, decoder') \<Rightarrow>
          (case read_windows inflate fuel decoder' of
             Inl e \<Rightarrow> Inl e | Inr ws \<Rightarrow> Inr (w # ws)))"

fun write_windows :: "deflater \<Rightarrow> encoder \<Rightarrow> window list \<Rightarrow> delta_error + encoder" where
  "write_windows deflate encoder [] = Inr encoder"
| "write_windows deflate encoder (w # ws) =
     (case WriteWindow deflate encoder w of
        Inl e \<Rightarrow> Inl e | Inr encoder' \<Rightarrow> write_windows deflate encoder' ws)"

section \<open>Instruction round trip\<close>

lemma uint_u64: "0 \<le> x \<Longrightarrow> x \<le> max_int \<Longrightarrow> uint (word_of_int x :: u64) = x"
  by (simp add: uint_word_of_int_eq take_bit_int_eq_self max_int_def)

lemma sint_u64: "0 \<le> x \<Longrightarrow> x \<le> max_int \<Longrightarrow> sint (word_of_int x :: u64) = x"
  by (simp add: sint_uint uint_u64 signed_take_bit_int_eq_self max_int_def)

lemma u64_fits: "0 \<le> x \<Longrightarrow> x \<le> max_int \<Longrightarrow> \<not> (word_of_int x :: u64) > of_int max_int"
proof -
  assume x: "0 \<le> x" "x \<le> max_int"
  have "uint (of_int max_int :: u64) = max_int" by (rule uint_u64) (simp_all add: max_int_def)
  with x show ?thesis by (simp add: word_less_def uint_u64)
qed

lemma u64_zero: "0 < x \<Longrightarrow> x \<le> max_int \<Longrightarrow> (word_of_int x :: u64) \<noteq> 0"
  using uint_u64 [of x] by (metis less_le_not_le uint_0_iff order_less_imp_le)

lemma first_byte:
  assumes "k \<in> {0, 1, 2 :: byte}" "0 \<le> len" "len < 64"
  shows "drop_bit 6 (push_bit 6 k OR word_of_int len) = k"
    and "ucast ((push_bit 6 k OR word_of_int len) AND 0x3f) = (word_of_int len :: u64)"
proof -
  have "\<forall>k \<in> {0, 1, 2 :: byte}. \<forall>n \<in> {0..<64 :: nat}.
      drop_bit 6 (push_bit 6 k OR of_nat n) = k \<and>
      ucast ((push_bit 6 k OR of_nat n) AND 0x3f) = (of_nat n :: u64)"
    by code_simp
  moreover have "nat len \<in> {0..<64}" using assms by auto
  ultimately have "drop_bit 6 (push_bit 6 k OR of_nat (nat len)) = k \<and>
      ucast ((push_bit 6 k OR of_nat (nat len)) AND 0x3f) = (of_nat (nat len) :: u64)"
    using assms(1) by blast
  with assms(2) show "drop_bit 6 (push_bit 6 k OR word_of_int len) = k"
    "ucast ((push_bit 6 k OR word_of_int len) AND 0x3f) = (word_of_int len :: u64)"
    by simp_all
qed

text \<open>An operation that the instruction format can carry when \<open>n\<close> bytes of new data are used.\<close>

definition op_encodable :: "int \<Rightarrow> op \<Rightarrow> bool" where
  "op_encodable n operation \<longleftrightarrow>
     0 < Length operation \<and> Length operation \<le> max_int \<and>
     0 \<le> Offset operation \<and> Offset operation \<le> max_int \<and>
     (case Kind operation of OpOther k \<Rightarrow> False | OpNew \<Rightarrow> Offset operation = n | _ \<Rightarrow> True)"

fun ops_encodable :: "int \<Rightarrow> op list \<Rightarrow> bool" where
  "ops_encodable n [] \<longleftrightarrow> True"
| "ops_encodable n (operation # ops) \<longleftrightarrow>
     op_encodable n operation \<and>
     ops_encodable (if Kind operation = OpNew then n + Length operation else n) ops"

text \<open>The selector byte and the length, up to where the offset begins.\<close>

definition op_head :: "op \<Rightarrow> bytes" where
  "op_head operation =
     (let first = push_bit 6 (op_kind_byte (Kind operation)) in
      if Length operation < 64 then [first OR word_of_int (Length operation)]
      else first # appendVarint [] (word_of_int (Length operation)))"

lemma encode_op_head:
  "encode_op operation = op_head operation @
     (if Kind operation \<noteq> OpNew then appendVarint [] (word_of_int (Offset operation)) else [])"
  using appendVarint_dest [of "[_]"] appendVarint_dest [of "_ # _"]
  by (auto simp: encode_op_def op_head_def Let_def)

lemma op_head_length:
  assumes "op_encodable n operation"
  shows "(if (ucast (op_head operation ! 0 AND 0x3f) :: u64) = 0
          then consumeVarint (pre @ op_head operation @ rest) (Suc (length pre))
          else Inr (ucast (op_head operation ! 0 AND 0x3f), Suc (length pre))) =
         Inr (word_of_int (Length operation), length pre + length (op_head operation))"
    and "drop_bit 6 (op_head operation ! 0) = op_kind_byte (Kind operation)"
proof -
  let ?k = "op_kind_byte (Kind operation)"
  have k: "?k \<in> {0, 1, 2}"
    using assms by (cases "Kind operation") (auto simp: op_encodable_def)
  have len: "0 < Length operation" "Length operation \<le> max_int"
    using assms by (auto simp: op_encodable_def)
  show "(if (ucast (op_head operation ! 0 AND 0x3f) :: u64) = 0
          then consumeVarint (pre @ op_head operation @ rest) (Suc (length pre))
          else Inr (ucast (op_head operation ! 0 AND 0x3f), Suc (length pre))) =
         Inr (word_of_int (Length operation), length pre + length (op_head operation))"
  proof (cases "Length operation < 64")
    case True
    with first_byte [OF k, of "Length operation"] u64_zero [OF len] len show ?thesis
      by (simp add: op_head_def Let_def)
  next
    case False
    with first_byte [OF k, of 0] consumeVarint_at [of "pre @ [push_bit 6 ?k]"] show ?thesis
      by (simp add: op_head_def Let_def)
  qed
  show "drop_bit 6 (op_head operation ! 0) = ?k"
    using first_byte(1) [OF k, of "Length operation"] first_byte(1) [OF k, of 0] len
    by (simp add: op_head_def Let_def)
qed

lemma op_head_nonempty: "op_head operation \<noteq> []"
  by (simp add: op_head_def Let_def)

lemma op_kind_of_byte: "\<forall>j. k \<noteq> OpOther j \<Longrightarrow> op_kind_of (op_kind_byte k) = k"
  by (cases k) (simp_all add: op_kind_of_def)

lemma op_kind_byte_new:
  "\<forall>k. Kind operation \<noteq> OpOther k \<Longrightarrow> op_kind_byte (Kind operation) \<noteq> 2 \<longleftrightarrow> Kind operation \<noteq> OpNew"
  "\<forall>k. Kind operation \<noteq> OpOther k \<Longrightarrow> \<not> op_kind_byte (Kind operation) > 2"
  by (cases "Kind operation"; simp)+

lemma decode_op_encode:
  assumes "op_encodable n operation" "0 \<le> n" "n \<le> max_int"
  shows "decode_op (pre @ encode_op operation @ rest) (length pre) (word_of_int n) =
     Inr (operation, length pre + length (encode_op operation),
          word_of_int (if Kind operation = OpNew then n + Length operation else n))"
proof -
  define tail where "tail =
      (if Kind operation \<noteq> OpNew then appendVarint [] (word_of_int (Offset operation)) else [])"
  define data where "data = pre @ encode_op operation @ rest"
  define p1 where "p1 = length pre + length (op_head operation)"
  have split: "data = pre @ op_head operation @ tail @ rest"
    by (simp add: data_def tail_def encode_op_head)
  have at: "data ! length pre = op_head operation ! 0"
    using op_head_nonempty [of operation] by (simp add: split nth_append)
  have b: "0 < Length operation" "Length operation \<le> max_int" "0 \<le> Offset operation"
      "Offset operation \<le> max_int" "\<forall>k. Kind operation \<noteq> OpOther k"
      "Kind operation = OpNew \<Longrightarrow> Offset operation = n"
    using assms(1) by (auto simp: op_encodable_def split: op_kind.splits)
  have selector: "drop_bit 6 (data ! length pre) = op_kind_byte (Kind operation)"
    using op_head_length(2) [OF assms(1)] at by simp
  have head: "(if (ucast (data ! length pre AND 0x3f) :: u64) = 0
          then consumeVarint data (Suc (length pre))
          else Inr (ucast (data ! length pre AND 0x3f), Suc (length pre))) =
         Inr (word_of_int (Length operation), p1)"
    unfolding at p1_def by (simp only: split op_head_length(1) [OF assms(1)])
  have len: "\<not> ((word_of_int (Length operation) :: u64) = 0 \<or>
      (word_of_int (Length operation) :: u64) > of_int max_int)"
    using u64_zero u64_fits b by simp
  have offset: "consumeVarint data p1 =
      Inr (word_of_int (Offset operation), length pre + length (encode_op operation))"
    if "Kind operation \<noteq> OpNew"
    using consumeVarint_at [of "pre @ op_head operation" "word_of_int (Offset operation)" rest] that
    by (simp add: encode_op_head split tail_def p1_def)
  have "decode_op data (length pre) (word_of_int n) =
     Inr (operation, length pre + length (encode_op operation),
          word_of_int (if Kind operation = OpNew then n + Length operation else n))"
    unfolding decode_op_def Let_def selector head
    using len b offset assms(2,3) u64_fits [OF b(3,4)] op_kind_byte_new [OF b(5)]
    by (cases "Kind operation = OpNew"; cases operation)
      (simp_all add: sint_u64 op_kind_of_byte p1_def encode_op_head)
  then show ?thesis by (simp add: data_def)
qed

lemma encode_op_nonempty: "encode_op operation \<noteq> []"
  by (simp add: encode_op_head op_head_nonempty)

fun new_used :: "op list \<Rightarrow> int" where
  "new_used [] = 0"
| "new_used (operation # ops) =
     (if Kind operation = OpNew then Length operation else 0) + new_used ops"

lemma new_used_nonneg: "ops_encodable n ops \<Longrightarrow> 0 \<le> new_used ops"
  by (induction ops arbitrary: n) (auto simp: op_encodable_def)

lemma decode_ops_encode:
  "ops_encodable n ops \<Longrightarrow> 0 \<le> n \<Longrightarrow> n + new_used ops \<le> max_int \<Longrightarrow>
     decode_ops (pre @ encodeInstructions ops) (length pre) (word_of_int n) =
       Inr (ops, word_of_int (n + new_used ops))"
proof (induction ops arbitrary: pre n)
  case Nil
  then show ?case by (simp add: encodeInstructions_def decode_ops.simps)
next
  case (Cons operation ops)
  let ?n = "if Kind operation = OpNew then n + Length operation else n"
  have e: "op_encodable n operation" "ops_encodable ?n ops" using Cons.prems(1) by simp_all
  then have u: "0 \<le> new_used ops" "0 < Length operation"
    using new_used_nonneg by (auto simp: op_encodable_def)
  with Cons.prems have "0 \<le> ?n" "?n + new_used ops \<le> max_int" "n \<le> max_int" by (auto split: if_splits)
  note IH = Cons.IH [OF e(2) this(1,2), of "pre @ encode_op operation"]
    and here = decode_op_encode [OF e(1) Cons.prems(2) this(3), of pre "encodeInstructions ops"]
  have "length pre < length (pre @ encode_op operation @ encodeInstructions ops)"
    using encode_op_nonempty by simp
  moreover have "encodeInstructions (operation # ops) = encode_op operation @ encodeInstructions ops"
    by (simp add: encodeInstructions_def)
  ultimately show ?case
    using here IH by (subst decode_ops.simps) (simp add: algebra_simps)
qed

text \<open>Every operation of a window that validates with its new data in order can be encoded.\<close>

lemma encodable_window:
  assumes "ops_in_bounds n m p ops" "new_end k ops = Some (int m)" "0 \<le> k" "0 \<le> p"
    and "int n \<le> max_int" "p + ops_length ops \<le> max_int" "int m \<le> max_int"
  shows "ops_encodable k ops \<and> k + new_used ops = int m"
  using assms
proof (induction ops arbitrary: p k)
  case (Cons operation ops)
  have nn: "0 \<le> ops_length ops" using Cons.prems(1) ops_length_nonneg by auto
  then have "op_encodable k operation"
    using Cons.prems by (auto simp: op_in_bounds_def op_encodable_def split: op_kind.splits if_splits)
  moreover have "0 < Length operation" using calculation by (simp add: op_encodable_def)
  then have "ops_encodable (if Kind operation = OpNew then k + Length operation else k) ops \<and>
      (if Kind operation = OpNew then k + Length operation else k) + new_used ops = int m"
    using Cons.prems by (intro Cons.IH [of "p + Length operation"]) (auto split: if_splits)
  ultimately show ?case by (auto split: if_splits)
qed simp

lemma decodeInstructions_encode:
  assumes "Validate w = Inr ()" "sequential w"
    and "SourceLength w \<le> max_int" "TargetLength w \<le> max_int" "int (length (NewData w)) \<le> max_int"
  shows "decodeInstructions (encodeInstructions (Ops w)) (SourceLength w) (TargetLength w)
           (length (NewData w)) = Inr (Ops w)"
proof -
  have v: "0 \<le> SourceLength w" "ops_in_bounds (nat (SourceLength w)) (length (NewData w)) 0 (Ops w)"
      "ops_length (Ops w) = TargetLength w"
    using assms(1) by (simp_all add: Validate_iff)
  have "ops_encodable 0 (Ops w) \<and> 0 + new_used (Ops w) = int (length (NewData w))"
    using encodable_window [OF v(2), of 0] assms v by (simp add: sequential_def)
  then have "decode_ops (encodeInstructions (Ops w)) 0 0 =
      Inr (Ops w, word_of_int (int (length (NewData w))))"
    using decode_ops_encode [of 0 "Ops w" "[]"] assms(5) by simp
  moreover have "Validate \<lparr>SourceOffset = 0, SourceLength = SourceLength w,
      TargetLength = TargetLength w, Ops = Ops w, NewData = replicate (length (NewData w)) 0\<rparr> = Inr ()"
    using v by (simp add: Validate_iff)
  ultimately show ?thesis
    using sint_u64 [of "int (length (NewData w))"] assms(5) by (simp add: decodeInstructions_def)
qed

section \<open>Section round trip\<close>

text \<open>
  What the zlib package promises: inflating what was deflated, with room for one byte more than
  the original, gives the original and leaves nothing unread.
\<close>

definition zlib_laws :: "deflater \<Rightarrow> inflater \<Rightarrow> bool" where
  "zlib_laws deflate inflate \<longleftrightarrow>
     (\<forall>level data. inflate (deflate level data) (length data + 1) = Some (data, []))"

lemma u64_less_iff:
  "0 \<le> x \<Longrightarrow> x \<le> max_int \<Longrightarrow> 0 \<le> y \<Longrightarrow> y \<le> max_int \<Longrightarrow>
     (word_of_int x :: u64) < word_of_int y \<longleftrightarrow> x < y"
  by (simp add: word_less_def uint_u64)

lemma of_nat_u64_less_iff:
  "int m \<le> max_int \<Longrightarrow> int n \<le> max_int \<Longrightarrow> (of_nat m :: u64) < of_nat n \<longleftrightarrow> m < n"
  using u64_less_iff [of "int m" "int n"] by simp

lemma of_nat_u64_eq_iff:
  "int m \<le> max_int \<Longrightarrow> int n \<le> max_int \<Longrightarrow> (of_nat m :: u64) = of_nat n \<longleftrightarrow> m = n"
  using of_nat_u64_less_iff [of m n] of_nat_u64_less_iff [of n m] by (metis less_irrefl linorder_neqE_nat)

lemma unat_of_nat_u64: "int m \<le> max_int \<Longrightarrow> unat (of_nat m :: u64) = m"
  using uint_u64 [of "int m"] by (simp add: unsigned_of_nat take_bit_nat_eq_self max_int_def)

text \<open>\<open>bs\<close> is a section that carries \<open>data\<close>, stored or compressed.\<close>

definition section_of :: "inflater \<Rightarrow> byte \<Rightarrow> bytes \<Rightarrow> bytes \<Rightarrow> bool" where
  "section_of inflate version data bs \<longleftrightarrow>
     (if version = 0 then bs = data
      else \<exists>payload. bs = appendVarint [] (of_nat (length data)) @ payload \<and>
        (payload = data \<or>
         length payload < length data \<and>
         (if version = 2 then DecodeBlock payload (int (length data)) = Inr data
          else inflate payload (length data + 1) = Some (data, []))))"

lemma readSection_of:
  assumes "section_of inflate version data bs" "length data \<le> limit" "int limit \<le> max_int"
  shows "readSection inflate (bs @ rest) (length bs) version limit = Inr (data, rest)"
proof (cases "version = 0")
  case True
  with assms show ?thesis by (simp add: readSection_def section_of_def)
next
  case False
  with assms(1) obtain payload where p:
      "bs = appendVarint [] (of_nat (length data)) @ payload"
      "payload = data \<or>
         length payload < length data \<and>
         (if version = 2 then DecodeBlock payload (int (length data)) = Inr data
          else inflate payload (length data + 1) = Some (data, []))"
    by (auto simp: section_of_def)
  have d: "int (length data) \<le> max_int" "length payload \<le> length data"
    using assms(2,3) p(2) by auto
  have s: "sint (of_nat (length data) :: u64) = int (length data)"
    using sint_u64 [of "int (length data)"] d(1) by simp
  have c: "consumeVarint bs 0 =
      Inr (of_nat (length data), length (appendVarint [] (of_nat (length data))))"
    using consumeVarint_at [of "[]" _ payload] by (simp add: p(1))
  have fits: "\<not> (of_nat limit :: u64) < of_nat (length data)"
    using of_nat_u64_less_iff [OF assms(3) d(1)] assms(2) by simp
  have stored: "(of_nat (length payload) :: u64) = of_nat (length data) \<longleftrightarrow> length payload = length data"
    using d by (intro of_nat_u64_eq_iff) auto
  have drop: "drop (length (appendVarint [] (of_nat (length data)))) bs = payload"
      "length bs - length (appendVarint [] (of_nat (length data) :: u64)) = length payload"
    by (simp_all add: p(1))
  show ?thesis
  proof (cases "length payload = length data")
    case True
    with p(2) have "payload = data" by auto
    then show ?thesis
      using False c fits drop by (simp add: readSection_def Let_def)
  next
    case compressed: False
    with p(2) have "if version = 2 then DecodeBlock payload (int (length data)) = Inr data
        else inflate payload (length data + 1) = Some (data, [])"
      by auto
    then show ?thesis
      using False c fits drop stored compressed s unat_of_nat_u64 [OF d(1)]
      by (simp add: readSection_def Let_def split: if_splits)
  qed
qed

lemma varint_small_length:
  assumes "n < 2 ^ 21"
  shows "length (appendVarint [] (of_nat n)) \<le> 3"
proof -
  have "unat (of_nat n :: u64) = n"
    using assms by (intro unat_of_nat_u64) (simp add: max_int_def)
  then have "unat (drop_bit 7 (of_nat n :: u64)) < 128 ^ 2"
    using assms unfolding unat_drop_bit_7 by (intro less_mult_imp_div_less) simp
  from varint_high_length [OF this] show ?thesis
    by (simp add: appendVarint_def varint_fill_high)
qed

lemma encodeZlibSection_of:
  "zlib_laws deflate inflate \<Longrightarrow> section_of inflate 1 data (encodeZlibSection deflate data level)"
  by (auto simp: section_of_def encodeZlibSection_def zlib_laws_def not_le)

lemma encodeZlibSection_length:
  "length (encodeZlibSection deflate data level) \<le>
     length (appendVarint [] (of_nat (length data))) + length data"
  by (auto simp: encodeZlibSection_def)

lemma encodeLZ4Section_of:
  assumes "int (length data) \<le> max_int"
  obtains bs where "encodeLZ4Section data = Some bs" "section_of inflate 2 data bs"
    "length bs \<le> length (appendVarint [] (of_nat (length data))) + length data"
proof -
  obtain compressed where c: "EncodeBlock data = Some compressed"
      "DecodeBlock compressed (int (length data)) = Inr data"
    using EncodeBlock_DecodeBlock [OF assms] .
  let ?bs = "appendVarint [] (of_nat (length data)) @
      (if length compressed \<ge> length data then data else compressed)"
  from c that [of ?bs] show thesis
    by (auto simp: encodeLZ4Section_def section_of_def not_le)
qed

lemma encode_sections_of:
  assumes "zlib_laws deflate inflate" "enc_version e \<in> {0, 1, 2}"
    and "int (length (encodeInstructions (Ops w))) \<le> max_int" "int (length (NewData w)) \<le> max_int"
  obtains instructions newData where "encode_sections deflate e w = Some (instructions, newData)"
    "section_of inflate (enc_version e) (encodeInstructions (Ops w)) instructions"
    "section_of inflate (enc_version e) (NewData w) newData"
    "length instructions \<le> 10 + length (encodeInstructions (Ops w))"
    "length newData \<le> (if enc_version e = 0 then 0
        else length (appendVarint [] (of_nat (length (NewData w))))) + length (NewData w)"
proof -
  let ?i = "encodeInstructions (Ops w)" and ?d = "NewData w"
  note ten = appendVarint_bounds(2)
  consider "enc_version e = 0" | "enc_version e = 1" | "enc_version e = 2" using assms(2) by auto
  then show thesis
  proof cases
    case 1
    then show thesis by (intro that [of ?i ?d]) (simp_all add: encode_sections_def section_of_def)
  next
    case 2
    let ?z = "\<lambda>data. encodeZlibSection deflate data (enc_compression e)"
    show thesis
      using 2 encodeZlibSection_of [OF assms(1)] encodeZlibSection_length [of deflate ?d]
        order_trans [OF encodeZlibSection_length [of deflate ?i] add_right_mono [OF ten]]
      by (intro that [of "?z ?i" "?z ?d"]) (simp_all add: encode_sections_def)
  next
    case 3
    obtain i where "encodeLZ4Section ?i = Some i" "section_of inflate 2 ?i i"
        "length i \<le> length (appendVarint [] (of_nat (length ?i))) + length ?i"
      using encodeLZ4Section_of [OF assms(3)] .
    moreover obtain d where "encodeLZ4Section ?d = Some d" "section_of inflate 2 ?d d"
        "length d \<le> length (appendVarint [] (of_nat (length ?d))) + length ?d"
      using encodeLZ4Section_of [OF assms(4)] .
    ultimately show thesis
      using 3 order_trans [OF _ add_right_mono [OF ten]] by (intro that [of i d]) (simp_all add: encode_sections_def)
  qed
qed

section \<open>Window and stream round trip\<close>

lemma encode_op_length:
  assumes "0 < Length operation"
  shows "int (length (encode_op operation)) \<le> 11 * Length operation"
proof -
  have "length (appendVarint [] (word_of_int (Offset operation))) \<le> 10"
    "length (appendVarint [] (word_of_int (Length operation))) \<le> 10"
    by (rule appendVarint_bounds)+
  with assms show ?thesis by (auto simp: encode_op_head op_head_def Let_def)
qed

lemma encodeInstructions_length:
  "ops_in_bounds n m p ops \<Longrightarrow> int (length (encodeInstructions ops)) \<le> 11 * ops_length ops"
proof (induction ops arbitrary: p)
  case (Cons operation ops)
  then have "int (length (encode_op operation)) \<le> 11 * Length operation"
    by (intro encode_op_length) (simp add: op_in_bounds_def)
  with Cons show ?case by (fastforce simp: encodeInstructions_def)
qed (simp add: encodeInstructions_def)

text \<open>
  The windows the wire format can carry: valid, with their new data used in order, and within
  the limits the decoder enforces. In versions 1 and 2 the length of the new data is written in
  front of it and counts towards the limit, which takes three bytes.
\<close>

definition transportable :: "byte \<Rightarrow> window \<Rightarrow> bool" where
  "transportable version w \<longleftrightarrow>
     Validate w = Inr () \<and> sequential w \<and> SourceOffset w \<le> max_int \<and>
     SourceLength w \<le> int MaxWindowSize \<and> TargetLength w \<le> int MaxWindowSize \<and>
     length (NewData w) + (if version = 0 then 0 else 3) \<le> MaxWindowSize"

lemmas window_limits = MaxWindowSize_def maxInstructionSectionSize_def max_int_def

text \<open>\<open>bs\<close> is what \<open>WriteWindow\<close> puts on the wire for \<open>w\<close>.\<close>

definition window_on_wire :: "inflater \<Rightarrow> byte \<Rightarrow> window \<Rightarrow> bytes \<Rightarrow> bool" where
  "window_on_wire inflate version w bs \<longleftrightarrow>
     (\<exists>instructions newData.
        bs = concat (map (appendVarint [])
               [word_of_int (SourceOffset w), word_of_int (SourceLength w),
                word_of_int (TargetLength w), of_nat (length instructions),
                of_nat (length newData)]) @ instructions @ newData \<and>
        section_of inflate version (encodeInstructions (Ops w)) instructions \<and>
        section_of inflate version (NewData w) newData \<and>
        length instructions \<le> maxInstructionSectionSize \<and> length newData \<le> MaxWindowSize)"

lemma transportable_instructions:
  assumes "transportable version w"
  shows "length (encodeInstructions (Ops w)) + 10 \<le> maxInstructionSectionSize"
proof -
  have "int (length (encodeInstructions (Ops w))) \<le> 11 * TargetLength w"
    using assms encodeInstructions_length [of "nat (SourceLength w)" _ 0 "Ops w"]
    by (auto simp: transportable_def Validate_iff)
  with assms show ?thesis by (simp add: transportable_def window_limits)
qed

lemma WriteWindow_wire:
  assumes "transportable (enc_version e) w" "zlib_laws deflate inflate"
    and "enc_version e \<in> {0, 1, 2}" "\<not> enc_closed e"
  obtains bs where "WriteWindow deflate e w = Inr (e\<lparr>enc_writer := enc_writer e @ bs\<rparr>)"
    "window_on_wire inflate (enc_version e) w bs"
proof -
  note t = assms(1)
  note i = transportable_instructions [OF t]
  have "int (length (encodeInstructions (Ops w))) \<le> max_int" "int (length (NewData w)) \<le> max_int"
    using i t by (auto simp: transportable_def window_limits)
  from encode_sections_of [OF assms(2,3) this] obtain instructions newData where s:
      "encode_sections deflate e w = Some (instructions, newData)"
      "section_of inflate (enc_version e) (encodeInstructions (Ops w)) instructions"
      "section_of inflate (enc_version e) (NewData w) newData"
      "length instructions \<le> 10 + length (encodeInstructions (Ops w))"
      "length newData \<le> (if enc_version e = 0 then 0
        else length (appendVarint [] (of_nat (length (NewData w))))) + length (NewData w)"
    by blast
  let ?bs = "concat (map (appendVarint [])
               [word_of_int (SourceOffset w), word_of_int (SourceLength w),
                word_of_int (TargetLength w), of_nat (length instructions),
                of_nat (length newData)]) @ instructions @ newData"
  have "length newData \<le> MaxWindowSize"
    using s(5) t varint_small_length [of "length (NewData w)"]
    by (auto simp: transportable_def window_limits split: if_splits)
  moreover have "length instructions \<le> maxInstructionSectionSize" using s(4) i by simp
  ultimately have "window_on_wire inflate (enc_version e) w ?bs"
    using s(2,3) by (auto simp: window_on_wire_def)
  moreover have "WriteWindow deflate e w = Inr (e\<lparr>enc_writer := enc_writer e @ ?bs\<rparr>)"
    using s(1) t assms(4)
    by (simp add: WriteWindow_def transportable_def Let_def appendVarint_def)
  ultimately show thesis by (intro that [of ?bs])
qed

lemma NextWindow_wire:
  assumes "window_on_wire inflate version w bs" "transportable version w"
    and "dec_reader d = bs @ rest" "dec_version d = version"
    and "dec_started d \<Longrightarrow> dec_last d \<le> SourceOffset w"
  shows "NextWindow inflate d =
     Inr (w, d\<lparr>dec_reader := rest, dec_started := True, dec_last := SourceOffset w\<rparr>)"
proof -
  from assms(1) obtain instructions newData where b:
      "bs = concat (map (appendVarint [])
               [word_of_int (SourceOffset w), word_of_int (SourceLength w),
                word_of_int (TargetLength w), of_nat (length instructions),
                of_nat (length newData)]) @ instructions @ newData"
      "section_of inflate version (encodeInstructions (Ops w)) instructions"
      "section_of inflate version (NewData w) newData"
      "length instructions \<le> maxInstructionSectionSize" "length newData \<le> MaxWindowSize"
    by (auto simp: window_on_wire_def)
  let ?header = "[word_of_int (SourceOffset w), word_of_int (SourceLength w),
       word_of_int (TargetLength w), of_nat (length instructions), of_nat (length newData)] :: u64 list"
  have nonempty: "dec_reader d \<noteq> []"
    using assms(3) b(1) appendVarint_bounds(1) [of "word_of_int (SourceOffset w)"] by auto
  have header: "decode_count readVarint 5 (dec_reader d) = Inr (?header, instructions @ newData @ rest)"
    using varint.decode_count_enc [of ?header "instructions @ newData @ rest"] assms(3) b(1)
    by (simp add: eval_nat_numeral)
  have v: "Validate w = Inr ()" "sequential w" "SourceOffset w \<le> max_int"
      "0 \<le> SourceOffset w" "0 \<le> SourceLength w" "SourceLength w \<le> int MaxWindowSize"
      "0 \<le> TargetLength w" "TargetLength w \<le> int MaxWindowSize" "length (NewData w) \<le> MaxWindowSize"
    using assms(2) ops_length_nonneg [of "nat (SourceLength w)" _ 0 "Ops w"]
    by (auto simp: transportable_def Validate_iff)
  have le: "\<not> (word_of_int x :: u64) > of_nat k" if "0 \<le> x" "x \<le> int k" "int k \<le> max_int" for x k
    using u64_less_iff [of "int k" x] that by simp
  have limits: "int MaxWindowSize \<le> max_int" "int maxInstructionSectionSize \<le> max_int"
    by (simp_all add: window_limits)
  have ok: "\<not> (?header ! 0 > of_int max_int \<or> ?header ! 1 > of_nat MaxWindowSize
               \<or> ?header ! 2 > of_nat MaxWindowSize \<or> ?header ! 3 > of_nat maxInstructionSectionSize
               \<or> ?header ! 4 > of_nat MaxWindowSize)"
    using le [of _ MaxWindowSize] le [of _ maxInstructionSectionSize] u64_fits [of "SourceOffset w"] v limits
      b(4,5) of_nat_u64_less_iff [of MaxWindowSize "length newData"]
      of_nat_u64_less_iff [of maxInstructionSectionSize "length instructions"]
    by simp
  have signed: "sint (word_of_int x :: u64) = x" if "0 \<le> x" "x \<le> max_int" for x
    using sint_u64 that by simp
  have instr: "readSection inflate (instructions @ newData @ rest) (unat (of_nat (length instructions) :: u64))
      (dec_version d) maxInstructionSectionSize = Inr (encodeInstructions (Ops w), newData @ rest)"
    using readSection_of [OF b(2), of maxInstructionSectionSize] transportable_instructions [OF assms(2)]
      b(4) assms(4) limits unat_of_nat_u64 [of "length instructions"] by simp
  have data: "readSection inflate (newData @ rest) (unat (of_nat (length newData) :: u64))
      (dec_version d) MaxWindowSize = Inr (NewData w, rest)"
    using readSection_of [OF b(3), of MaxWindowSize] v(9) b(5) assms(4) limits
      unat_of_nat_u64 [of "length newData"] by simp
  have ops: "decodeInstructions (encodeInstructions (Ops w)) (SourceLength w) (TargetLength w)
      (length (NewData w)) = Inr (Ops w)"
    using v limits by (intro decodeInstructions_encode) auto
  have "\<not> (dec_started d \<and> SourceOffset w < dec_last d)" using assms(5) by auto
  moreover have "SourceLength w \<le> max_int" "TargetLength w \<le> max_int" using v limits by auto
  moreover have "Validate \<lparr>SourceOffset = SourceOffset w, SourceLength = SourceLength w,
      TargetLength = TargetLength w, Ops = Ops w, NewData = NewData w\<rparr> = Inr ()"
    using v(1) by (cases w) simp
  ultimately show ?thesis
    unfolding NextWindow_def header
    using nonempty ok instr data ops v by (simp add: signed Let_def)
qed

lemma write_windows_wire:
  assumes "zlib_laws deflate inflate" "\<forall>w\<in>set ws. transportable (enc_version e) w"
    and "enc_version e \<in> {0, 1, 2}" "\<not> enc_closed e"
  shows "\<exists>bss. write_windows deflate e ws = Inr (e\<lparr>enc_writer := enc_writer e @ concat bss\<rparr>) \<and>
     list_all2 (window_on_wire inflate (enc_version e)) ws bss"
  using assms
proof (induction ws arbitrary: e)
  case Nil
  show ?case by (intro exI [of _ "[]"]) simp
next
  case (Cons w ws)
  from Cons.prems have "transportable (enc_version e) w" by simp
  from WriteWindow_wire [OF this Cons.prems(1,3,4)] obtain bs where bs:
      "WriteWindow deflate e w = Inr (e\<lparr>enc_writer := enc_writer e @ bs\<rparr>)"
      "window_on_wire inflate (enc_version e) w bs" .
  from Cons.IH [of "e\<lparr>enc_writer := enc_writer e @ bs\<rparr>"] Cons.prems obtain bss where
      "write_windows deflate (e\<lparr>enc_writer := enc_writer e @ bs\<rparr>) ws =
         Inr (e\<lparr>enc_writer := (enc_writer e @ bs) @ concat bss\<rparr>)"
      "list_all2 (window_on_wire inflate (enc_version e)) ws bss"
    by auto
  with bs show ?case by (intro exI [of _ "bs # bss"]) simp
qed

lemma NextWindow_end: "dec_reader d = [] \<Longrightarrow> NextWindow inflate d = Inl DeltaEOF"
  by (simp add: NextWindow_def)

lemma read_windows_wire:
  assumes "list_all2 (window_on_wire inflate version) ws bss"
    and "\<forall>w\<in>set ws. transportable version w" "dec_version d = version"
    and "dec_reader d = concat bss" "sorted (map SourceOffset ws)"
    and "\<forall>w\<in>set ws. dec_started d \<longrightarrow> dec_last d \<le> SourceOffset w"
    and "length ws < fuel"
  shows "read_windows inflate fuel d = Inr ws"
  using assms
proof (induction ws bss arbitrary: d fuel rule: list_all2_induct)
  case Nil
  then show ?case by (cases fuel) (simp_all add: NextWindow_end)
next
  case (Cons w ws bs bss)
  let ?d = "d\<lparr>dec_reader := concat bss, dec_started := True, dec_last := SourceOffset w\<rparr>"
  obtain k where k: "fuel = Suc k" "length ws < k" using Cons.prems by (cases fuel) auto
  have "NextWindow inflate d = Inr (w, ?d)"
    by (rule NextWindow_wire [OF Cons.hyps(1)]) (use Cons.prems in auto)
  moreover have "read_windows inflate k ?d = Inr ws"
    using Cons.prems k by (intro Cons.IH) auto
  ultimately show ?case by (simp add: k(1))
qed

lemma newEncoder_fields:
  assumes "newEncoder out version compression = Inr e"
  shows "enc_writer e = out @ [0x53, 0x56, 0x4E, enc_version e]" "\<not> enc_closed e"
    "enc_version e \<in> {0, 1, 2}" "enc_version e = 0 \<longleftrightarrow> version = 0"
proof -
  have e: "enc_writer e = out @ [0x53, 0x56, 0x4E, enc_version e]" "\<not> enc_closed e"
      "0 \<le> version" "version \<le> 2" "enc_version e = word_of_int version"
    using assms by (auto simp: newEncoder_def NewEncoder_def split: if_splits sum.splits)
  then show "enc_writer e = out @ [0x53, 0x56, 0x4E, enc_version e]" "\<not> enc_closed e" by simp_all
  have "version \<in> {0, 1, 2}" using e(3,4) by auto
  with e(5) show "enc_version e \<in> {0, 1, 2}" "enc_version e = 0 \<longleftrightarrow> version = 0" by auto
qed

lemma stream_roundtrip:
  assumes "newEncoder [] version compression = Inr e"
    and "\<forall>w\<in>set ws. transportable (enc_version e) w" "sorted (map SourceOffset ws)"
    and "zlib_laws deflate inflate" "length ws < fuel"
  shows "\<exists>e' d. write_windows deflate e ws = Inr e' \<and> NewDecoder (enc_writer e') = Inr d \<and>
     read_windows inflate fuel d = Inr ws"
proof -
  have e: "enc_writer e = [0x53, 0x56, 0x4E, enc_version e]" "\<not> enc_closed e"
    and version: "enc_version e \<in> {0, 1, 2}"
    using newEncoder_fields [OF assms(1)] by simp_all
  from write_windows_wire [OF assms(4,2) version e(2)] obtain bss where w:
      "write_windows deflate e ws = Inr (e\<lparr>enc_writer := enc_writer e @ concat bss\<rparr>)"
      "list_all2 (window_on_wire inflate (enc_version e)) ws bss"
    by blast
  let ?d = "\<lparr>dec_reader = concat bss, dec_version = enc_version e, dec_last = 0, dec_started = False\<rparr>"
  have "NewDecoder (enc_writer e @ concat bss) = Inr ?d"
    using version by (auto simp: NewDecoder_def e(1))
  moreover have "read_windows inflate fuel ?d = Inr ws"
    using w(2) assms by (intro read_windows_wire) simp_all
  ultimately show ?thesis using w(1) by auto
qed

section \<open>What the format cannot carry\<close>

text \<open>
  A decoded window uses its new data in order, from the beginning to the end: the format has no
  room for the offsets of new-data operations.
\<close>

lemma op_kind_of_new: "op_kind_of k = OpNew \<longleftrightarrow> k = 2"
  by (simp add: op_kind_of_def)

lemma decode_op_Inr:
  "decode_op data p k = Inr (operation, q, k') \<Longrightarrow>
     Kind operation \<noteq> OpNew \<and> k' = k \<or>
     Kind operation = OpNew \<and> Offset operation = sint k \<and> k' = k + word_of_int (Length operation)"
  by (auto simp: decode_op_def op_kind_of_new Let_def split: if_splits sum.splits)

lemma decode_op_new_end:
  assumes "decode_op data position k = Inr (operation, position', k')"
    and "op_in_bounds n m p operation" "int m \<le> max_int"
  shows "if Kind operation = OpNew
     then Offset operation = sint k \<and> sint k' = sint k + Length operation else k' = k"
proof (cases "Kind operation = OpNew")
  case True
  with decode_op_Inr [OF assms(1)] have
      eq: "Offset operation = sint k" "k' = k + word_of_int (Length operation)"
    by auto
  have "0 \<le> sint k + Length operation" "sint k + Length operation \<le> max_int"
    using True assms(2,3) eq by (auto simp: op_in_bounds_def)
  moreover have "k' = word_of_int (sint k + Length operation)" by (simp add: eq(2))
  ultimately have "sint k' = sint k + Length operation" by (simp only: sint_u64)
  with True eq(1) show ?thesis by simp
next
  case False
  with decode_op_Inr [OF assms(1)] show ?thesis by auto
qed

lemma decode_ops_Inr:
  "decode_ops data p k = Inr (ops, k') \<Longrightarrow>
     ops = [] \<and> k' = k \<or>
     (\<exists>operation q k1 ops'. ops = operation # ops' \<and>
        decode_op data p k = Inr (operation, q, k1) \<and> decode_ops data q k1 = Inr (ops', k'))"
  by (subst (asm) decode_ops.simps) (auto split: if_splits sum.splits)

lemma decode_ops_new_end:
  "decode_ops data position k = Inr (ops, k') \<Longrightarrow> ops_in_bounds n m p ops \<Longrightarrow> int m \<le> max_int \<Longrightarrow>
     new_end (sint k) ops = Some (sint k')"
proof (induction ops arbitrary: position k p)
  case Nil
  then show ?case by (auto dest: decode_ops_Inr)
next
  case (Cons operation ops)
  from decode_ops_Inr [OF Cons.prems(1)] obtain q k1 where d:
      "decode_op data position k = Inr (operation, q, k1)" "decode_ops data q k1 = Inr (ops, k')"
    by auto
  from Cons.IH [OF d(2) _ Cons.prems(3)] Cons.prems(2)
  have "new_end (sint k1) ops = Some (sint k')" by auto
  moreover have "op_in_bounds n m p operation" using Cons.prems(2) by simp
  note decode_op_new_end [OF d(1) this Cons.prems(3)]
  ultimately show ?case by (auto split: if_splits)
qed

lemma decodeInstructions_sequential:
  assumes "decodeInstructions data sourceLength targetLength (length newData) = Inr ops"
  shows "new_end 0 ops = Some (int (length newData))"
proof -
  from assms obtain k where k: "decode_ops data 0 0 = Inr (ops, k)" "sint k = int (length newData)"
      "Validate \<lparr>SourceOffset = 0, SourceLength = sourceLength, TargetLength = targetLength,
         Ops = ops, NewData = replicate (length newData) 0\<rparr> = Inr ()"
    by (auto simp: decodeInstructions_def split: if_splits sum.splits)
  have "sint k \<le> max_int" using sint_lt [of k] by (simp add: max_int_def)
  moreover have "ops_in_bounds (nat sourceLength) (length newData) 0 ops"
    using k(3) by (simp add: Validate_iff)
  ultimately show ?thesis
    using decode_ops_new_end [OF k(1)] k(2) by fastforce
qed

lemma NextWindow_sequential:
  assumes "NextWindow inflate d = Inr (w, d')"
  shows "sequential w \<and> Validate w = Inr ()"
  using assms decodeInstructions_sequential
  by (auto simp: NextWindow_def sequential_def Let_def split: if_splits sum.splits)

text \<open>
  A full window of new data that does not compress: version 1 stores it with its length in
  front, which is longer than the decoder allows a section to be.
\<close>

lemma WriteWindow_oversized:
  assumes "enc_version e = 1" "\<not> enc_closed e" "Validate w = Inr ()"
    and "length (NewData w) = MaxWindowSize"
    and "MaxWindowSize \<le> length (deflate (enc_compression e) (NewData w))"
  shows "\<exists>bs. WriteWindow deflate e w = Inr (e\<lparr>enc_writer := enc_writer e @ bs\<rparr>) \<and>
     (\<forall>d rest. NextWindow inflate (d\<lparr>dec_reader := bs @ rest\<rparr>) = Inl CorruptWindow)"
proof -
  let ?prefix = "appendVarint [] (of_nat MaxWindowSize) :: bytes"
  let ?z = "\<lambda>data. encodeZlibSection deflate data (enc_compression e)"
  let ?i = "?z (encodeInstructions (Ops w))" and ?d = "?prefix @ NewData w"
  have stored: "?z (NewData w) = ?d"
    using assms(4,5) by (simp add: encodeZlibSection_def)
  let ?header = "[word_of_int (SourceOffset w), word_of_int (SourceLength w),
       word_of_int (TargetLength w), of_nat (length ?i), of_nat (length ?d)] :: u64 list"
  let ?bs = "concat (map (appendVarint []) ?header) @ ?i @ ?d"
  have "WriteWindow deflate e w = Inr (e\<lparr>enc_writer := enc_writer e @ ?bs\<rparr>)"
    using assms(1-3) by (simp add: WriteWindow_def encode_sections_def stored Let_def appendVarint_def)
  moreover have "NextWindow inflate (d\<lparr>dec_reader := ?bs @ rest\<rparr>) = Inl CorruptWindow" for d rest
  proof -
    have "decode_count readVarint 5 (?bs @ rest) = Inr (?header, ?i @ ?d @ rest)"
      using varint.decode_count_enc [of ?header "?i @ ?d @ rest"] by (simp add: eval_nat_numeral)
    moreover have "(of_nat (length ?d) :: u64) > of_nat MaxWindowSize"
    proof -
      have "length ?prefix \<le> 10" "1 \<le> length ?prefix" by (rule appendVarint_bounds)+
      then have "MaxWindowSize < length ?d" "int (length ?d) \<le> max_int"
        using assms(4) by (auto simp: window_limits simp flip: length_greater_0_conv)
      then show ?thesis
        using of_nat_u64_less_iff [of MaxWindowSize "length ?d"] by (simp add: window_limits)
    qed
    moreover have "?bs @ rest \<noteq> []"
      using appendVarint_bounds(1) [of "word_of_int (SourceOffset w)"] by auto
    ultimately show ?thesis by (simp add: NextWindow_def)
  qed
  ultimately show ?thesis by blast
qed

section \<open>Properties\<close>

text \<open>C5: a list of windows the format can carry, written by an encoder of any version and
  compression level, is read back unchanged by the decoder.\<close>

theorem svndiff_roundtrip:
  assumes "newEncoder [] version compression = Inr e"
    and "\<forall>w\<in>set ws. transportable (enc_version e) w" "sorted (map SourceOffset ws)"
    and "zlib_laws deflate inflate" "length ws < fuel"
  shows "\<exists>e' d. write_windows deflate e ws = Inr e' \<and> NewDecoder (enc_writer e') = Inr d \<and>
     read_windows inflate fuel d = Inr ws"
  using stream_roundtrip [OF assms] .

definition sample_window :: window where
  "sample_window = \<lparr>SourceOffset = 3, SourceLength = 4, TargetLength = 6,
     Ops = [\<lparr>Kind = OpSource, Offset = 1, Length = 2\<rparr>, \<lparr>Kind = OpNew, Offset = 0, Length = 1\<rparr>,
            \<lparr>Kind = OpTarget, Offset = 2, Length = 3\<rparr>], NewData = [9]\<rparr>"

lemma sample_window_transportable: "transportable version sample_window"
proof -
  have "Validate sample_window = Inr ()" "sequential sample_window" by code_simp+
  then show ?thesis
    by (simp add: transportable_def) (simp add: sample_window_def window_limits)
qed

theorem svndiff_roundtrip_witness:
  "\<exists>e' d. write_windows (\<lambda>_ data. data)
       \<lparr>enc_writer = [0x53, 0x56, 0x4E, 1], enc_version = 1, enc_compression = 5, enc_closed = False\<rparr>
       [sample_window] = Inr e' \<and> NewDecoder (enc_writer e') = Inr d \<and>
     read_windows (\<lambda>payload limit. Some (take limit payload, drop limit payload)) 2 d = Inr [sample_window]"
  by (rule svndiff_roundtrip [of 1 5])
    (simp_all add: sample_window_transportable newEncoder_def NewEncoder_def zlib_laws_def)

text \<open>C14: whatever the decoder returns is a valid window that uses its new data in order from
  the first byte to the last; so a window that does not, which the encoder accepts as long as it is
  valid, never comes out of a stream as it went in.\<close>

theorem decoded_sequential:
  assumes "NextWindow inflate d = Inr (w, d')"
  shows "sequential w \<and> Validate w = Inr ()"
  by (rule NextWindow_sequential [OF assms])

theorem decoded_sequential_witness:
  "sequential sample_window \<and> Validate sample_window = Inr ()"
proof -
  let ?e = "\<lparr>enc_writer = [], enc_version = 0, enc_compression = 5, enc_closed = False\<rparr>"
  have t: "transportable 0 sample_window" by (rule sample_window_transportable)
  then have "transportable (enc_version ?e) sample_window" by simp
  moreover have "zlib_laws (\<lambda>_ data. data) (\<lambda>payload limit. Some (take limit payload, drop limit payload))"
    by (simp add: zlib_laws_def)
  ultimately obtain bs where
      bs: "window_on_wire (\<lambda>payload limit. Some (take limit payload, drop limit payload)) 0 sample_window bs"
    by (rule WriteWindow_wire) auto
  show ?thesis
    by (rule decoded_sequential, rule NextWindow_wire [OF bs t, where rest = "[]" and
          d = "\<lparr>dec_reader = bs, dec_version = 0, dec_last = 0, dec_started = False\<rparr>"]) simp_all
qed

text \<open>C15: a valid window with 100 KiB of new data that does not compress is written by the version
  1 encoder in a form its own decoder refuses as corrupt: the stored length in front of the data
  counts towards the limit of the section.\<close>

theorem full_window_rejected:
  assumes "enc_version e = 1" "\<not> enc_closed e" "Validate w = Inr ()"
    and "length (NewData w) = MaxWindowSize"
    and "MaxWindowSize \<le> length (deflate (enc_compression e) (NewData w))"
  shows "\<exists>bs. WriteWindow deflate e w = Inr (e\<lparr>enc_writer := enc_writer e @ bs\<rparr>) \<and>
     (\<forall>d rest. NextWindow inflate (d\<lparr>dec_reader := bs @ rest\<rparr>) = Inl CorruptWindow)"
  using assms by (rule WriteWindow_oversized)

theorem full_window_rejected_witness:
  "\<exists>bs. WriteWindow (\<lambda>_ data. data)
       \<lparr>enc_writer = [], enc_version = 1, enc_compression = 5, enc_closed = False\<rparr>
       \<lparr>SourceOffset = 0, SourceLength = 0, TargetLength = 102400,
        Ops = [\<lparr>Kind = OpNew, Offset = 0, Length = 102400\<rparr>], NewData = replicate 102400 7\<rparr> =
     Inr (\<lparr>enc_writer = [], enc_version = 1, enc_compression = 5, enc_closed = False\<rparr>\<lparr>enc_writer :=
            enc_writer \<lparr>enc_writer = [], enc_version = 1, enc_compression = 5, enc_closed = False\<rparr> @ bs\<rparr>) \<and>
     (\<forall>d rest. NextWindow (\<lambda>payload limit. Some (take limit payload, drop limit payload))
        (d\<lparr>dec_reader := bs @ rest\<rparr>) = Inl CorruptWindow)"
  by (rule full_window_rejected) (simp_all add: Validate_def MaxWindowSize_def)

end
