(* ===== verification/Go_Strings.thy ===== *)
theory Go_Strings
  imports Go_Prelude "HOL-Library.Char_ord" "HOL-Library.List_Lexorder"
begin

text \<open>
  Go strings as lists of characters, one character per byte, and the functions of the packages
  \<^verbatim>\<open>strings\<close>, \<^verbatim>\<open>strconv\<close> and \<^verbatim>\<open>encoding/hex\<close> the sources use. Comparison of strings is the
  lexicographic order of their bytes.
\<close>

section \<open>Prefixes and suffixes\<close>

definition HasPrefix :: "string \<Rightarrow> string \<Rightarrow> bool" where
  "HasPrefix s p \<longleftrightarrow> take (length p) s = p"

definition HasSuffix :: "string \<Rightarrow> string \<Rightarrow> bool" where
  "HasSuffix s p \<longleftrightarrow> length p \<le> length s \<and> drop (length s - length p) s = p"

definition TrimPrefix :: "string \<Rightarrow> string \<Rightarrow> string" where
  "TrimPrefix s p = (if HasPrefix s p then drop (length p) s else s)"

definition TrimSuffix :: "string \<Rightarrow> string \<Rightarrow> string" where
  "TrimSuffix s p = (if HasSuffix s p then take (length s - length p) s else s)"

lemma HasPrefix_iff: "HasPrefix s p \<longleftrightarrow> (\<exists>r. s = p @ r)"
  by (auto simp: HasPrefix_def) (metis append_take_drop_id)

lemma HasSuffix_iff: "HasSuffix s p \<longleftrightarrow> (\<exists>r. s = r @ p)"
  by (auto simp: HasSuffix_def) (metis append_take_drop_id)

lemma HasPrefix_append [simp]: "HasPrefix (p @ r) p" and HasPrefix_Nil [simp]: "HasPrefix s []"
  by (simp_all add: HasPrefix_def)

lemma HasSuffix_append [simp]: "HasSuffix (r @ p) p" and HasSuffix_Nil [simp]: "HasSuffix s []"
  by (simp_all add: HasSuffix_def)

lemma HasPrefix_Cons [simp]: "HasPrefix (c # s) (d # p) \<longleftrightarrow> c = d \<and> HasPrefix s p"
  and HasPrefix_Nil_Cons [simp]: "\<not> HasPrefix [] (d # p)"
  by (auto simp: HasPrefix_def)

lemma TrimPrefix_append [simp]: "TrimPrefix (p @ r) p = r"
  by (simp add: TrimPrefix_def)

lemma TrimSuffix_append [simp]: "TrimSuffix (r @ p) p = r"
  by (simp add: TrimSuffix_def)

lemma HasSuffix_single: "HasSuffix s [c] \<longleftrightarrow> s \<noteq> [] \<and> last s = c"
  by (auto simp: HasSuffix_iff) (metis append_butlast_last_id)

section \<open>Splitting and joining\<close>

text \<open>\<open>strings.Cut\<close>, \<open>strings.Split\<close>, \<open>strings.Join\<close> and \<open>strings.Count\<close> for a one-byte separator.\<close>

definition cut :: "char \<Rightarrow> string \<Rightarrow> string \<times> string \<times> bool" where
  "cut sep s = (case dropWhile (\<lambda>c. c \<noteq> sep) s of
                  [] \<Rightarrow> (s, [], False)
                | _ # after \<Rightarrow> (takeWhile (\<lambda>c. c \<noteq> sep) s, after, True))"

fun split :: "char \<Rightarrow> string \<Rightarrow> string list" where
  "split sep [] = [[]]"
| "split sep (c # s) =
     (if c = sep then [] # split sep s
      else case split sep s of [] \<Rightarrow> [[c]] | part # parts \<Rightarrow> (c # part) # parts)"

fun join :: "string \<Rightarrow> string list \<Rightarrow> string" where
  "join sep [] = []"
| "join sep [part] = part"
| "join sep (part # parts) = part @ sep @ join sep parts"

lemma cut_at: "sep \<notin> set before \<Longrightarrow> cut sep (before @ sep # after) = (before, after, True)"
proof -
  assume "sep \<notin> set before"
  then have "\<forall>c\<in>set before. c \<noteq> sep" by auto
  from takeWhile_dropWhile_append_stop [where P = "\<lambda>c. c \<noteq> sep", OF this] show ?thesis
    unfolding cut_def by auto
qed

lemma cut_none: "sep \<notin> set s \<Longrightarrow> cut sep s = (s, [], False)"
proof -
  assume "sep \<notin> set s"
  then have d: "dropWhile (\<lambda>c. c \<noteq> sep) s = []" unfolding dropWhile_eq_Nil_conv by auto
  show ?thesis unfolding cut_def d by simp
qed

lemma cut_found: "cut sep s = (before, after, True) \<Longrightarrow> s = before @ sep # after \<and> sep \<notin> set before"
proof -
  assume c: "cut sep s = (before, after, True)"
  then obtain x where x: "dropWhile (\<lambda>c. c \<noteq> sep) s = x # after" "before = takeWhile (\<lambda>c. c \<noteq> sep) s"
    by (auto simp: cut_def split: list.splits)
  have "x = sep" using hd_dropWhile [of "\<lambda>c. c \<noteq> sep" s] x(1) by simp
  moreover have "s = before @ x # after"
    using takeWhile_dropWhile_id [of "\<lambda>c. c \<noteq> sep" s] unfolding x by metis
  ultimately show ?thesis by (auto simp: x(2) dest: set_takeWhileD)
qed

lemma split_not_Nil [simp]: "split sep s \<noteq> []"
  by (induction s) (auto split: list.splits)

lemma split_no_sep: "sep \<notin> set s \<Longrightarrow> split sep s = [s]"
  by (induction s) auto

lemma split_append_sep: "sep \<notin> set a \<Longrightarrow> split sep (a @ sep # s) = a # split sep s"
  by (induction a) auto

lemma split_parts: "part \<in> set (split sep s) \<Longrightarrow> sep \<notin> set part"
proof (induction s arbitrary: part)
  case (Cons c s)
  show ?case
  proof (cases "split sep s")
    case (Cons p ps)
    with Cons.prems Cons.IH show ?thesis by (auto split: if_splits)
  qed simp
qed simp

lemma join_Cons: "parts \<noteq> [] \<Longrightarrow> join sep (part # parts) = part @ sep @ join sep parts"
  by (cases parts) simp_all

lemma join_split [simp]: "join [sep] (split sep s) = s"
proof (induction s)
  case (Cons c s)
  show ?case
  proof (cases "split sep s")
    case (Cons p ps)
    with Cons.IH show ?thesis by (cases ps) (auto simp: join_Cons)
  qed simp
qed simp

lemma split_join:
  "parts \<noteq> [] \<Longrightarrow> \<forall>part\<in>set parts. sep \<notin> set part \<Longrightarrow> split sep (join [sep] parts) = parts"
  by (induction "[sep]" parts rule: join.induct) (auto simp: split_no_sep split_append_sep)

lemma join_append:
  "xs \<noteq> [] \<Longrightarrow> ys \<noteq> [] \<Longrightarrow> join sep (xs @ ys) = join sep xs @ sep @ join sep ys"
proof (induction xs)
  case (Cons x xs)
  then show ?case by (cases "xs = []") (simp_all add: join_Cons)
qed simp

lemma split_append:
  "split sep (a @ sep # b) = split sep a @ split sep b"
  by (induction a) (auto split: list.splits)

lemma split_inj: "split sep a = split sep b \<longleftrightarrow> a = b"
  by (metis join_split)

section \<open>Searching and trimming\<close>

definition LastIndexByte :: "string \<Rightarrow> char \<Rightarrow> nat option" where
  "LastIndexByte s c =
     (if c \<in> set s then Some (length s - Suc (length (takeWhile (\<lambda>x. x \<noteq> c) (rev s)))) else None)"

definition IndexByte :: "string \<Rightarrow> char \<Rightarrow> nat option" where
  "IndexByte s c = (if c \<in> set s then Some (length (takeWhile (\<lambda>x. x \<noteq> c) s)) else None)"

text \<open>\<open>strings.Index\<close>: the position of the first occurrence of a substring.\<close>

fun Index :: "string \<Rightarrow> string \<Rightarrow> nat option" where
  "Index [] p = (if p = [] then Some 0 else None)"
| "Index (c # s) p = (if HasPrefix (c # s) p then Some 0 else map_option Suc (Index s p))"

definition TrimLeftByte :: "char \<Rightarrow> string \<Rightarrow> string" where
  "TrimLeftByte c s = dropWhile (\<lambda>x. x = c) s"

lemma LastIndexByte_last: "c \<notin> set b \<Longrightarrow> LastIndexByte (a @ c # b) c = Some (length a)"
proof -
  assume "c \<notin> set b"
  then have "\<forall>x\<in>set (rev b). x \<noteq> c" by auto
  from takeWhile_dropWhile_append_stop(1) [where P = "\<lambda>x. x \<noteq> c", OF this] show ?thesis
    by (simp add: LastIndexByte_def)
qed

lemma LastIndexByte_none: "c \<notin> set s \<Longrightarrow> LastIndexByte s c = None"
  by (simp add: LastIndexByte_def)

lemma IndexByte_first: "c \<notin> set a \<Longrightarrow> IndexByte (a @ c # b) c = Some (length a)"
proof -
  assume "c \<notin> set a"
  then have "\<forall>x\<in>set a. x \<noteq> c" by auto
  from takeWhile_dropWhile_append_stop(1) [where P = "\<lambda>x. x \<noteq> c", OF this] show ?thesis
    by (simp add: IndexByte_def)
qed

lemma IndexByte_none: "c \<notin> set s \<Longrightarrow> IndexByte s c = None"
  by (simp add: IndexByte_def)

lemma LastIndexByte_Some:
  assumes "LastIndexByte s c = Some i"
  shows "\<exists>a b. s = a @ c # b \<and> i = length a \<and> c \<notin> set b"
proof -
  have "c \<in> set s" using assms by (simp add: LastIndexByte_def split: if_splits)
  then obtain a b where ab: "s = a @ c # b" "c \<notin> set b" by (meson split_list_last)
  with assms LastIndexByte_last show ?thesis by (intro exI [of _ a] exI [of _ b]) simp
qed

lemma IndexByte_Some:
  assumes "IndexByte s c = Some i"
  shows "\<exists>a b. s = a @ c # b \<and> i = length a \<and> c \<notin> set a"
proof -
  have "c \<in> set s" using assms by (simp add: IndexByte_def split: if_splits)
  then obtain a b where ab: "s = a @ c # b" "c \<notin> set a" by (meson split_list_first)
  with assms IndexByte_first show ?thesis by (intro exI [of _ a] exI [of _ b]) simp
qed

lemma IndexByte_None_iff: "IndexByte s c = None \<longleftrightarrow> c \<notin> set s"
  and LastIndexByte_None_iff: "LastIndexByte s c = None \<longleftrightarrow> c \<notin> set s"
  by (simp_all add: IndexByte_def LastIndexByte_def)

lemma Index_eq_Some:
  "Index s p = Some i \<longleftrightarrow> i \<le> length s \<and> HasPrefix (drop i s) p \<and> (\<forall>j < i. \<not> HasPrefix (drop j s) p)"
proof (induction s arbitrary: i)
  case Nil
  then show ?case by (cases p) auto
next
  case (Cons c s)
  show ?case
  proof (cases i)
    case 0
    then show ?thesis by auto
  next
    case (Suc k)
    then show ?thesis using Cons by (auto simp: All_less_Suc2)
  qed
qed

section \<open>Decimal numbers\<close>

text \<open>\<open>strconv.Itoa\<close> and the digits \<open>strconv.Atoi\<close> accepts.\<close>

definition digit_char :: "nat \<Rightarrow> char" where
  "digit_char n = char_of (48 + n)"

function utoa :: "nat \<Rightarrow> string" where
  "utoa n = (if n < 10 then [digit_char n] else utoa (n div 10) @ [digit_char (n mod 10)])"
  by pat_completeness auto
termination
  by (relation "measure id") simp_all

declare utoa.simps [simp del]

definition itoa :: "int \<Rightarrow> string" where
  "itoa n = (if n < 0 then CHR ''-'' # utoa (nat (- n)) else utoa (nat n))"

definition is_digit :: "char \<Rightarrow> bool" where
  "is_digit c \<longleftrightarrow> CHR ''0'' \<le> c \<and> c \<le> CHR ''9''"

definition digit_value :: "char \<Rightarrow> nat" where
  "digit_value c = of_char c - 48"

definition digits_value :: "string \<Rightarrow> nat" where
  "digits_value s = foldl (\<lambda>n c. 10 * n + digit_value c) 0 s"

text \<open>\<open>strconv.ParseUint\<close> and \<open>strconv.ParseInt\<close> in base 10: \<open>None\<close> is a syntax or a range error.\<close>

definition parse_uint :: "nat \<Rightarrow> string \<Rightarrow> nat option" where
  "parse_uint bits s =
     (if s \<noteq> [] \<and> list_all is_digit s \<and> digits_value s < 2 ^ bits then Some (digits_value s) else None)"

definition parse_int :: "nat \<Rightarrow> string \<Rightarrow> int option" where
  "parse_int bits s =
     (let negative = (s \<noteq> [] \<and> hd s = CHR ''-'');
          digits = (if s \<noteq> [] \<and> (hd s = CHR ''-'' \<or> hd s = CHR ''+'') then tl s else s) in
      if digits \<noteq> [] \<and> list_all is_digit digits \<and>
         digits_value digits \<le> (if negative then 2 ^ (bits - 1) else 2 ^ (bits - 1) - 1)
      then Some (if negative then - int (digits_value digits) else int (digits_value digits))
      else None)"

lemma digit_char_props [simp]:
  assumes "n < 10"
  shows "is_digit (digit_char n)" "digit_value (digit_char n) = n"
proof -
  have "\<forall>n\<in>{0..<10}. is_digit (digit_char n) \<and> digit_value (digit_char n) = n"
    by code_simp
  with assms show "is_digit (digit_char n)" "digit_value (digit_char n) = n" by simp_all
qed

lemma utoa_digits: "utoa n \<noteq> [] \<and> list_all is_digit (utoa n)"
proof (induction n rule: utoa.induct)
  case (1 n)
  then show ?case by (subst (1 2) utoa.simps) simp
qed

lemma utoa_not_Nil [simp]: "utoa n \<noteq> []" and utoa_all_digits [simp]: "list_all is_digit (utoa n)"
  using utoa_digits by simp_all

lemma digits_value_utoa [simp]: "digits_value (utoa n) = n"
proof (induction n rule: utoa.induct)
  case (1 n)
  then show ?case
    by (cases "n < 10"; subst utoa.simps) (simp_all add: digits_value_def)
qed

lemma is_digit_not [simp]:
  "\<not> is_digit CHR ''-''" "\<not> is_digit CHR ''+''" "\<not> is_digit CHR '' ''" "\<not> is_digit CHR '',''"
  "\<not> is_digit CHR '':''" "\<not> is_digit CHR ''/''" "\<not> is_digit CHR ''*''" "\<not> is_digit CHR ''.''"
  "\<not> is_digit CHR ''('' " "\<not> is_digit CHR '')''" "\<not> is_digit CHR ''_''" "\<not> is_digit (CHR 0x0A)"
  by code_simp+

lemma utoa_no: "\<not> is_digit c \<Longrightarrow> c \<notin> set (utoa n)"
  using utoa_all_digits [of n] by (metis list_all_iff)

lemma hd_utoa: "is_digit (hd (utoa n))"
  using utoa_digits [of n] by (cases "utoa n") auto

lemma utoa_inj: "utoa m = utoa n \<longleftrightarrow> m = n"
  by (metis digits_value_utoa)

lemma utoa_length: "n < 10 ^ k \<Longrightarrow> 0 < k \<Longrightarrow> length (utoa n) \<le> k"
proof (induction k arbitrary: n)
  case (Suc k)
  show ?case
  proof (cases "n < 10")
    case True
    then show ?thesis by (simp add: utoa.simps [of n])
  next
    case False
    then have "k \<noteq> 0" using Suc.prems(1) by (cases k) auto
    moreover have "n div 10 < 10 ^ k" using Suc.prems(1) by (simp add: less_mult_imp_div_less mult.commute)
    ultimately show ?thesis using Suc.IH [of "n div 10"] False by (simp add: utoa.simps [of n])
  qed
qed simp

lemma parse_uint_utoa: "n < 2 ^ bits \<Longrightarrow> parse_uint bits (utoa n) = Some n"
  by (simp add: parse_uint_def)

lemma parse_int_utoa: "n < 2 ^ (bits - 1) \<Longrightarrow> parse_int bits (utoa n) = Some (int n)"
proof -
  assume n: "n < 2 ^ (bits - 1)"
  have "hd (utoa n) \<noteq> CHR ''-''" "hd (utoa n) \<noteq> CHR ''+''"
    using hd_utoa [of n] by (metis is_digit_not(1), metis is_digit_not(2))
  with n show ?thesis by (auto simp: parse_int_def Let_def)
qed

lemma parse_int_itoa:
  assumes "- (2 ^ (bits - 1)) \<le> n" "n < 2 ^ (bits - 1)"
  shows "parse_int bits (itoa n) = Some n"
proof (cases "n < 0")
  case True
  then have "nat (- n) \<le> 2 ^ (bits - 1)" using assms(1) by (simp add: nat_le_iff)
  with True show ?thesis by (simp add: itoa_def parse_int_def)
next
  case False
  then have "nat n < 2 ^ (bits - 1)" using assms(2) by (simp add: nat_less_iff)
  from parse_int_utoa [OF this] False show ?thesis by (simp add: itoa_def)
qed

lemma parse_int_bounds:
  "parse_int bits s = Some n \<Longrightarrow> - (2 ^ (bits - 1)) \<le> n \<and> n < 2 ^ (bits - 1)"
proof -
  assume p: "parse_int bits s = Some n"
  have "int m \<le> 2 ^ k" if "m \<le> 2 ^ k" for m k :: nat
    using that by (metis of_nat_le_iff of_nat_numeral of_nat_power)
  moreover have "int m < 2 ^ k" if "m \<le> 2 ^ k - Suc 0" for m k :: nat
  proof -
    have "0 < (2 :: nat) ^ k" by simp
    with that have "m < 2 ^ k" by linarith
    then show ?thesis by (metis of_nat_less_iff of_nat_numeral of_nat_power)
  qed
  moreover have "- int m < 2 ^ k" for m k :: nat
    by (rule order.strict_trans1 [of _ 0]) simp_all
  ultimately show ?thesis using p
    by (auto simp: parse_int_def Let_def split: if_splits intro: order_trans [of _ 0])
qed

section \<open>Hexadecimal\<close>

definition hex_digits :: string where "hex_digits = ''0123456789abcdef''"

definition hex_encode :: "bytes \<Rightarrow> string" where
  "hex_encode data =
     concat (map (\<lambda>b. [hex_digits ! (unat b div 16), hex_digits ! (unat b mod 16)]) data)"

definition hex_value :: "char \<Rightarrow> nat option" where
  "hex_value c =
     (if is_digit c then Some (of_char c - 48)
      else if CHR ''a'' \<le> c \<and> c \<le> CHR ''f'' then Some (of_char c - 87)
      else if CHR ''A'' \<le> c \<and> c \<le> CHR ''F'' then Some (of_char c - 55)
      else None)"

fun hex_decode :: "string \<Rightarrow> bytes option" where
  "hex_decode [] = Some []"
| "hex_decode [c] = None"
| "hex_decode (c # d # s) =
     (case (hex_value c, hex_value d, hex_decode s) of
        (Some hi, Some lo, Some bs) \<Rightarrow> Some (of_nat (16 * hi + lo) # bs)
      | _ \<Rightarrow> None)"

lemma hex_value_digit: "n < 16 \<Longrightarrow> hex_value (hex_digits ! n) = Some n"
proof -
  assume "n < 16"
  moreover have "\<forall>n\<in>{0..<16}. hex_value (hex_digits ! n) = Some n" by code_simp
  ultimately show ?thesis by simp
qed

lemma hex_encode_simps [simp]:
  "hex_encode [] = []"
  "hex_encode (b # data) = hex_digits ! (unat b div 16) # hex_digits ! (unat b mod 16) # hex_encode data"
  by (simp_all add: hex_encode_def)

lemma hex_encode_length [simp]: "length (hex_encode data) = 2 * length data"
  by (induction data) simp_all

lemma hex_decode_encode [simp]: "hex_decode (hex_encode data) = Some data"
proof (induction data)
  case (Cons b data)
  have "unat b < 256" using unsigned_less [of b] by simp
  then have "unat b div 16 < 16" by (simp add: less_mult_imp_div_less)
  moreover have "of_nat (16 * (unat b div 16) + unat b mod 16) = b" by (simp add: word_unat_eq_iff del: of_nat_add of_nat_mult)
  ultimately show ?case using Cons by (simp add: hex_value_digit del: of_nat_add of_nat_mult)
qed simp

end
