(* ===== verification/Svn_Checksum.thy ===== *)
theory Svn_Checksum
  imports Go_Strings
begin

text \<open>
  Checksums, \<^verbatim>\<open>svn/checksum.go\<close>: kinds, computation, serialisation and parsing. The MD5 and SHA-1
  functions are parameters; FNV-1a is written out. The lemmas give the round trip of the
  serialised form.
\<close>

datatype ChecksumKind = ChecksumMD5 | ChecksumSHA1 | ChecksumFNV1a32 | ChecksumOther byte

datatype checksum = Checksum (checksum_kind: ChecksumKind) (Digest: bytes)

datatype checksum_error = BadChecksumParse | BadChecksumKind

fun kind_string :: "ChecksumKind \<Rightarrow> string" where
  "kind_string ChecksumMD5 = ''md5''"
| "kind_string ChecksumSHA1 = ''sha1''"
| "kind_string ChecksumFNV1a32 = ''fnv1''"
| "kind_string (ChecksumOther k) = ''ChecksumKind('' @ utoa (unat k) @ '')''"

text \<open>The 32-bit FNV-1a hash, and its big-endian digest.\<close>

definition fnv1a :: "bytes \<Rightarrow> u32" where
  "fnv1a data = foldl (\<lambda>h b. (h XOR ucast b) * 16777619) 2166136261 data"

definition put_u32 :: "u32 \<Rightarrow> bytes" where
  "put_u32 v = [ucast (drop_bit 24 v), ucast (drop_bit 16 v), ucast (drop_bit 8 v), ucast v]"

definition Sum :: "(bytes \<Rightarrow> bytes) \<Rightarrow> (bytes \<Rightarrow> bytes) \<Rightarrow> ChecksumKind \<Rightarrow> bytes \<Rightarrow> checksum" where
  "Sum md5 sha1 kind data =
     (case kind of
        ChecksumMD5 \<Rightarrow> Checksum kind (md5 data)
      | ChecksumSHA1 \<Rightarrow> Checksum kind (sha1 data)
      | ChecksumFNV1a32 \<Rightarrow> Checksum kind (put_u32 (fnv1a data))
      | ChecksumOther k \<Rightarrow> Checksum kind [])"

fun checksumSize :: "ChecksumKind \<Rightarrow> nat" where
  "checksumSize ChecksumMD5 = 16"
| "checksumSize ChecksumSHA1 = 20"
| "checksumSize ChecksumFNV1a32 = 4"
| "checksumSize (ChecksumOther k) = 0"

definition ParseChecksumHex :: "ChecksumKind \<Rightarrow> string \<Rightarrow> checksum_error + checksum" where
  "ParseChecksumHex kind s =
     (if checksumSize kind = 0 then Inl BadChecksumKind
      else if length s \<noteq> checksumSize kind * 2 then Inl BadChecksumParse
      else case hex_decode s of
          None \<Rightarrow> Inl BadChecksumParse
        | Some digest \<Rightarrow> Inr (Checksum kind digest))"

definition checksum_prefixes :: "(string \<times> ChecksumKind) list" where
  "checksum_prefixes =
     [(''$md5 $'', ChecksumMD5), (''$md5$'', ChecksumMD5), (''$sha1$'', ChecksumSHA1),
      (''$fnv1$'', ChecksumFNV1a32)]"

definition ParseChecksum :: "string \<Rightarrow> checksum_error + checksum" where
  "ParseChecksum s =
     (case List.find (\<lambda>(prefix, _). HasPrefix s prefix) checksum_prefixes of
        Some (prefix, kind) \<Rightarrow> ParseChecksumHex kind (drop (length prefix) s)
      | None \<Rightarrow>
          if length s = 32 then ParseChecksumHex ChecksumMD5 s
          else if length s = 40 then ParseChecksumHex ChecksumSHA1 s
          else if length s = 8 then ParseChecksumHex ChecksumFNV1a32 s
          else Inl BadChecksumParse)"

definition Hex :: "checksum \<Rightarrow> string" where
  "Hex c = hex_encode (Digest c)"

definition Serialize :: "checksum \<Rightarrow> string" where
  "Serialize c =
     (if checksum_kind c = ChecksumMD5 then ''$md5 $''
      else ''$'' @ kind_string (checksum_kind c) @ ''$'') @ Hex c"

definition Equal :: "checksum \<Rightarrow> checksum \<Rightarrow> bool" where
  "Equal a b \<longleftrightarrow> checksum_kind a = checksum_kind b \<and> Digest a = Digest b"

definition IsEmpty :: "(bytes \<Rightarrow> bytes) \<Rightarrow> (bytes \<Rightarrow> bytes) \<Rightarrow> checksum \<Rightarrow> bool" where
  "IsEmpty md5 sha1 c \<longleftrightarrow> Equal c (Sum md5 sha1 (checksum_kind c) [])"

section \<open>Round trip\<close>

text \<open>A checksum of a known kind with a digest of that kind's size.\<close>

definition checksum_wf :: "checksum \<Rightarrow> bool" where
  "checksum_wf c \<longleftrightarrow> checksumSize (checksum_kind c) \<noteq> 0 \<and> length (Digest c) = checksumSize (checksum_kind c)"

lemma Equal_eq [simp]: "Equal a b \<longleftrightarrow> a = b"
  by (cases a; cases b) (auto simp: Equal_def)

lemma ParseChecksumHex_Hex:
  "checksum_wf c \<Longrightarrow> ParseChecksumHex (checksum_kind c) (Hex c) = Inr c"
  by (cases c) (auto simp: checksum_wf_def ParseChecksumHex_def Hex_def)

lemma ParseChecksumHex_wf: "ParseChecksumHex kind s = Inr c \<Longrightarrow> checksum_wf c \<and> checksum_kind c = kind"
proof -
  assume p: "ParseChecksumHex kind s = Inr c"
  have "hex_decode s = Some ds \<Longrightarrow> length s = 2 * length ds" for s ds
    by (induction s arbitrary: ds rule: hex_decode.induct) (auto split: option.splits)
  with p show ?thesis
    by (auto simp: ParseChecksumHex_def checksum_wf_def split: if_splits option.splits)
qed

lemma hex_digit_not_dollar: "hex_digits ! (unat (b :: byte) div 16) \<noteq> CHR ''$''"
proof -
  have "unat b < 256" using unsigned_less [of b] by simp
  then have "unat b div 16 < 16" by (simp add: less_mult_imp_div_less)
  moreover have "\<forall>n\<in>{0..<16}. hex_digits ! n \<noteq> CHR ''$''" by code_simp
  ultimately show ?thesis by simp
qed

lemma ParseChecksum_Hex:
  assumes "checksum_wf c"
  shows "ParseChecksum (Hex c) = Inr c"
proof -
  obtain b ds where d: "Digest c = b # ds"
    using assms by (cases "Digest c") (auto simp: checksum_wf_def)
  have "List.find (\<lambda>(prefix, _). HasPrefix (Hex c) prefix) checksum_prefixes = None"
    using hex_digit_not_dollar [of b] by (simp add: checksum_prefixes_def Hex_def d)
  moreover have "length (Hex c) = 2 * checksumSize (checksum_kind c)"
    using assms by (simp add: checksum_wf_def Hex_def)
  ultimately show ?thesis
    using ParseChecksumHex_Hex [OF assms] assms
    by (cases "checksum_kind c") (simp_all add: ParseChecksum_def checksum_wf_def)
qed

lemma ParseChecksum_Serialize:
  assumes "checksum_wf c"
  shows "ParseChecksum (Serialize c) = Inr c"
  using ParseChecksumHex_Hex [OF assms] assms
  by (cases "checksum_kind c")
    (simp_all add: ParseChecksum_def Serialize_def checksum_prefixes_def checksum_wf_def)

lemma put_u32_length: "length (put_u32 v) = 4"
  by (simp add: put_u32_def)

lemma Sum_wf:
  "\<forall>d. length (md5 d) = 16 \<Longrightarrow> \<forall>d. length (sha1 d) = 20 \<Longrightarrow> checksumSize kind \<noteq> 0 \<Longrightarrow>
     checksum_wf (Sum md5 sha1 kind data)"
  by (cases kind) (simp_all add: Sum_def checksum_wf_def put_u32_length)

section \<open>Properties\<close>

text \<open>a checksum with a digest of its kind's size is read back from its serialised form and
  from its bare hexadecimal form.\<close>

theorem checksum_roundtrip:
  assumes "checksum_wf c"
  shows "ParseChecksum (Serialize c) = Inr c \<and> ParseChecksum (Hex c) = Inr c"
  using ParseChecksum_Serialize [OF assms] ParseChecksum_Hex [OF assms] ..

theorem checksum_roundtrip_witness:
  "ParseChecksum (Serialize (Checksum ChecksumFNV1a32 (put_u32 (fnv1a [1, 2])))) =
     Inr (Checksum ChecksumFNV1a32 (put_u32 (fnv1a [1, 2]))) \<and>
   ParseChecksum (Hex (Checksum ChecksumFNV1a32 (put_u32 (fnv1a [1, 2])))) =
     Inr (Checksum ChecksumFNV1a32 (put_u32 (fnv1a [1, 2])))"
  by (rule checksum_roundtrip) (simp add: checksum_wf_def put_u32_length)

end
