(* ===== verification/Delta_Stream.thy ===== *)
theory Delta_Stream
  imports Delta_Svndiff Svn_Checksum
begin

text \<open>
  Producing and applying streams of windows, \<^verbatim>\<open>delta/txstream.go\<close> and \<^verbatim>\<open>delta/apply.go\<close>. A reader
  is the bytes it still has and whether it fails after them; the MD5 function is a parameter, a
  digest the bytes written to it so far. The lemmas show that the windows a stream produces are
  valid, that \<open>Apply\<close> rebuilds the target from them, also after the windows went through the
  svndiff encoder and decoder.
\<close>

section \<open>Readers\<close>

record reader =
  reader_data :: bytes
  reader_fails :: bool

definition bytes_reader :: "bytes \<Rightarrow> reader" where
  "bytes_reader data = \<lparr>reader_data = data, reader_fails = False\<rparr>"

text \<open>
  \<open>readWindowChunk\<close> reads up to \<open>MaxWindowSize\<close> bytes; its callers treat the end of the input
  like an empty chunk.
\<close>

definition readWindowChunk :: "reader \<Rightarrow> bytes option \<times> reader" where
  "readWindowChunk r =
     (if length (reader_data r) < MaxWindowSize \<and> reader_fails r
      then (None, r\<lparr>reader_data := []\<rparr>)
      else (Some (take MaxWindowSize (reader_data r)),
            r\<lparr>reader_data := drop MaxWindowSize (reader_data r)\<rparr>))"

section \<open>The delta stream\<close>

record tx_stream =
  tx_source :: reader
  tx_target :: reader
  tx_digest :: bytes
  tx_offset :: int
  tx_done :: bool
  tx_checksum :: "checksum option"

definition NewTxDeltaStream :: "reader option \<Rightarrow> reader option \<Rightarrow> tx_stream" where
  "NewTxDeltaStream source target =
     \<lparr>tx_source = (case source of None \<Rightarrow> bytes_reader [] | Some r \<Rightarrow> r),
      tx_target = (case target of None \<Rightarrow> bytes_reader [] | Some r \<Rightarrow> r),
      tx_digest = [], tx_offset = 0, tx_done = False, tx_checksum = None\<rparr>"

definition tx_next :: "(bytes \<Rightarrow> bytes) \<Rightarrow> tx_stream \<Rightarrow> (delta_error + window) \<times> tx_stream" where
  "tx_next md5 stream =
     (if tx_done stream then (Inl DeltaEOF, stream)
      else case readWindowChunk (tx_target stream) of
          (None, target') \<Rightarrow> (Inl ReadDeltaTarget, stream\<lparr>tx_target := target'\<rparr>)
        | (Some target, target') \<Rightarrow>
            if target = [] then
              (Inl DeltaEOF,
               stream\<lparr>tx_target := target', tx_done := True,
                      tx_checksum := Some (Checksum ChecksumMD5 (md5 (tx_digest stream)))\<rparr>)
            else
              case readWindowChunk (tx_source stream) of
                (None, source') \<Rightarrow>
                  (Inl ReadDeltaSource, stream\<lparr>tx_target := target', tx_source := source'\<rparr>)
              | (Some source, source') \<Rightarrow>
                  (Inr (buildWindow source target (tx_offset stream)),
                   stream\<lparr>tx_target := target', tx_source := source',
                          tx_digest := tx_digest stream @ target,
                          tx_offset := tx_offset stream + int (length source)\<rparr>))"

definition MD5 :: "tx_stream \<Rightarrow> checksum option" where
  "MD5 stream = tx_checksum stream"

lemma tx_next_shrinks:
  "tx_next md5 stream = (Inr w, stream') \<Longrightarrow>
     length (reader_data (tx_target stream')) < length (reader_data (tx_target stream))"
  by (auto simp: tx_next_def readWindowChunk_def MaxWindowSize_def split: if_splits option.splits prod.splits)

text \<open>
  \<open>SendStream\<close>: the handler is a function from its state and a window to its next state, where
  \<open>None\<close> stands for the call of \<open>Close\<close>, as in \<open>WindowHandlerFunc\<close>.
\<close>

type_synonym 'h handler = "'h \<Rightarrow> window option \<Rightarrow> delta_error + 'h"

function send_loop ::
    "(bytes \<Rightarrow> bytes) \<Rightarrow> 'h handler \<Rightarrow> tx_stream \<Rightarrow> 'h \<Rightarrow> delta_error + tx_stream \<times> 'h" where
  "send_loop md5 handle stream h =
     (case tx_next md5 stream of
        (Inl e, stream') \<Rightarrow> if e = DeltaEOF then Inr (stream', h) else Inl e
      | (Inr w, stream') \<Rightarrow>
          (case handle h (Some w) of
             Inl e \<Rightarrow> Inl e
           | Inr h' \<Rightarrow> send_loop md5 handle stream' h'))"
  by pat_completeness auto
termination
  by (relation "measure (\<lambda>(md5, handle, stream, h). length (reader_data (tx_target stream)))")
    (auto dest: tx_next_shrinks [OF sym])

declare send_loop.simps [simp del]

definition SendStream ::
    "(bytes \<Rightarrow> bytes) \<Rightarrow> reader option \<Rightarrow> reader option \<Rightarrow> 'h handler \<Rightarrow> 'h \<Rightarrow> delta_error + checksum \<times> 'h"
where
  "SendStream md5 source target handle h =
     (case send_loop md5 handle (NewTxDeltaStream source target) h of
        Inl e \<Rightarrow> Inl e
      | Inr (stream, h1) \<Rightarrow>
          (case handle h1 None of
             Inl e \<Rightarrow> Inl e
           | Inr h2 \<Rightarrow> (case MD5 stream of None \<Rightarrow> Inl Panic | Some c \<Rightarrow> Inr (c, h2))))"

definition SendString ::
    "(bytes \<Rightarrow> bytes) \<Rightarrow> bytes \<Rightarrow> bytes \<Rightarrow> 'h handler \<Rightarrow> 'h \<Rightarrow> delta_error + checksum \<times> 'h" where
  "SendString md5 source target = SendStream md5 (Some (bytes_reader source)) (Some (bytes_reader target))"

definition SendContents ::
    "(bytes \<Rightarrow> bytes) \<Rightarrow> bytes \<Rightarrow> 'h handler \<Rightarrow> 'h \<Rightarrow> delta_error + checksum \<times> 'h" where
  "SendContents md5 contents = SendStream md5 None (Some (bytes_reader contents))"

section \<open>Apply\<close>

text \<open>
  The source view of a window: a slice of the source file. A negative length is a run-time
  panic when the view is resliced, a negative offset an error of \<open>Seek\<close>, and a view past the
  end of the source an error of \<open>ReadFull\<close>.
\<close>

definition read_view :: "bytes \<Rightarrow> window \<Rightarrow> delta_error + bytes" where
  "read_view source w =
     (if SourceLength w < 0 then Inl Panic
      else if SourceLength w = 0 then Inr []
      else if SourceOffset w < 0 then Inl SeekSource
      else if SourceOffset w + SourceLength w > int (length source) then Inl ReadSource
      else Inr (take (nat (SourceLength w)) (drop (nat (SourceOffset w)) source)))"

text \<open>
  The loop of \<open>Apply\<close> over a window reader, a function from its state to a result and its next
  state; the loop need not end, and then the value is \<open>None\<close>. The bytes written to the target
  are those written to the digest.
\<close>

partial_function (option) apply_loop ::
    "('s \<Rightarrow> (delta_error + window option) \<times> 's) \<Rightarrow> bytes \<Rightarrow> bytes \<Rightarrow> 's \<Rightarrow> (delta_error + bytes) option"
where
  "apply_loop next_window source out s =
     (case next_window s of
        (Inl e, s') \<Rightarrow> if e = DeltaEOF then Some (Inr out) else Some (Inl e)
      | (Inr None, s') \<Rightarrow> Some (Inl CorruptWindow)
      | (Inr (Some w), s') \<Rightarrow>
          (case read_view source w of
             Inl e \<Rightarrow> Some (Inl e)
           | Inr view \<Rightarrow>
               (case ApplyWindow view w of
                  Inl e \<Rightarrow> Some (Inl e)
                | Inr contents \<Rightarrow> apply_loop next_window source (out @ contents) s')))"

definition Apply ::
    "(bytes \<Rightarrow> bytes) \<Rightarrow> bytes option \<Rightarrow> ('s \<Rightarrow> (delta_error + window option) \<times> 's) \<Rightarrow> 's \<Rightarrow>
      checksum option \<Rightarrow> (delta_error + bytes \<times> checksum) option" where
  "Apply md5 source next_window s expectedMD5 =
     (case apply_loop next_window (case source of None \<Rightarrow> [] | Some bs \<Rightarrow> bs) [] s of
        None \<Rightarrow> None
      | Some (Inl e) \<Rightarrow> Some (Inl e)
      | Some (Inr out) \<Rightarrow>
          let actual = Checksum ChecksumMD5 (md5 out) in
          (case expectedMD5 of
             Some expected \<Rightarrow>
               if \<not> Equal actual expected then Some (Inl ChecksumMismatch)
               else Some (Inr (out, actual))
           | None \<Rightarrow> Some (Inr (out, actual))))"

text \<open>The window readers: a slice of windows, and a decoder.\<close>

fun slice_next :: "window list \<Rightarrow> (delta_error + window option) \<times> window list" where
  "slice_next [] = (Inl DeltaEOF, [])"
| "slice_next (w # ws) = (Inr (Some w), ws)"

definition decoder_next :: "inflater \<Rightarrow> decoder \<Rightarrow> (delta_error + window option) \<times> decoder" where
  "decoder_next inflate d =
     (case NextWindow inflate d of
        Inl e \<Rightarrow> (Inl e, d)
      | Inr (w, d') \<Rightarrow> (Inr (Some w), d'))"

section \<open>The windows of a stream\<close>

text \<open>Source and target cut into chunks in lockstep: what the stream computes lazily.\<close>

function delta_windows :: "bytes \<Rightarrow> bytes \<Rightarrow> int \<Rightarrow> window list" where
  "delta_windows source target offset =
     (if target = [] then []
      else buildWindow (take MaxWindowSize source) (take MaxWindowSize target) offset #
        delta_windows (drop MaxWindowSize source) (drop MaxWindowSize target)
          (offset + int (length (take MaxWindowSize source))))"
  by pat_completeness auto
termination
  by (relation "measure (\<lambda>(source, target, offset). length target)")
    (simp_all add: MaxWindowSize_def)

declare delta_windows.simps [simp del]

fun feed :: "'h handler \<Rightarrow> 'h \<Rightarrow> window list \<Rightarrow> delta_error + 'h" where
  "feed handle h [] = Inr h"
| "feed handle h (w # ws) =
     (case handle h (Some w) of Inl e \<Rightarrow> Inl e | Inr h' \<Rightarrow> feed handle h' ws)"

lemma MaxWindowSize_pos [simp]: "0 < MaxWindowSize" "MaxWindowSize \<noteq> 0"
  by (simp_all add: MaxWindowSize_def)

lemma send_loop_windows:
  assumes "tx_source stream = bytes_reader source" "tx_target stream = bytes_reader target"
    and "\<not> tx_done stream"
  shows "case feed handle h (delta_windows source target (tx_offset stream)) of
      Inl e \<Rightarrow> send_loop hash handle stream h = Inl e
    | Inr h' \<Rightarrow> \<exists>stream'. send_loop hash handle stream h = Inr (stream', h') \<and>
        MD5 stream' = Some (Checksum ChecksumMD5 (hash (tx_digest stream @ target)))"
  using assms
proof (induction source target "tx_offset stream" arbitrary: stream h rule: delta_windows.induct)
  case (1 source target)
  show ?case
  proof (cases "target = []")
    case True
    with "1.prems" show ?thesis
      by (simp add: delta_windows.simps send_loop.simps tx_next_def readWindowChunk_def
          bytes_reader_def MD5_def)
  next
    case False
    let ?s = "take MaxWindowSize source" and ?t = "take MaxWindowSize target"
    let ?w = "buildWindow ?s ?t (tx_offset stream)"
    let ?stream = "stream\<lparr>tx_target := bytes_reader (drop MaxWindowSize target),
        tx_source := bytes_reader (drop MaxWindowSize source), tx_digest := tx_digest stream @ ?t,
        tx_offset := tx_offset stream + int (length ?s)\<rparr>"
    have step: "tx_next hash stream = (Inr ?w, ?stream)"
      using "1.prems" False by (simp add: tx_next_def readWindowChunk_def bytes_reader_def)
    show ?thesis
    proof (cases "handle h (Some ?w)")
      case (Inl e)
      then show ?thesis
        using False by (simp add: delta_windows.simps [of source target] send_loop.simps [of hash handle stream] step)
    next
      case (Inr h')
      then have "send_loop hash handle stream h = send_loop hash handle ?stream h'"
        by (simp add: send_loop.simps [of hash handle stream] step)
      moreover have "feed handle h (delta_windows source target (tx_offset stream)) =
          feed handle h' (delta_windows (drop MaxWindowSize source) (drop MaxWindowSize target)
            (tx_offset ?stream))"
        using False Inr by (simp add: delta_windows.simps [of source target])
      ultimately show ?thesis
        using "1.hyps" [OF False, of ?stream h'] "1.prems"(3) by (simp split: sum.splits)
    qed
  qed
qed

lemma SendString_feed:
  "SendString md5 source target handle h =
     (case feed handle h (delta_windows source target 0) of
        Inl e \<Rightarrow> Inl e
      | Inr h1 \<Rightarrow>
          (case handle h1 None of
             Inl e \<Rightarrow> Inl e
           | Inr h2 \<Rightarrow> Inr (Checksum ChecksumMD5 (md5 target), h2)))"
proof -
  let ?stream = "NewTxDeltaStream (Some (bytes_reader source)) (Some (bytes_reader target))"
  have "tx_source ?stream = bytes_reader source" "tx_target ?stream = bytes_reader target"
    "\<not> tx_done ?stream" "tx_offset ?stream = 0" "tx_digest ?stream = []"
    by (simp_all add: NewTxDeltaStream_def)
  with send_loop_windows [of ?stream source target, where handle = handle and h = h and hash = md5] show ?thesis
    by (auto simp: SendString_def SendStream_def split: sum.splits)
qed

section \<open>Applying windows\<close>

fun apply_windows :: "bytes \<Rightarrow> bytes \<Rightarrow> window list \<Rightarrow> delta_error + bytes" where
  "apply_windows source out [] = Inr out"
| "apply_windows source out (w # ws) =
     (case read_view source w of
        Inl e \<Rightarrow> Inl e
      | Inr view \<Rightarrow>
          (case ApplyWindow view w of
             Inl e \<Rightarrow> Inl e
           | Inr contents \<Rightarrow> apply_windows source (out @ contents) ws))"

text \<open>
  The contract of a window reader towards \<open>Apply\<close>: in a state that \<open>yields\<close> a list of windows,
  the calls give its windows in order and then the end of the stream.
\<close>

locale window_reader =
  fixes next_window :: "'s \<Rightarrow> (delta_error + window option) \<times> 's"
    and yields :: "'s \<Rightarrow> window list \<Rightarrow> bool"
  assumes next_end: "yields s [] \<Longrightarrow> fst (next_window s) = Inl DeltaEOF"
    and next_some: "yields s (w # ws) \<Longrightarrow> \<exists>s'. next_window s = (Inr (Some w), s') \<and> yields s' ws"
begin

lemma apply_loop_yields:
  "yields s ws \<Longrightarrow> apply_loop next_window source out s = Some (apply_windows source out ws)"
proof (induction ws arbitrary: s out)
  case Nil
  then show ?case
    using next_end [of s] by (subst apply_loop.simps) (auto split: prod.splits)
next
  case (Cons w ws)
  then obtain s' where "next_window s = (Inr (Some w), s')" "yields s' ws"
    using next_some by blast
  with Cons.IH show ?case
    by (subst apply_loop.simps) (simp split: sum.split)
qed

lemma Apply_yields:
  assumes "yields s ws" "apply_windows source [] ws = Inr target"
  shows "Apply md5 (Some source) next_window s (Some (Checksum ChecksumMD5 (md5 target))) =
     Some (Inr (target, Checksum ChecksumMD5 (md5 target)))"
    and "Apply md5 (Some source) next_window s None =
     Some (Inr (target, Checksum ChecksumMD5 (md5 target)))"
  using apply_loop_yields [OF assms(1), of source "[]"] assms(2) by (simp_all add: Apply_def)

end

interpretation slice_reader: window_reader slice_next "\<lambda>s ws. s = ws"
  by unfold_locales auto

text \<open>
  \<open>Apply\<close> on a decoder ends whatever the decoder reads: every window takes at least its header from
  the input.
\<close>

lemma readVarint_shrinks: "readVarint stream = Inr (v, rest) \<Longrightarrow> length rest < length stream"
proof -
  have "readVarint_loop n v0 stream = Inr (v, rest) \<Longrightarrow> length rest < length stream" for n v0 stream
    by (induction n v0 stream rule: readVarint_loop.induct) (auto split: if_splits)
  then show "readVarint stream = Inr (v, rest) \<Longrightarrow> length rest < length stream"
    by (simp add: readVarint_def)
qed

lemma decode_count_shrinks:
  "decode_count readVarint n stream = Inr (vs, rest) \<Longrightarrow> length rest + n \<le> length stream"
proof (induction n arbitrary: stream vs)
  case (Suc n)
  then show ?case by (fastforce split: sum.splits dest: readVarint_shrinks)
qed simp

lemma readSection_shrinks:
  "readSection inflate reader n version limit = Inr (section_data, rest) \<Longrightarrow> length rest \<le> length reader"
  by (auto simp: readSection_def Let_def split: if_splits sum.splits prod.splits option.splits)

lemma NextWindow_shrinks:
  assumes "NextWindow inflate d = Inr (w, d')"
  shows "length (dec_reader d') < length (dec_reader d)"
proof -
  obtain header r1 r2 instructions data where "decode_count readVarint 5 (dec_reader d) = Inr (header, r1)"
      "readSection inflate r1 (unat (header ! 3)) (dec_version d) maxInstructionSectionSize = Inr (instructions, r2)"
      "readSection inflate r2 (unat (header ! 4)) (dec_version d) MaxWindowSize = Inr (data, dec_reader d')"
    using assms by (auto simp: NextWindow_def Let_def split: if_splits sum.splits prod.splits)
  then show ?thesis by (fastforce dest: decode_count_shrinks readSection_shrinks)
qed

lemma apply_loop_decoder: "apply_loop (decoder_next inflate) source out d \<noteq> None"
proof (induction "length (dec_reader d)" arbitrary: d out rule: less_induct)
  case less
  show ?case
  proof (cases "NextWindow inflate d")
    case (Inl e)
    then show ?thesis by (subst apply_loop.simps) (simp add: decoder_next_def)
  next
    case (Inr r)
    obtain w d' where r: "r = (w, d')" by force
    have "apply_loop (decoder_next inflate) source out' d' \<noteq> None" for out'
      using less NextWindow_shrinks [of inflate d w d'] Inr r by simp
    then show ?thesis
      by (subst apply_loop.simps) (simp add: decoder_next_def Inr r split: sum.split)
  qed
qed

lemma Apply_decoder_returns: "Apply md5 source (decoder_next inflate) d expectedMD5 \<noteq> None"
  using apply_loop_decoder [of inflate "case source of None \<Rightarrow> [] | Some bs \<Rightarrow> bs" "[]" d]
  by (auto simp: Apply_def Let_def split: option.split sum.split)

definition decoder_yields :: "inflater \<Rightarrow> decoder \<Rightarrow> window list \<Rightarrow> bool" where
  "decoder_yields inflate d ws \<longleftrightarrow>
     (\<exists>bss. list_all2 (window_on_wire inflate (dec_version d)) ws bss \<and> dec_reader d = concat bss) \<and>
     (\<forall>w\<in>set ws. transportable (dec_version d) w) \<and> sorted (map SourceOffset ws) \<and>
     (\<forall>w\<in>set ws. dec_started d \<longrightarrow> dec_last d \<le> SourceOffset w)"

interpretation decoder_reader: window_reader "decoder_next inflate" "decoder_yields inflate"
proof
  fix s
  assume "decoder_yields inflate s []"
  then show "fst (decoder_next inflate s) = Inl DeltaEOF"
    by (auto simp: decoder_yields_def decoder_next_def NextWindow_end)
next
  fix s w ws
  assume y: "decoder_yields inflate s (w # ws)"
  then obtain bs bss where b: "window_on_wire inflate (dec_version s) w bs"
      "list_all2 (window_on_wire inflate (dec_version s)) ws bss" "dec_reader s = bs @ concat bss"
    by (auto simp: decoder_yields_def list_all2_Cons1)
  let ?s = "s\<lparr>dec_reader := concat bss, dec_started := True, dec_last := SourceOffset w\<rparr>"
  have "NextWindow inflate s = Inr (w, ?s)"
    using y b by (intro NextWindow_wire [OF b(1)]) (auto simp: decoder_yields_def)
  moreover have "decoder_yields inflate ?s ws"
    using y b by (auto simp: decoder_yields_def)
  ultimately show "\<exists>s'. decoder_next inflate s = (Inr (Some w), s') \<and> decoder_yields inflate s' ws"
    by (simp add: decoder_next_def)
qed

lemma apply_windows_delta:
  assumes "drop (nat offset) whole = source" "0 \<le> offset" "nat offset \<le> length whole"
  shows "apply_windows whole out (delta_windows source target offset) = Inr (out @ target)"
  using assms
proof (induction source target offset arbitrary: out rule: delta_windows.induct)
  case (1 source target offset)
  show ?case
  proof (cases "target = []")
    case True
    then show ?thesis by (simp add: delta_windows.simps)
  next
    case False
    let ?s = "take MaxWindowSize source" and ?t = "take MaxWindowSize target"
    let ?w = "buildWindow ?s ?t offset" and ?o = "offset + int (length ?s)"
    have "offset + int (length ?s) \<le> int (length whole)"
      using "1.prems" by (auto simp flip: "1.prems"(1))
    moreover have "take (length ?s) (drop (nat offset) whole) = ?s"
      by (simp add: "1.prems"(1) min_def)
    ultimately have "read_view whole ?w = Inr ?s"
      using "1.prems"(2) by (auto simp: read_view_def buildWindow_fields)
    moreover have "ApplyWindow ?s ?w = Inr ?t"
      using "1.prems"(2) by (rule buildWindow_apply)
    moreover have "drop (nat ?o) whole = drop MaxWindowSize source"
    proof -
      have "nat ?o = length ?s + nat offset" using "1.prems"(2) by simp
      then have "drop (nat ?o) whole = drop (length ?s) source"
        by (simp only: drop_drop [symmetric] "1.prems"(1))
      then show ?thesis by (simp add: min_def)
    qed
    moreover have "nat ?o \<le> length whole" "0 \<le> ?o"
      using \<open>offset + int (length ?s) \<le> int (length whole)\<close> "1.prems"(2) by simp_all
    ultimately show ?thesis
      using "1.IH" [OF False, of "out @ ?t"] False
      by (simp add: delta_windows.simps [of source target])
  qed
qed

section \<open>Through the encoder and back\<close>

lemma new_end_bound:
  "new_end k ops = Some j \<Longrightarrow> ops_in_bounds n m p ops \<Longrightarrow> j \<le> k + ops_length ops"
proof (induction ops arbitrary: k p)
  case (Cons operation ops)
  have "j \<le> (if Kind operation = OpNew then k + Length operation else k) + ops_length ops"
    using Cons.prems by (intro Cons.IH [of _ "p + Length operation"]) (auto split: if_splits)
  moreover have "0 < Length operation" using Cons.prems(2) by (simp add: op_in_bounds_def)
  ultimately show ?case by (auto split: if_splits)
qed simp

lemma buildWindow_new_data: 
  assumes "0 \<le> offset"
  shows "length (NewData (buildWindow source target offset)) \<le> length target"
proof -
  let ?w = "buildWindow source target offset"
  have "new_end 0 (Ops ?w) = Some (int (length (NewData ?w)))"
    using buildWindow_fields(4) by (simp add: sequential_def)
  moreover have "ops_in_bounds (nat (SourceLength ?w)) (length (NewData ?w)) 0 (Ops ?w)"
    "ops_length (Ops ?w) = int (length target)"
    using buildWindow_Validate [OF assms, of source target]
    by (simp_all add: Validate_iff buildWindow_fields)
  ultimately show ?thesis using new_end_bound by fastforce
qed

lemma delta_windows_offsets:
  assumes "w \<in> set (delta_windows source target offset)" "0 \<le> offset"
  shows "offset \<le> SourceOffset w \<and> SourceOffset w \<le> offset + int (length source)"
  using assms
proof (induction source target offset rule: delta_windows.induct)
  case (1 source target offset)
  then show ?case
    by (subst (asm) (2) delta_windows.simps) (fastforce simp: buildWindow_fields split: if_splits)
qed

lemma delta_windows_sorted:
  "0 \<le> offset \<Longrightarrow> sorted (map SourceOffset (delta_windows source target offset))"
proof (induction source target offset rule: delta_windows.induct)
  case (1 source target offset)
  let ?o = "offset + int (length (take MaxWindowSize source))"
  have "offset \<le> SourceOffset w"
    if "w \<in> set (delta_windows (drop MaxWindowSize source) (drop MaxWindowSize target) ?o)" for w
    using delta_windows_offsets [OF that] "1.prems" by simp
  with 1 show ?case by (subst delta_windows.simps) (simp add: buildWindow_fields)
qed

lemma delta_windows_valid:
  assumes "w \<in> set (delta_windows source target offset)" "0 \<le> offset"
    and "offset + int (length source) \<le> max_int"
  shows "Validate w = Inr () \<and> sequential w \<and> SourceOffset w \<le> max_int \<and>
    SourceLength w \<le> int MaxWindowSize \<and> TargetLength w \<le> int MaxWindowSize \<and>
    length (NewData w) \<le> MaxWindowSize \<and> length (NewData w) \<le> length target"
  using assms
proof (induction source target offset rule: delta_windows.induct)
  case (1 source target offset)
  let ?w = "buildWindow (take MaxWindowSize source) (take MaxWindowSize target) offset"
  let ?o = "offset + int (length (take MaxWindowSize source))"
  consider "target \<noteq> []" "w = ?w"
    | "target \<noteq> []"
      "w \<in> set (delta_windows (drop MaxWindowSize source) (drop MaxWindowSize target) ?o)"
    using "1.prems"(1) by (subst (asm) delta_windows.simps) (auto split: if_splits)
  then show ?case
  proof cases
    case 1
    then show ?thesis
      using "1.prems" buildWindow_Validate [OF "1.prems"(2)] buildWindow_new_data [OF "1.prems"(2)]
      by (simp add: buildWindow_fields order_trans [OF buildWindow_new_data])
  next
    case 2
    have "?o + int (length (drop MaxWindowSize source)) \<le> max_int" using "1.prems"(3) by auto
    with "1.IH" [OF 2(1) 2(2)] "1.prems"(2) show ?thesis by auto
  qed
qed

lemma feed_encoder: "feed (encoder_window deflate) e ws = write_windows deflate e ws"
  by (induction ws arbitrary: e) (simp_all add: encoder_window_def split: sum.split)

lemma delta_transfer:
  assumes "newEncoder [] version compression = Inr e" "zlib_laws deflate inflate"
    and "int (length source) \<le> max_int"
    and "version = 0 \<or>
      (\<forall>w\<in>set (delta_windows source target 0). length (NewData w) + 3 \<le> MaxWindowSize)"
  shows "\<exists>e' d. SendString md5 source target (encoder_window deflate) e =
       Inr (Checksum ChecksumMD5 (md5 target), e') \<and>
     NewDecoder (enc_writer e') = Inr d \<and>
     Apply md5 (Some source) (decoder_next inflate) d (Some (Checksum ChecksumMD5 (md5 target))) =
       Some (Inr (target, Checksum ChecksumMD5 (md5 target)))"
proof -
  let ?ws = "delta_windows source target 0"
  have e: "enc_writer e = [0x53, 0x56, 0x4E, enc_version e]" "\<not> enc_closed e"
      "enc_version e \<in> {0, 1, 2}" "enc_version e = 0 \<longleftrightarrow> version = 0"
    using newEncoder_fields [OF assms(1)] by auto
  have "\<forall>w\<in>set ?ws. transportable (enc_version e) w"
    using delta_windows_valid [of _ source target 0] assms(3,4) e(4)
    by (auto simp: transportable_def)
  note t = this
  from write_windows_wire [OF assms(2) t e(3,2)] obtain bss where w:
      "write_windows deflate e ?ws = Inr (e\<lparr>enc_writer := enc_writer e @ concat bss\<rparr>)"
      "list_all2 (window_on_wire inflate (enc_version e)) ?ws bss"
    by blast
  let ?d = "\<lparr>dec_reader = concat bss, dec_version = enc_version e, dec_last = 0, dec_started = False\<rparr>"
  have d: "NewDecoder (enc_writer e @ concat bss) = Inr ?d"
    using e(3) by (auto simp: NewDecoder_def e(1))
  have "decoder_yields inflate ?d ?ws"
    using w(2) t delta_windows_sorted [of 0 source target] by (auto simp: decoder_yields_def)
  moreover have "apply_windows source [] ?ws = Inr target"
    using apply_windows_delta [of 0 source source "[]" target] by simp
  ultimately show ?thesis
    using w(1) d decoder_reader.Apply_yields(1)
    by (simp add: SendString_feed feed_encoder encoder_window_def close_encoder_def)
qed

section \<open>Properties\<close>

text \<open>C3: a target sent as a delta against a source through the svndiff encoder, read by the
  decoder and applied to the source, arrives unchanged, and the MD5 the sender reports is the one
  the receiver accepts. In versions 1 and 2 the new data of each window must leave room for the
  three bytes of its length.\<close>

theorem delta_end_to_end:
  assumes "newEncoder [] version compression = Inr e" "zlib_laws deflate inflate"
    and "int (length source) \<le> max_int"
    and "version = 0 \<or>
      (\<forall>w\<in>set (delta_windows source target 0). length (NewData w) + 3 \<le> MaxWindowSize)"
  shows "\<exists>e' d. SendString md5 source target (encoder_window deflate) e =
       Inr (Checksum ChecksumMD5 (md5 target), e') \<and>
     NewDecoder (enc_writer e') = Inr d \<and>
     Apply md5 (Some source) (decoder_next inflate) d (Some (Checksum ChecksumMD5 (md5 target))) =
       Some (Inr (target, Checksum ChecksumMD5 (md5 target)))"
  by (rule delta_transfer [OF assms])

theorem delta_end_to_end_witness:
  "\<exists>e' d. SendString (take 2) [1, 2, 3] [1, 2, 4] (encoder_window (\<lambda>_ data. data))
         \<lparr>enc_writer = [0x53, 0x56, 0x4E, 1], enc_version = 1, enc_compression = 5, enc_closed = False\<rparr> =
       Inr (Checksum ChecksumMD5 (take 2 [1, 2, 4]), e') \<and>
     NewDecoder (enc_writer e') = Inr d \<and>
     Apply (take 2) (Some [1, 2, 3]) (decoder_next (\<lambda>payload limit. Some (take limit payload, drop limit payload)))
         d (Some (Checksum ChecksumMD5 (take 2 [1, 2, 4]))) =
       Some (Inr ([1, 2, 4], Checksum ChecksumMD5 (take 2 [1, 2, 4])))"
proof (rule delta_end_to_end [of 1 5])
  show "1 = (0 :: int) \<or> (\<forall>w\<in>set (delta_windows [1, 2, 3] [1, 2, 4] 0). length (NewData w) + 3 \<le> MaxWindowSize)"
    using delta_windows_valid [of _ "[1, 2, 3]" "[1, 2, 4]" 0]
    by (fastforce simp: window_limits)
qed (simp_all add: newEncoder_def NewEncoder_def zlib_laws_def max_int_def)

text \<open>C13: \<open>SendString\<close> hands its handler the windows of source and target cut into chunks in
  lockstep, then closes it, and returns the MD5 of the target; a handler error ends the stream.\<close>

theorem SendString_refines:
  "SendString md5 source target handle h =
     (case feed handle h (delta_windows source target 0) of
        Inl e \<Rightarrow> Inl e
      | Inr h1 \<Rightarrow>
          (case handle h1 None of
             Inl e \<Rightarrow> Inl e
           | Inr h2 \<Rightarrow> Inr (Checksum ChecksumMD5 (md5 target), h2)))"
  by (rule SendString_feed)

end
