(* ===== verification/Svn_Kind.thy ===== *)
theory Svn_Kind
  imports Go_Strings
begin

text \<open>
  Node kinds, depths and revision numbers, \<^verbatim>\<open>svn/kind.go\<close> and \<^verbatim>\<open>svn/revision.go\<close>. A constructor
  \<open>...Other\<close> stands for the values of the underlying integer type without a name.
\<close>

datatype NodeKind = NodeNone | NodeFile | NodeDir | NodeUnknown | NodeSymlink | NodeOther byte

fun NodeKind_String :: "NodeKind \<Rightarrow> string" where
  "NodeKind_String NodeNone = ''none''"
| "NodeKind_String NodeFile = ''file''"
| "NodeKind_String NodeDir = ''dir''"
| "NodeKind_String NodeUnknown = ''unknown''"
| "NodeKind_String NodeSymlink = ''symlink''"
| "NodeKind_String (NodeOther k) = ''NodeKind('' @ utoa (unat k) @ '')''"

definition ParseNodeKind :: "string \<Rightarrow> NodeKind option" where
  "ParseNodeKind text =
     find (\<lambda>kind. text = NodeKind_String kind) [NodeNone, NodeFile, NodeDir, NodeUnknown, NodeSymlink]"

datatype Depth = DepthUnknown | DepthExclude | DepthEmpty | DepthFiles | DepthImmediates
  | DepthInfinity | DepthOther "8 word"

fun Depth_String :: "Depth \<Rightarrow> string" where
  "Depth_String DepthUnknown = ''unknown''"
| "Depth_String DepthExclude = ''exclude''"
| "Depth_String DepthEmpty = ''empty''"
| "Depth_String DepthFiles = ''files''"
| "Depth_String DepthImmediates = ''immediates''"
| "Depth_String DepthInfinity = ''infinity''"
| "Depth_String (DepthOther d) = ''Depth('' @ itoa (sint d) @ '')''"

definition ParseDepth :: "string \<Rightarrow> Depth option" where
  "ParseDepth text =
     find (\<lambda>depth. text = Depth_String depth)
       [DepthUnknown, DepthExclude, DepthEmpty, DepthFiles, DepthImmediates, DepthInfinity]"

lemma ParseNodeKind_String [simp]:
  "(\<forall>k. kind \<noteq> NodeOther k) \<Longrightarrow> ParseNodeKind (NodeKind_String kind) = Some kind"
  by (cases kind) (simp_all add: ParseNodeKind_def)

lemma ParseDepth_String [simp]:
  "(\<forall>d. depth \<noteq> DepthOther d) \<Longrightarrow> ParseDepth (Depth_String depth) = Some depth"
  by (cases depth) (simp_all add: ParseDepth_def)

section \<open>Revision numbers\<close>

type_synonym revnum = int

definition InvalidRevnum :: revnum where "InvalidRevnum = - 1"

definition IsValid :: "revnum \<Rightarrow> bool" where "IsValid r \<longleftrightarrow> 0 \<le> r"

end
