(* ===== verification/Svn_Path.thy ===== *)
theory Svn_Path
  imports Go_Strings "HOL-Library.Sublist"
begin

text \<open>
  Relative paths and repository paths, \<^verbatim>\<open>svn/path/common.go\<close>, \<^verbatim>\<open>svn/path/relpath.go\<close> and
  \<^verbatim>\<open>svn/path/fspath.go\<close>. A Go result \<open>(string, bool)\<close> of the ancestor functions is an option. The
  lemmas read every operation as one on lists of components: \<open>canonicalize\<close> keeps the components,
  \<open>dirname\<close> drops the last, \<open>skipAncestor\<close> strips a prefix, the longest ancestor is the longest
  common prefix. The locale \<open>path_style\<close> is the contract both kinds of path provide.
\<close>

section \<open>Functions shared by all kinds of path\<close>

definition canonicalComponents :: "string \<Rightarrow> bool \<Rightarrow> string" where
  "canonicalComponents path absolute =
     (let kept = filter (\<lambda>part. \<not> (part = [] \<or> part = ''.'')) (split CHR ''/'' path);
          result = join ''/'' kept in
      if absolute then ''/'' @ result else result)"

fun joinCanonical :: "string \<Rightarrow> string list \<Rightarrow> string" where
  "joinCanonical result [] = result"
| "joinCanonical result (component # components) =
     (if component = [] then joinCanonical result components
      else if result = [] \<or> HasSuffix result ''/'' then joinCanonical (result @ component) components
      else joinCanonical (result @ ''/'' @ component) components)"

definition splitPath :: "string \<Rightarrow> string \<Rightarrow> string \<times> string" where
  "splitPath path root =
     (if path = root \<or> path = [] then (path, [])
      else case LastIndexByte path CHR ''/'' of
          None \<Rightarrow> (root, path)
        | Some index \<Rightarrow>
            if index < length root then (root, drop (length root) path)
            else if index = 0 then (''/'', drop 1 path)
            else (take index path, drop (index + 1) path))"

definition skipAncestor :: "string \<Rightarrow> string \<Rightarrow> string option" where
  "skipAncestor parent child =
     (if parent = child then Some []
      else if parent = [] then (if HasPrefix child ''/'' then None else Some child)
      else
        let pre = (if HasSuffix parent ''/'' then parent else parent @ ''/'') in
        if \<not> HasPrefix child pre then None else Some (drop (length pre) child))"

text \<open>
  The loop of \<open>longestAncestor\<close> walks up with the \<open>dirname\<close> it is given; nothing in the code
  bounds it, so \<open>None\<close> is the loop that does not end.
\<close>

partial_function (option) longest_loop :: "(string \<Rightarrow> string) \<Rightarrow> string \<Rightarrow> string \<Rightarrow> string option" where
  "longest_loop dirname second candidate =
     (if skipAncestor candidate second \<noteq> None then Some candidate
      else
        let parent = dirname candidate in
        if parent = candidate then Some [] else longest_loop dirname second parent)"

definition longestAncestor ::
    "string \<Rightarrow> string \<Rightarrow> (string \<Rightarrow> string) \<Rightarrow> (string \<Rightarrow> string \<Rightarrow> bool) \<Rightarrow> string option" where
  "longestAncestor first second dirname compatible =
     (if \<not> compatible first second then Some [] else longest_loop dirname second first)"

text \<open>The common ancestor of the targets, folded over the canonical list, if every fold step returns.\<close>

fun condense_common :: "(string \<Rightarrow> string \<Rightarrow> string option) \<Rightarrow> string \<Rightarrow> string list \<Rightarrow> string option" where
  "condense_common longest common [] = Some common"
| "condense_common longest common (target # targets) =
     (case longest common target of
        None \<Rightarrow> None
      | Some common' \<Rightarrow> condense_common longest common' targets)"

definition condense_redundant :: "(string \<Rightarrow> string \<Rightarrow> string option) \<Rightarrow> string list \<Rightarrow> nat \<Rightarrow> bool" where
  "condense_redundant skip canonical index =
     list_ex (\<lambda>(otherIndex, other). index \<noteq> otherIndex \<and>
         (case skip other (canonical ! index) of None \<Rightarrow> False | Some child \<Rightarrow> child \<noteq> []))
       (enumerate 0 canonical)"

definition condense ::
    "string list \<Rightarrow> (string \<Rightarrow> string) \<Rightarrow> (string \<Rightarrow> string \<Rightarrow> string option) \<Rightarrow>
     (string \<Rightarrow> string \<Rightarrow> string option) \<Rightarrow> bool \<Rightarrow> (string \<times> string list) option" where
  "condense targets canonicalize longest skip removeRedundant =
     (if targets = [] then Some ([], [])
      else
        let canonical = map canonicalize targets in
        case condense_common longest (hd canonical) (tl canonical) of
          None \<Rightarrow> None
        | Some common \<Rightarrow>
            Some (common,
              map (\<lambda>(index, target).
                    case skip common target of
                      None \<Rightarrow> target
                    | Some remainder \<Rightarrow> if common = [] then target else remainder)
                (filter (\<lambda>(index, target). \<not> (removeRedundant \<and> condense_redundant skip canonical index))
                  (enumerate 0 canonical))))"

section \<open>Relative paths\<close>

definition RelpathCanonicalize :: "string \<Rightarrow> string" where
  "RelpathCanonicalize path = canonicalComponents (TrimLeftByte CHR ''/'' path) False"

definition RelpathIsCanonical :: "string \<Rightarrow> bool" where
  "RelpathIsCanonical path \<longleftrightarrow> \<not> HasPrefix path ''/'' \<and> path = RelpathCanonicalize path"

definition RelpathIsRoot :: "string \<Rightarrow> bool" where
  "RelpathIsRoot path \<longleftrightarrow> path = []"

definition RelpathJoin :: "string \<Rightarrow> string list \<Rightarrow> string" where
  "RelpathJoin base components =
     foldl (\<lambda>result component. joinCanonical result [RelpathCanonicalize component])
       (RelpathCanonicalize base) components"

definition RelpathDirname :: "string \<Rightarrow> string" where
  "RelpathDirname path = fst (splitPath (RelpathCanonicalize path) [])"

definition RelpathBasename :: "string \<Rightarrow> string" where
  "RelpathBasename path = snd (splitPath (RelpathCanonicalize path) [])"

definition RelpathSplit :: "string \<Rightarrow> string \<times> string" where
  "RelpathSplit path = splitPath (RelpathCanonicalize path) []"

definition RelpathSkipAncestor :: "string \<Rightarrow> string \<Rightarrow> string option" where
  "RelpathSkipAncestor parent child = skipAncestor (RelpathCanonicalize parent) (RelpathCanonicalize child)"

definition RelpathIsAncestor :: "string \<Rightarrow> string \<Rightarrow> bool" where
  "RelpathIsAncestor parent child \<longleftrightarrow> RelpathSkipAncestor parent child \<noteq> None"

definition RelpathIsChild :: "string \<Rightarrow> string \<Rightarrow> string \<times> bool" where
  "RelpathIsChild parent child =
     (case RelpathSkipAncestor parent child of
        None \<Rightarrow> ([], False) | Some remainder \<Rightarrow> (remainder, remainder \<noteq> []))"

definition RelpathLongestAncestor :: "string \<Rightarrow> string \<Rightarrow> string option" where
  "RelpathLongestAncestor first second =
     longestAncestor (RelpathCanonicalize first) (RelpathCanonicalize second) RelpathDirname (\<lambda>_ _. True)"

definition RelpathCondense :: "string list \<Rightarrow> bool \<Rightarrow> (string \<times> string list) option" where
  "RelpathCondense targets removeRedundant =
     condense targets RelpathCanonicalize RelpathLongestAncestor RelpathSkipAncestor removeRedundant"

section \<open>Repository paths\<close>

definition FspathCanonicalize :: "string \<Rightarrow> string" where
  "FspathCanonicalize path = canonicalComponents (''/'' @ TrimLeftByte CHR ''/'' path) True"

definition FspathIsCanonical :: "string \<Rightarrow> bool" where
  "FspathIsCanonical path \<longleftrightarrow> HasPrefix path ''/'' \<and> path = FspathCanonicalize path"

definition FspathIsRoot :: "string \<Rightarrow> bool" where
  "FspathIsRoot path \<longleftrightarrow> path = ''/''"

definition FspathJoin :: "string \<Rightarrow> string list \<Rightarrow> string" where
  "FspathJoin base components =
     FspathCanonicalize (foldl (\<lambda>result component. joinCanonical result [RelpathCanonicalize component])
       (FspathCanonicalize base) components)"

definition FspathDirname :: "string \<Rightarrow> string" where
  "FspathDirname path = fst (splitPath (FspathCanonicalize path) ''/'')"

definition FspathBasename :: "string \<Rightarrow> string" where
  "FspathBasename path = snd (splitPath (FspathCanonicalize path) ''/'')"

definition FspathSplit :: "string \<Rightarrow> string \<times> string" where
  "FspathSplit path = splitPath (FspathCanonicalize path) ''/''"

definition FspathSkipAncestor :: "string \<Rightarrow> string \<Rightarrow> string option" where
  "FspathSkipAncestor parent child = skipAncestor (FspathCanonicalize parent) (FspathCanonicalize child)"

definition FspathIsAncestor :: "string \<Rightarrow> string \<Rightarrow> bool" where
  "FspathIsAncestor parent child \<longleftrightarrow> FspathSkipAncestor parent child \<noteq> None"

definition FspathIsChild :: "string \<Rightarrow> string \<Rightarrow> string \<times> bool" where
  "FspathIsChild parent child =
     (case FspathSkipAncestor parent child of
        None \<Rightarrow> ([], False) | Some remainder \<Rightarrow> (remainder, remainder \<noteq> []))"

definition FspathLongestAncestor :: "string \<Rightarrow> string \<Rightarrow> string option" where
  "FspathLongestAncestor first second =
     longestAncestor (FspathCanonicalize first) (FspathCanonicalize second) FspathDirname (\<lambda>_ _. True)"

definition FspathCondense :: "string list \<Rightarrow> bool \<Rightarrow> (string \<times> string list) option" where
  "FspathCondense targets removeRedundant =
     condense targets FspathCanonicalize FspathLongestAncestor FspathSkipAncestor removeRedundant"

section \<open>Components\<close>

definition components :: "string \<Rightarrow> string list" where
  "components path = filter (\<lambda>part. \<not> (part = [] \<or> part = ''.'')) (split CHR ''/'' path)"

definition wf_components :: "string list \<Rightarrow> bool" where
  "wf_components cs \<longleftrightarrow> (\<forall>c\<in>set cs. c \<noteq> [] \<and> c \<noteq> ''.'' \<and> CHR ''/'' \<notin> set c)"

lemma wf_components_simps [simp]:
  "wf_components []"
  "wf_components (c # cs) \<longleftrightarrow> c \<noteq> [] \<and> c \<noteq> ''.'' \<and> CHR ''/'' \<notin> set c \<and> wf_components cs"
  "wf_components (cs @ ds) \<longleftrightarrow> wf_components cs \<and> wf_components ds"
  by (auto simp: wf_components_def)

lemma wf_components_prefix: "prefix ps cs \<Longrightarrow> wf_components cs \<Longrightarrow> wf_components ps"
  by (auto simp: prefix_def)

lemma wf_components_butlast: "wf_components cs \<Longrightarrow> wf_components (butlast cs)"
  by (auto simp: wf_components_def dest: in_set_butlastD)

lemma components_wf [simp]: "wf_components (components path)"
  by (auto simp: wf_components_def components_def dest: split_parts)

lemma canonicalComponents_eq:
  "canonicalComponents path absolute = (if absolute then ''/'' else []) @ join ''/'' (components path)"
  by (simp add: canonicalComponents_def components_def Let_def)

lemma components_join [simp]: "wf_components cs \<Longrightarrow> components (join ''/'' cs) = cs"
proof (cases "cs = []")
  case False
  assume wf: "wf_components cs"
  then have "split CHR ''/'' (join ''/'' cs) = cs"
    using False by (intro split_join) (auto simp: wf_components_def)
  moreover have "filter (\<lambda>part. \<not> (part = [] \<or> part = ''.'')) cs = cs"
    using wf by (simp add: wf_components_def filter_id_conv)
  ultimately show ?thesis by (simp add: components_def)
qed (simp add: components_def)

lemma components_slash [simp]: "components (CHR ''/'' # path) = components path"
  by (simp add: components_def)

lemma components_append: "components (a @ CHR ''/'' # b) = components a @ components b"
  by (simp add: components_def split_append)

lemma components_TrimLeft [simp]: "components (TrimLeftByte CHR ''/'' path) = components path"
  by (induction path) (simp_all add: TrimLeftByte_def)

lemma join_wf_Nil: "wf_components cs \<Longrightarrow> join ''/'' cs = [] \<longleftrightarrow> cs = []"
  by (cases "(''/'', cs)" rule: join.cases) auto

lemma join_inj: "wf_components cs \<Longrightarrow> wf_components ds \<Longrightarrow> join ''/'' cs = join ''/'' ds \<longleftrightarrow> cs = ds"
  by (metis components_join)

lemma join_no_leading: "wf_components cs \<Longrightarrow> \<not> HasPrefix (join ''/'' cs) ''/''"
proof (cases cs)
  case (Cons c ds)
  assume "wf_components cs"
  with Cons obtain x xs where "c = x # xs" "x \<noteq> CHR ''/''" by (cases c) auto
  with Cons show ?thesis by (cases ds) (simp_all)
qed simp

lemma join_no_trailing: "wf_components cs \<Longrightarrow> \<not> HasSuffix (join ''/'' cs) ''/''"
proof (cases cs rule: rev_cases)
  case (snoc ds c)
  assume wf: "wf_components cs"
  with snoc have c: "c \<noteq> []" "last c \<noteq> CHR ''/''" by (auto dest: last_in_set)
  have "join ''/'' cs = (if ds = [] then c else join ''/'' ds @ ''/'' @ c)"
    using join_append [of ds "[c]" "''/''"] by (simp add: snoc)
  with c show ?thesis by (simp add: HasSuffix_single)
qed (simp add: HasSuffix_single)

lemma join_snoc: "join ''/'' (cs @ [c]) = (if cs = [] then c else join ''/'' cs @ ''/'' @ c)"
  using join_append [of cs "[c]" "''/''"] by simp

section \<open>The operations on components\<close>

text \<open>The two printed forms: \<open>print_path root cs\<close> with the root \<open>[]\<close> or \<open>''/''\<close>.\<close>

definition print_path :: "string \<Rightarrow> string list \<Rightarrow> string" where
  "print_path root cs = root @ join ''/'' cs"

lemma RelpathCanonicalize_eq: "RelpathCanonicalize path = print_path [] (components path)"
  by (simp add: RelpathCanonicalize_def canonicalComponents_eq print_path_def)

lemma FspathCanonicalize_eq: "FspathCanonicalize path = print_path ''/'' (components path)"
  by (simp add: FspathCanonicalize_def canonicalComponents_eq print_path_def)

lemma components_print [simp]:
  "root = [] \<or> root = ''/'' \<Longrightarrow> wf_components cs \<Longrightarrow> components (print_path root cs) = cs"
  by (auto simp: print_path_def)

lemma splitPath_print:
  assumes "root = [] \<or> root = ''/''" "wf_components cs"
  shows "splitPath (print_path root cs) root =
     (if cs = [] then (root, []) else (print_path root (butlast cs), last cs))"
proof (cases cs rule: rev_cases)
  case Nil
  then show ?thesis by (simp add: splitPath_def print_path_def)
next
  case (snoc ds c)
  then have c: "c \<noteq> []" "CHR ''/'' \<notin> set c" and ds: "wf_components ds" using assms(2) by auto
  show ?thesis
  proof (cases "ds = []")
    case True
    then show ?thesis
      using assms(1) c LastIndexByte_last [of "CHR ''/''" c "[]"]
      by (auto simp: splitPath_def print_path_def snoc LastIndexByte_none)
  next
    case False
    then have j: "join ''/'' ds \<noteq> []" using ds by (simp add: join_wf_Nil)
    have "print_path root cs = (root @ join ''/'' ds) @ CHR ''/'' # c"
      using False by (simp add: print_path_def snoc join_snoc)
    moreover have "LastIndexByte ((root @ join ''/'' ds) @ CHR ''/'' # c) CHR ''/'' =
        Some (length (root @ join ''/'' ds))"
      using c(2) by (rule LastIndexByte_last)
    ultimately show ?thesis
      using j c(1) False assms(1) by (auto simp: splitPath_def snoc print_path_def)
  qed
qed

lemma skipAncestor_relative:
  assumes "wf_components ps" "wf_components cs"
  shows "skipAncestor (join ''/'' ps) (join ''/'' cs) =
     (if prefix ps cs then Some (join ''/'' (drop (length ps) cs)) else None)"
proof (cases "ps = [] \<or> ps = cs")
  case True
  then show ?thesis
    using assms join_no_leading [of cs] by (auto simp: skipAncestor_def)
next
  case False
  then have ps: "join ''/'' ps \<noteq> []" "join ''/'' ps \<noteq> join ''/'' cs" "\<not> HasSuffix (join ''/'' ps) ''/''"
    using assms join_wf_Nil join_inj join_no_trailing by auto
  show ?thesis
  proof (cases "prefix ps cs")
    case True
    then obtain qs where qs: "cs = ps @ qs" by (auto simp: prefix_def)
    with False have "join ''/'' cs = (join ''/'' ps @ ''/'') @ join ''/'' qs"
      using join_append [of ps qs "''/''"] by auto
    with ps show ?thesis
      by (simp add: skipAncestor_def Let_def qs HasPrefix_iff)
  next
    case no: False
    have "\<not> HasPrefix (join ''/'' cs) (join ''/'' ps @ ''/'')"
    proof
      assume "HasPrefix (join ''/'' cs) (join ''/'' ps @ ''/'')"
      then obtain r where "join ''/'' cs = join ''/'' ps @ CHR ''/'' # r"
        by (auto simp: HasPrefix_iff)
      then have "components (join ''/'' cs) = components (join ''/'' ps) @ components r"
        by (simp add: components_append)
      with assms have "cs = ps @ components r" by simp
      with no show False by simp
    qed
    with ps no show ?thesis by (simp add: skipAncestor_def Let_def)
  qed
qed

lemma skipAncestor_absolute:
  assumes "wf_components ps" "wf_components cs"
  shows "skipAncestor (''/'' @ join ''/'' ps) (''/'' @ join ''/'' cs) =
     skipAncestor (join ''/'' ps) (join ''/'' cs)"
proof (cases "ps = []")
  case True
  then show ?thesis
    using assms join_no_leading [of cs] by (auto simp: skipAncestor_def HasSuffix_single)
next
  case False
  then have "join ''/'' ps \<noteq> []" "\<not> HasSuffix (join ''/'' ps) ''/''"
    using assms(1) by (simp_all add: join_wf_Nil join_no_trailing)
  then show ?thesis by (simp add: skipAncestor_def HasSuffix_single Let_def)
qed

lemma skipAncestor_print:
  assumes "root = [] \<or> root = ''/''" "wf_components ps" "wf_components cs"
  shows "skipAncestor (print_path root ps) (print_path root cs) =
     (if prefix ps cs then Some (join ''/'' (drop (length ps) cs)) else None)"
  using assms skipAncestor_relative skipAncestor_absolute by (auto simp: print_path_def)

lemma joinCanonical_print:
  assumes "root = [] \<or> root = ''/''" "wf_components cs" "wf_components ds"
  shows "joinCanonical (print_path root cs) [join ''/'' ds] = print_path root (cs @ ds)"
proof (cases "cs = [] \<or> ds = []")
  case True
  then show ?thesis
    using assms join_wf_Nil [of ds] join_no_trailing [of cs]
    by (auto simp: print_path_def HasSuffix_single)
next
  case False
  then have "join ''/'' cs \<noteq> []" "\<not> HasSuffix (join ''/'' cs) ''/''" "join ''/'' ds \<noteq> []"
    using assms by (simp_all add: join_wf_Nil join_no_trailing)
  with False assms(1) show ?thesis
    by (auto simp: print_path_def HasSuffix_single join_append)
qed

lemma foldl_joinCanonical:
  assumes "root = [] \<or> root = ''/''" "wf_components cs"
  shows "foldl (\<lambda>result component. joinCanonical result [RelpathCanonicalize component])
       (print_path root cs) parts = print_path root (cs @ concat (map components parts))"
  using assms
proof (induction parts arbitrary: cs)
  case (Cons part parts)
  then have "joinCanonical (print_path root cs) [RelpathCanonicalize part] =
      print_path root (cs @ components part)"
    using joinCanonical_print [of root cs "components part"]
    by (simp add: RelpathCanonicalize_eq print_path_def [of "[]"])
  with Cons.IH [of "cs @ components part"] Cons.prems show ?case by simp
qed simp


section \<open>The contract of a path style\<close>

lemma condense_redundant_nth:
  "condense_redundant skip canonical index \<longleftrightarrow>
     (\<exists>j < length canonical. index \<noteq> j \<and>
        (case skip (canonical ! j) (canonical ! index) of None \<Rightarrow> False | Some child \<Rightarrow> child \<noteq> []))"
  unfolding condense_redundant_def list_ex_iff Bex_def in_set_enumerate_eq by auto

lemma longest_common_prefix_butlast:
  "\<not> prefix cs ds \<Longrightarrow> longest_common_prefix (butlast cs) ds = longest_common_prefix cs ds"
proof (induction cs ds rule: longest_common_prefix.induct)
  case (1 x xs y ys)
  then show ?case by (cases "xs = []") auto
qed (auto simp: neq_Nil_conv)

text \<open>
  What the callers of this package rely on, for paths printed with a root: canonical forms are
  the printed lists of components, and the operations are those on the lists.
\<close>

locale path_style =
  fixes root :: string
    and canonicalize dirname basename :: "string \<Rightarrow> string"
    and skip :: "string \<Rightarrow> string \<Rightarrow> string option"
  assumes root: "root = [] \<or> root = ''/''"
    and canonicalize: "canonicalize path = print_path root (components path)"
    and dirname: "dirname path = print_path root (butlast (components path))"
    and basename: "basename path = (if components path = [] then [] else last (components path))"
    and skip: "skip parent child =
      (if prefix (components parent) (components child)
       then Some (join ''/'' (drop (length (components parent)) (components child))) else None)"
begin

lemma components_canonicalize [simp]: "components (canonicalize path) = components path"
  using root by (simp add: canonicalize)

lemma canonicalize_idem: "canonicalize (canonicalize path) = canonicalize path"
  by (simp add: canonicalize [of "canonicalize path"]) (simp add: canonicalize)

lemma components_dirname [simp]: "components (dirname path) = butlast (components path)"
  using root by (simp add: dirname wf_components_butlast)

lemma canonicalize_dirname: "canonicalize (dirname path) = dirname path"
  by (simp add: canonicalize dirname root wf_components_butlast)

lemma print_inj: "print_path root cs = print_path root ds \<Longrightarrow> wf_components cs \<Longrightarrow> wf_components ds \<Longrightarrow> cs = ds"
  using root by (metis components_print)

lemma skip_refl: "skip path path = Some []"
  by (simp add: skip)

lemma skip_trans: "skip a b \<noteq> None \<Longrightarrow> skip b c \<noteq> None \<Longrightarrow> skip a c \<noteq> None"
  by (auto simp: skip split: if_splits dest: prefix_order.trans)

lemma skip_antisym:
  "skip a b \<noteq> None \<Longrightarrow> skip b a \<noteq> None \<Longrightarrow> canonicalize a = canonicalize b"
  by (auto simp: skip canonicalize split: if_splits dest: prefix_order.antisym)

lemma skip_components: "skip parent child = Some rest \<Longrightarrow> components child = components parent @ components rest"
  by (auto simp: skip prefix_def wf_components_def split: if_splits) (metis components_join components_wf wf_components_simps(3))

lemma longest_loop_common:
  assumes "wf_components cs"
  shows "longest_loop dirname (canonicalize b) (print_path root cs) =
     Some (print_path root (longest_common_prefix cs (components b)))"
  using assms
proof (induction "length cs" arbitrary: cs)
  case 0
  then show ?case
    using skipAncestor_print [OF root, of "[]" "components b"]
    by (subst longest_loop.simps) (simp add: canonicalize)
next
  case (Suc n)
  have skips: "skipAncestor (print_path root cs) (canonicalize b) \<noteq> None \<longleftrightarrow> prefix cs (components b)"
    using skipAncestor_print [OF root Suc.prems, of "components b"] by (simp add: canonicalize)
  show ?case
  proof (cases "prefix cs (components b)")
    case True
    then have "longest_common_prefix cs (components b) = cs"
      by (metis longest_common_prefix_max_prefix longest_common_prefix_prefix1 prefix_order.antisym
          prefix_order.refl)
    with True skips show ?thesis by (subst longest_loop.simps) simp
  next
    case False
    have up: "dirname (print_path root cs) = print_path root (butlast cs)"
      using root Suc.prems by (simp add: dirname)
    have "wf_components (butlast cs)" using Suc.prems by (rule wf_components_butlast)
    moreover have "butlast cs \<noteq> cs" using Suc.hyps(2) by (metis Suc_neq_Zero append_butlast_last_id list.size(3) not_Cons_self2 self_append_conv)
    ultimately have "dirname (print_path root cs) \<noteq> print_path root cs"
      using print_inj Suc.prems up by metis
    moreover have "longest_common_prefix (butlast cs) (components b) = longest_common_prefix cs (components b)"
      using False by (rule longest_common_prefix_butlast)
    ultimately show ?thesis
      using Suc.hyps(1) [of "butlast cs"] Suc.hyps(2) Suc.prems False skips up wf_components_butlast
      by (subst longest_loop.simps) (simp add: Let_def)
  qed
qed

lemma longest_common:
  "longestAncestor (canonicalize a) (canonicalize b) dirname (\<lambda>_ _. True) =
     Some (print_path root (longest_common_prefix (components a) (components b)))"
  using longest_loop_common [of "components a" b] by (simp add: longestAncestor_def canonicalize)

text \<open>The longest ancestor is an ancestor of both paths, and every common ancestor is one of it.\<close>

lemma longest_is_meet:
  assumes "longestAncestor (canonicalize a) (canonicalize b) dirname (\<lambda>_ _. True) = Some m"
  shows "skip m a \<noteq> None" "skip m b \<noteq> None" "skip p a \<noteq> None \<Longrightarrow> skip p b \<noteq> None \<Longrightarrow> skip p m \<noteq> None"
proof -
  have "wf_components (longest_common_prefix (components a) (components b))"
    by (meson components_wf longest_common_prefix_prefix1 wf_components_prefix)
  then have m: "components m = longest_common_prefix (components a) (components b)"
    using assms root by (auto simp: longest_common)
  show "skip m a \<noteq> None" "skip m b \<noteq> None"
    by (simp_all add: skip m longest_common_prefix_prefix1 longest_common_prefix_prefix2)
  show "skip p m \<noteq> None" if "skip p a \<noteq> None" "skip p b \<noteq> None"
    using that by (auto simp: skip m longest_common_prefix_max_prefix split: if_splits)
qed

text \<open>Condensing a list of targets.\<close>

lemma condense_common_prefix:
  "\<exists>common. condense_common (\<lambda>a b. longestAncestor (canonicalize a) (canonicalize b) dirname (\<lambda>_ _. True))
       (print_path root cs) targets = Some common \<and>
     prefix (components common) cs \<and> (\<forall>t\<in>set targets. prefix (components common) (components t)) \<and>
     common = print_path root (components common)"
  if "wf_components cs" for cs
  using that
proof (induction targets arbitrary: cs)
  case Nil
  with root show ?case by simp
next
  case (Cons t targets)
  let ?ds = "longest_common_prefix cs (components t)"
  have step: "longestAncestor (canonicalize (print_path root cs)) (canonicalize t) dirname (\<lambda>_ _. True) =
      Some (print_path root ?ds)"
    using longest_common root Cons.prems by simp
  have "wf_components ?ds"
    using Cons.prems by (meson longest_common_prefix_prefix1 wf_components_prefix)
  from Cons.IH [OF this] obtain common where c:
      "condense_common (\<lambda>a b. longestAncestor (canonicalize a) (canonicalize b) dirname (\<lambda>_ _. True))
         (print_path root ?ds) targets = Some common"
      "prefix (components common) ?ds" "\<forall>t\<in>set targets. prefix (components common) (components t)"
      "common = print_path root (components common)"
    by blast
  with step longest_common_prefix_prefix1 [of cs "components t"]
    longest_common_prefix_prefix2 [of cs "components t"]
  show ?case by (auto intro: prefix_order.trans)
qed

lemma condense_redundant_iff:
  assumes "index < length targets"
  shows "condense_redundant skip (map canonicalize targets) index \<longleftrightarrow>
     (\<exists>t\<in>set targets. strict_prefix (components t) (components (targets ! index)))"
proof -
  have strict_iff: "(case skip (canonicalize t) (canonicalize u) of None \<Rightarrow> False | Some child \<Rightarrow> child \<noteq> []) \<longleftrightarrow>
      strict_prefix (components t) (components u)" for t u
  proof (cases "prefix (components t) (components u)")
    case True
    then obtain rest where rest: "components u = components t @ rest" by (auto simp: prefix_def)
    then have "wf_components rest" by (metis components_wf wf_components_simps(3))
    with rest show ?thesis by (simp add: skip join_wf_Nil strict_prefix_def)
  next
    case False
    then show ?thesis by (simp add: skip strict_prefix_def)
  qed
  have "condense_redundant skip (map canonicalize targets) index \<longleftrightarrow>
      (\<exists>j < length targets. index \<noteq> j \<and>
         strict_prefix (components (targets ! j)) (components (targets ! index)))"
    unfolding condense_redundant_nth using assms by (simp add: strict_iff cong: conj_cong)
  also have "\<dots> \<longleftrightarrow> (\<exists>t\<in>set targets. strict_prefix (components t) (components (targets ! index)))"
    unfolding Bex_def in_set_conv_nth by auto
  finally show ?thesis .
qed

lemma condense_correct:
  assumes "targets \<noteq> []"
  shows "\<exists>common rest.
     condense targets canonicalize
       (\<lambda>a b. longestAncestor (canonicalize a) (canonicalize b) dirname (\<lambda>_ _. True)) skip removeRedundant =
       Some (common, rest) \<and>
     (\<forall>t\<in>set targets. skip common t \<noteq> None) \<and>
     (\<lambda>r. components common @ components r) ` set rest =
       components ` {t \<in> set targets. removeRedundant \<longrightarrow>
         \<not> (\<exists>u\<in>set targets. strict_prefix (components u) (components t))}"
proof -
  let ?canonical = "map canonicalize targets"
  obtain t ts where t: "targets = t # ts" using assms by (cases targets) auto
  from condense_common_prefix [of "components t" "map canonicalize ts"] obtain common where common:
      "condense_common (\<lambda>a b. longestAncestor (canonicalize a) (canonicalize b) dirname (\<lambda>_ _. True))
         (hd ?canonical) (tl ?canonical) = Some common"
      "\<forall>t\<in>set targets. prefix (components common) (components t)"
    by (auto simp: t canonicalize [of t])
  let ?keep = "\<lambda>(index, target). \<not> (removeRedundant \<and> condense_redundant skip ?canonical index)"
  let ?cut = "\<lambda>(index :: nat, target). case skip common target of None \<Rightarrow> target
      | Some remainder \<Rightarrow> if common = [] then target else remainder"
  let ?rest = "map ?cut (filter ?keep (enumerate 0 ?canonical))"
  have cut: "components common @ components (?cut (i, canonicalize u)) = components u"
    if "u \<in> set targets" for i u
  proof (cases "common = []")
    case True
    then have "components common = []" by (simp add: components_def)
    with True show ?thesis by (auto split: option.splits)
  next
    case False
    from common(2) that obtain rest where "skip common (canonicalize u) = Some rest"
      by (auto simp: skip)
    with False skip_components [OF this] show ?thesis by simp
  qed
  have "(\<lambda>r. components common @ components r) ` set ?rest =
      {components (targets ! i) | i. i < length targets \<and>
        \<not> (removeRedundant \<and> condense_redundant skip ?canonical i)}" (is "?L = ?R")
  proof
    show "?L \<subseteq> ?R" using cut by (fastforce simp: in_set_enumerate_eq)
    show "?R \<subseteq> ?L"
    proof
      fix cs assume "cs \<in> ?R"
      then obtain i where i: "i < length targets" "cs = components (targets ! i)"
          "\<not> (removeRedundant \<and> condense_redundant skip ?canonical i)"
        by blast
      then have "(i, canonicalize (targets ! i)) \<in> set (filter ?keep (enumerate 0 ?canonical))"
        by (simp add: in_set_enumerate_eq)
      then have "?cut (i, canonicalize (targets ! i)) \<in> set ?rest"
        unfolding set_map by (rule imageI)
      with cut [of "targets ! i" i] i(1,2) show "cs \<in> ?L" by (metis (no_types, lifting) image_eqI nth_mem)
    qed
  qed
  also have "\<dots> = components ` {t \<in> set targets. removeRedundant \<longrightarrow>
         \<not> (\<exists>u\<in>set targets. strict_prefix (components u) (components t))}"
    using condense_redundant_iff [of _ targets] by (fastforce simp: in_set_conv_nth)
  finally show ?thesis
    using assms common by (auto simp: condense_def Let_def skip split: option.splits)
qed

end

interpretation relpath: path_style "[]" RelpathCanonicalize RelpathDirname RelpathBasename RelpathSkipAncestor
proof
  fix path parent child :: string
  show "RelpathDirname path = print_path [] (butlast (components path))"
    using splitPath_print [of "[]" "components path"]
    by (simp add: RelpathDirname_def RelpathCanonicalize_eq print_path_def)
  show "RelpathBasename path = (if components path = [] then [] else last (components path))"
    using splitPath_print [of "[]" "components path"]
    by (simp add: RelpathBasename_def RelpathCanonicalize_eq)
  show "RelpathSkipAncestor parent child =
      (if prefix (components parent) (components child)
       then Some (join ''/'' (drop (length (components parent)) (components child))) else None)"
    using skipAncestor_print [of "[]" "components parent" "components child"]
    by (simp add: RelpathSkipAncestor_def RelpathCanonicalize_eq)
qed (simp_all add: RelpathCanonicalize_eq)

interpretation fspath: path_style "''/''" FspathCanonicalize FspathDirname FspathBasename FspathSkipAncestor
proof
  fix path parent child :: string
  show "FspathDirname path = print_path ''/'' (butlast (components path))"
    using splitPath_print [of "''/''" "components path"]
    by (simp add: FspathDirname_def FspathCanonicalize_eq print_path_def)
  show "FspathBasename path = (if components path = [] then [] else last (components path))"
    using splitPath_print [of "''/''" "components path"]
    by (simp add: FspathBasename_def FspathCanonicalize_eq)
  show "FspathSkipAncestor parent child =
      (if prefix (components parent) (components child)
       then Some (join ''/'' (drop (length (components parent)) (components child))) else None)"
    using skipAncestor_print [of "''/''" "components parent" "components child"]
    by (simp add: FspathSkipAncestor_def FspathCanonicalize_eq)
qed (simp_all add: FspathCanonicalize_eq)

lemma RelpathJoin_eq: "RelpathJoin base parts = print_path [] (components base @ concat (map components parts))"
  using foldl_joinCanonical [of "[]" "components base" parts]
  by (simp add: RelpathJoin_def RelpathCanonicalize_eq)

lemma wf_components_concat: "\<forall>cs\<in>set css. wf_components cs \<Longrightarrow> wf_components (concat css)"
  by (induction css) simp_all

lemma FspathJoin_eq: "FspathJoin base parts = print_path ''/'' (components base @ concat (map components parts))"
  using foldl_joinCanonical [of "''/''" "components base" parts]
    wf_components_concat [of "map components parts"]
  by (simp add: FspathJoin_def FspathCanonicalize_eq)

section \<open>Properties\<close>

text \<open>C16: a path is canonicalised to its own components, those between slashes that are neither
  empty nor a dot, in their order and joined by single slashes, with one slash in front for a
  repository path and none for a relative one. The directory name keeps all components but the
  last and the base name is the last. So canonicalising is idempotent, its results are the
  canonical paths, and every path is its directory joined with its base name.\<close>

theorem canonical_paths:
  "let cs = filter (\<lambda>c. c \<noteq> [] \<and> c \<noteq> ''.'') (split CHR ''/'' p) in
   RelpathCanonicalize p = join ''/'' cs \<and> FspathCanonicalize p = ''/'' @ join ''/'' cs \<and>
   components (RelpathCanonicalize p) = cs \<and> components (FspathCanonicalize p) = cs \<and>
   RelpathDirname p = join ''/'' (butlast cs) \<and> FspathDirname p = ''/'' @ join ''/'' (butlast cs) \<and>
   RelpathBasename p = (if cs = [] then [] else last cs) \<and>
   FspathBasename p = (if cs = [] then [] else last cs) \<and>
   RelpathCanonicalize (RelpathCanonicalize p) = RelpathCanonicalize p \<and>
   RelpathIsCanonical (RelpathCanonicalize p) \<and>
   RelpathJoin (RelpathDirname p) [RelpathBasename p] = RelpathCanonicalize p \<and>
   FspathCanonicalize (FspathCanonicalize p) = FspathCanonicalize p \<and>
   FspathIsCanonical (FspathCanonicalize p) \<and>
   FspathJoin (FspathDirname p) [FspathBasename p] = FspathCanonicalize p"
proof -
  have cs: "filter (\<lambda>c. c \<noteq> [] \<and> c \<noteq> ''.'') (split CHR ''/'' p) = components p"
    by (simp add: components_def)
  have split: "butlast (components p) @ components (if components p = [] then [] else last (components p)) =
      components p"
  proof (cases "components p" rule: rev_cases)
    case (snoc ds c)
    have "wf_components (ds @ [c])" unfolding snoc [symmetric] by simp
    then have "wf_components [c]" by simp
    then have "components c = [c]" using components_join [of "[c]"] by simp
    with snoc show ?thesis by simp
  qed (simp add: components_def)
  have lead: "\<not> HasPrefix (RelpathCanonicalize p) ''/''"
    by (simp add: RelpathCanonicalize_eq print_path_def join_no_leading)
  have "RelpathCanonicalize (RelpathCanonicalize p) = RelpathCanonicalize p \<and>
     RelpathIsCanonical (RelpathCanonicalize p) \<and>
     RelpathJoin (RelpathDirname p) [RelpathBasename p] = RelpathCanonicalize p \<and>
     FspathCanonicalize (FspathCanonicalize p) = FspathCanonicalize p \<and>
     FspathIsCanonical (FspathCanonicalize p) \<and>
     FspathJoin (FspathDirname p) [FspathBasename p] = FspathCanonicalize p"
    using split lead
    by (simp add: relpath.canonicalize_idem fspath.canonicalize_idem RelpathIsCanonical_def
        FspathIsCanonical_def RelpathJoin_eq FspathJoin_eq relpath.basename fspath.basename
        RelpathCanonicalize_eq [of p] FspathCanonicalize_eq [of p])
      (simp add: RelpathCanonicalize_eq FspathCanonicalize_eq print_path_def)
  then show ?thesis unfolding cs Let_def
    by (simp add: relpath.basename fspath.basename relpath.dirname fspath.dirname)
      (simp add: RelpathCanonicalize_eq FspathCanonicalize_eq print_path_def)
qed

text \<open>Skipping an ancestor undoes joining: the remainder of a joined path is the canonical
  part that was joined, and a remainder joined to the ancestor gives the path back.\<close>

theorem skip_ancestor_join:
  "RelpathSkipAncestor p (RelpathJoin p [q]) = Some (RelpathCanonicalize q) \<and>
   FspathSkipAncestor p (FspathJoin p [q]) = Some (RelpathCanonicalize q) \<and>
   (\<forall>r. RelpathSkipAncestor p q = Some r \<longrightarrow> RelpathJoin p [r] = RelpathCanonicalize q) \<and>
   (\<forall>r. FspathSkipAncestor p q = Some r \<longrightarrow> FspathJoin p [r] = FspathCanonicalize q)"
proof -
  have "RelpathJoin p [r] = RelpathCanonicalize q" if "RelpathSkipAncestor p q = Some r" for r
    using relpath.skip_components [OF that] by (simp add: RelpathJoin_eq RelpathCanonicalize_eq)
  moreover have "FspathJoin p [r] = FspathCanonicalize q" if "FspathSkipAncestor p q = Some r" for r
    using fspath.skip_components [OF that] by (simp add: FspathJoin_eq FspathCanonicalize_eq)
  ultimately show ?thesis
    by (simp add: relpath.skip fspath.skip RelpathJoin_eq FspathJoin_eq RelpathCanonicalize_eq print_path_def [of "[]" "components q"])
qed

theorem skip_ancestor_join_witness:
  "RelpathJoin ''trunk/a'' [''b/c''] = RelpathCanonicalize ''/trunk//a/./b/c/''"
proof -
  have "RelpathSkipAncestor ''trunk/a'' ''/trunk//a/./b/c/'' = Some ''b/c''" by code_simp
  with skip_ancestor_join [of "''trunk/a''" "''/trunk//a/./b/c/''"] show ?thesis by blast
qed

text \<open>the walk to the longest common ancestor of two repository paths ends, at an ancestor of
  both that every common ancestor is an ancestor of.\<close>

theorem longest_ancestor_meet:
  "\<exists>m. FspathLongestAncestor a b = Some m \<and> FspathIsAncestor m a \<and> FspathIsAncestor m b \<and>
     (\<forall>p. FspathIsAncestor p a \<longrightarrow> FspathIsAncestor p b \<longrightarrow> FspathIsAncestor p m)"
  using fspath.longest_common [of a b] fspath.longest_is_meet [of a b]
  unfolding FspathIsAncestor_def FspathLongestAncestor_def by blast

theorem longest_ancestor_meet_witness:
  "\<exists>m. FspathLongestAncestor ''/a/b/c'' ''/a/d'' = Some m \<and> FspathIsAncestor ''/a'' m"
proof -
  have "FspathIsAncestor ''/a'' ''/a/b/c''" "FspathIsAncestor ''/a'' ''/a/d''" by code_simp+
  with longest_ancestor_meet [of "''/a/b/c''" "''/a/d''"] show ?thesis by blast
qed

text \<open>C17: condensing a non-empty list of relative targets ends; the common ancestor it returns is
  an ancestor of every target, and the remainders, put below it, are the targets, without those
  that lie strictly below another one when redundant targets are removed.\<close>

theorem condense_targets:
  assumes "targets \<noteq> []"
  shows "\<exists>common rest. RelpathCondense targets removeRedundant = Some (common, rest) \<and>
     (\<forall>t\<in>set targets. RelpathIsAncestor common t) \<and>
     (\<lambda>r. components common @ components r) ` set rest =
       components ` {t \<in> set targets. removeRedundant \<longrightarrow>
         \<not> (\<exists>u\<in>set targets. strict_prefix (components u) (components t))}"
  using relpath.condense_correct [OF assms, of removeRedundant]
  unfolding RelpathCondense_def RelpathLongestAncestor_def RelpathIsAncestor_def .

theorem condense_targets_witness:
  "\<exists>common rest. RelpathCondense [''a/b'', ''a/b/c'', ''a/d''] True = Some (common, rest) \<and>
     (\<forall>t\<in>set [''a/b'', ''a/b/c'', ''a/d'']. RelpathIsAncestor common t)"
  using condense_targets [of "[''a/b'', ''a/b/c'', ''a/d'']" True] by blast

end
