(* ===== verification/Delta_Editor.thy ===== *)
theory Delta_Editor
  imports Svn_Kind Svn_Checksum Svn_Path Delta_Window
begin

text \<open>
  The editor interface of the package \<open>delta\<close> and its wrappers: \<^verbatim>\<open>editor.go\<close>, \<^verbatim>\<open>noop.go\<close>,
  \<^verbatim>\<open>compose.go\<close>, \<^verbatim>\<open>cancel.go\<close> and \<^verbatim>\<open>depthfilter.go\<close>. A value of an interface type is the tuple of its
  methods, functions of the state \<open>'s\<close> of everything the editors work on; directory editors give
  out directory editors, so they form a codatatype. A context is what its \<open>Err\<close> method says in a
  state. The lemmas relate driving a wrapped editor to driving the editors it wraps.
\<close>

record copy_source =
  copy_path :: string
  copy_rev :: revnum

datatype editor_error =
    Cancelled string
  | Joined "editor_error list"
  | EditorClosed
  | MissingEntry string
  | EntryExists string
  | WrongKind string NodeKind
  | UnsupportedChecksum ChecksumKind
  | BaseChecksum
  | ResultChecksum
  | DeltaClosed
  | DeltaAlreadyClosed
  | DeltaFault delta_error
  | EmptyTarget
  | DuplicatePath string
  | CannotDrive string string
  | OtherError string

type_synonym 's ctx = "'s \<Rightarrow> editor_error option"
type_synonym 's act = "'s \<Rightarrow> editor_error option \<times> 's"
type_synonym ('s, 'a) open_act = "'s \<Rightarrow> (editor_error + 'a) \<times> 's"

section \<open>The interfaces\<close>

datatype (dead 's) window_handler = WindowHandler
  (Window: "window \<Rightarrow> 's \<Rightarrow> editor_error option \<times> 's")
  (CloseWindows: "'s \<Rightarrow> editor_error option \<times> 's")

datatype (dead 's) file_editor = FileEditor
  (ApplyTextDelta: "'s ctx \<Rightarrow> checksum option \<Rightarrow> 's \<Rightarrow> (editor_error + 's window_handler) \<times> 's")
  (ChangeFileProp: "'s ctx \<Rightarrow> string \<Rightarrow> string option \<Rightarrow> 's \<Rightarrow> editor_error option \<times> 's")
  (CloseFile: "'s ctx \<Rightarrow> checksum option \<Rightarrow> 's \<Rightarrow> editor_error option \<times> 's")

text \<open>The methods of a directory editor that do not give out directory editors.\<close>

record 's dir_methods =
  DeleteEntry_of :: "'s ctx \<Rightarrow> string \<Rightarrow> revnum \<Rightarrow> 's \<Rightarrow> editor_error option \<times> 's"
  ChangeDirProp_of :: "'s ctx \<Rightarrow> string \<Rightarrow> string option \<Rightarrow> 's \<Rightarrow> editor_error option \<times> 's"
  AbsentDirectory_of :: "'s ctx \<Rightarrow> string \<Rightarrow> 's \<Rightarrow> editor_error option \<times> 's"
  AddFile_of :: "'s ctx \<Rightarrow> string \<Rightarrow> copy_source option \<Rightarrow> 's \<Rightarrow> (editor_error + 's file_editor) \<times> 's"
  OpenFile_of :: "'s ctx \<Rightarrow> string \<Rightarrow> revnum \<Rightarrow> 's \<Rightarrow> (editor_error + 's file_editor) \<times> 's"
  AbsentFile_of :: "'s ctx \<Rightarrow> string \<Rightarrow> 's \<Rightarrow> editor_error option \<times> 's"
  CloseDir_of :: "'s ctx \<Rightarrow> 's \<Rightarrow> editor_error option \<times> 's"

definition DirMethods where
  "DirMethods delete prop absent_dir add_file open_file absent_file close =
     \<lparr>DeleteEntry_of = delete,
      ChangeDirProp_of = prop,
      AbsentDirectory_of = absent_dir,
      AddFile_of = add_file,
      OpenFile_of = open_file,
      AbsentFile_of = absent_file,
      CloseDir_of = close\<rparr>"

lemma DirMethods_simps [simp]:
  "DeleteEntry_of (DirMethods delete prop absent_dir add_file open_file absent_file close) = delete"
  "ChangeDirProp_of (DirMethods delete prop absent_dir add_file open_file absent_file close) = prop"
  "AbsentDirectory_of (DirMethods delete prop absent_dir add_file open_file absent_file close) = absent_dir"
  "AddFile_of (DirMethods delete prop absent_dir add_file open_file absent_file close) = add_file"
  "OpenFile_of (DirMethods delete prop absent_dir add_file open_file absent_file close) = open_file"
  "AbsentFile_of (DirMethods delete prop absent_dir add_file open_file absent_file close) = absent_file"
  "CloseDir_of (DirMethods delete prop absent_dir add_file open_file absent_file close) = close"
  by (simp_all add: DirMethods_def)

codatatype (dead 's) dir_editor = DirEditor
  (methods: "'s dir_methods")
  (AddDirectory: "'s ctx \<Rightarrow> string \<Rightarrow> copy_source option \<Rightarrow> 's \<Rightarrow> (editor_error + 's dir_editor) \<times> 's")
  (OpenDirectory: "'s ctx \<Rightarrow> string \<Rightarrow> revnum \<Rightarrow> 's \<Rightarrow> (editor_error + 's dir_editor) \<times> 's")

abbreviation "DeleteEntry d \<equiv> DeleteEntry_of (methods d)"
abbreviation "ChangeDirProp d \<equiv> ChangeDirProp_of (methods d)"
abbreviation "AbsentDirectory d \<equiv> AbsentDirectory_of (methods d)"
abbreviation "AddFile d \<equiv> AddFile_of (methods d)"
abbreviation "OpenFile d \<equiv> OpenFile_of (methods d)"
abbreviation "AbsentFile d \<equiv> AbsentFile_of (methods d)"
abbreviation "CloseDir d \<equiv> CloseDir_of (methods d)"

datatype (dead 's) editor = Editor
  (SetTargetRevision: "'s ctx \<Rightarrow> revnum \<Rightarrow> 's \<Rightarrow> editor_error option \<times> 's")
  (OpenRoot: "'s ctx \<Rightarrow> revnum \<Rightarrow> 's \<Rightarrow> (editor_error + 's dir_editor) \<times> 's")
  (CloseEdit: "'s ctx \<Rightarrow> 's \<Rightarrow> editor_error option \<times> 's")
  (AbortEdit: "'s ctx \<Rightarrow> 's \<Rightarrow> editor_error option \<times> 's")

text \<open>Wrap the editor a method gives out.\<close>

definition opened :: "('a \<Rightarrow> 'b) \<Rightarrow> (editor_error + 'a) \<times> 's \<Rightarrow> (editor_error + 'b) \<times> 's" where
  "opened f = map_prod (map_sum id f) id"

lemma opened_simps [simp]: "opened f (Inl e, s) = (Inl e, s)" "opened f (Inr a, s) = (Inr (f a), s)"
  by (simp_all add: opened_def)

section \<open>Noop\<close>

definition noopWindows :: "'s window_handler" where
  "noopWindows = WindowHandler (\<lambda>w s. (None, s)) (\<lambda>s. (None, s))"

definition noopFile :: "'s file_editor" where
  "noopFile = FileEditor (\<lambda>ctx c s. (Inr noopWindows, s)) (\<lambda>ctx name v s. (None, s)) (\<lambda>ctx c s. (None, s))"

primcorec noopDir :: "'s dir_editor" where
  "methods noopDir =
     DirMethods
       (\<lambda>ctx path rv s. (None, s))
       (\<lambda>ctx name v s. (None, s))
       (\<lambda>ctx path s. (None, s))
       (\<lambda>ctx path source s. (Inr noopFile, s))
       (\<lambda>ctx path rv s. (Inr noopFile, s))
       (\<lambda>ctx path s. (None, s))
       (\<lambda>ctx s. (None, s))"
| "AddDirectory noopDir =
     (\<lambda>ctx path source s. map_prod (map_sum id (\<lambda>_. noopDir)) id (Inr (), s))"
| "OpenDirectory noopDir =
     (\<lambda>ctx path rv s. map_prod (map_sum id (\<lambda>_. noopDir)) id (Inr (), s))"

definition Noop :: "'s editor" where
  "Noop = Editor (\<lambda>ctx rv s. (None, s)) (\<lambda>ctx rv s. (Inr noopDir, s)) (\<lambda>ctx s. (None, s)) (\<lambda>ctx s. (None, s))"

section \<open>Compose\<close>

text \<open>\<open>errors.Join\<close> of two errors, and the loops over the children.\<close>

definition join_errors :: "editor_error option \<Rightarrow> editor_error option \<Rightarrow> editor_error option" where
  "join_errors a b =
     (let es = (case a of None \<Rightarrow> [] | Some e \<Rightarrow> [e]) @ (case b of None \<Rightarrow> [] | Some e \<Rightarrow> [e]) in
      if es = [] then None else Some (Joined es))"

fun each_child :: "('a \<Rightarrow> 's act) \<Rightarrow> editor_error option \<Rightarrow> 'a list \<Rightarrow> 's act" where
  "each_child f result [] s = (result, s)"
| "each_child f result (child # children) s =
     (let (e, s') = f child s in each_child f (join_errors result e) children s')"

fun open_each :: "('a \<Rightarrow> ('s, 'b) open_act) \<Rightarrow> 'a list \<Rightarrow> ('s, 'b list) open_act" where
  "open_each f [] s = (Inr [], s)"
| "open_each f (child # children) s =
     (case f child s of
        (Inl e, s') \<Rightarrow> (Inl e, s')
      | (Inr h, s') \<Rightarrow> opened (\<lambda>hs. h # hs) (open_each f children s'))"

definition composedWindows :: "'s window_handler list \<Rightarrow> 's window_handler" where
  "composedWindows handlers =
     WindowHandler (\<lambda>w. each_child (\<lambda>h. Window h w) None handlers)
       (each_child CloseWindows None handlers)"

definition composedFile :: "'s file_editor list \<Rightarrow> 's file_editor" where
  "composedFile editors =
     FileEditor
       (\<lambda>ctx c s. opened composedWindows (open_each (\<lambda>f. ApplyTextDelta f ctx c) editors s))
       (\<lambda>ctx name v. each_child (\<lambda>f. ChangeFileProp f ctx name v) None editors)
       (\<lambda>ctx c. each_child (\<lambda>f. CloseFile f ctx c) None editors)"

primcorec composedDir :: "'s dir_editor list \<Rightarrow> 's dir_editor" where
  "methods (composedDir editors) =
     DirMethods
       (\<lambda>ctx path rv. each_child (\<lambda>d. DeleteEntry d ctx path rv) None editors)
       (\<lambda>ctx name v. each_child (\<lambda>d. ChangeDirProp d ctx name v) None editors)
       (\<lambda>ctx path. each_child (\<lambda>d. AbsentDirectory d ctx path) None editors)
       (\<lambda>ctx path source s. opened composedFile (open_each (\<lambda>d. AddFile d ctx path source) editors s))
       (\<lambda>ctx path rv s. opened composedFile (open_each (\<lambda>d. OpenFile d ctx path rv) editors s))
       (\<lambda>ctx path. each_child (\<lambda>d. AbsentFile d ctx path) None editors)
       (\<lambda>ctx. each_child (\<lambda>d. CloseDir d ctx) None editors)"
| "AddDirectory (composedDir editors) =
     (\<lambda>ctx path source s. map_prod (map_sum id composedDir) id (open_each (\<lambda>d. AddDirectory d ctx path source) editors s))"
| "OpenDirectory (composedDir editors) =
     (\<lambda>ctx path rv s. map_prod (map_sum id composedDir) id (open_each (\<lambda>d. OpenDirectory d ctx path rv) editors s))"

definition composedEditor :: "'s editor list \<Rightarrow> 's editor" where
  "composedEditor editors =
     Editor
       (\<lambda>ctx rv. each_child (\<lambda>e. SetTargetRevision e ctx rv) None editors)
       (\<lambda>ctx rv s. opened composedDir (open_each (\<lambda>e. OpenRoot e ctx rv) editors s))
       (\<lambda>ctx. each_child (\<lambda>e. CloseEdit e ctx) None editors)
       (\<lambda>ctx. each_child (\<lambda>e. AbortEdit e ctx) None editors)"

text \<open>A nil editor is \<open>None\<close>.\<close>

definition Compose :: "'s editor option list \<Rightarrow> 's editor" where
  "Compose editors = composedEditor (List.map_filter id editors)"

section \<open>Cancel\<close>

definition checkContexts :: "'s ctx \<Rightarrow> 's ctx \<Rightarrow> 's ctx" where
  "checkContexts fixed current s = (case fixed s of Some e \<Rightarrow> Some e | None \<Rightarrow> current s)"

definition guarded :: "'s ctx \<Rightarrow> 's act \<Rightarrow> 's act" where
  "guarded check method s = (case check s of Some e \<Rightarrow> (Some e, s) | None \<Rightarrow> method s)"

definition guarded_open :: "'s ctx \<Rightarrow> ('s, 'a) open_act \<Rightarrow> ('s, 'a) open_act" where
  "guarded_open check method s = (case check s of Some e \<Rightarrow> (Inl e, s) | None \<Rightarrow> method s)"

definition cancelWindows :: "'s ctx \<Rightarrow> 's window_handler \<Rightarrow> 's window_handler" where
  "cancelWindows fixed h =
     WindowHandler (\<lambda>w. guarded fixed (Window h w)) (guarded fixed (CloseWindows h))"

definition cancelFile :: "'s ctx \<Rightarrow> 's file_editor \<Rightarrow> 's file_editor" where
  "cancelFile fixed f =
     FileEditor
       (\<lambda>ctx c s. opened (cancelWindows fixed) (guarded_open (checkContexts fixed ctx) (ApplyTextDelta f ctx c) s))
       (\<lambda>ctx name v. guarded (checkContexts fixed ctx) (ChangeFileProp f ctx name v))
       (\<lambda>ctx c. guarded (checkContexts fixed ctx) (CloseFile f ctx c))"

primcorec cancelDir :: "'s ctx \<Rightarrow> 's dir_editor \<Rightarrow> 's dir_editor" where
  "methods (cancelDir fixed d) =
     DirMethods
       (\<lambda>ctx path rv. guarded (checkContexts fixed ctx) (DeleteEntry d ctx path rv))
       (\<lambda>ctx name v. guarded (checkContexts fixed ctx) (ChangeDirProp d ctx name v))
       (\<lambda>ctx path. guarded (checkContexts fixed ctx) (AbsentDirectory d ctx path))
       (\<lambda>ctx path source s. opened (cancelFile fixed)
        (guarded_open (checkContexts fixed ctx) (AddFile d ctx path source) s))
       (\<lambda>ctx path rv s. opened (cancelFile fixed)
        (guarded_open (checkContexts fixed ctx) (OpenFile d ctx path rv) s))
       (\<lambda>ctx path. guarded (checkContexts fixed ctx) (AbsentFile d ctx path))
       (\<lambda>ctx. guarded (checkContexts fixed ctx) (CloseDir d ctx))"
| "AddDirectory (cancelDir fixed d) =
     (\<lambda>ctx path source s. map_prod (map_sum id (cancelDir fixed)) id
        (guarded_open (checkContexts fixed ctx) (AddDirectory d ctx path source) s))"
| "OpenDirectory (cancelDir fixed d) =
     (\<lambda>ctx path rv s. map_prod (map_sum id (cancelDir fixed)) id
        (guarded_open (checkContexts fixed ctx) (OpenDirectory d ctx path rv) s))"

definition Cancel :: "'s ctx \<Rightarrow> 's editor \<Rightarrow> 's editor" where
  "Cancel fixed e =
     Editor
       (\<lambda>ctx rv. guarded (checkContexts fixed ctx) (SetTargetRevision e ctx rv))
       (\<lambda>ctx rv s. opened (cancelDir fixed) (guarded_open (checkContexts fixed ctx) (OpenRoot e ctx rv) s))
       (\<lambda>ctx. guarded (checkContexts fixed ctx) (CloseEdit e ctx))
       (\<lambda>ctx. AbortEdit e ctx)"

section \<open>Depth filter\<close>

definition relativeLevel :: "string \<Rightarrow> string \<Rightarrow> int" where
  "relativeLevel target path0 =
     (let path = RelpathCanonicalize path0;
          level = (\<lambda>p. if p = [] then 0 else int (count_list p CHR ''/'') + 1) in
      if target \<noteq> [] then
        (case RelpathSkipAncestor target path of
           Some remaining \<Rightarrow> level remaining
         | None \<Rightarrow> (case RelpathSkipAncestor path target of Some _ \<Rightarrow> 0 | None \<Rightarrow> - 1))
      else level path)"

definition allowsDirectory :: "Depth \<Rightarrow> int \<Rightarrow> bool" where
  "allowsDirectory depth level =
     (if level < 0 then False
      else case depth of
          DepthInfinity \<Rightarrow> True
        | DepthUnknown \<Rightarrow> True
        | DepthImmediates \<Rightarrow> level \<le> 1
        | DepthEmpty \<Rightarrow> level = 0
        | DepthFiles \<Rightarrow> level = 0
        | _ \<Rightarrow> False)"

definition allowsFile :: "Depth \<Rightarrow> int \<Rightarrow> bool" where
  "allowsFile depth level =
     (if level < 0 then False
      else case depth of
          DepthInfinity \<Rightarrow> True
        | DepthUnknown \<Rightarrow> True
        | DepthFiles \<Rightarrow> level \<le> 1
        | DepthImmediates \<Rightarrow> level \<le> 1
        | DepthEmpty \<Rightarrow> level = 0
        | _ \<Rightarrow> False)"

definition allowsUnknown :: "Depth \<Rightarrow> int \<Rightarrow> bool" where
  "allowsUnknown depth level = allowsFile depth level"

definition unless_delegated :: "bool \<Rightarrow> 's act \<Rightarrow> 's act" where
  "unless_delegated delegated method s = (if \<not> delegated then (None, s) else method s)"

definition depth_file ::
    "bool \<Rightarrow> Depth \<Rightarrow> string \<Rightarrow> string \<Rightarrow> ('s, 's file_editor) open_act \<Rightarrow> ('s, 's file_editor) open_act" where
  "depth_file delegated depth target path opening s =
     (if \<not> delegated \<or> \<not> allowsFile depth (relativeLevel target path) then (Inr noopFile, s) else opening s)"

text \<open>\<open>None\<close> is the directory editor that does nothing.\<close>

definition depth_directory ::
    "bool \<Rightarrow> Depth \<Rightarrow> string \<Rightarrow> string \<Rightarrow> ('s, 's dir_editor) open_act \<Rightarrow> ('s, 's dir_editor option) open_act" where
  "depth_directory delegated depth target path opening s =
     (if \<not> delegated \<or> \<not> allowsDirectory depth (relativeLevel target path) then (Inr None, s)
      else opened Some (opening s))"

primcorec depthDir :: "'s dir_editor \<Rightarrow> Depth \<Rightarrow> string \<Rightarrow> bool \<Rightarrow> 's dir_editor" where
  "methods (depthDir d depth target delegated) =
     DirMethods
       (\<lambda>ctx path rv s.
          if \<not> delegated \<or> \<not> allowsUnknown depth (relativeLevel target path) then (None, s)
          else DeleteEntry d ctx path rv s)
       (\<lambda>ctx name v. unless_delegated delegated (ChangeDirProp d ctx name v))
       (\<lambda>ctx path. unless_delegated delegated (AbsentDirectory d ctx path))
       (\<lambda>ctx path source. depth_file delegated depth target path (AddFile d ctx path source))
       (\<lambda>ctx path rv. depth_file delegated depth target path (OpenFile d ctx path rv))
       (\<lambda>ctx path. unless_delegated delegated (AbsentFile d ctx path))
       (\<lambda>ctx. unless_delegated delegated (CloseDir d ctx))"
| "AddDirectory (depthDir d depth target delegated) =
     (\<lambda>ctx path source s.
        map_prod (map_sum id (\<lambda>c. case c of None \<Rightarrow> noopDir | Some d' \<Rightarrow> depthDir d' depth target True)) id
          (depth_directory delegated depth target path (AddDirectory d ctx path source) s))"
| "OpenDirectory (depthDir d depth target delegated) =
     (\<lambda>ctx path rv s.
        map_prod (map_sum id (\<lambda>c. case c of None \<Rightarrow> noopDir | Some d' \<Rightarrow> depthDir d' depth target True)) id
          (depth_directory delegated depth target path (OpenDirectory d ctx path rv) s))"

definition DepthFilter :: "'s editor \<Rightarrow> Depth \<Rightarrow> string \<Rightarrow> 's editor" where
  "DepthFilter e depth target =
     Editor
       (\<lambda>ctx rv. SetTargetRevision e ctx rv)
       (\<lambda>ctx rv s. opened (\<lambda>d. depthDir d depth (RelpathCanonicalize target) True) (OpenRoot e ctx rv s))
       (\<lambda>ctx. CloseEdit e ctx)
       (\<lambda>ctx. AbortEdit e ctx)"

section \<open>Driving an editor\<close>

text \<open>
  An edit as its driver sees it: the calls on a directory, with the calls on what it opens inside.
  \<open>run_dir\<close> makes the calls in order, closes every editor it has opened, and stops at the first
  error.
\<close>

datatype file_step =
    TextStep "checksum option" "window list"
  | FilePropStep string "string option"

datatype dir_step =
    DeleteStep string revnum
  | AddDirStep string "copy_source option" "dir_step list"
  | OpenDirStep string revnum "dir_step list"
  | DirPropStep string "string option"
  | AbsentDirStep string
  | AddFileStep string "copy_source option" "file_step list" "checksum option"
  | OpenFileStep string revnum "file_step list" "checksum option"
  | AbsentFileStep string

definition andThen :: "'s act \<Rightarrow> 's act \<Rightarrow> 's act" where
  "andThen a b s = (case a s of (Some e, s') \<Rightarrow> (Some e, s') | (None, s') \<Rightarrow> b s')"

definition withOpened :: "('s, 'a) open_act \<Rightarrow> ('a \<Rightarrow> 's act) \<Rightarrow> 's act" where
  "withOpened a f s = (case a s of (Inl e, s') \<Rightarrow> (Some e, s') | (Inr x, s') \<Rightarrow> f x s')"

fun run_windows :: "'s window_handler \<Rightarrow> window list \<Rightarrow> 's act" where
  "run_windows h [] = CloseWindows h"
| "run_windows h (w # ws) = andThen (Window h w) (run_windows h ws)"

fun run_file :: "'s ctx \<Rightarrow> 's file_editor \<Rightarrow> file_step list \<Rightarrow> checksum option \<Rightarrow> 's act" where
  "run_file ctx f [] result = CloseFile f ctx result"
| "run_file ctx f (TextStep base ws # steps) result =
     andThen (withOpened (ApplyTextDelta f ctx base) (\<lambda>h. run_windows h ws)) (run_file ctx f steps result)"
| "run_file ctx f (FilePropStep name v # steps) result =
     andThen (ChangeFileProp f ctx name v) (run_file ctx f steps result)"

fun run_dir :: "'s ctx \<Rightarrow> 's dir_editor \<Rightarrow> dir_step list \<Rightarrow> 's act"
  and run_step :: "'s ctx \<Rightarrow> 's dir_editor \<Rightarrow> dir_step \<Rightarrow> 's act"
where
  "run_dir ctx d [] = CloseDir d ctx"
| "run_dir ctx d (step # steps) = andThen (run_step ctx d step) (run_dir ctx d steps)"
| "run_step ctx d (DeleteStep path rv) = DeleteEntry d ctx path rv"
| "run_step ctx d (AddDirStep path source steps) =
     withOpened (AddDirectory d ctx path source) (\<lambda>child. run_dir ctx child steps)"
| "run_step ctx d (OpenDirStep path rv steps) =
     withOpened (OpenDirectory d ctx path rv) (\<lambda>child. run_dir ctx child steps)"
| "run_step ctx d (DirPropStep name v) = ChangeDirProp d ctx name v"
| "run_step ctx d (AbsentDirStep path) = AbsentDirectory d ctx path"
| "run_step ctx d (AddFileStep path source steps result) =
     withOpened (AddFile d ctx path source) (\<lambda>f. run_file ctx f steps result)"
| "run_step ctx d (OpenFileStep path rv steps result) =
     withOpened (OpenFile d ctx path rv) (\<lambda>f. run_file ctx f steps result)"
| "run_step ctx d (AbsentFileStep path) = AbsentFile d ctx path"

definition run_edit :: "'s ctx \<Rightarrow> 's editor \<Rightarrow> revnum \<Rightarrow> revnum \<Rightarrow> dir_step list \<Rightarrow> 's act" where
  "run_edit ctx e target base steps =
     andThen (SetTargetRevision e ctx target)
       (andThen (withOpened (OpenRoot e ctx base) (\<lambda>d. run_dir ctx d steps)) (CloseEdit e ctx))"

section \<open>Driving a wrapped editor\<close>

lemma andThen_None [simp]: "andThen (Pair None) b = b"
  by (rule ext) (simp add: andThen_def)

lemma withOpened_Inr [simp]: "withOpened (Pair (Inr x)) f = f x"
  by (rule ext) (simp add: withOpened_def)

lemma withOpened_opened: "withOpened (\<lambda>s. opened g (a s)) f = withOpened a (\<lambda>x. f (g x))"
  by (rule ext) (auto simp: withOpened_def opened_def split: prod.split sum.split)

text \<open>The editor that does nothing.\<close>

lemma run_windows_noop: "run_windows noopWindows ws = (\<lambda>s. (None, s))"
  by (induction ws) (simp_all add: noopWindows_def)

lemma run_file_noop: "run_file ctx noopFile steps result = (\<lambda>s. (None, s))"
proof (induction steps)
  case (Cons step steps)
  then show ?case by (cases step) (auto simp: noopFile_def run_windows_noop)
qed (simp add: noopFile_def)

lemma dir_steps_induct [case_names Nil Cons Delete AddDir OpenDir Prop AbsentDir AddFile OpenFile AbsentFile]:
  assumes "P []" "\<And>step steps. Q step \<Longrightarrow> P steps \<Longrightarrow> P (step # steps)"
    "\<And>path rv. Q (DeleteStep path rv)" "\<And>path source steps. P steps \<Longrightarrow> Q (AddDirStep path source steps)"
    "\<And>path rv steps. P steps \<Longrightarrow> Q (OpenDirStep path rv steps)" "\<And>name v. Q (DirPropStep name v)"
    "\<And>path. Q (AbsentDirStep path)" "\<And>path source steps result. Q (AddFileStep path source steps result)"
    "\<And>path rv steps result. Q (OpenFileStep path rv steps result)" "\<And>path. Q (AbsentFileStep path)"
  shows "P steps" "Q step"
proof -
  have list: "P steps" if "\<And>step. step \<in> set steps \<Longrightarrow> Q step" for steps
    using that by (induction steps) (auto intro: assms(1,2))
  show step: "Q step" for step
    by (induction step) (auto intro: assms(3-) list)
  show "P steps" by (rule list, rule step)
qed

lemma noopDir_opens:
  "AddDirectory noopDir ctx path source = (\<lambda>s. (Inr noopDir, s))"
  "OpenDirectory noopDir ctx path rv = (\<lambda>s. (Inr noopDir, s))"
  by (rule ext, simp)+

lemma run_noop:
  "run_dir ctx noopDir steps = (\<lambda>s. (None, s))"
  "run_step ctx noopDir step = (\<lambda>s. (None, s))"
  by (induction steps and step rule: dir_steps_induct)
    (auto simp: run_file_noop noopDir_opens)

text \<open>
  What the depth filter lets through, on components: a node is seen from the target by the number
  of levels it lies below it, the directories on the way to the target count as the target itself,
  and all other nodes are out of reach. At the target itself every depth from empty on admits, one
  level below it immediates admits all nodes and files admits the files, and further below only
  infinity (or no depth at all) admits. Property changes and reports of absent nodes pass in every
  directory that is let through.
\<close>

definition levels_below :: "string list \<Rightarrow> string list \<Rightarrow> nat option" where
  "levels_below target path =
     (if prefix target path then Some (length path - length target)
      else if prefix path target then Some 0 else None)"

definition admitted :: "Depth \<Rightarrow> string \<Rightarrow> bool \<Rightarrow> string \<Rightarrow> bool" where
  "admitted depth target directory path \<longleftrightarrow>
     (\<exists>n. levels_below (components target) (components path) = Some n \<and>
        (depth \<in> {DepthUnknown, DepthInfinity} \<or>
         n = 0 \<and> depth \<in> {DepthEmpty, DepthFiles, DepthImmediates} \<or>
         n = 1 \<and> (depth = DepthImmediates \<or> depth = DepthFiles \<and> \<not> directory)))"

fun prune :: "Depth \<Rightarrow> string \<Rightarrow> dir_step list \<Rightarrow> dir_step list"
  and prune_step :: "Depth \<Rightarrow> string \<Rightarrow> dir_step \<Rightarrow> dir_step list"
where
  "prune depth target [] = []"
| "prune depth target (step # steps) = prune_step depth target step @ prune depth target steps"
| "prune_step depth target (AddDirStep path source steps) =
     (if admitted depth target True path then [AddDirStep path source (prune depth target steps)] else [])"
| "prune_step depth target (OpenDirStep path rv steps) =
     (if admitted depth target True path then [OpenDirStep path rv (prune depth target steps)] else [])"
| "prune_step depth target (DeleteStep path rv) =
     (if admitted depth target False path then [DeleteStep path rv] else [])"
| "prune_step depth target (AddFileStep path source steps result) =
     (if admitted depth target False path then [AddFileStep path source steps result] else [])"
| "prune_step depth target (OpenFileStep path rv steps result) =
     (if admitted depth target False path then [OpenFileStep path rv steps result] else [])"
| "prune_step depth target step = [step]"

lemma count_join:
  "wf_components cs \<Longrightarrow> count_list (join ''/'' cs) CHR ''/'' = length cs - 1"
  by (induction cs rule: rev_induct) (auto simp: join_snoc count_list_0_iff)

lemma relativeLevel_components:
  "relativeLevel (RelpathCanonicalize target) path =
     (case levels_below (components target) (components path) of None \<Rightarrow> - 1 | Some n \<Rightarrow> int n)"
proof -
  let ?t = "components target" and ?p = "components path"
  have level: "(if join ''/'' cs = [] then 0 else int (count_list (join ''/'' cs) CHR ''/'') + 1) = int (length cs)"
    if "wf_components cs" for cs
    using that by (cases cs) (auto simp: join_wf_Nil count_join)
  have drop: "wf_components (drop n ?p)" for n
    using components_wf [of path] unfolding wf_components_def by (meson in_set_dropD)
  have empty: "RelpathCanonicalize target = [] \<longleftrightarrow> ?t = []"
    by (simp add: RelpathCanonicalize_eq print_path_def join_wf_Nil)
  have path: "RelpathCanonicalize path = join ''/'' ?p"
    by (simp add: RelpathCanonicalize_eq print_path_def)
  have down: "RelpathSkipAncestor (RelpathCanonicalize target) (RelpathCanonicalize path) =
      (if prefix ?t ?p then Some (join ''/'' (drop (length ?t) ?p)) else None)"
    by (simp add: relpath.skip)
  have up: "RelpathSkipAncestor (RelpathCanonicalize path) (RelpathCanonicalize target) = None \<longleftrightarrow> \<not> prefix ?p ?t"
    by (simp add: relpath.skip)
  have way: "(case RelpathSkipAncestor (RelpathCanonicalize path) (RelpathCanonicalize target) of
      None \<Rightarrow> - 1 | Some _ \<Rightarrow> 0) = (if prefix ?p ?t then 0 else - 1 :: int)"
    using up by (auto split: option.split)
  have target: "(if prefix ?t ?p then int (length ?p - length ?t) else if prefix ?p ?t then 0 else - 1) =
      (case levels_below ?t ?p of None \<Rightarrow> - 1 | Some n \<Rightarrow> int n)"
    by (simp add: levels_below_def)
  show ?thesis
  proof (cases "?t = []")
    case True
    then show ?thesis
      using level [OF components_wf [of path]] unfolding relativeLevel_def Let_def empty path
      by (simp add: levels_below_def)
  next
    case False
    then show ?thesis
      using level [OF drop [of "length ?t"]] unfolding relativeLevel_def Let_def empty down way target [symmetric]
      by (simp del: drop_eq_Nil)
  qed
qed

lemma allows_admitted:
  "allowsDirectory depth (relativeLevel (RelpathCanonicalize target) path) \<longleftrightarrow> admitted depth target True path"
  "allowsFile depth (relativeLevel (RelpathCanonicalize target) path) \<longleftrightarrow> admitted depth target False path"
  unfolding relativeLevel_components admitted_def
  by (cases "levels_below (components target) (components path)"; cases depth;
      auto simp: allowsDirectory_def allowsFile_def)+

lemma run_dir_append1:
  "run_dir ctx d ([step] @ steps) = andThen (run_step ctx d step) (run_dir ctx d steps)"
  by simp

lemma opened_None: "withOpened (\<lambda>s. map_prod (map_sum id g) id (a s)) f = withOpened a (\<lambda>x. f (g x))"
  by (rule ext) (auto simp: withOpened_def split: prod.split sum.split)

lemma unless_delegated_True [simp]: "unless_delegated True act = act"
  by (rule ext) (simp add: unless_delegated_def)

lemma withOpened_depth:
  "withOpened (depth_directory True depth target path opening) (\<lambda>c. f (case c of None \<Rightarrow> noopDir | Some d \<Rightarrow> g d)) =
     (if allowsDirectory depth (relativeLevel target path) then withOpened opening (\<lambda>d. f (g d))
      else f noopDir)"
  by (rule ext) (auto simp: withOpened_def depth_directory_def opened_def split: prod.split sum.split)

lemma withOpened_depth_file:
  "withOpened (depth_file True depth target path opening) f =
     (if allowsFile depth (relativeLevel target path) then withOpened opening f else f noopFile)"
  by (rule ext) (auto simp: withOpened_def depth_file_def)

lemma run_depth:
  "\<forall>d. run_dir ctx (depthDir d depth (RelpathCanonicalize target) True) steps = run_dir ctx d (prune depth target steps)"
  "\<forall>d more. andThen (run_step ctx (depthDir d depth (RelpathCanonicalize target) True) step) (run_dir ctx d more) =
     run_dir ctx d (prune_step depth target step @ more)"
proof (induction steps and step rule: dir_steps_induct)
  case (Delete path rv)
  have "(\<lambda>s. if \<not> allowsUnknown depth (relativeLevel (RelpathCanonicalize target) path) then (None, s) else DeleteEntry d ctx path rv s) =
    (if admitted depth target False path then DeleteEntry d ctx path rv else (\<lambda>s. (None, s)))" for d :: "'a dir_editor"
    by (auto simp: allowsUnknown_def allows_admitted)
  then show ?case by simp
next
  case (AddDir path source steps)
  then show ?case by (simp add: opened_None allows_admitted withOpened_depth [where f = "\<lambda>d. run_dir ctx d steps"] run_noop)
next
  case (OpenDir path rv steps)
  then show ?case by (simp add: opened_None allows_admitted withOpened_depth [where f = "\<lambda>d. run_dir ctx d steps"] run_noop)
next
  case (AddFile path source steps result)
  then show ?case by (simp add: withOpened_depth_file allows_admitted run_file_noop)
next
  case (OpenFile path rv steps result)
  then show ?case by (simp add: withOpened_depth_file allows_admitted run_file_noop)
qed simp_all

section \<open>Driving a cancellable editor\<close>

text \<open>
  What the wrapper is for, as a driver of the editor itself: one that looks at the contexts before
  every call and stops with the error of the first one it finds cancelled. A window handler has no
  context of its own, so its calls look at the fixed one only.
\<close>

definition until :: "'s ctx \<Rightarrow> 's act \<Rightarrow> 's act" where
  "until check act s = (if check s = None then act s else (check s, s))"

definition either :: "'s ctx \<Rightarrow> 's ctx \<Rightarrow> 's ctx" where
  "either fixed ctx s = (if fixed s = None then ctx s else fixed s)"

fun watched_windows :: "'s ctx \<Rightarrow> 's window_handler \<Rightarrow> window list \<Rightarrow> 's act" where
  "watched_windows fixed h [] = until fixed (CloseWindows h)"
| "watched_windows fixed h (w # ws) = until fixed (andThen (Window h w) (watched_windows fixed h ws))"

fun watched_file ::
    "'s ctx \<Rightarrow> 's ctx \<Rightarrow> 's file_editor \<Rightarrow> file_step list \<Rightarrow> checksum option \<Rightarrow> 's act" where
  "watched_file fixed ctx f [] result = until (either fixed ctx) (CloseFile f ctx result)"
| "watched_file fixed ctx f (TextStep base ws # steps) result =
     until (either fixed ctx) (andThen (withOpened (ApplyTextDelta f ctx base) (\<lambda>h. watched_windows fixed h ws))
       (watched_file fixed ctx f steps result))"
| "watched_file fixed ctx f (FilePropStep name v # steps) result =
     until (either fixed ctx) (andThen (ChangeFileProp f ctx name v) (watched_file fixed ctx f steps result))"

fun watched_dir :: "'s ctx \<Rightarrow> 's ctx \<Rightarrow> 's dir_editor \<Rightarrow> dir_step list \<Rightarrow> 's act"
  and watched_step :: "'s ctx \<Rightarrow> 's ctx \<Rightarrow> 's dir_editor \<Rightarrow> dir_step \<Rightarrow> 's act"
where
  "watched_dir fixed ctx d [] = until (either fixed ctx) (CloseDir d ctx)"
| "watched_dir fixed ctx d (step # steps) =
     until (either fixed ctx) (andThen (watched_step fixed ctx d step) (watched_dir fixed ctx d steps))"
| "watched_step fixed ctx d (DeleteStep path rv) = DeleteEntry d ctx path rv"
| "watched_step fixed ctx d (AddDirStep path source steps) =
     withOpened (AddDirectory d ctx path source) (\<lambda>child. watched_dir fixed ctx child steps)"
| "watched_step fixed ctx d (OpenDirStep path rv steps) =
     withOpened (OpenDirectory d ctx path rv) (\<lambda>child. watched_dir fixed ctx child steps)"
| "watched_step fixed ctx d (DirPropStep name v) = ChangeDirProp d ctx name v"
| "watched_step fixed ctx d (AbsentDirStep path) = AbsentDirectory d ctx path"
| "watched_step fixed ctx d (AddFileStep path source steps result) =
     withOpened (AddFile d ctx path source) (\<lambda>f. watched_file fixed ctx f steps result)"
| "watched_step fixed ctx d (OpenFileStep path rv steps result) =
     withOpened (OpenFile d ctx path rv) (\<lambda>f. watched_file fixed ctx f steps result)"
| "watched_step fixed ctx d (AbsentFileStep path) = AbsentFile d ctx path"

definition watched_edit :: "'s ctx \<Rightarrow> 's ctx \<Rightarrow> 's editor \<Rightarrow> revnum \<Rightarrow> revnum \<Rightarrow> dir_step list \<Rightarrow> 's act" where
  "watched_edit fixed ctx e target base steps =
     until (either fixed ctx) (andThen (SetTargetRevision e ctx target)
       (until (either fixed ctx) (andThen (withOpened (OpenRoot e ctx base) (\<lambda>d. watched_dir fixed ctx d steps))
         (until (either fixed ctx) (CloseEdit e ctx)))))"

lemma checkContexts_either: "checkContexts fixed ctx = either fixed ctx"
  by (rule ext) (simp add: checkContexts_def either_def split: option.split)

lemma guarded_until: "guarded check act = until check act"
  by (rule ext) (simp add: guarded_def until_def split: option.split)

lemma guarded_open_until:
  "withOpened (\<lambda>s. opened g (guarded_open check a s)) f = until check (withOpened a (\<lambda>x. f (g x)))"
  "withOpened (\<lambda>s. map_prod (map_sum id k) id (guarded_open check c s)) h =
     until check (withOpened c (\<lambda>x. h (k x)))"
  by (rule ext, auto simp: guarded_open_def until_def withOpened_def opened_def
    split: option.split prod.split sum.split)+

lemmas cancel_simps = checkContexts_either guarded_until guarded_open_until

lemma andThen_until [simp]: "andThen (until check a) b = until check (andThen a b)"
  by (rule ext) (auto simp: andThen_def until_def split: prod.split option.split)

lemma run_windows_cancel: "run_windows (cancelWindows fixed h) ws = watched_windows fixed h ws"
  by (induction ws) (simp_all add: cancelWindows_def cancel_simps)

lemma run_file_cancel: "run_file ctx (cancelFile fixed f) steps result = watched_file fixed ctx f steps result"
proof (induction steps)
  case (Cons step steps)
  then show ?case
    by (cases step) (simp_all add: cancelFile_def cancel_simps run_windows_cancel)
qed (simp add: cancelFile_def cancel_simps)

lemma run_cancel:
  "\<forall>d :: 's dir_editor. run_dir ctx (cancelDir fixed d) steps = watched_dir fixed ctx d steps"
  "\<forall>d :: 's dir_editor. run_step ctx (cancelDir fixed d) step = until (either fixed ctx) (watched_step fixed ctx d step)"
  by (induction steps and step rule: dir_steps_induct)
    (simp_all add: cancel_simps run_file_cancel)

lemma run_edit_cancel: "run_edit ctx (Cancel fixed e) target base steps = watched_edit fixed ctx e target base steps"
  by (simp add: run_edit_def watched_edit_def Cancel_def cancel_simps run_cancel)

text \<open>A context that is never cancelled, and one that is.\<close>

definition never :: "'s ctx" where
  "never = (\<lambda>_. None)"

lemma until_never [simp]: "until (either never never) act = act" "until never act = act"
  by (rule ext, simp add: until_def either_def never_def)+

lemma watched_windows_never: "watched_windows never h ws = run_windows h ws"
  by (induction ws) simp_all

lemma watched_file_never: "watched_file never never f steps result = run_file never f steps result"
proof (induction steps)
  case (Cons step steps)
  then show ?case by (cases step) (simp_all add: watched_windows_never)
qed simp

lemma watched_never:
  "\<forall>d :: 's dir_editor. watched_dir never never d steps = run_dir never d steps"
  "\<forall>d :: 's dir_editor. watched_step never never d step = run_step never d step"
  by (induction steps and step rule: dir_steps_induct) (simp_all add: watched_file_never)

lemma watched_edit_never: "watched_edit never never e target base steps = run_edit never e target base steps"
  by (simp add: watched_edit_def run_edit_def watched_never)

lemma until_stops: "check s = Some err \<Longrightarrow> until check act s = (Some err, s)"
  by (simp add: until_def)

lemma watched_stops:
  "fixed s = Some err \<Longrightarrow> watched_windows fixed h ws s = (Some err, s)"
  "either fixed ctx s = Some err \<Longrightarrow> watched_file fixed ctx f file_steps result s = (Some err, s)"
  "either fixed ctx s = Some err \<Longrightarrow> watched_dir fixed ctx d steps s = (Some err, s)"
  "either fixed ctx s = Some err \<Longrightarrow> watched_edit fixed ctx e target base steps s = (Some err, s)"
     apply (cases ws; simp add: until_stops)
    apply (cases "(fixed, ctx, f, file_steps, result)" rule: watched_file.cases; simp add: until_stops)
   apply (cases steps; simp add: until_stops)
  apply (simp add: watched_edit_def until_stops)
  done

section \<open>Editors on parts of the state\<close>

text \<open>An editor of one part, as an editor of a pair of parts.\<close>

definition on_fst :: "('s \<Rightarrow> 'a \<times> 's) \<Rightarrow> 's \<times> 't \<Rightarrow> 'a \<times> ('s \<times> 't)" where
  "on_fst act p = (let (r, s') = act (fst p) in (r, (s', snd p)))"

definition on_snd :: "('t \<Rightarrow> 'a \<times> 't) \<Rightarrow> 's \<times> 't \<Rightarrow> 'a \<times> ('s \<times> 't)" where
  "on_snd act p = (let (r, t') = act (snd p) in (r, (fst p, t')))"

definition fst_windows :: "'s window_handler \<Rightarrow> ('s \<times> 't) window_handler" where
  "fst_windows h = WindowHandler (\<lambda>w. on_fst (Window h w)) (on_fst (CloseWindows h))"

definition fst_file :: "'s file_editor \<Rightarrow> ('s \<times> 't) file_editor" where
  "fst_file f =
     FileEditor (\<lambda>ctx c p. opened fst_windows (on_fst (ApplyTextDelta f (\<lambda>s. ctx (s, snd p)) c) p))
       (\<lambda>ctx name v p. on_fst (ChangeFileProp f (\<lambda>s. ctx (s, snd p)) name v) p)
       (\<lambda>ctx c p. on_fst (CloseFile f (\<lambda>s. ctx (s, snd p)) c) p)"

primcorec fst_dir :: "'s dir_editor \<Rightarrow> ('s \<times> 't) dir_editor" where
  "methods (fst_dir d) =
     DirMethods
       (\<lambda>ctx path rv p. on_fst (DeleteEntry d (\<lambda>s. ctx (s, snd p)) path rv) p)
       (\<lambda>ctx name v p. on_fst (ChangeDirProp d (\<lambda>s. ctx (s, snd p)) name v) p)
       (\<lambda>ctx path p. on_fst (AbsentDirectory d (\<lambda>s. ctx (s, snd p)) path) p)
       (\<lambda>ctx path source p. opened fst_file (on_fst (AddFile d (\<lambda>s. ctx (s, snd p)) path source) p))
       (\<lambda>ctx path rv p. opened fst_file (on_fst (OpenFile d (\<lambda>s. ctx (s, snd p)) path rv) p))
       (\<lambda>ctx path p. on_fst (AbsentFile d (\<lambda>s. ctx (s, snd p)) path) p)
       (\<lambda>ctx p. on_fst (CloseDir d (\<lambda>s. ctx (s, snd p))) p)"
| "AddDirectory (fst_dir d) =
     (\<lambda>ctx path source p. map_prod (map_sum id fst_dir) id (on_fst (AddDirectory d (\<lambda>s. ctx (s, snd p)) path source) p))"
| "OpenDirectory (fst_dir d) =
     (\<lambda>ctx path rv p. map_prod (map_sum id fst_dir) id (on_fst (OpenDirectory d (\<lambda>s. ctx (s, snd p)) path rv) p))"

definition fst_editor :: "'s editor \<Rightarrow> ('s \<times> 't) editor" where
  "fst_editor e =
     Editor (\<lambda>ctx rv p. on_fst (SetTargetRevision e (\<lambda>s. ctx (s, snd p)) rv) p)
       (\<lambda>ctx rv p. opened fst_dir (on_fst (OpenRoot e (\<lambda>s. ctx (s, snd p)) rv) p))
       (\<lambda>ctx p. on_fst (CloseEdit e (\<lambda>s. ctx (s, snd p))) p)
       (\<lambda>ctx p. on_fst (AbortEdit e (\<lambda>s. ctx (s, snd p))) p)"

definition snd_windows :: "'t window_handler \<Rightarrow> ('s \<times> 't) window_handler" where
  "snd_windows h = WindowHandler (\<lambda>w. on_snd (Window h w)) (on_snd (CloseWindows h))"

definition snd_file :: "'t file_editor \<Rightarrow> ('s \<times> 't) file_editor" where
  "snd_file f =
     FileEditor (\<lambda>ctx c p. opened snd_windows (on_snd (ApplyTextDelta f (\<lambda>t. ctx (fst p, t)) c) p))
       (\<lambda>ctx name v p. on_snd (ChangeFileProp f (\<lambda>t. ctx (fst p, t)) name v) p)
       (\<lambda>ctx c p. on_snd (CloseFile f (\<lambda>t. ctx (fst p, t)) c) p)"

primcorec snd_dir :: "'t dir_editor \<Rightarrow> ('s \<times> 't) dir_editor" where
  "methods (snd_dir d) =
     DirMethods
       (\<lambda>ctx path rv p. on_snd (DeleteEntry d (\<lambda>t. ctx (fst p, t)) path rv) p)
       (\<lambda>ctx name v p. on_snd (ChangeDirProp d (\<lambda>t. ctx (fst p, t)) name v) p)
       (\<lambda>ctx path p. on_snd (AbsentDirectory d (\<lambda>t. ctx (fst p, t)) path) p)
       (\<lambda>ctx path source p. opened snd_file (on_snd (AddFile d (\<lambda>t. ctx (fst p, t)) path source) p))
       (\<lambda>ctx path rv p. opened snd_file (on_snd (OpenFile d (\<lambda>t. ctx (fst p, t)) path rv) p))
       (\<lambda>ctx path p. on_snd (AbsentFile d (\<lambda>t. ctx (fst p, t)) path) p)
       (\<lambda>ctx p. on_snd (CloseDir d (\<lambda>t. ctx (fst p, t))) p)"
| "AddDirectory (snd_dir d) =
     (\<lambda>ctx path source p. map_prod (map_sum id snd_dir) id (on_snd (AddDirectory d (\<lambda>t. ctx (fst p, t)) path source) p))"
| "OpenDirectory (snd_dir d) =
     (\<lambda>ctx path rv p. map_prod (map_sum id snd_dir) id (on_snd (OpenDirectory d (\<lambda>t. ctx (fst p, t)) path rv) p))"

definition snd_editor :: "'t editor \<Rightarrow> ('s \<times> 't) editor" where
  "snd_editor e =
     Editor (\<lambda>ctx rv p. on_snd (SetTargetRevision e (\<lambda>t. ctx (fst p, t)) rv) p)
       (\<lambda>ctx rv p. opened snd_dir (on_snd (OpenRoot e (\<lambda>t. ctx (fst p, t)) rv) p))
       (\<lambda>ctx p. on_snd (CloseEdit e (\<lambda>t. ctx (fst p, t))) p)
       (\<lambda>ctx p. on_snd (AbortEdit e (\<lambda>t. ctx (fst p, t))) p)"

text \<open>An action on the pair that does on each part what an action of that part does.\<close>

definition pairs :: "('s \<times> 't) act \<Rightarrow> 's act \<Rightarrow> 't act \<Rightarrow> bool" where
  "pairs act a b \<longleftrightarrow>
     (\<forall>s s' t t'. a s = (None, s') \<longrightarrow> b t = (None, t') \<longrightarrow> act (s, t) = (None, (s', t')))"

definition pair_opens ::
    "('s \<times> 't, 'c) open_act \<Rightarrow> ('s, 'a) open_act \<Rightarrow> ('t, 'b) open_act \<Rightarrow> ('a \<Rightarrow> 'b \<Rightarrow> 'c) \<Rightarrow> bool" where
  "pair_opens act a b wrap \<longleftrightarrow>
     (\<forall>s s' t t' u v. a s = (Inr u, s') \<longrightarrow> b t = (Inr v, t') \<longrightarrow> act (s, t) = (Inr (wrap u v), (s', t')))"

lemma pairs_andThen:
  "pairs x a b \<Longrightarrow> pairs y c d \<Longrightarrow> pairs (andThen x y) (andThen a c) (andThen b d)"
  unfolding pairs_def andThen_def by (fastforce split: prod.splits option.splits)

lemma pairs_withOpened:
  "pair_opens x a b wrap \<Longrightarrow> (\<And>u v. pairs (f (wrap u v)) (g u) (h v)) \<Longrightarrow>
     pairs (withOpened x f) (withOpened a g) (withOpened b h)"
  unfolding pairs_def pair_opens_def withOpened_def by (fastforce split: prod.splits sum.splits)

lemma pairs_each_child:
  "(\<And>p. f x p = on_fst a p) \<Longrightarrow> (\<And>p. f y p = on_snd b p) \<Longrightarrow> pairs (each_child f None [x, y]) a b"
  by (auto simp: pairs_def on_fst_def on_snd_def join_errors_def Let_def)

lemma pair_opens_each:
  "(\<And>p. f x p = opened g (on_fst a p)) \<Longrightarrow> (\<And>p. f y p = opened h (on_snd b p)) \<Longrightarrow>
     pair_opens (\<lambda>p. opened wrap (open_each f [x, y] p)) a b (\<lambda>u v. wrap [g u, h v])"
  by (auto simp: pair_opens_def on_fst_def on_snd_def)

definition both_dirs :: "'s dir_editor \<Rightarrow> 't dir_editor \<Rightarrow> ('s \<times> 't) dir_editor" where
  "both_dirs d e = composedDir [fst_dir d, snd_dir e]"

definition both_files :: "'s file_editor \<Rightarrow> 't file_editor \<Rightarrow> ('s \<times> 't) file_editor" where
  "both_files f g = composedFile [fst_file f, snd_file g]"

definition both_windows :: "'s window_handler \<Rightarrow> 't window_handler \<Rightarrow> ('s \<times> 't) window_handler" where
  "both_windows f g = composedWindows [fst_windows f, snd_windows g]"

lemma run_windows_both: "pairs (run_windows (both_windows h k) ws) (run_windows h ws) (run_windows k ws)"
proof -
  have close: "pairs (CloseWindows (both_windows h k)) (CloseWindows h) (CloseWindows k)"
    unfolding both_windows_def composedWindows_def window_handler.sel
    by (rule pairs_each_child) (simp_all add: fst_windows_def snd_windows_def)
  have window: "pairs (Window (both_windows h k) w) (Window h w) (Window k w)" for w
    unfolding both_windows_def composedWindows_def window_handler.sel
    by (rule pairs_each_child) (simp_all add: fst_windows_def snd_windows_def)
  show ?thesis by (induction ws) (simp_all add: close window pairs_andThen)
qed

lemma run_file_both:
  "pairs (run_file never (both_files f g) steps result) (run_file never f steps result) (run_file never g steps result)"
proof -
  have close: "pairs (CloseFile (both_files f g) never c) (CloseFile f never c) (CloseFile g never c)" for c
    unfolding both_files_def composedFile_def file_editor.sel
    by (rule pairs_each_child) (simp_all add: fst_file_def snd_file_def never_def)
  have property: "pairs (ChangeFileProp (both_files f g) never name v) (ChangeFileProp f never name v) (ChangeFileProp g never name v)" for name v
    unfolding both_files_def composedFile_def file_editor.sel
    by (rule pairs_each_child) (simp_all add: fst_file_def snd_file_def never_def)
  have text_delta: "pair_opens (ApplyTextDelta (both_files f g) never c) (ApplyTextDelta f never c)
      (ApplyTextDelta g never c) both_windows" for c
    unfolding both_files_def composedFile_def file_editor.sel both_windows_def [abs_def]
    by (rule pair_opens_each) (simp_all add: fst_file_def snd_file_def never_def)
  show ?thesis
  proof (induction steps)
    case (Cons step steps)
    then show ?case
      by (cases step)
        (simp_all add: property pairs_andThen pairs_withOpened [OF text_delta] run_windows_both)
  qed (simp add: close)
qed

lemma both_dirs_methods:
  "pairs (DeleteEntry (both_dirs d e) never path rv) (DeleteEntry d never path rv) (DeleteEntry e never path rv)"
  "pairs (ChangeDirProp (both_dirs d e) never path v) (ChangeDirProp d never path v) (ChangeDirProp e never path v)"
  "pairs (AbsentDirectory (both_dirs d e) never path) (AbsentDirectory d never path) (AbsentDirectory e never path)"
  "pairs (AbsentFile (both_dirs d e) never path) (AbsentFile d never path) (AbsentFile e never path)"
  "pairs (CloseDir (both_dirs d e) never) (CloseDir d never) (CloseDir e never)"
  unfolding both_dirs_def composedDir.sel DirMethods_simps
  by (rule pairs_each_child; simp add: never_def)+

lemma both_dirs_files:
  "pair_opens (AddFile (both_dirs d e) never path source) (AddFile d never path source) (AddFile e never path source) both_files"
  "pair_opens (OpenFile (both_dirs d e) never path rv) (OpenFile d never path rv) (OpenFile e never path rv) both_files"
  unfolding both_dirs_def composedDir.sel DirMethods_simps both_files_def [abs_def]
  by (rule pair_opens_each; simp add: never_def)+

lemma both_dirs_opens:
  "pair_opens (AddDirectory (both_dirs d e) never path source) (AddDirectory d never path source) (AddDirectory e never path source) both_dirs"
  "pair_opens (OpenDirectory (both_dirs d e) never path rv) (OpenDirectory d never path rv) (OpenDirectory e never path rv) both_dirs"
  unfolding both_dirs_def [abs_def] composedDir.sel opened_def [symmetric]
  by (rule pair_opens_each; simp add: never_def opened_def)+

lemma run_both:
  "\<forall>(d :: 's dir_editor) (e :: 't dir_editor).
     pairs (run_dir never (both_dirs d e) steps) (run_dir never d steps) (run_dir never e steps)"
  "\<forall>(d :: 's dir_editor) (e :: 't dir_editor).
     pairs (run_step never (both_dirs d e) step) (run_step never d step) (run_step never e step)"
proof (induction steps and step rule: dir_steps_induct)
  case (AddDir path source steps)
  then show ?case by (auto intro!: pairs_withOpened [OF both_dirs_opens(1)])
next
  case (OpenDir path rv steps)
  then show ?case by (auto intro!: pairs_withOpened [OF both_dirs_opens(2)])
next
  case (AddFile path source steps result)
  then show ?case by (auto intro!: pairs_withOpened [OF both_dirs_files(1)] run_file_both)
next
  case (OpenFile path rv steps result)
  then show ?case by (auto intro!: pairs_withOpened [OF both_dirs_files(2)] run_file_both)
qed (simp_all add: both_dirs_methods pairs_andThen)

section \<open>Properties\<close>

text \<open>C33: driving an editor through the depth filter is driving it with the edit pruned to what the
  depth admits below the target, where \<open>admitted\<close> says which nodes those are: by the number of
  components a node lies below the target, by the depth, and by whether it is a directory.\<close>

theorem depth_filter_prunes:
  "run_edit ctx (DepthFilter e depth target) rv base steps = run_edit ctx e rv base (prune depth target steps)"
  by (simp add: run_edit_def DepthFilter_def withOpened_opened run_depth)

text \<open>C35: driving an editor wrapped for cancellation is driving the editor itself with a look at the
  contexts before every single call: the edit goes on unchanged up to the first call at which the
  wrapper's context or the caller's is cancelled, and stops there with that context's error. So with
  contexts that stay live nothing changes, and once a context is cancelled no directory, file or
  window call, closing included, reaches the editor any more. Only aborting always does.\<close>

theorem cancel_transparent:
  "run_edit ctx (Cancel fixed e) rv base steps = watched_edit fixed ctx e rv base steps \<and>
   run_edit never (Cancel never e) rv base steps = run_edit never e rv base steps \<and>
   (either fixed ctx s = Some err \<longrightarrow>
      run_edit ctx (Cancel fixed e) rv base steps s = (Some err, s) \<and>
      run_dir ctx (cancelDir fixed d) steps s = (Some err, s) \<and>
      run_file ctx (cancelFile fixed f) file_steps result s = (Some err, s) \<and>
      CloseEdit (Cancel fixed e) ctx s = (Some err, s)) \<and>
   (fixed s = Some err \<longrightarrow> run_windows (cancelWindows fixed h) ws s = (Some err, s)) \<and>
   AbortEdit (Cancel fixed e) ctx = AbortEdit e ctx"
  by (simp add: run_edit_cancel run_cancel run_file_cancel run_windows_cancel watched_edit_never watched_stops)
    (simp add: Cancel_def cancel_simps until_stops)

text \<open>The edit is cancelled by its first deletion: the second is refused.\<close>

theorem cancel_transparent_witness:
  "run_edit never (Cancel (\<lambda>n :: nat. if n = 0 then None else Some (Cancelled ''stop''))
      (Editor (\<lambda>_ _. Pair None) (\<lambda>_ _. Pair (Inr (DirEditor ((methods noopDir)\<lparr>DeleteEntry_of := \<lambda>_ _ _ n. (None, n + 1)\<rparr>)
          (AddDirectory noopDir) (OpenDirectory noopDir)))) (\<lambda>_. Pair None) (\<lambda>_. Pair None)))
      1 0 [DeleteStep ''a'' 0, DeleteStep ''b'' 0] 0 = (Some (Cancelled ''stop''), 1) \<and>
   run_edit never (Cancel (\<lambda>n. Some (Cancelled ''stop'')) Noop) 1 0 [DeleteStep ''a'' 0] (7 :: nat) =
     (Some (Cancelled ''stop''), 7)"
proof
  let ?stop = "\<lambda>n :: nat. if n = 0 then None else Some (Cancelled ''stop'')"
  let ?e = "Editor (\<lambda>_ _. Pair None) (\<lambda>_ _. Pair (Inr (DirEditor ((methods noopDir)\<lparr>DeleteEntry_of := \<lambda>_ _ _ n. (None, n + 1)\<rparr>)
      (AddDirectory noopDir) (OpenDirectory noopDir)))) (\<lambda>_. Pair None) (\<lambda>_. Pair None) :: nat editor"
  have "run_edit never (Cancel ?stop ?e) 1 0 [DeleteStep ''a'' 0, DeleteStep ''b'' 0] =
      watched_edit ?stop never ?e 1 0 [DeleteStep ''a'' 0, DeleteStep ''b'' 0]"
    using cancel_transparent [where fixed = ?stop and e = ?e] by blast
  then show "run_edit never (Cancel ?stop ?e) 1 0 [DeleteStep ''a'' 0, DeleteStep ''b'' 0] 0 =
      (Some (Cancelled ''stop''), 1)"
    by (simp add: watched_edit_def until_def either_def never_def andThen_def withOpened_def)
  show "run_edit never (Cancel (\<lambda>n. Some (Cancelled ''stop'')) Noop) 1 0 [DeleteStep ''a'' 0] (7 :: nat) =
      (Some (Cancelled ''stop''), 7)"
  proof -
    have "either (\<lambda>n. Some (Cancelled ''stop'')) never (7 :: nat) = Some (Cancelled ''stop'')"
      by (simp add: either_def)
    with cancel_transparent [where fixed = "\<lambda>n. Some (Cancelled ''stop'')" and ctx = never and s = "7 :: nat"
      and err = "Cancelled ''stop''"] show ?thesis by blast
  qed
qed

text \<open>C34: composed editors do not interfere: an edit that two editors of separate parts of the
  state carry out each on its own is carried out by their composition, with the same effect on each
  part.\<close>

theorem compose_independent:
  assumes "run_edit never e rv base steps s = (None, s')" and "run_edit never f rv base steps t = (None, t')"
  shows "run_edit never (Compose [Some (fst_editor e), None, Some (snd_editor f)]) rv base steps (s, t) =
    (None, (s', t'))"
proof -
  let ?c = "composedEditor [fst_editor e, snd_editor f]"
  have "pairs (run_edit never ?c rv base steps) (run_edit never e rv base steps) (run_edit never f rv base steps)"
    unfolding run_edit_def
  proof (intro pairs_andThen)
    show "pairs (SetTargetRevision ?c never rv) (SetTargetRevision e never rv) (SetTargetRevision f never rv)"
      unfolding composedEditor_def editor.sel
      by (rule pairs_each_child) (simp_all add: fst_editor_def snd_editor_def never_def)
    show "pairs (CloseEdit ?c never) (CloseEdit e never) (CloseEdit f never)"
      unfolding composedEditor_def editor.sel
      by (rule pairs_each_child) (simp_all add: fst_editor_def snd_editor_def never_def)
    have "pair_opens (OpenRoot ?c never base) (OpenRoot e never base) (OpenRoot f never base) both_dirs"
      unfolding composedEditor_def editor.sel both_dirs_def [abs_def]
      by (rule pair_opens_each) (simp_all add: fst_editor_def snd_editor_def never_def)
    then show "pairs (withOpened (OpenRoot ?c never base) (\<lambda>d. run_dir never d steps))
        (withOpened (OpenRoot e never base) (\<lambda>d. run_dir never d steps))
        (withOpened (OpenRoot f never base) (\<lambda>d. run_dir never d steps))"
      by (rule pairs_withOpened) (use run_both(1) in blast)
  qed
  moreover have "Compose [Some (fst_editor e), None, Some (snd_editor f)] = ?c"
    by (simp add: Compose_def List.map_filter_def)
  ultimately show ?thesis using assms by (simp add: pairs_def)
qed

theorem compose_independent_witness:
  "run_edit never (Compose [Some (fst_editor Noop), None, Some (snd_editor Noop)]) 1 0
     [AddDirStep ''a'' None [AddFileStep ''a/b'' None [] None]] (1 :: nat, True) = (None, (1, True))"
  by (rule compose_independent) (simp_all add: run_edit_def Noop_def run_noop del: run_dir.simps)

end
