(* ===== verification/Go_Maps.thy ===== *)
theory Go_Maps
  imports Go_Strings "HOL-Library.Finite_Map"
begin

text \<open>
  Go maps as finite maps, and the loop over the sorted keys that the writers of the repository
  use. Property maps are maps from names to values, both byte strings.
\<close>

type_synonym props = "(string, string) fmap"

definition sorted_entries :: "('k::linorder, 'v) fmap \<Rightarrow> ('k \<times> 'v) list" where
  "sorted_entries m = map (\<lambda>key. (key, the (fmlookup m key))) (sorted_list_of_fset (fmdom m))"

lemma sorted_keys:
  "distinct (sorted_list_of_fset S)" "set (sorted_list_of_fset S) = fset S"
  "sorted (sorted_list_of_fset S)"
  by (simp_all add: sorted_list_of_fset.rep_eq)

lemma sorted_entries_keys: "map fst (sorted_entries m) = sorted_list_of_fset (fmdom m)"
  by (simp add: sorted_entries_def o_def)

lemma sorted_entries_iff: "(k, v) \<in> set (sorted_entries m) \<longleftrightarrow> fmlookup m k = Some v"
  by (auto simp: sorted_entries_def sorted_keys image_iff fmlookup_dom_iff)

text \<open>Putting the entries back one after the other rebuilds the map.\<close>

lemma fold_fmupd_lookup:
  "distinct (map fst es) \<Longrightarrow>
     fmlookup (fold (\<lambda>(k, v). fmupd k v) es m) k =
       (case map_of es k of None \<Rightarrow> fmlookup m k | Some v \<Rightarrow> Some v)"
proof (induction es arbitrary: m)
  case (Cons e es)
  obtain a b where e: "e = (a, b)" by (cases e)
  with Cons.prems have "a \<notin> fst ` set es" by auto
  then have "map_of es a = None" by (simp add: map_of_eq_None_iff)
  with Cons e show ?case by (auto split: option.split)
qed simp

lemma map_of_sorted_entries: "map_of (sorted_entries m) k = fmlookup m k"
proof (cases "fmlookup m k")
  case None
  then have "k \<notin> fst ` set (sorted_entries m)" by (auto simp: sorted_entries_iff)
  with None show ?thesis by (simp add: map_of_eq_None_iff)
next
  case (Some v)
  moreover have "distinct (map fst (sorted_entries m))" by (simp add: sorted_entries_keys sorted_keys)
  ultimately show ?thesis by (simp add: sorted_entries_iff)
qed

lemma fold_fmupd_sorted_entries: "fold (\<lambda>(k, v). fmupd k v) (sorted_entries m) fmempty = m"
proof (rule fmap_ext)
  fix k
  have "distinct (map fst (sorted_entries m))" by (simp add: sorted_entries_keys sorted_keys)
  then show "fmlookup (fold (\<lambda>(k, v). fmupd k v) (sorted_entries m) fmempty) k = fmlookup m k"
    by (simp add: fold_fmupd_lookup map_of_sorted_entries split: option.split)
qed

end
