(* ===== verification/Delta_Tree.thy ===== *)
theory Delta_Tree
  imports Delta_Editor Go_Maps
begin

text \<open>
  The editor that builds a tree in memory, \<^verbatim>\<open>delta/inmem.go\<close>. Nodes, file editors and text-delta
  handlers are objects the code points to: the state holds them in lists that only grow, a pointer
  is an index. The children of a directory are a finite map, never a nil map as
  \<open>NewTreeBuilderFrom\<close> of a caller's own node may have. MD5 and SHA-1 are parameters; a run-time
  panic is the error \<open>DeltaFault Panic\<close>. The lemmas show that driving the editor has the
  effect of a function on trees.
\<close>

record tree_node =
  node_kind :: NodeKind
  node_props :: props
  node_content :: bytes
  content_checksum :: checksum
  copy_from :: "copy_source option"
  absent :: bool
  children :: "(string, nat) fmap"

record tree_file =
  file_node :: nat
  file_source :: bytes
  file_target :: bytes

record tree_windows =
  windows_file :: nat
  windows_closed :: bool

record builder =
  nodes :: "tree_node list"
  files :: "tree_file list"
  handlers :: "tree_windows list"
  root :: nat
  target_revision :: revnum
  closed :: bool
  aborted :: bool

section \<open>Nodes\<close>

definition newDirectoryNode :: tree_node where
  "newDirectoryNode =
     \<lparr>node_kind = NodeDir, node_props = fmempty, node_content = [],
      content_checksum = Checksum ChecksumMD5 [], copy_from = None, absent = False, children = fmempty\<rparr>"

definition newFileNode :: "(bytes \<Rightarrow> bytes) \<Rightarrow> copy_source option \<Rightarrow> tree_node" where
  "newFileNode md5 source =
     \<lparr>node_kind = NodeFile, node_props = fmempty, node_content = [],
      content_checksum = Checksum ChecksumMD5 (md5 []), copy_from = source, absent = False,
      children = fmempty\<rparr>"

definition NewTreeBuilder :: builder where
  "NewTreeBuilder =
     \<lparr>nodes = [newDirectoryNode], files = [], handlers = [], root = 0, target_revision = 0,
      closed = False, aborted = False\<rparr>"

definition set_node :: "nat \<Rightarrow> (tree_node \<Rightarrow> tree_node) \<Rightarrow> builder \<Rightarrow> builder" where
  "set_node a f b = b\<lparr>nodes := (nodes b)[a := f (nodes b ! a)]\<rparr>"

text \<open>Allocate a node and enter it in a directory.\<close>

definition add_child :: "nat \<Rightarrow> string \<Rightarrow> tree_node \<Rightarrow> builder \<Rightarrow> builder" where
  "add_child a name node b =
     set_node a (\<lambda>d. d\<lparr>children := fmupd name (length (nodes b)) (children d)\<rparr>)
       (b\<lparr>nodes := nodes b @ [node]\<rparr>)"

definition changeNodeProp :: "string \<Rightarrow> string option \<Rightarrow> tree_node \<Rightarrow> tree_node" where
  "changeNodeProp name v node =
     (case v of
        None \<Rightarrow> node\<lparr>node_props := fmdrop name (node_props node)\<rparr>
      | Some x \<Rightarrow> node\<lparr>node_props := fmupd name x (node_props node)\<rparr>)"

definition supportedChecksumKind :: "ChecksumKind \<Rightarrow> bool" where
  "supportedChecksumKind kind \<longleftrightarrow> kind = ChecksumMD5 \<or> kind = ChecksumSHA1 \<or> kind = ChecksumFNV1a32"

definition child :: "nat \<Rightarrow> string \<Rightarrow> NodeKind \<Rightarrow> builder \<Rightarrow> editor_error + nat" where
  "child a path kind b =
     (case fmlookup (children (nodes b ! a)) (RelpathBasename path) of
        None \<Rightarrow> Inl (WrongKind path kind)
      | Some n \<Rightarrow> if node_kind (nodes b ! n) \<noteq> kind then Inl (WrongKind path kind) else Inr n)"

section \<open>Text deltas\<close>

definition treeWindows_Window :: "nat \<Rightarrow> window \<Rightarrow> builder act" where
  "treeWindows_Window h w b =
     (let f = windows_file (handlers b ! h);
          source = file_source (files b ! f) in
      if windows_closed (handlers b ! h) then (Some DeltaClosed, b)
      else if SourceOffset w < 0 \<or> SourceOffset w > int (length source) \<or>
          SourceLength w > int (length source) - SourceOffset w
      then (Some (DeltaFault (InvalidOps (SourceViewLength (int (length source)) (SourceLength w)))), b)
      else case go_slice source (SourceOffset w) (SourceOffset w + SourceLength w) of
          None \<Rightarrow> (Some (DeltaFault Panic), b)
        | Some view \<Rightarrow>
            (case ApplyWindow view w of
               Inl e \<Rightarrow> (Some (DeltaFault e), b)
             | Inr contents \<Rightarrow>
                 (None, b\<lparr>files := (files b)[f := (files b ! f)\<lparr>file_target := file_target (files b ! f) @ contents\<rparr>]\<rparr>)))"

definition treeWindows_Close :: "(bytes \<Rightarrow> bytes) \<Rightarrow> nat \<Rightarrow> builder act" where
  "treeWindows_Close md5 h b =
     (if windows_closed (handlers b ! h) then (Some DeltaAlreadyClosed, b)
      else
        let f = files b ! windows_file (handlers b ! h);
            b1 = b\<lparr>handlers := (handlers b)[h := (handlers b ! h)\<lparr>windows_closed := True\<rparr>]\<rparr> in
        (None, set_node (file_node f)
           (\<lambda>node. node\<lparr>node_content := file_target f,
              content_checksum := Checksum ChecksumMD5 (md5 (file_target f))\<rparr>) b1))"

definition treeWindows :: "(bytes \<Rightarrow> bytes) \<Rightarrow> nat \<Rightarrow> builder window_handler" where
  "treeWindows md5 h = WindowHandler (treeWindows_Window h) (treeWindows_Close md5 h)"

definition check_checksum ::
    "(bytes \<Rightarrow> bytes) \<Rightarrow> (bytes \<Rightarrow> bytes) \<Rightarrow> checksum option \<Rightarrow> editor_error \<Rightarrow> bytes \<Rightarrow> editor_error option" where
  "check_checksum md5 sha1 expected mismatch content =
     (case expected of
        None \<Rightarrow> None
      | Some c \<Rightarrow>
          if \<not> supportedChecksumKind (checksum_kind c) then Some (UnsupportedChecksum (checksum_kind c))
          else if \<not> Equal (Sum md5 sha1 (checksum_kind c) content) c then Some mismatch
          else None)"

definition treeFile_ApplyTextDelta ::
    "(bytes \<Rightarrow> bytes) \<Rightarrow> (bytes \<Rightarrow> bytes) \<Rightarrow> nat \<Rightarrow> checksum option \<Rightarrow> (builder, builder window_handler) open_act" where
  "treeFile_ApplyTextDelta md5 sha1 f base b =
     (let content = node_content (nodes b ! file_node (files b ! f)) in
      case check_checksum md5 sha1 base BaseChecksum content of
        Some e \<Rightarrow> (Inl e, b)
      | None \<Rightarrow>
          (Inr (treeWindows md5 (length (handlers b))),
           b\<lparr>files := (files b)[f := (files b ! f)\<lparr>file_source := content, file_target := []\<rparr>],
             handlers := handlers b @ [\<lparr>windows_file = f, windows_closed = False\<rparr>]\<rparr>))"

definition treeFile :: "(bytes \<Rightarrow> bytes) \<Rightarrow> (bytes \<Rightarrow> bytes) \<Rightarrow> nat \<Rightarrow> builder file_editor" where
  "treeFile md5 sha1 f =
     FileEditor
       (\<lambda>ctx base. treeFile_ApplyTextDelta md5 sha1 f base)
       (\<lambda>ctx name v b. (None, set_node (file_node (files b ! f)) (changeNodeProp name v) b))
       (\<lambda>ctx result b.
          (check_checksum md5 sha1 result ResultChecksum (node_content (nodes b ! file_node (files b ! f))), b))"

section \<open>Directories\<close>

definition treeDir_DeleteEntry :: "nat \<Rightarrow> string \<Rightarrow> builder act" where
  "treeDir_DeleteEntry a path b =
     (let name = RelpathBasename path in
      if fmlookup (children (nodes b ! a)) name = None then (Some (MissingEntry path), b)
      else (None, set_node a (\<lambda>d. d\<lparr>children := fmdrop name (children d)\<rparr>) b))"

definition treeDir_AddDirectory :: "nat \<Rightarrow> string \<Rightarrow> copy_source option \<Rightarrow> (builder, nat) open_act" where
  "treeDir_AddDirectory a path source b =
     (let name = RelpathBasename path in
      if fmlookup (children (nodes b ! a)) name \<noteq> None then (Inl (EntryExists path), b)
      else (Inr (length (nodes b)), add_child a name (newDirectoryNode\<lparr>copy_from := source\<rparr>) b))"

definition treeDir_OpenDirectory :: "nat \<Rightarrow> string \<Rightarrow> (builder, nat) open_act" where
  "treeDir_OpenDirectory a path b = (child a path NodeDir b, b)"

text \<open>The file editors are allocated as their pointers are.\<close>

definition new_file :: "nat \<Rightarrow> builder \<Rightarrow> builder" where
  "new_file a b = b\<lparr>files := files b @ [\<lparr>file_node = a, file_source = [], file_target = []\<rparr>]\<rparr>"

definition treeDir_AddFile ::
    "(bytes \<Rightarrow> bytes) \<Rightarrow> (bytes \<Rightarrow> bytes) \<Rightarrow> nat \<Rightarrow> string \<Rightarrow> copy_source option \<Rightarrow> (builder, builder file_editor) open_act" where
  "treeDir_AddFile md5 sha1 a path source b =
     (let name = RelpathBasename path in
      if fmlookup (children (nodes b ! a)) name \<noteq> None then (Inl (EntryExists path), b)
      else (Inr (treeFile md5 sha1 (length (files b))),
            new_file (length (nodes b)) (add_child a name (newFileNode md5 source) b)))"

definition treeDir_OpenFile ::
    "(bytes \<Rightarrow> bytes) \<Rightarrow> (bytes \<Rightarrow> bytes) \<Rightarrow> nat \<Rightarrow> string \<Rightarrow> (builder, builder file_editor) open_act" where
  "treeDir_OpenFile md5 sha1 a path b =
     (case child a path NodeFile b of
        Inl e \<Rightarrow> (Inl e, b)
      | Inr n \<Rightarrow> (Inr (treeFile md5 sha1 (length (files b))), new_file n b))"

primcorec treeDir :: "(bytes \<Rightarrow> bytes) \<Rightarrow> (bytes \<Rightarrow> bytes) \<Rightarrow> nat \<Rightarrow> builder dir_editor" where
  "methods (treeDir md5 sha1 a) =
     DirMethods
       (\<lambda>ctx path rv. treeDir_DeleteEntry a path)
       (\<lambda>ctx name v b. (None, set_node a (changeNodeProp name v) b))
       (\<lambda>ctx path b. (None, add_child a (RelpathBasename path) (newDirectoryNode\<lparr>absent := True\<rparr>) b))
       (\<lambda>ctx path source. treeDir_AddFile md5 sha1 a path source)
       (\<lambda>ctx path rv. treeDir_OpenFile md5 sha1 a path)
       (\<lambda>ctx path b. (None, add_child a (RelpathBasename path) ((newFileNode md5 None)\<lparr>absent := True\<rparr>) b))
       (\<lambda>ctx b. (None, b))"
| "AddDirectory (treeDir md5 sha1 a) =
     (\<lambda>ctx path source b. map_prod (map_sum id (treeDir md5 sha1)) id (treeDir_AddDirectory a path source b))"
| "OpenDirectory (treeDir md5 sha1 a) =
     (\<lambda>ctx path rv b. map_prod (map_sum id (treeDir md5 sha1)) id (treeDir_OpenDirectory a path b))"

definition TreeBuilder :: "(bytes \<Rightarrow> bytes) \<Rightarrow> (bytes \<Rightarrow> bytes) \<Rightarrow> builder editor" where
  "TreeBuilder md5 sha1 =
     Editor
       (\<lambda>ctx rv b. (None, b\<lparr>target_revision := rv\<rparr>))
       (\<lambda>ctx rv b. if closed b \<or> aborted b then (Inl EditorClosed, b) else (Inr (treeDir md5 sha1 (root b)), b))
       (\<lambda>ctx b. (None, b\<lparr>closed := True\<rparr>))
       (\<lambda>ctx b. (None, b\<lparr>aborted := True\<rparr>))"

section \<open>The effect on trees\<close>

text \<open>What the edit means: a function on trees.\<close>

datatype tree =
    TDir props "copy_source option" bool "(string, tree) fmap"
  | TFile props bytes "copy_source option" bool

definition change_prop :: "string \<Rightarrow> string option \<Rightarrow> props \<Rightarrow> props" where
  "change_prop name v p = (case v of None \<Rightarrow> fmdrop name p | Some x \<Rightarrow> fmupd name x p)"

definition window_bytes :: "bytes \<Rightarrow> window \<Rightarrow> editor_error + bytes" where
  "window_bytes source w =
     (if SourceOffset w < 0 \<or> SourceOffset w > int (length source) \<or>
         SourceLength w > int (length source) - SourceOffset w
      then Inl (DeltaFault (InvalidOps (SourceViewLength (int (length source)) (SourceLength w))))
      else case go_slice source (SourceOffset w) (SourceOffset w + SourceLength w) of
          None \<Rightarrow> Inl (DeltaFault Panic)
        | Some view \<Rightarrow> (case ApplyWindow view w of Inl e \<Rightarrow> Inl (DeltaFault e) | Inr x \<Rightarrow> Inr x))"

fun windows_bytes :: "bytes \<Rightarrow> window list \<Rightarrow> editor_error + bytes" where
  "windows_bytes source [] = Inr []"
| "windows_bytes source (w # ws) =
     (case window_bytes source w of
        Inl e \<Rightarrow> Inl e
      | Inr x \<Rightarrow> (case windows_bytes source ws of Inl e \<Rightarrow> Inl e | Inr y \<Rightarrow> Inr (x @ y)))"

fun exec_file ::
    "(bytes \<Rightarrow> bytes) \<Rightarrow> (bytes \<Rightarrow> bytes) \<Rightarrow> file_step list \<Rightarrow> checksum option \<Rightarrow> props \<times> bytes \<Rightarrow>
      editor_error option \<times> props \<times> bytes"
where
  "exec_file md5 sha1 [] result (p, c) = (check_checksum md5 sha1 result ResultChecksum c, p, c)"
| "exec_file md5 sha1 (FilePropStep name v # steps) result (p, c) =
     exec_file md5 sha1 steps result (change_prop name v p, c)"
| "exec_file md5 sha1 (TextStep base ws # steps) result (p, c) =
     (case check_checksum md5 sha1 base BaseChecksum c of
        Some e \<Rightarrow> (Some e, p, c)
      | None \<Rightarrow>
          (case windows_bytes c ws of
             Inl e \<Rightarrow> (Some e, p, c)
           | Inr out \<Rightarrow> exec_file md5 sha1 steps result (p, out)))"

fun exec_dir :: "(bytes \<Rightarrow> bytes) \<Rightarrow> (bytes \<Rightarrow> bytes) \<Rightarrow> dir_step list \<Rightarrow> tree \<Rightarrow> editor_error option \<times> tree"
  and exec_step :: "(bytes \<Rightarrow> bytes) \<Rightarrow> (bytes \<Rightarrow> bytes) \<Rightarrow> dir_step \<Rightarrow> tree \<Rightarrow> editor_error option \<times> tree"
where
  "exec_dir md5 sha1 [] t = (None, t)"
| "exec_dir md5 sha1 (step # steps) t =
     (case exec_step md5 sha1 step t of
        (Some e, t') \<Rightarrow> (Some e, t')
      | (None, t') \<Rightarrow> exec_dir md5 sha1 steps t')"
| "exec_step md5 sha1 step (TFile p x c ab) = (None, TFile p x c ab)"
| "exec_step md5 sha1 (DeleteStep path rv) (TDir p c ab ch) =
     (if fmlookup ch (RelpathBasename path) = None then (Some (MissingEntry path), TDir p c ab ch)
      else (None, TDir p c ab (fmdrop (RelpathBasename path) ch)))"
| "exec_step md5 sha1 (DirPropStep name v) (TDir p c ab ch) = (None, TDir (change_prop name v p) c ab ch)"
| "exec_step md5 sha1 (AbsentDirStep path) (TDir p c ab ch) =
     (None, TDir p c ab (fmupd (RelpathBasename path) (TDir fmempty None True fmempty) ch))"
| "exec_step md5 sha1 (AbsentFileStep path) (TDir p c ab ch) =
     (None, TDir p c ab (fmupd (RelpathBasename path) (TFile fmempty [] None True) ch))"
| "exec_step md5 sha1 (AddDirStep path source steps) (TDir p c ab ch) =
     (if fmlookup ch (RelpathBasename path) \<noteq> None then (Some (EntryExists path), TDir p c ab ch)
      else let (e, t) = exec_dir md5 sha1 steps (TDir fmempty source False fmempty) in
        (e, TDir p c ab (fmupd (RelpathBasename path) t ch)))"
| "exec_step md5 sha1 (OpenDirStep path rv steps) (TDir p c ab ch) =
     (case fmlookup ch (RelpathBasename path) of
        Some (TDir p' c' ab' ch') \<Rightarrow>
          (let (e, t) = exec_dir md5 sha1 steps (TDir p' c' ab' ch') in
           (e, TDir p c ab (fmupd (RelpathBasename path) t ch)))
      | _ \<Rightarrow> (Some (WrongKind path NodeDir), TDir p c ab ch))"
| "exec_step md5 sha1 (AddFileStep path source steps result) (TDir p c ab ch) =
     (if fmlookup ch (RelpathBasename path) \<noteq> None then (Some (EntryExists path), TDir p c ab ch)
      else let (e, p', x) = exec_file md5 sha1 steps result (fmempty, []) in
        (e, TDir p c ab (fmupd (RelpathBasename path) (TFile p' x source False) ch)))"
| "exec_step md5 sha1 (OpenFileStep path rv steps result) (TDir p c ab ch) =
     (case fmlookup ch (RelpathBasename path) of
        Some (TFile p' x c' ab') \<Rightarrow>
          (let (e, q, y) = exec_file md5 sha1 steps result (p', x) in
           (e, TDir p c ab (fmupd (RelpathBasename path) (TFile q y c' ab') ch)))
      | _ \<Rightarrow> (Some (WrongKind path NodeFile), TDir p c ab ch))"

section \<open>Pointers and trees\<close>

text \<open>
  The node at \<open>a\<close> and what hangs below it is the tree \<open>t\<close>, and \<open>S\<close> are the nodes this takes. No two
  entries share a node; the checksum of a file is that of its content.
\<close>

inductive represents :: "(bytes \<Rightarrow> bytes) \<Rightarrow> tree_node list \<Rightarrow> nat \<Rightarrow> tree \<Rightarrow> nat set \<Rightarrow> bool"
  for md5 :: "bytes \<Rightarrow> bytes" and ns :: "tree_node list"
where
  leaf: "a < length ns \<Longrightarrow> node_kind (ns ! a) = NodeFile \<Longrightarrow>
     content_checksum (ns ! a) = Checksum ChecksumMD5 (md5 (node_content (ns ! a))) \<Longrightarrow>
     represents md5 ns a
       (TFile (node_props (ns ! a)) (node_content (ns ! a)) (copy_from (ns ! a)) (absent (ns ! a))) {a}"
| node: "a < length ns \<Longrightarrow> node_kind (ns ! a) = NodeDir \<Longrightarrow>
     (\<And>name. fmlookup ch name = None \<longleftrightarrow> fmlookup (children (ns ! a)) name = None) \<Longrightarrow>
     (\<And>name b t. fmlookup (children (ns ! a)) name = Some b \<Longrightarrow> fmlookup ch name = Some t \<Longrightarrow>
        represents md5 ns b t (A name)) \<Longrightarrow>
     (\<And>name. a \<notin> A name) \<Longrightarrow> (\<And>m n. m \<noteq> n \<Longrightarrow> A m \<inter> A n = {}) \<Longrightarrow>
     (\<And>name. fmlookup ch name = None \<Longrightarrow> A name = {}) \<Longrightarrow>
     represents md5 ns a (TDir (node_props (ns ! a)) (copy_from (ns ! a)) (absent (ns ! a)) ch)
       (insert a (\<Union>name. A name))"

inductive_cases represents_fileE: "represents md5 ns a (TFile p x c ab) S"
inductive_cases represents_dirE: "represents md5 ns a (TDir p c ab ch) S"

lemma represents_bounds: "represents md5 ns a t S \<Longrightarrow> a \<in> S \<and> (\<forall>x \<in> S. x < length ns)"
proof (induction rule: represents.induct)
  case (node a ch A)
  have "x < length ns" if "x \<in> A name" for x name
  proof (cases "fmlookup ch name")
    case None
    with node.hyps(7) that show ?thesis by simp
  next
    case (Some t)
    then obtain b where "fmlookup (children (ns ! a)) name = Some b"
      using node.hyps(3) [of name] by auto
    from node.IH [OF this Some] that show ?thesis by blast
  qed
  with node.hyps(1) show ?case by auto
qed simp

lemma represents_frame:
  "represents md5 ns a t S \<Longrightarrow> (\<forall>x \<in> S. x < length ns' \<and> ns' ! x = ns ! x) \<Longrightarrow> represents md5 ns' a t S"
proof (induction rule: represents.induct)
  case (leaf a)
  then have "a < length ns'" "ns' ! a = ns ! a" by simp_all
  with leaf represents.leaf [of a ns' md5] show ?case by simp
next
  case (node a ch A)
  then have a: "a < length ns'" "ns' ! a = ns ! a" by simp_all
  have "represents md5 ns' a (TDir (node_props (ns' ! a)) (copy_from (ns' ! a)) (absent (ns' ! a)) ch)
      (insert a (\<Union>name. A name))"
    by (rule represents.node) (use node a in \<open>auto simp: a\<close>)
  with a show ?case by simp
qed

text \<open>Enter or replace the subtree of one name.\<close>

lemma represents_child:
  assumes "a < length ns'" "node_kind (ns' ! a) = NodeDir"
    and "children (ns' ! a) = fmupd name b kids"
    and iff: "\<And>n. fmlookup ch n = None \<longleftrightarrow> fmlookup kids n = None"
    and old: "\<And>n x u. n \<noteq> name \<Longrightarrow> fmlookup kids n = Some x \<Longrightarrow> fmlookup ch n = Some u \<Longrightarrow> represents md5 ns' x u (A n)"
    and sep: "\<And>n. a \<notin> A n" "\<And>m n. m \<noteq> n \<Longrightarrow> A m \<inter> A n = {}" "\<And>n. fmlookup ch n = None \<Longrightarrow> A n = {}"
    and new: "represents md5 ns' b t B" "a \<notin> B" "\<And>n. n \<noteq> name \<Longrightarrow> A n \<inter> B = {}"
  shows "represents md5 ns' a
    (TDir (node_props (ns' ! a)) (copy_from (ns' ! a)) (absent (ns' ! a)) (fmupd name t ch))
    (insert a (\<Union>n. (A(name := B)) n))"
proof (rule represents.node)
  fix n x u
  assume x: "fmlookup (children (ns' ! a)) n = Some x" "fmlookup (fmupd name t ch) n = Some u"
  show "represents md5 ns' x u ((A(name := B)) n)"
    using x old new(1) by (cases "n = name") (auto simp: assms(3))
next
  show "(A(name := B)) m \<inter> (A(name := B)) n = {}" if "m \<noteq> n" for m n
    using that sep(2) new(3) by (auto simp: Int_commute)
qed (use assms in auto)

text \<open>The nodes an action works on, and those it leaves alone.\<close>

definition within :: "nat set \<Rightarrow> tree_node list \<Rightarrow> nat set \<Rightarrow> tree_node list \<Rightarrow> bool" where
  "within S ns S' ns' \<longleftrightarrow>
     length ns \<le> length ns' \<and> S' \<subseteq> S \<union> {length ns..<length ns'} \<and>
     (\<forall>x < length ns. x \<notin> S \<longrightarrow> ns' ! x = ns ! x)"

lemma within_trans:
  assumes "within S ns S' ns'" "within S' ns' S'' ns''"
  shows "within S ns S'' ns''"
proof -
  have "ns'' ! x = ns ! x" if "x < length ns" "x \<notin> S" for x
  proof -
    have "x \<notin> S'" "x < length ns'" using assms(1) that by (auto simp: within_def)
    then show ?thesis using assms that by (simp add: within_def)
  qed
  moreover have "S'' \<subseteq> S \<union> {length ns..<length ns''}"
  proof
    fix x
    assume "x \<in> S''"
    then have "x \<in> S' \<or> length ns' \<le> x \<and> x < length ns''" using assms(2) by (auto simp: within_def)
    then show "x \<in> S \<union> {length ns..<length ns''}" using assms by (auto simp: within_def)
  qed
  ultimately show ?thesis using assms by (simp add: within_def)
qed

definition refines ::
    "(bytes \<Rightarrow> bytes) \<Rightarrow> nat \<Rightarrow> builder act \<Rightarrow> (tree \<Rightarrow> editor_error option \<times> tree) \<Rightarrow> bool" where
  "refines md5 a run ex \<longleftrightarrow>
     (\<forall>b p c ab ch S. represents md5 (nodes b) a (TDir p c ab ch) S \<longrightarrow>
        (\<exists>S' p' c' ab' ch'. fst (run b) = fst (ex (TDir p c ab ch)) \<and>
           snd (ex (TDir p c ab ch)) = TDir p' c' ab' ch' \<and>
           represents md5 (nodes (snd (run b))) a (TDir p' c' ab' ch') S' \<and>
           within S (nodes b) S' (nodes (snd (run b)))))"

lemma refinesI:
  assumes "\<And>b p c ab ch S. represents md5 (nodes b) a (TDir p c ab ch) S \<Longrightarrow>
    \<exists>S' p' c' ab' ch'. fst (run b) = fst (ex (TDir p c ab ch)) \<and>
      snd (ex (TDir p c ab ch)) = TDir p' c' ab' ch' \<and>
      represents md5 (nodes (snd (run b))) a (TDir p' c' ab' ch') S' \<and>
      within S (nodes b) S' (nodes (snd (run b)))"
  shows "refines md5 a run ex"
  using assms by (auto simp: refines_def)

lemma refines_andThen:
  assumes "refines md5 a r e" "refines md5 a r' e'"
  shows "refines md5 a (andThen r r') (\<lambda>t. case e t of (Some x, t') \<Rightarrow> (Some x, t') | (None, t') \<Rightarrow> e' t')"
proof (rule refinesI)
  fix b :: builder and p c ab ch S
  assume "represents md5 (nodes b) a (TDir p c ab ch) S"
  with assms(1) obtain S1 p1 c1 ab1 ch1 where 1: "fst (r b) = fst (e (TDir p c ab ch))"
    "snd (e (TDir p c ab ch)) = TDir p1 c1 ab1 ch1" "represents md5 (nodes (snd (r b))) a (TDir p1 c1 ab1 ch1) S1"
    "within S (nodes b) S1 (nodes (snd (r b)))"
    unfolding refines_def by blast
  show "\<exists>S' p' c' ab' ch'. fst (andThen r r' b) =
      fst (case e (TDir p c ab ch) of (Some x, t') \<Rightarrow> (Some x, t') | (None, t') \<Rightarrow> e' t') \<and>
      snd (case e (TDir p c ab ch) of (Some x, t') \<Rightarrow> (Some x, t') | (None, t') \<Rightarrow> e' t') = TDir p' c' ab' ch' \<and>
      represents md5 (nodes (snd (andThen r r' b))) a (TDir p' c' ab' ch') S' \<and>
      within S (nodes b) S' (nodes (snd (andThen r r' b)))"
  proof (cases "fst (r b)")
    case None
    from assms(2) 1(3) obtain S2 p2 c2 ab2 ch2 where 2: "fst (r' (snd (r b))) = fst (e' (TDir p1 c1 ab1 ch1))"
      "snd (e' (TDir p1 c1 ab1 ch1)) = TDir p2 c2 ab2 ch2"
      "represents md5 (nodes (snd (r' (snd (r b))))) a (TDir p2 c2 ab2 ch2) S2"
      "within S1 (nodes (snd (r b))) S2 (nodes (snd (r' (snd (r b)))))"
      unfolding refines_def by blast
    have r: "r b = (None, snd (r b))" "e (TDir p c ab ch) = (None, TDir p1 c1 ab1 ch1)"
      using None 1(1,2) by (metis prod.collapse)+
    have "andThen r r' b = r' (snd (r b))" using r(1) by (auto simp: andThen_def split: prod.splits option.splits)
    with r 2 within_trans [OF 1(4) 2(4)] show ?thesis by auto
  next
    case (Some x)
    have r: "r b = (Some x, snd (r b))" "e (TDir p c ab ch) = (Some x, TDir p1 c1 ab1 ch1)"
      using Some 1(1,2) by (metis prod.collapse)+
    have "andThen r r' b = r b" using r(1) by (auto simp: andThen_def split: prod.splits option.splits)
    with r 1 show ?thesis by auto
  qed
qed

section \<open>The operations on directories\<close>

definition dir_at ::
    "(bytes \<Rightarrow> bytes) \<Rightarrow> tree_node list \<Rightarrow> nat \<Rightarrow> (string, tree) fmap \<Rightarrow> (string \<Rightarrow> nat set) \<Rightarrow> bool" where
  "dir_at md5 ns a ch A \<longleftrightarrow>
     a < length ns \<and> node_kind (ns ! a) = NodeDir \<and>
     (\<forall>n. fmlookup ch n = None \<longleftrightarrow> fmlookup (children (ns ! a)) n = None) \<and>
     (\<forall>n x u. fmlookup (children (ns ! a)) n = Some x \<longrightarrow> fmlookup ch n = Some u \<longrightarrow> represents md5 ns x u (A n)) \<and>
     (\<forall>n. a \<notin> A n) \<and> (\<forall>m n. m \<noteq> n \<longrightarrow> A m \<inter> A n = {}) \<and> (\<forall>n. fmlookup ch n = None \<longrightarrow> A n = {})"

lemma represents_dir_at:
  "represents md5 ns a (TDir p c ab ch) S \<longleftrightarrow>
     p = node_props (ns ! a) \<and> c = copy_from (ns ! a) \<and> ab = absent (ns ! a) \<and>
     (\<exists>A. S = insert a (\<Union>n. A n) \<and> dir_at md5 ns a ch A)"
  (is "?l = ?r")
proof
  assume ?l
  then show ?r
  proof (rule represents_dirE, goal_cases)
    case (1 A)
    have "dir_at md5 ns a ch A"
      unfolding dir_at_def by (intro conjI allI impI; (fact 1 | use 1 in blast))
    with 1 show ?case by blast
  qed
next
  assume r: ?r
  then obtain A where A: "S = insert a (\<Union>n. A n)" "dir_at md5 ns a ch A" by blast
  have "represents md5 ns a (TDir (node_props (ns ! a)) (copy_from (ns ! a)) (absent (ns ! a)) ch) (insert a (\<Union>n. A n))"
    by (rule represents.node) (use A(2) in \<open>auto simp: dir_at_def\<close>)
  with r A show ?l by simp
qed

lemma dir_at_below:
  assumes "dir_at md5 ns a ch A" "x \<in> A n"
  shows "x < length ns"
proof (cases "fmlookup ch n")
  case None
  with assms show ?thesis by (auto simp: dir_at_def)
next
  case (Some u)
  then obtain y where "fmlookup (children (ns ! a)) n = Some y"
    using assms(1) unfolding dir_at_def by (metis not_None_eq)
  with Some assms show ?thesis using represents_bounds by (fastforce simp: dir_at_def)
qed

text \<open>Change a directory node, and possibly the subtree of one name.\<close>

lemma dir_at_replace:
  assumes d: "dir_at md5 ns a ch A"
    and len: "length ns \<le> length ns'" and kind: "node_kind (ns' ! a) = NodeDir"
    and kids: "children (ns' ! a) = fmupd name b (children (ns ! a))"
    and same: "\<And>n x. n \<noteq> name \<Longrightarrow> x \<in> A n \<Longrightarrow> ns' ! x = ns ! x"
    and new: "represents md5 ns' b t B" "a \<notin> B" "B \<subseteq> A name \<union> {length ns..<length ns'}"
  shows "dir_at md5 ns' a (fmupd name t ch) (A(name := B))"
    and "insert a (\<Union>n. (A(name := B)) n) \<subseteq> insert a (\<Union>n. A n) \<union> {length ns..<length ns'}"
proof -
  have sep: "A n \<inter> B = {}" if "n \<noteq> name" for n
  proof -
    have "A n \<inter> A name = {}" using d that by (auto simp: dir_at_def)
    moreover have "A n \<inter> {length ns..<length ns'} = {}" using dir_at_below [OF d] by fastforce
    ultimately show ?thesis using new(3) by blast
  qed
  have old: "represents md5 ns' x u (A n)"
    if "n \<noteq> name" "fmlookup (children (ns ! a)) n = Some x" "fmlookup ch n = Some u" for n x u
  proof (rule represents_frame)
    show "represents md5 ns x u (A n)" using d that by (auto simp: dir_at_def)
    show "\<forall>y \<in> A n. y < length ns' \<and> ns' ! y = ns ! y"
      using same [OF that(1)] dir_at_below [OF d] len by fastforce
  qed
  have "represents md5 ns' x u ((A(name := B)) n)"
    if "fmlookup (fmupd name b (children (ns ! a))) n = Some x" "fmlookup (fmupd name t ch) n = Some u" for n x u
    using that old new(1) by (cases "n = name") auto
  moreover have "(A(name := B)) m \<inter> (A(name := B)) n = {}" if "m \<noteq> n" for m n
    using that sep [of m] sep [of n] d by (auto simp: dir_at_def)
  moreover have "(fmlookup (fmupd name t ch) n = None) = (fmlookup (fmupd name b (children (ns ! a))) n = None)"
    "fmlookup (fmupd name t ch) n = None \<Longrightarrow> (A(name := B)) n = {}" "a \<notin> (A(name := B)) n" for n
    using d new(2) by (auto simp: dir_at_def)
  ultimately show "dir_at md5 ns' a (fmupd name t ch) (A(name := B))"
    using d len kind unfolding dir_at_def kids by (auto simp del: fmupd_lookup)
  show "insert a (\<Union>n. (A(name := B)) n) \<subseteq> insert a (\<Union>n. A n) \<union> {length ns..<length ns'}"
    using new(3) by (auto split: if_splits)
qed

lemma dir_at_props:
  assumes "dir_at md5 ns a ch A" "ns' = ns[a := f (ns ! a)]" "\<And>x. node_kind (f x) = node_kind x" "\<And>x. children (f x) = children x"
  shows "dir_at md5 ns' a ch A"
proof -
  have "represents md5 ns' x u (A n)"
    if "fmlookup (children (ns ! a)) n = Some x" "fmlookup ch n = Some u" for n x u
  proof (rule represents_frame)
    show "represents md5 ns x u (A n)" using assms(1) that by (auto simp: dir_at_def)
    show "\<forall>y \<in> A n. y < length ns' \<and> ns' ! y = ns ! y"
    proof
      fix y
      assume y: "y \<in> A n"
      then have "y \<noteq> a" using assms(1) by (auto simp: dir_at_def)
      then show "y < length ns' \<and> ns' ! y = ns ! y" using dir_at_below [OF assms(1) y] assms(2) by simp
    qed
  qed
  then show ?thesis using assms by (simp add: dir_at_def)
qed

lemma dir_at_drop:
  assumes "dir_at md5 ns a ch A" "ns' = ns[a := (ns ! a)\<lparr>children := fmdrop name (children (ns ! a))\<rparr>]"
  shows "dir_at md5 ns' a (fmdrop name ch) (A(name := {}))"
proof -
  have "represents md5 ns' x u (A n)"
    if "fmlookup (children (ns ! a)) n = Some x" "fmlookup ch n = Some u" for n x u
  proof (rule represents_frame)
    show "represents md5 ns x u (A n)" using assms(1) that by (auto simp: dir_at_def)
    show "\<forall>y \<in> A n. y < length ns' \<and> ns' ! y = ns ! y"
    proof
      fix y
      assume y: "y \<in> A n"
      then have "y \<noteq> a" using assms(1) by (auto simp: dir_at_def)
      then show "y < length ns' \<and> ns' ! y = ns ! y" using dir_at_below [OF assms(1) y] assms(2) by simp
    qed
  qed
  then show ?thesis using assms by (auto simp: dir_at_def split: if_splits)
qed

lemma refines_prop:
  "refines md5 a (\<lambda>b. (None, set_node a (changeNodeProp name v) b)) (exec_step md5 sha1 (DirPropStep name v))"
proof (rule refinesI)
  fix b :: builder and p c ab ch S
  assume "represents md5 (nodes b) a (TDir p c ab ch) S"
  then obtain A where A: "p = node_props (nodes b ! a)" "c = copy_from (nodes b ! a)" "ab = absent (nodes b ! a)"
    "S = insert a (\<Union>n. A n)" "dir_at md5 (nodes b) a ch A" by (auto simp: represents_dir_at)
  let ?ns = "(nodes b)[a := changeNodeProp name v (nodes b ! a)]"
  have "dir_at md5 ?ns a ch A"
    by (rule dir_at_props [OF A(5) refl]) (auto simp: changeNodeProp_def split: option.split)
  moreover have "a < length (nodes b)" using A(5) by (simp add: dir_at_def)
  ultimately have "represents md5 ?ns a (TDir (change_prop name v p) c ab ch) S \<and> within S (nodes b) S ?ns"
    using A by (auto simp: represents_dir_at within_def changeNodeProp_def change_prop_def nth_list_update split: option.splits)
  then show "\<exists>S' p' c' ab' ch'. fst (None, set_node a (changeNodeProp name v) b) = fst (exec_step md5 sha1 (DirPropStep name v) (TDir p c ab ch)) \<and>
      snd (exec_step md5 sha1 (DirPropStep name v) (TDir p c ab ch)) = TDir p' c' ab' ch' \<and>
      represents md5 (nodes (snd (None, set_node a (changeNodeProp name v) b))) a (TDir p' c' ab' ch') S' \<and>
      within S (nodes b) S' (nodes (snd (None, set_node a (changeNodeProp name v) b)))"
    by (auto simp: set_node_def)
qed

lemma refines_close: "refines md5 a (\<lambda>b. (None, b)) (\<lambda>t. (None, t))"
  by (rule refinesI) (auto simp: within_def)

text \<open>The shape of a step: an outcome of the action that is an outcome of the function on trees.\<close>

definition step_ok ::
    "(bytes \<Rightarrow> bytes) \<Rightarrow> nat \<Rightarrow> builder act \<Rightarrow> (tree \<Rightarrow> editor_error option \<times> tree) \<Rightarrow> builder \<Rightarrow>
      props \<Rightarrow> copy_source option \<Rightarrow> bool \<Rightarrow> (string, tree) fmap \<Rightarrow> (string \<Rightarrow> nat set) \<Rightarrow> bool" where
  "step_ok md5 a run ex b p c ab ch A \<longleftrightarrow>
     (\<exists>ch' A' b'. run b = (fst (ex (TDir p c ab ch)), b') \<and> snd (ex (TDir p c ab ch)) = TDir p c ab ch' \<and>
        dir_at md5 (nodes b') a ch' A' \<and> node_props (nodes b' ! a) = p \<and> copy_from (nodes b' ! a) = c \<and>
        absent (nodes b' ! a) = ab \<and>
        within (insert a (\<Union>n. A n)) (nodes b) (insert a (\<Union>n. A' n)) (nodes b'))"

lemma step_okI:
  "run b = (e, b') \<Longrightarrow> ex (TDir p c ab ch) = (e, TDir p c ab ch') \<Longrightarrow> dir_at md5 (nodes b') a ch' A' \<Longrightarrow>
     node_props (nodes b' ! a) = p \<Longrightarrow> copy_from (nodes b' ! a) = c \<Longrightarrow> absent (nodes b' ! a) = ab \<Longrightarrow>
     within (insert a (\<Union>n. A n)) (nodes b) (insert a (\<Union>n. A' n)) (nodes b') \<Longrightarrow>
     step_ok md5 a run ex b p c ab ch A"
  unfolding step_ok_def by fastforce

lemma step_ok_refl:
  "run b = (e, b) \<Longrightarrow> ex (TDir p c ab ch) = (e, TDir p c ab ch) \<Longrightarrow> dir_at md5 (nodes b) a ch A \<Longrightarrow>
     p = node_props (nodes b ! a) \<Longrightarrow> c = copy_from (nodes b ! a) \<Longrightarrow> ab = absent (nodes b ! a) \<Longrightarrow>
     step_ok md5 a run ex b p c ab ch A"
  by (rule step_okI) (auto simp: within_def)

lemma refines_stepI:
  assumes "\<And>b p c ab ch A. dir_at md5 (nodes b) a ch A \<Longrightarrow>
      p = node_props (nodes b ! a) \<Longrightarrow> c = copy_from (nodes b ! a) \<Longrightarrow> ab = absent (nodes b ! a) \<Longrightarrow>
      step_ok md5 a run ex b p c ab ch A"
  shows "refines md5 a run ex"
proof (rule refinesI)
  fix b :: builder and p c ab ch S
  assume "represents md5 (nodes b) a (TDir p c ab ch) S"
  then obtain A where A: "p = node_props (nodes b ! a)" "c = copy_from (nodes b ! a)" "ab = absent (nodes b ! a)"
    "S = insert a (\<Union>n. A n)" "dir_at md5 (nodes b) a ch A" by (auto simp: represents_dir_at)
  from assms [OF A(5,1-3)] obtain ch' A' b' where
    "run b = (fst (ex (TDir p c ab ch)), b')" "snd (ex (TDir p c ab ch)) = TDir p c ab ch'"
    "dir_at md5 (nodes b') a ch' A'" "node_props (nodes b' ! a) = p" "copy_from (nodes b' ! a) = c"
    "absent (nodes b' ! a) = ab" "within (insert a (\<Union>n. A n)) (nodes b) (insert a (\<Union>n. A' n)) (nodes b')"
    unfolding step_ok_def by blast
  then show "\<exists>S' p' c' ab' ch'. fst (run b) = fst (ex (TDir p c ab ch)) \<and> snd (ex (TDir p c ab ch)) = TDir p' c' ab' ch' \<and>
      represents md5 (nodes (snd (run b))) a (TDir p' c' ab' ch') S' \<and> within S (nodes b) S' (nodes (snd (run b)))"
    unfolding A(4) by (auto simp: represents_dir_at)
qed

lemma within_refl: "within S ns S ns"
  by (simp add: within_def)

lemma refines_delete: "refines md5 a (treeDir_DeleteEntry a path) (exec_step md5 sha1 (DeleteStep path rv))"
proof (rule refines_stepI)
  fix b :: builder and p c ab ch A
  assume d: "dir_at md5 (nodes b) a ch A" and p: "p = node_props (nodes b ! a)" "c = copy_from (nodes b ! a)" "ab = absent (nodes b ! a)"
  let ?n = "RelpathBasename path"
  have iff: "fmlookup (children (nodes b ! a)) ?n = None \<longleftrightarrow> fmlookup ch ?n = None" and a: "a < length (nodes b)"
    using d by (simp_all add: dir_at_def)
  show "step_ok md5 a (treeDir_DeleteEntry a path) (exec_step md5 sha1 (DeleteStep path rv)) b p c ab ch A"
  proof (cases "fmlookup ch ?n = None")
    case True
    show ?thesis
      by (rule step_ok_refl [OF _ _ d p]) (use True iff in \<open>simp_all add: treeDir_DeleteEntry_def\<close>)
  next
    case False
    let ?ns = "(nodes b)[a := (nodes b ! a)\<lparr>children := fmdrop ?n (children (nodes b ! a))\<rparr>]"
    have "dir_at md5 ?ns a (fmdrop ?n ch) (A(?n := {}))" by (rule dir_at_drop [OF d refl])
    moreover have "within (insert a (\<Union>n. A n)) (nodes b) (insert a (\<Union>n. (A(?n := {})) n)) ?ns"
      by (auto simp: within_def split: if_splits)
    moreover have "treeDir_DeleteEntry a path b = (None, b\<lparr>nodes := ?ns\<rparr>)"
      using False iff by (simp add: treeDir_DeleteEntry_def set_node_def Let_def)
    ultimately show ?thesis
      by (intro step_okI [where e = None and A' = "A(?n := {})" and b' = "b\<lparr>nodes := ?ns\<rparr>" and ch' = "fmdrop ?n ch"])
        (use False p a in auto)
  qed
qed

text \<open>Enter a new node, and let an action work on it.\<close>

lemma add_child_nodes:
  "nodes (add_child a name node b) =
     (nodes b @ [node])[a := ((nodes b @ [node]) ! a)\<lparr>children := fmupd name (length (nodes b)) (children ((nodes b @ [node]) ! a))\<rparr>]"
  by (simp add: add_child_def set_node_def)

lemma add_child_at:
  assumes d: "dir_at md5 (nodes b) a ch A"
    and b1: "nodes b1 = nodes (add_child a name node b)"
    and rep: "represents md5 ns' (length (nodes b)) t B"
    and w: "within {length (nodes b)} (nodes b1) B ns'"
  shows "dir_at md5 ns' a (fmupd name t ch) (A(name := B))"
    "node_props (ns' ! a) = node_props (nodes b ! a)" "copy_from (ns' ! a) = copy_from (nodes b ! a)"
    "absent (ns' ! a) = absent (nodes b ! a)"
    "within (insert a (\<Union>n. A n)) (nodes b) (insert a (\<Union>n. (A(name := B)) n)) ns'"
proof -
  have a: "a < length (nodes b)" "node_kind (nodes b ! a) = NodeDir" using d by (simp_all add: dir_at_def)
  let ?new = "length (nodes b)"
  have len1: "length (nodes b1) = Suc ?new" by (simp add: b1 add_child_nodes)
  then have len: "Suc ?new \<le> length ns'" using w by (simp add: within_def)
  have keep: "ns' ! x = nodes b1 ! x" if "x < ?new" for x
    using w that len1 by (simp add: within_def)
  have at: "ns' ! a = (nodes b ! a)\<lparr>children := fmupd name ?new (children (nodes b ! a))\<rparr>"
    using keep [OF a(1)] a(1) by (simp add: b1 add_child_nodes nth_append)
  have other: "ns' ! x = nodes b ! x" if "x < ?new" "x \<noteq> a" for x
    using keep [OF that(1)] that by (simp add: b1 add_child_nodes nth_append)
  have B: "B \<subseteq> {?new..<length ns'}" using w len1 len by (auto simp: within_def)
  note r = dir_at_replace [OF d, where ns' = ns' and b = ?new and name = name and t = t and B = B]
  have prem: "length (nodes b) \<le> length ns'" "node_kind (ns' ! a) = NodeDir"
    "children (ns' ! a) = fmupd name ?new (children (nodes b ! a))"
    "a \<notin> B" "B \<subseteq> A name \<union> {length (nodes b)..<length ns'}"
    using len at a B by auto
  have same: "ns' ! x = nodes b ! x" if "n \<noteq> name" "x \<in> A n" for n x
    using other dir_at_below [OF d that(2)] d that(2) by (metis dir_at_def)
  show "dir_at md5 ns' a (fmupd name t ch) (A(name := B))"
    by (rule r(1) [OF prem(1-3) same rep prem(4,5)])
  show "within (insert a (\<Union>n. A n)) (nodes b) (insert a (\<Union>n. (A(name := B)) n)) ns'"
    using r(2) [OF prem(1-3) same rep prem(4,5)] other prem(1) by (auto simp: within_def)
  show "node_props (ns' ! a) = node_props (nodes b ! a)" "copy_from (ns' ! a) = copy_from (nodes b ! a)"
    "absent (ns' ! a) = absent (nodes b ! a)"
    by (simp_all add: at)
qed

lemma represents_new_dir:
  "n < length ns \<Longrightarrow> ns ! n = newDirectoryNode\<lparr>copy_from := source, absent := ab\<rparr> \<Longrightarrow>
     represents md5 ns n (TDir fmempty source ab fmempty) {n}"
  by (auto simp: represents_dir_at newDirectoryNode_def dir_at_def intro!: exI [of _ "\<lambda>_. {}"])

lemma represents_new_file:
  "n < length ns \<Longrightarrow> ns ! n = (newFileNode md5 source)\<lparr>absent := ab\<rparr> \<Longrightarrow>
     represents md5 ns n (TFile fmempty [] source ab) {n}"
  using represents.leaf [of n ns md5] by (simp add: newFileNode_def)

lemma refines_absent:
  assumes rep: "\<And>ns n. n < length ns \<Longrightarrow> ns ! n = node \<Longrightarrow> represents md5 ns n t {n}"
    and ex: "\<And>p c ab ch. ex (TDir p c ab ch) = (None, TDir p c ab (fmupd name t ch))"
  shows "refines md5 a (\<lambda>b. (None, add_child a name node b)) ex"
proof (rule refines_stepI)
  fix b :: builder and p c ab ch A
  assume d: "dir_at md5 (nodes b) a ch A" and p: "p = node_props (nodes b ! a)" "c = copy_from (nodes b ! a)" "ab = absent (nodes b ! a)"
  let ?b = "add_child a name node b"
  have a: "a < length (nodes b)" using d by (simp add: dir_at_def)
  have "represents md5 (nodes ?b) (length (nodes b)) t {length (nodes b)}"
    by (rule rep) (use a in \<open>simp_all add: add_child_nodes\<close>)
  note c = add_child_at [OF d refl this within_refl]
  show "step_ok md5 a (\<lambda>b. (None, add_child a name node b)) ex b p c ab ch A"
    by (rule step_okI [where e = None and b' = ?b and ch' = "fmupd name t ch" and A' = "A(name := {length (nodes b)})"])
      (use c p in \<open>simp_all add: ex\<close>)
qed

lemma refinesE:
  assumes "refines md5 a run ex" "represents md5 (nodes b) a (TDir p c ab ch) S"
  obtains S' p' c' ab' ch' b' where "run b = (fst (ex (TDir p c ab ch)), b')"
    "snd (ex (TDir p c ab ch)) = TDir p' c' ab' ch'"
    "represents md5 (nodes b') a (TDir p' c' ab' ch') S'" "within S (nodes b) S' (nodes b')"
  using assms unfolding refines_def by (metis prod.collapse)

lemma refines_add_dir:
  assumes IH: "\<And>n. refines md5 n (run_dir never (treeDir md5 sha1 n) steps) (exec_dir md5 sha1 steps)"
  shows "refines md5 a (withOpened (treeDir_AddDirectory a path source) (\<lambda>n. run_dir never (treeDir md5 sha1 n) steps))
    (exec_step md5 sha1 (AddDirStep path source steps))"
    (is "refines md5 a ?run ?ex")
proof (rule refines_stepI)
  fix b :: builder and p c ab ch A
  assume d: "dir_at md5 (nodes b) a ch A" and p: "p = node_props (nodes b ! a)" "c = copy_from (nodes b ! a)" "ab = absent (nodes b ! a)"
  let ?n = "RelpathBasename path" and ?node = "newDirectoryNode\<lparr>copy_from := source\<rparr>"
  have iff: "fmlookup (children (nodes b ! a)) ?n = None \<longleftrightarrow> fmlookup ch ?n = None" and a: "a < length (nodes b)"
    using d by (simp_all add: dir_at_def)
  show "step_ok md5 a ?run ?ex b p c ab ch A"
  proof (cases "fmlookup ch ?n = None")
    case False
    show ?thesis
      by (rule step_ok_refl [OF _ _ d p]) (use False iff in \<open>auto simp: withOpened_def treeDir_AddDirectory_def\<close>)
  next
    case True
    let ?b1 = "add_child a ?n ?node b"
    have "represents md5 (nodes ?b1) (length (nodes b)) (TDir fmempty source False fmempty) {length (nodes b)}"
      by (rule represents_new_dir) (use a in \<open>simp_all add: add_child_nodes newDirectoryNode_def\<close>)
    then obtain S' p' c' ab' ch' b' where r:
      "run_dir never (treeDir md5 sha1 (length (nodes b))) steps ?b1 =
         (fst (exec_dir md5 sha1 steps (TDir fmempty source False fmempty)), b')"
      "snd (exec_dir md5 sha1 steps (TDir fmempty source False fmempty)) = TDir p' c' ab' ch'"
      "represents md5 (nodes b') (length (nodes b)) (TDir p' c' ab' ch') S'"
      "within {length (nodes b)} (nodes ?b1) S' (nodes b')" by (rule refinesE [OF IH])
    note at = add_child_at [OF d refl r(3,4)]
    have R1: "?run b = (fst (exec_dir md5 sha1 steps (TDir fmempty source False fmempty)), b')"
      using True iff r(1) by (simp add: withOpened_def treeDir_AddDirectory_def Let_def)
    have R2: "?ex (TDir p c ab ch) = (fst (exec_dir md5 sha1 steps (TDir fmempty source False fmempty)),
        TDir p c ab (fmupd ?n (TDir p' c' ab' ch') ch))"
      using True r(2) by (simp add: split_beta Let_def)
    show ?thesis
      by (rule step_okI, rule R1, rule R2, rule at(1)) (use at(2-5) p in simp_all)
  qed
qed

lemma fmupd_same: "fmlookup m k = Some v \<Longrightarrow> fmupd k v m = m"
  by (rule fmap_ext) auto

text \<open>Let an action work on the node of an entry.\<close>

lemma open_child_at:
  assumes d: "dir_at md5 ns a ch A" and x: "fmlookup (children (ns ! a)) name = Some x"
    and rep: "represents md5 ns' x t B" and w: "within (A name) ns B ns'"
  shows "dir_at md5 ns' a (fmupd name t ch) (A(name := B))" "ns' ! a = ns ! a"
    "within (insert a (\<Union>n. A n)) ns (insert a (\<Union>n. (A(name := B)) n)) ns'"
proof -
  have a: "a < length ns" "node_kind (ns ! a) = NodeDir" "a \<notin> A name" using d by (auto simp: dir_at_def)
  show at: "ns' ! a = ns ! a" using w a by (simp add: within_def)
  have B: "B \<subseteq> A name \<union> {length ns..<length ns'}" "length ns \<le> length ns'" using w by (auto simp: within_def)
  have same: "ns' ! y = ns ! y" if "n \<noteq> name" "y \<in> A n" for n y
  proof -
    have "A n \<inter> A name = {}" using d that(1) unfolding dir_at_def by blast
    then have "y \<notin> A name" using that(2) by blast
    then show ?thesis using w dir_at_below [OF d that(2)] by (simp add: within_def)
  qed
  have prem: "node_kind (ns' ! a) = NodeDir" "children (ns' ! a) = fmupd name x (children (ns ! a))" "a \<notin> B"
    using a at fmupd_same [OF x] B(1) by auto
  note r = dir_at_replace [OF d B(2) prem(1,2) same rep prem(3) B(1)]
  show "dir_at md5 ns' a (fmupd name t ch) (A(name := B))" by (rule r(1))
  show "within (insert a (\<Union>n. A n)) ns (insert a (\<Union>n. (A(name := B)) n)) ns'"
    using r(2) w by (auto simp: within_def)
qed

lemma child_of:
  assumes d: "dir_at md5 (nodes b) a ch A"
  shows "child a path NodeDir b =
      (case fmlookup ch (RelpathBasename path) of
         Some (TDir p c ab ch') \<Rightarrow> Inr (the (fmlookup (children (nodes b ! a)) (RelpathBasename path)))
       | _ \<Rightarrow> Inl (WrongKind path NodeDir))"
    and "child a path NodeFile b =
      (case fmlookup ch (RelpathBasename path) of
         Some (TFile p x c ab) \<Rightarrow> Inr (the (fmlookup (children (nodes b ! a)) (RelpathBasename path)))
       | _ \<Rightarrow> Inl (WrongKind path NodeFile))"
    and "fmlookup ch (RelpathBasename path) = Some t \<Longrightarrow>
      \<exists>n. fmlookup (children (nodes b ! a)) (RelpathBasename path) = Some n \<and>
        represents md5 (nodes b) n t (A (RelpathBasename path))"
proof -
  let ?n = "RelpathBasename path"
  have iff: "fmlookup (children (nodes b ! a)) ?n = None \<longleftrightarrow> fmlookup ch ?n = None"
    and rep: "\<And>n t. fmlookup (children (nodes b ! a)) ?n = Some n \<Longrightarrow> fmlookup ch ?n = Some t \<Longrightarrow> represents md5 (nodes b) n t (A ?n)"
    using d by (auto simp: dir_at_def)
  have kind: "node_kind (nodes b ! n) = (case t of TDir _ _ _ _ \<Rightarrow> NodeDir | TFile _ _ _ _ \<Rightarrow> NodeFile)"
    if "represents md5 (nodes b) n t S" for n t S
    using that by (cases rule: represents.cases) simp_all
  show "fmlookup ch ?n = Some t \<Longrightarrow>
      \<exists>n. fmlookup (children (nodes b ! a)) ?n = Some n \<and> represents md5 (nodes b) n t (A ?n)"
    using iff rep by (cases "fmlookup (children (nodes b ! a)) ?n") auto
  show "child a path NodeDir b = (case fmlookup ch ?n of
         Some (TDir p c ab ch') \<Rightarrow> Inr (the (fmlookup (children (nodes b ! a)) ?n)) | _ \<Rightarrow> Inl (WrongKind path NodeDir))"
    "child a path NodeFile b = (case fmlookup ch ?n of
         Some (TFile p x c ab) \<Rightarrow> Inr (the (fmlookup (children (nodes b ! a)) ?n)) | _ \<Rightarrow> Inl (WrongKind path NodeFile))"
    using iff kind [OF rep] by (auto simp: child_def split: option.splits tree.splits)
qed

lemma refines_open_dir:
  assumes IH: "\<And>n. refines md5 n (run_dir never (treeDir md5 sha1 n) steps) (exec_dir md5 sha1 steps)"
  shows "refines md5 a (withOpened (treeDir_OpenDirectory a path) (\<lambda>n. run_dir never (treeDir md5 sha1 n) steps))
    (exec_step md5 sha1 (OpenDirStep path rv steps))"
    (is "refines md5 a ?run ?ex")
proof (rule refines_stepI)
  fix b :: builder and p c ab ch A
  assume d: "dir_at md5 (nodes b) a ch A" and p: "p = node_props (nodes b ! a)" "c = copy_from (nodes b ! a)" "ab = absent (nodes b ! a)"
  let ?n = "RelpathBasename path"
  note ch = child_of [OF d, of path]
  show "step_ok md5 a ?run ?ex b p c ab ch A"
  proof (cases "\<exists>p1 c1 ab1 ch1. fmlookup ch ?n = Some (TDir p1 c1 ab1 ch1)")
    case True
    then obtain p1 c1 ab1 ch1 where t: "fmlookup ch ?n = Some (TDir p1 c1 ab1 ch1)" by blast
    obtain x where x: "fmlookup (children (nodes b ! a)) ?n = Some x" "represents md5 (nodes b) x (TDir p1 c1 ab1 ch1) (A ?n)"
      using ch(3) [OF t] by blast
    obtain S' p' c' ab' ch' b' where r:
      "run_dir never (treeDir md5 sha1 x) steps b = (fst (exec_dir md5 sha1 steps (TDir p1 c1 ab1 ch1)), b')"
      "snd (exec_dir md5 sha1 steps (TDir p1 c1 ab1 ch1)) = TDir p' c' ab' ch'"
      "represents md5 (nodes b') x (TDir p' c' ab' ch') S'" "within (A ?n) (nodes b) S' (nodes b')" by (rule refinesE [OF IH x(2)])
    note at = open_child_at [OF d x(1) r(3,4)]
    have R1: "?run b = (fst (exec_dir md5 sha1 steps (TDir p1 c1 ab1 ch1)), b')"
      using t x(1) r(1) ch(1) by (simp add: withOpened_def treeDir_OpenDirectory_def)
    have R2: "?ex (TDir p c ab ch) = (fst (exec_dir md5 sha1 steps (TDir p1 c1 ab1 ch1)),
        TDir p c ab (fmupd ?n (TDir p' c' ab' ch') ch))"
      using t r(2) by (simp add: split_beta Let_def)
    show ?thesis
      by (rule step_okI, rule R1, rule R2, rule at(1)) (use at(2,3) p in simp_all)
  next
    case False
    have R1: "?run b = (Some (WrongKind path NodeDir), b)"
      using False ch(1) by (auto simp: withOpened_def treeDir_OpenDirectory_def split: option.splits tree.splits)
    have R2: "?ex (TDir p c ab ch) = (Some (WrongKind path NodeDir), TDir p c ab ch)"
      using False by (auto split: option.splits tree.splits)
    show ?thesis by (rule step_ok_refl, rule R1, rule R2, rule d) (rule p)+
  qed
qed

section \<open>The operations on files\<close>

lemma window_step:
  assumes "h < length (handlers b)" "windows_file (handlers b ! h) = f" "\<not> windows_closed (handlers b ! h)"
    "f < length (files b)"
  shows "Window (treeWindows md5 h) w b =
    (case window_bytes (file_source (files b ! f)) w of
       Inl e \<Rightarrow> (Some e, b)
     | Inr x \<Rightarrow> (None, b\<lparr>files := (files b)[f := (files b ! f)\<lparr>file_target := file_target (files b ! f) @ x\<rparr>]\<rparr>))"
  using assms by (auto simp: treeWindows_def treeWindows_Window_def window_bytes_def Let_def
      split: option.split sum.split)

lemma run_windows_effect:
  assumes "h < length (handlers b)" "windows_file (handlers b ! h) = f" "\<not> windows_closed (handlers b ! h)"
    "f < length (files b)"
  shows "\<exists>b'. run_windows (treeWindows md5 h) ws b =
      (case windows_bytes (file_source (files b ! f)) ws of Inl e \<Rightarrow> Some e | Inr x \<Rightarrow> None, b') \<and>
    length (files b') = length (files b) \<and> file_node (files b' ! f) = file_node (files b ! f) \<and>
    nodes b' =
      (case windows_bytes (file_source (files b ! f)) ws of
         Inl e \<Rightarrow> nodes b
       | Inr x \<Rightarrow>
           (nodes b)[file_node (files b ! f) := (nodes b ! file_node (files b ! f))
              \<lparr>node_content := file_target (files b ! f) @ x,
               content_checksum := Checksum ChecksumMD5 (md5 (file_target (files b ! f) @ x))\<rparr>])"
  using assms
proof (induction ws arbitrary: b)
  case Nil
  then show ?case by (simp add: treeWindows_def treeWindows_Close_def Let_def set_node_def)
next
  case (Cons w ws)
  show ?case
  proof (cases "window_bytes (file_source (files b ! f)) w")
    case (Inl e)
    then show ?thesis using Cons.prems by (simp add: andThen_def window_step)
  next
    case (Inr x)
    let ?b = "b\<lparr>files := (files b)[f := (files b ! f)\<lparr>file_target := file_target (files b ! f) @ x\<rparr>]\<rparr>"
    have "h < length (handlers ?b)" "windows_file (handlers ?b ! h) = f" "\<not> windows_closed (handlers ?b ! h)"
      "f < length (files ?b)" using Cons.prems by simp_all
    from Cons.IH [OF this] obtain b' where b':
      "run_windows (treeWindows md5 h) ws ?b =
         (case windows_bytes (file_source (files ?b ! f)) ws of Inl e \<Rightarrow> Some e | Inr x \<Rightarrow> None, b')"
      "length (files b') = length (files ?b)" "file_node (files b' ! f) = file_node (files ?b ! f)"
      "nodes b' = (case windows_bytes (file_source (files ?b ! f)) ws of
         Inl e \<Rightarrow> nodes ?b
       | Inr x \<Rightarrow>
           (nodes ?b)[file_node (files ?b ! f) := (nodes ?b ! file_node (files ?b ! f))
              \<lparr>node_content := file_target (files ?b ! f) @ x,
               content_checksum := Checksum ChecksumMD5 (md5 (file_target (files ?b ! f) @ x))\<rparr>])"
      by blast
    have "run_windows (treeWindows md5 h) (w # ws) b = run_windows (treeWindows md5 h) ws ?b"
      using Inr Cons.prems by (simp add: andThen_def window_step)
    with b' Cons.prems Inr show ?thesis
      by (cases "windows_bytes (file_source (files b ! f)) ws") simp_all
  qed
qed

lemma run_windows_fresh:
  assumes "h < length (handlers b)" "windows_file (handlers b ! h) = f" "\<not> windows_closed (handlers b ! h)"
    "f < length (files b)" "file_source (files b ! f) = x" "file_target (files b ! f) = []"
    "file_node (files b ! f) = n" "nodes b = ns" "length (files b) = k"
  obtains b' where "run_windows (treeWindows md5 h) ws b =
      (case windows_bytes x ws of Inl e \<Rightarrow> Some e | Inr y \<Rightarrow> None, b')"
    "length (files b') = k" "file_node (files b' ! f) = n"
    "nodes b' = (case windows_bytes x ws of
       Inl e \<Rightarrow> ns
     | Inr y \<Rightarrow> ns[n := (ns ! n)\<lparr>node_content := y, content_checksum := Checksum ChecksumMD5 (md5 y)\<rparr>])"
  using run_windows_effect [OF assms(1-4), of md5 ws] that unfolding assms(5-9) append_Nil by blast

text \<open>A file editor at work on the file at \<open>n\<close>.\<close>

definition file_at :: "(bytes \<Rightarrow> bytes) \<Rightarrow> builder \<Rightarrow> nat \<Rightarrow> nat \<Rightarrow> tree \<Rightarrow> bool" where
  "file_at md5 b f n t \<longleftrightarrow> f < length (files b) \<and> file_node (files b ! f) = n \<and> represents md5 (nodes b) n t {n}"

lemma represents_file:
  "represents md5 ns n (TFile p x c ab) S \<longleftrightarrow>
     S = {n} \<and> n < length ns \<and> node_kind (ns ! n) = NodeFile \<and> p = node_props (ns ! n) \<and> x = node_content (ns ! n) \<and>
     c = copy_from (ns ! n) \<and> ab = absent (ns ! n) \<and> content_checksum (ns ! n) = Checksum ChecksumMD5 (md5 x)"
  by (auto elim!: represents_fileE intro: represents.leaf)

lemma run_file_effect:
  assumes "file_at md5 b f n (TFile p x c ab)"
  shows "\<exists>b'. run_file never (treeFile md5 sha1 f) steps result b = (fst (exec_file md5 sha1 steps result (p, x)), b') \<and>
    file_at md5 b' f n (TFile (fst (snd (exec_file md5 sha1 steps result (p, x))))
      (snd (snd (exec_file md5 sha1 steps result (p, x)))) c ab) \<and>
    within {n} (nodes b) {n} (nodes b')"
  using assms
proof (induction steps arbitrary: b p x)
  case Nil
  then show ?case
    by (auto simp: treeFile_def file_at_def represents_file within_refl)
next
  case (Cons step steps)
  from Cons.prems have at: "f < length (files b)" "file_node (files b ! f) = n" "n < length (nodes b)"
    "x = node_content (nodes b ! n)" by (auto simp: file_at_def represents_file)
  show ?case
  proof (cases step)
    case (FilePropStep name v)
    let ?b = "set_node n (changeNodeProp name v) b"
    have r: "run_file never (treeFile md5 sha1 f) (step # steps) result b = run_file never (treeFile md5 sha1 f) steps result ?b"
      using at by (simp add: FilePropStep andThen_def treeFile_def)
    have "file_at md5 ?b f n (TFile (change_prop name v p) x c ab)"
      using Cons.prems by (auto simp: file_at_def represents_file set_node_def changeNodeProp_def change_prop_def split: option.split)
    moreover have w: "within {n} (nodes b) {n} (nodes ?b)" by (simp add: within_def set_node_def)
    ultimately show ?thesis
      using Cons.IH [of ?b "change_prop name v p" x] within_trans [OF w] r
      by (auto simp: FilePropStep simp del: run_file.simps)
  next
    case (TextStep base ws)
    show ?thesis
    proof (cases "check_checksum md5 sha1 base BaseChecksum x")
      case (Some e)
      then show ?thesis
        using at Cons.prems
        by (simp add: TextStep andThen_def withOpened_def treeFile_def treeFile_ApplyTextDelta_def Let_def within_refl)
    next
      case None
      let ?h = "length (handlers b)"
      let ?b = "b\<lparr>files := (files b)[f := (files b ! f)\<lparr>file_source := x, file_target := []\<rparr>],
             handlers := handlers b @ [\<lparr>windows_file = f, windows_closed = False\<rparr>]\<rparr>"
      have open_: "ApplyTextDelta (treeFile md5 sha1 f) never base b = (Inr (treeWindows md5 ?h), ?b)"
        using None at by (simp add: treeFile_def treeFile_ApplyTextDelta_def)
      have src: "file_source (files ?b ! f) = x" "file_target (files ?b ! f) = []" "file_node (files ?b ! f) = n"
        "nodes ?b = nodes b" using at by simp_all
      obtain b' where b': "run_windows (treeWindows md5 ?h) ws ?b =
          (case windows_bytes x ws of Inl e \<Rightarrow> Some e | Inr y \<Rightarrow> None, b')"
        "length (files b') = length (files b)" "file_node (files b' ! f) = n"
        "nodes b' = (case windows_bytes x ws of
           Inl e \<Rightarrow> nodes b
         | Inr y \<Rightarrow> (nodes b)[n := (nodes b ! n)\<lparr>node_content := y, content_checksum := Checksum ChecksumMD5 (md5 y)\<rparr>])"
        by (rule run_windows_fresh [of ?h ?b f x n "nodes b" "length (files b)" md5 ws]) (use at(1) src in simp_all)
      show ?thesis
      proof (cases "windows_bytes x ws")
        case (Inl e)
        then have "nodes b' = nodes b" using b'(4) by simp
        moreover have "file_at md5 b' f n (TFile p x c ab)"
          using Cons.prems b'(2,3) calculation by (simp add: file_at_def)
        ultimately show ?thesis
          using Inl None b'(1) open_ by (simp add: TextStep andThen_def withOpened_def within_refl)
      next
        case (Inr y)
        have n: "nodes b' = (nodes b)[n := (nodes b ! n)\<lparr>node_content := y, content_checksum := Checksum ChecksumMD5 (md5 y)\<rparr>]"
          using b'(4) Inr by simp
        have w: "within {n} (nodes b) {n} (nodes b')" by (simp add: n within_def)
        have f: "file_at md5 b' f n (TFile p y c ab)"
          using Cons.prems b'(2,3) at by (auto simp: file_at_def represents_file n)
        have "run_file never (treeFile md5 sha1 f) (step # steps) result b = run_file never (treeFile md5 sha1 f) steps result b'"
          using b'(1) Inr open_ by (simp add: TextStep andThen_def withOpened_def)
        with Cons.IH [OF f] within_trans [OF w] show ?thesis
          by (auto simp: TextStep None Inr simp del: run_file.simps)
      qed
    qed
  qed
qed

text \<open>The file operations of a directory, with what is done to the file they give out.\<close>

lemma run_new_file:
  assumes "represents md5 (nodes b) n (TFile p x c ab) {n}"
  obtains b' where
    "run_file never (treeFile md5 sha1 (length (files b))) steps result (new_file n b) =
       (fst (exec_file md5 sha1 steps result (p, x)), b')"
    "represents md5 (nodes b') n (TFile (fst (snd (exec_file md5 sha1 steps result (p, x))))
       (snd (snd (exec_file md5 sha1 steps result (p, x)))) c ab) {n}"
    "within {n} (nodes b) {n} (nodes b')"
proof -
  have "file_at md5 (new_file n b) (length (files b)) n (TFile p x c ab)"
    using assms by (simp add: file_at_def new_file_def)
  from run_file_effect [OF this, of sha1 steps result] obtain b' where
    "run_file never (treeFile md5 sha1 (length (files b))) steps result (new_file n b) =
       (fst (exec_file md5 sha1 steps result (p, x)), b')"
    "file_at md5 b' (length (files b)) n (TFile (fst (snd (exec_file md5 sha1 steps result (p, x))))
       (snd (snd (exec_file md5 sha1 steps result (p, x)))) c ab)"
    "within {n} (nodes b) {n} (nodes b')" by (auto simp: new_file_def)
  then show thesis by (intro that) (auto simp: file_at_def)
qed

lemma refines_add_file:
  "refines md5 a (withOpened (treeDir_AddFile md5 sha1 a path source) (\<lambda>f. run_file never f steps result))
    (exec_step md5 sha1 (AddFileStep path source steps result))"
  (is "refines md5 a ?run ?ex")
proof (rule refines_stepI)
  fix b :: builder and p c ab ch A
  assume d: "dir_at md5 (nodes b) a ch A" and p: "p = node_props (nodes b ! a)" "c = copy_from (nodes b ! a)" "ab = absent (nodes b ! a)"
  let ?n = "RelpathBasename path" and ?e = "exec_file md5 sha1 steps result (fmempty, [])"
  have iff: "fmlookup (children (nodes b ! a)) ?n = None \<longleftrightarrow> fmlookup ch ?n = None" and a: "a < length (nodes b)"
    using d by (simp_all add: dir_at_def)
  show "step_ok md5 a ?run ?ex b p c ab ch A"
  proof (cases "fmlookup ch ?n = None")
    case False
    show ?thesis
      by (rule step_ok_refl [OF _ _ d p]) (use False iff in \<open>auto simp: withOpened_def treeDir_AddFile_def\<close>)
  next
    case True
    let ?b1 = "add_child a ?n (newFileNode md5 source) b"
    have "represents md5 (nodes ?b1) (length (nodes b)) (TFile fmempty [] source False) {length (nodes b)}"
      by (rule represents_new_file) (use a in \<open>simp_all add: add_child_nodes newFileNode_def\<close>)
    then obtain b' where r:
      "run_file never (treeFile md5 sha1 (length (files ?b1))) steps result (new_file (length (nodes b)) ?b1) = (fst ?e, b')"
      "represents md5 (nodes b') (length (nodes b)) (TFile (fst (snd ?e)) (snd (snd ?e)) source False) {length (nodes b)}"
      "within {length (nodes b)} (nodes ?b1) {length (nodes b)} (nodes b')" by (rule run_new_file)
    note at = add_child_at [OF d refl r(2,3)]
    have "length (files ?b1) = length (files b)" by (simp add: add_child_def set_node_def)
    then have R1: "?run b = (fst ?e, b')"
      using True iff r(1) by (simp add: withOpened_def treeDir_AddFile_def Let_def)
    have R2: "?ex (TDir p c ab ch) = (fst ?e, TDir p c ab (fmupd ?n (TFile (fst (snd ?e)) (snd (snd ?e)) source False) ch))"
      using True by (simp add: split_beta Let_def)
    show ?thesis
      by (rule step_okI, rule R1, rule R2, rule at(1)) (use at(2-5) p in simp_all)
  qed
qed

lemma refines_open_file:
  "refines md5 a (withOpened (treeDir_OpenFile md5 sha1 a path) (\<lambda>f. run_file never f steps result))
    (exec_step md5 sha1 (OpenFileStep path rv steps result))"
  (is "refines md5 a ?run ?ex")
proof (rule refines_stepI)
  fix b :: builder and p c ab ch A
  assume d: "dir_at md5 (nodes b) a ch A" and p: "p = node_props (nodes b ! a)" "c = copy_from (nodes b ! a)" "ab = absent (nodes b ! a)"
  let ?n = "RelpathBasename path"
  note ch = child_of [OF d, of path]
  show "step_ok md5 a ?run ?ex b p c ab ch A"
  proof (cases "\<exists>p1 x1 c1 ab1. fmlookup ch ?n = Some (TFile p1 x1 c1 ab1)")
    case True
    then obtain p1 x1 c1 ab1 where t: "fmlookup ch ?n = Some (TFile p1 x1 c1 ab1)" by blast
    let ?e = "exec_file md5 sha1 steps result (p1, x1)"
    obtain n where n: "fmlookup (children (nodes b ! a)) ?n = Some n" "represents md5 (nodes b) n (TFile p1 x1 c1 ab1) (A ?n)"
      using ch(3) [OF t] by blast
    then have A: "A ?n = {n}" by (simp add: represents_file)
    obtain b' where r:
      "run_file never (treeFile md5 sha1 (length (files b))) steps result (new_file n b) = (fst ?e, b')"
      "represents md5 (nodes b') n (TFile (fst (snd ?e)) (snd (snd ?e)) c1 ab1) {n}"
      "within {n} (nodes b) {n} (nodes b')" by (rule run_new_file [OF n(2) [unfolded A]])
    have w: "within (A ?n) (nodes b) {n} (nodes b')" using r(3) A by simp
    note at = open_child_at [OF d n(1) r(2) w]
    have R1: "?run b = (fst ?e, b')"
      using t n(1) r(1) ch(2) by (simp add: withOpened_def treeDir_OpenFile_def)
    have R2: "?ex (TDir p c ab ch) = (fst ?e, TDir p c ab (fmupd ?n (TFile (fst (snd ?e)) (snd (snd ?e)) c1 ab1) ch))"
      using t by (simp add: split_beta Let_def)
    show ?thesis
      by (rule step_okI, rule R1, rule R2, rule at(1)) (use at(2,3) p in simp_all)
  next
    case False
    have R1: "?run b = (Some (WrongKind path NodeFile), b)"
      using False ch(2) by (auto simp: withOpened_def treeDir_OpenFile_def split: option.splits tree.splits)
    have R2: "?ex (TDir p c ab ch) = (Some (WrongKind path NodeFile), TDir p c ab ch)"
      using False by (auto split: option.splits tree.splits)
    show ?thesis by (rule step_ok_refl, rule R1, rule R2, rule d) (rule p)+
  qed
qed

section \<open>Whole edits\<close>

lemma run_tree:
  "\<forall>a. refines md5 a (run_dir never (treeDir md5 sha1 a) steps) (exec_dir md5 sha1 steps)"
  "\<forall>a. refines md5 a (run_step never (treeDir md5 sha1 a) step) (exec_step md5 sha1 step)"
proof (induction steps and step rule: dir_steps_induct)
  case Nil
  have "exec_dir md5 sha1 [] = (\<lambda>t. (None, t))" by (rule ext) simp
  then show ?case using refines_close by simp
next
  case (Cons step steps)
  have "exec_dir md5 sha1 (step # steps) =
      (\<lambda>t. case exec_step md5 sha1 step t of (Some x, t') \<Rightarrow> (Some x, t') | (None, t') \<Rightarrow> exec_dir md5 sha1 steps t')"
    by (rule ext) simp
  then show ?case using Cons.IH refines_andThen by simp
next
  case (Delete path rv)
  show ?case using refines_delete by simp
next
  case (AddDir path source steps)
  show ?case using refines_add_dir AddDir.IH by (simp add: opened_None)
next
  case (OpenDir path rv steps)
  show ?case using refines_open_dir OpenDir.IH by (simp add: opened_None)
next
  case (Prop name v)
  show ?case using refines_prop by simp
next
  case (AbsentDir path)
  show ?case
    by (intro allI, unfold run_step.simps treeDir.simps DirMethods_simps, rule refines_absent)
      (auto intro!: represents_new_dir simp: newDirectoryNode_def)
next
  case (AddFile path source steps result)
  show ?case using refines_add_file by simp
next
  case (OpenFile path rv steps result)
  show ?case using refines_open_file by simp
next
  case (AbsentFile path)
  show ?case
    by (intro allI, unfold run_step.simps treeDir.simps DirMethods_simps, rule refines_absent)
      (auto intro: represents_new_file)
qed

text \<open>No call below the root changes what the builder itself keeps.\<close>

definition keeps :: "builder act \<Rightarrow> bool" where
  "keeps act \<longleftrightarrow> (\<forall>b. root (snd (act b)) = root b \<and> target_revision (snd (act b)) = target_revision b \<and>
     closed (snd (act b)) = closed b \<and> aborted (snd (act b)) = aborted b)"

lemma keepsI:
  "(\<And>b. root (snd (act b)) = root b \<and> target_revision (snd (act b)) = target_revision b \<and>
     closed (snd (act b)) = closed b \<and> aborted (snd (act b)) = aborted b) \<Longrightarrow> keeps act"
  by (simp add: keeps_def)

lemma keeps_andThen: "keeps a \<Longrightarrow> keeps a' \<Longrightarrow> keeps (andThen a a')"
  by (simp add: keeps_def andThen_def split: prod.split option.split) (metis snd_conv)

lemma keeps_withOpened:
  assumes "keeps (\<lambda>b. (None, snd (a b)))" "\<And>x. keeps (f x)"
  shows "keeps (withOpened a f)"
proof (rule keepsI)
  fix b
  obtain r b' where r: "a b = (r, b')" by (cases "a b")
  have "root b' = root b \<and> target_revision b' = target_revision b \<and> closed b' = closed b \<and> aborted b' = aborted b"
    using assms(1) [unfolded keeps_def, rule_format, of b] by (simp add: r)
  then show "root (snd (withOpened a f b)) = root b \<and> target_revision (snd (withOpened a f b)) = target_revision b \<and>
     closed (snd (withOpened a f b)) = closed b \<and> aborted (snd (withOpened a f b)) = aborted b"
    using assms(2) by (cases r) (simp_all add: withOpened_def r keeps_def)
qed

lemma keeps_windows: "keeps (run_windows (treeWindows md5 h) ws)"
proof (induction ws)
  case Nil
  show ?case by (rule keepsI) (simp add: treeWindows_def treeWindows_Close_def set_node_def Let_def)
next
  case (Cons w ws)
  have "keeps (treeWindows_Window h w)"
    by (rule keepsI) (simp add: treeWindows_Window_def Let_def split: option.split sum.split)
  then show ?case using Cons.IH by (auto intro: keeps_andThen simp: treeWindows_def)
qed

lemma keeps_file: "keeps (run_file never (treeFile md5 sha1 f) steps result)"
proof (induction steps)
  case Nil
  show ?case by (rule keepsI) (simp add: treeFile_def)
next
  case (Cons step steps)
  show ?case
  proof (cases step)
    case (TextStep base ws)
    have open_: "ApplyTextDelta (treeFile md5 sha1 f) never base = treeFile_ApplyTextDelta md5 sha1 f base"
      by (simp add: treeFile_def)
    have "keeps (withOpened (treeFile_ApplyTextDelta md5 sha1 f base) (\<lambda>h. run_windows h ws))"
    proof (rule keepsI)
      fix b
      show "root (snd (withOpened (treeFile_ApplyTextDelta md5 sha1 f base) (\<lambda>h. run_windows h ws) b)) = root b \<and>
        target_revision (snd (withOpened (treeFile_ApplyTextDelta md5 sha1 f base) (\<lambda>h. run_windows h ws) b)) = target_revision b \<and>
        closed (snd (withOpened (treeFile_ApplyTextDelta md5 sha1 f base) (\<lambda>h. run_windows h ws) b)) = closed b \<and>
        aborted (snd (withOpened (treeFile_ApplyTextDelta md5 sha1 f base) (\<lambda>h. run_windows h ws) b)) = aborted b"
        using keeps_windows [unfolded keeps_def]
        by (simp add: withOpened_def treeFile_ApplyTextDelta_def Let_def split: option.split)
    qed
    then show ?thesis using Cons.IH by (simp add: TextStep open_ keeps_andThen)
  next
    case (FilePropStep name v)
    have "keeps (ChangeFileProp (treeFile md5 sha1 f) never name v)"
      by (rule keepsI) (simp add: treeFile_def set_node_def)
    then show ?thesis using Cons.IH by (simp add: FilePropStep keeps_andThen)
  qed
qed

lemma keeps_add_child: "keeps (\<lambda>b. (None, add_child a name node b))"
  by (rule keepsI) (simp add: add_child_def set_node_def)

lemma keeps_tree:
  "\<forall>a. keeps (run_dir never (treeDir md5 sha1 a) steps)"
  "\<forall>a. keeps (run_step never (treeDir md5 sha1 a) step)"
proof (induction steps and step rule: dir_steps_induct)
  case Nil
  show ?case by (simp add: keepsI)
next
  case (Cons step steps)
  then show ?case by (simp add: keeps_andThen)
next
  case (Delete path rv)
  show ?case by (simp add: keeps_def treeDir_DeleteEntry_def set_node_def Let_def)
next
  case (AddDir path source steps)
  have "keeps (\<lambda>b. (None, snd (treeDir_AddDirectory a path source b)))" for a
    by (rule keepsI) (simp add: treeDir_AddDirectory_def add_child_def set_node_def Let_def)
  then show ?case using AddDir.IH by (simp add: opened_None keeps_withOpened)
next
  case (OpenDir path rv steps)
  have "keeps (\<lambda>b. (None, snd (treeDir_OpenDirectory a path b)))" for a
    by (rule keepsI) (simp add: treeDir_OpenDirectory_def)
  then show ?case using OpenDir.IH by (simp add: opened_None keeps_withOpened)
next
  case (Prop name v)
  show ?case by (simp add: keepsI set_node_def)
next
  case (AbsentDir path)
  show ?case by (simp add: keeps_add_child)
next
  case (AddFile path source steps result)
  have "keeps (withOpened (treeDir_AddFile md5 sha1 a path source) (\<lambda>f. run_file never f steps result))" for a
    by (rule keepsI) (use keeps_file [unfolded keeps_def] in
      \<open>simp add: withOpened_def treeDir_AddFile_def new_file_def add_child_def set_node_def Let_def\<close>)
  then show ?case by simp
next
  case (OpenFile path rv steps result)
  have "keeps (withOpened (treeDir_OpenFile md5 sha1 a path) (\<lambda>f. run_file never f steps result))" for a
    by (rule keepsI) (use keeps_file [unfolded keeps_def] in
      \<open>simp add: withOpened_def treeDir_OpenFile_def new_file_def split: sum.split\<close>)
  then show ?case by simp
next
  case (AbsentFile path)
  show ?case by (simp add: keeps_add_child)
qed

text \<open>C36: driving the tree builder has the effect of a function on trees: the edit succeeds or stops
  with the error the function gives, the nodes below the root then form the tree the function
  leaves, without two entries sharing a node and with every file's checksum that of its
  content, and the builder is closed exactly when the edit succeeded.\<close>

theorem tree_builder_refines:
  "\<exists>b S. run_edit never (TreeBuilder md5 sha1) target base steps NewTreeBuilder =
      (fst (exec_dir md5 sha1 steps (TDir fmempty None False fmempty)), b) \<and>
    represents md5 (nodes b) (root b) (snd (exec_dir md5 sha1 steps (TDir fmempty None False fmempty))) S \<and>
    target_revision b = target \<and>
    closed b = (fst (exec_dir md5 sha1 steps (TDir fmempty None False fmempty)) = None)"
proof -
  let ?b = "NewTreeBuilder\<lparr>target_revision := target\<rparr>" and ?t = "TDir fmempty None False fmempty"
  have "represents md5 (nodes ?b) 0 ?t {0}"
    by (rule represents_new_dir) (simp_all add: NewTreeBuilder_def newDirectoryNode_def)
  then obtain S' p' c' ab' ch' b' where r:
    "run_dir never (treeDir md5 sha1 0) steps ?b = (fst (exec_dir md5 sha1 steps ?t), b')"
    "snd (exec_dir md5 sha1 steps ?t) = TDir p' c' ab' ch'" "represents md5 (nodes b') 0 (TDir p' c' ab' ch') S'"
    by (rule refinesE [OF run_tree(1) [rule_format]])
  have k: "root b' = 0" "target_revision b' = target" "\<not> closed b'"
    using keeps_tree(1) [of md5 sha1 steps, unfolded keeps_def, rule_format, of 0 ?b] r(1)
    by (simp_all add: NewTreeBuilder_def)
  have edit: "run_edit never (TreeBuilder md5 sha1) target base steps NewTreeBuilder =
      (case fst (exec_dir md5 sha1 steps ?t) of Some e \<Rightarrow> (Some e, b') | None \<Rightarrow> (None, b'\<lparr>closed := True\<rparr>))"
    using r(1) by (simp add: run_edit_def TreeBuilder_def andThen_def withOpened_def NewTreeBuilder_def split: option.split)
  show ?thesis
    by (cases "fst (exec_dir md5 sha1 steps ?t)") (use edit r k in auto)
qed

end
