(* ===== verification/Delta_Pathdriver.thy ===== *)
theory Delta_Pathdriver
  imports Delta_Editor
begin

text \<open>
  Driving a directory editor to a list of paths (\<^verbatim>\<open>delta/pathdriver.go\<close>): the directories above a path
  are opened, the callback does its work in the directory of the path, and a directory is closed when
  the next path is not below it. The stack has its top first; its last frame is the root.
\<close>

type_synonym 's frame = "string \<times> 's dir_editor"
type_synonym 's path_callback = "'s ctx \<Rightarrow> 's dir_editor \<Rightarrow> string \<Rightarrow> ('s, 's dir_editor option) open_act"

text \<open>Close the frames above the first one that is an ancestor of the directory to go to.\<close>

fun close_frames :: "'s ctx \<Rightarrow> string \<Rightarrow> 's frame list \<Rightarrow> ('s, 's frame list) open_act" where
  "close_frames ctx parent ((path, d) # (next_frame # rest)) s =
     (if RelpathSkipAncestor path parent \<noteq> None then (Inr ((path, d) # next_frame # rest), s)
      else case CloseDir d ctx s of
          (Some e, s') \<Rightarrow> (Inl e, s')
        | (None, s') \<Rightarrow> close_frames ctx parent (next_frame # rest) s')"
| "close_frames ctx parent stack s = (Inr stack, s)"

text \<open>Open the directories below the top of the stack.\<close>

fun open_frames ::
    "'s ctx \<Rightarrow> (string \<Rightarrow> revnum) \<Rightarrow> string \<Rightarrow> string list \<Rightarrow> 's frame list \<Rightarrow> ('s, 's frame list) open_act" where
  "open_frames ctx revision current [] stack s = (Inr stack, s)"
| "open_frames ctx revision current (name # names) stack s =
     (if name = [] then open_frames ctx revision current names stack s
      else
        let current' = RelpathJoin current [name] in
        case OpenDirectory (snd (hd stack)) ctx current' (revision current') s of
          (Inl e, s') \<Rightarrow> (Inl e, s')
        | (Inr d, s') \<Rightarrow> open_frames ctx revision current' names ((current', d) # stack) s')"

definition drive_path ::
    "'s ctx \<Rightarrow> (string \<Rightarrow> revnum) \<Rightarrow> 's path_callback \<Rightarrow> string \<Rightarrow> 's frame list \<Rightarrow> ('s, 's frame list) open_act" where
  "drive_path ctx revision callback path stack s =
     (let parent = RelpathDirname path in
      case close_frames ctx parent stack s of
        (Inl e, s1) \<Rightarrow> (Inl e, s1)
      | (Inr stack1, s1) \<Rightarrow>
          (let current = fst (hd stack1) in
           case RelpathSkipAncestor current parent of
             None \<Rightarrow> (Inl (CannotDrive current parent), s1)
           | Some remaining \<Rightarrow>
               (case open_frames ctx revision current (split CHR ''/'' remaining) stack1 s1 of
                  (Inl e, s2) \<Rightarrow> (Inl e, s2)
                | (Inr stack2, s2) \<Rightarrow>
                    (case callback ctx (snd (hd stack2)) path s2 of
                       (Inl e, s3) \<Rightarrow> (Inl e, s3)
                     | (Inr None, s3) \<Rightarrow> (Inr stack2, s3)
                     | (Inr (Some d), s3) \<Rightarrow> (Inr ((path, d) # stack2), s3)))))"

fun close_stack :: "'s ctx \<Rightarrow> 's frame list \<Rightarrow> 's act" where
  "close_stack ctx ((path, d) # (next_frame # rest)) s =
     (case CloseDir d ctx s of
        (Some e, s') \<Rightarrow> (Some e, s')
      | (None, s') \<Rightarrow> close_stack ctx (next_frame # rest) s')"
| "close_stack ctx stack s = (None, s)"

fun drive_paths ::
    "'s ctx \<Rightarrow> (string \<Rightarrow> revnum) \<Rightarrow> 's path_callback \<Rightarrow> string \<Rightarrow> string list \<Rightarrow> 's frame list \<Rightarrow> 's act" where
  "drive_paths ctx revision callback previous [] stack s = close_stack ctx stack s"
| "drive_paths ctx revision callback previous (path # paths) stack s =
     (if path = previous then (Some (DuplicatePath path), s)
      else case drive_path ctx revision callback path stack s of
          (Inl e, s') \<Rightarrow> (Some e, s')
        | (Inr stack', s') \<Rightarrow> drive_paths ctx revision callback path paths stack' s')"

definition PathDriverRevisions ::
    "'s ctx \<Rightarrow> 's dir_editor \<Rightarrow> string list \<Rightarrow> (string \<Rightarrow> revnum) \<Rightarrow> 's path_callback \<Rightarrow> 's act" where
  "PathDriverRevisions ctx root paths revision callback s =
     (let canonical = map RelpathCanonicalize paths in
      if [] \<in> set canonical then (Some EmptyTarget, s)
      else drive_paths ctx revision callback [] (sort canonical) [([], root)] s)"

definition PathDriver :: "'s ctx \<Rightarrow> 's dir_editor \<Rightarrow> string list \<Rightarrow> revnum \<Rightarrow> 's path_callback \<Rightarrow> 's act" where
  "PathDriver ctx root paths base_revision callback = PathDriverRevisions ctx root paths (\<lambda>_. base_revision) callback"

section \<open>The calls that are made\<close>

text \<open>An editor that records the calls it gets, and a callback that makes one of them.\<close>

datatype driven = Added string | Opened string revnum | Closed string | Visited string string

primcorec recorder :: "string \<Rightarrow> driven list dir_editor" where
  "methods (recorder p) =
     DirMethods
       (\<lambda>ctx path rv s. (None, s @ [Visited p path]))
       (\<lambda>ctx name v s. (None, s))
       (\<lambda>ctx path s. (None, s))
       (\<lambda>ctx path source s. (Inr noopFile, s))
       (\<lambda>ctx path rv s. (Inr noopFile, s))
       (\<lambda>ctx path s. (None, s))
       (\<lambda>ctx s. (None, s @ [Closed p]))"
| "AddDirectory (recorder p) =
     (\<lambda>ctx path source s. map_prod (map_sum id recorder) id (Inr path, s @ [Added path]))"
| "OpenDirectory (recorder p) =
     (\<lambda>ctx path rv s. map_prod (map_sum id recorder) id (Inr path, s @ [Opened path rv]))"

definition visit :: "driven list path_callback" where
  "visit ctx d path s =
     (case DeleteEntry d ctx path InvalidRevnum s of (Some e, s') \<Rightarrow> (Inl e, s') | (None, s') \<Rightarrow> (Inr None, s'))"

text \<open>The directories on the way from one directory down to another below it.\<close>

abbreviation dir_name :: "string list \<Rightarrow> string" where "dir_name \<equiv> join ''/''"

fun downward :: "string list \<Rightarrow> string list \<Rightarrow> string list list" where
  "downward cs [] = []"
| "downward cs (c # ds) = (cs @ [c]) # downward (cs @ [c]) ds"

text \<open>
  The calls for targets given by their components, from a directory that is open: the directories
  that do not lead to the next target are closed, those that lead to it are opened.
\<close>

fun way :: "(string \<Rightarrow> revnum) \<Rightarrow> string list \<Rightarrow> string list list \<Rightarrow> driven list" where
  "way revision cs [] = map (\<lambda>ds. Closed (dir_name ds)) (rev (downward [] cs))"
| "way revision cs (t # ts) =
     (let parent = butlast t; common = longest_common_prefix cs parent in
      map (\<lambda>ds. Closed (dir_name ds)) (rev (downward common (drop (length common) cs))) @
      map (\<lambda>ds. Opened (dir_name ds) (revision (dir_name ds))) (downward common (drop (length common) parent)) @
      [Visited (dir_name parent) (dir_name t)] @ way revision parent ts)"

text \<open>The stack over a directory: its ancestors, the root at the bottom.\<close>

definition stack_of :: "string list \<Rightarrow> driven list frame list" where
  "stack_of cs = map (\<lambda>ds. (dir_name ds, recorder (dir_name ds))) (rev ([] # downward [] cs))"

lemma downward_snoc: "downward cs (ds @ [d]) = downward cs ds @ [cs @ ds @ [d]]"
  by (induction ds arbitrary: cs) simp_all

lemma downward_append: "downward cs (ds @ es) = downward cs ds @ downward (cs @ ds) es"
  by (induction ds arbitrary: cs) simp_all

lemma stack_of_Nil: "stack_of [] = [([], recorder [])]"
  by (simp add: stack_of_def)

lemma stack_of_snoc: "stack_of (cs @ [c]) = (dir_name (cs @ [c]), recorder (dir_name (cs @ [c]))) # stack_of cs"
  by (simp add: stack_of_def downward_snoc)

lemma hd_stack_of: "hd (stack_of cs) = (dir_name cs, recorder (dir_name cs))"
  by (cases cs rule: rev_cases) (simp_all add: stack_of_Nil stack_of_snoc)

lemma stack_of_not_Nil [simp]: "stack_of cs \<noteq> []"
  by (simp add: stack_of_def)

lemma skip_names: "wf_components ps \<Longrightarrow> wf_components cs \<Longrightarrow>
    RelpathSkipAncestor (dir_name ps) (dir_name cs) = (if prefix ps cs then Some (dir_name (drop (length ps) cs)) else None)"
  using skipAncestor_relative [of ps cs] by (simp add: RelpathSkipAncestor_def RelpathCanonicalize_eq print_path_def)

lemma close_frames_way:
  assumes "wf_components parent"
  shows "wf_components cs \<Longrightarrow> close_frames ctx (dir_name parent) (stack_of cs) s =
    (Inr (stack_of (longest_common_prefix cs parent)),
     s @ map (\<lambda>ds. Closed (dir_name ds)) (rev (downward (longest_common_prefix cs parent) (drop (length (longest_common_prefix cs parent)) cs))))"
proof (induction cs arbitrary: s rule: rev_induct)
  case Nil
  then show ?case by (simp add: stack_of_Nil)
next
  case (snoc c cs)
  have wf: "wf_components cs" using snoc.prems wf_components_prefix [of cs "cs @ [c]"] by simp
  obtain f rest where r: "stack_of cs = f # rest" by (cases "stack_of cs") simp_all
  show ?case
  proof (cases "prefix (cs @ [c]) parent")
    case True
    then have "longest_common_prefix (cs @ [c]) parent = cs @ [c]"
      by (metis longest_common_prefix_max_prefix longest_common_prefix_prefix1 prefix_order.antisym prefix_order.refl)
    then show ?thesis using True snoc.prems assms by (simp add: stack_of_snoc r skip_names)
  next
    case False
    let ?k = "longest_common_prefix cs parent"
    have k: "longest_common_prefix (cs @ [c]) parent = ?k" using longest_common_prefix_butlast [OF False] by simp
    have "prefix ?k cs" by (rule longest_common_prefix_prefix1)
    then obtain ds where ds: "cs = ?k @ ds" by (auto simp: prefix_def)
    have "drop (length ?k) (cs @ [c]) = ds @ [c]" "drop (length ?k) cs = ds" using ds by (metis append.assoc append_eq_conv_conj)+
    then have "downward ?k (drop (length ?k) (cs @ [c])) = downward ?k (drop (length ?k) cs) @ [cs @ [c]]"
      using ds by (metis append.assoc downward_snoc)
    then show ?thesis unfolding k using False snoc wf assms by (simp add: stack_of_snoc r skip_names)
  qed
qed

lemma open_frames_way:
  "wf_components (cs @ ds) \<Longrightarrow> open_frames ctx revision (dir_name cs) ds (stack_of cs) s =
    (Inr (stack_of (cs @ ds)), s @ map (\<lambda>ds. Opened (dir_name ds) (revision (dir_name ds))) (downward cs ds))"
proof (induction ds arbitrary: cs s)
  case (Cons d ds)
  have d: "d \<noteq> []" using Cons.prems by (auto simp: wf_components_def)
  have j: "RelpathJoin (dir_name cs) [d] = dir_name (cs @ [d])"
    using Cons.prems components_join [of "[d]"] by (simp add: RelpathJoin_eq print_path_def)
  then show ?case using Cons.IH [of "cs @ [d]"] Cons.prems d by (simp add: Let_def hd_stack_of stack_of_snoc)
qed simp

lemma close_stack_way: "close_stack ctx (stack_of cs) s = (None, s @ map (\<lambda>ds. Closed (dir_name ds)) (rev (downward [] cs)))"
proof (induction cs arbitrary: s rule: rev_induct)
  case (snoc c cs)
  obtain f rest where r: "stack_of cs = f # rest" by (cases "stack_of cs") simp_all
  show ?case using snoc by (simp add: stack_of_snoc r downward_snoc)
qed (simp add: stack_of_Nil)

text \<open>Driving to one path, when each of its stages is known.\<close>

lemma drive_path_stages:
  assumes "RelpathDirname path = parent" "close_frames ctx parent stack s = (Inr stack1, s1)"
    and "RelpathSkipAncestor (fst (hd stack1)) parent = Some remaining"
    and "open_frames ctx revision (fst (hd stack1)) (split CHR ''/'' remaining) stack1 s1 = (Inr stack2, s2)"
    and "callback ctx (snd (hd stack2)) path s2 = (Inr None, s3)"
  shows "drive_path ctx revision callback path stack s = (Inr stack2, s3)"
  using assms by (simp add: drive_path_def Let_def)

lemma visit_recorder: "visit ctx (recorder p) path s = (Inr None, s @ [Visited p path])"
  by (simp add: visit_def)

lemma open_frames_split:
  "wf_components ds \<Longrightarrow> open_frames ctx revision current (split CHR ''/'' (dir_name ds)) stack s = open_frames ctx revision current ds stack s"
  using split_join [of ds "CHR ''/''"] by (cases "ds = []") (auto simp: wf_components_def)

lemma dirname_names:
  assumes "wf_components t"
  shows "RelpathDirname (dir_name t) = dir_name (butlast t)"
  using relpath.dirname [of "dir_name t"] assms by (simp add: print_path_def)

lemma drive_path_way:
  fixes cs t :: "string list"
  defines "parent \<equiv> butlast t"
  defines "k \<equiv> longest_common_prefix cs parent"
  assumes "wf_components cs" "wf_components t"
  shows "drive_path ctx revision visit (dir_name t) (stack_of cs) s =
    (Inr (stack_of parent),
     ((s @ map (\<lambda>ds. Closed (dir_name ds)) (rev (downward k (drop (length k) cs)))) @
       map (\<lambda>ds. Opened (dir_name ds) (revision (dir_name ds))) (downward k (drop (length k) parent))) @
       [Visited (dir_name parent) (dir_name t)])"
proof (rule drive_path_stages)
  have wf: "wf_components parent" using wf_components_butlast [OF assms(4)] by (simp add: parent_def)
  have k: "prefix k parent" unfolding k_def by (rule longest_common_prefix_prefix2)
  define ds where "ds = drop (length k) parent"
  have ds: "parent = k @ ds" using k by (auto simp: ds_def prefix_def)
  have wf': "wf_components k" "wf_components (k @ ds)" "wf_components ds"
    using wf_components_prefix [OF k wf] wf ds by (auto simp: wf_components_def)
  show "RelpathDirname (dir_name t) = dir_name parent" using dirname_names [OF assms(4)] by (simp add: parent_def)
  show "close_frames ctx (dir_name parent) (stack_of cs) s =
      (Inr (stack_of k), s @ map (\<lambda>ds. Closed (dir_name ds)) (rev (downward k (drop (length k) cs))))"
    unfolding k_def by (rule close_frames_way [OF wf assms(3)])
  show "RelpathSkipAncestor (fst (hd (stack_of k))) (dir_name parent) = Some (dir_name (drop (length k) parent))"
    using skip_names [OF wf'(1) wf] k by (simp add: hd_stack_of)
  show "open_frames ctx revision (fst (hd (stack_of k))) (split CHR ''/'' (dir_name (drop (length k) parent))) (stack_of k) s' =
      (Inr (stack_of parent), s' @ map (\<lambda>ds. Opened (dir_name ds) (revision (dir_name ds))) (downward k (drop (length k) parent)))" for s'
    unfolding hd_stack_of fst_conv ds_def [symmetric] open_frames_split [OF wf'(3)] open_frames_way [OF wf'(2)] by (simp only: ds)
  show "visit ctx (snd (hd (stack_of parent))) (dir_name t) s' = (Inr None, s' @ [Visited (dir_name parent) (dir_name t)])" for s'
    unfolding hd_stack_of snd_conv by (rule visit_recorder)
qed

lemma drive_paths_way:
  "wf_components cs \<Longrightarrow> list_all (\<lambda>t. wf_components t \<and> t \<noteq> []) ts \<Longrightarrow> distinct (previous # map dir_name ts) \<Longrightarrow>
     drive_paths ctx revision visit previous (map dir_name ts) (stack_of cs) s = (None, s @ way revision cs ts)"
proof (induction ts arbitrary: cs previous s)
  case (Cons t ts)
  have wf: "wf_components (butlast t)" using Cons.prems(2) wf_components_butlast by simp
  have d: "dir_name t \<noteq> previous" "distinct (dir_name t # map dir_name ts)" using Cons.prems(3) by auto
  show ?case using Cons.prems(1,2) d(1) Cons.IH [OF wf _ d(2)]
    by (simp add: drive_path_way [OF Cons.prems(1)] Let_def)
qed (simp add: close_stack_way)

text \<open>
  Driven to distinct targets, a directory editor gets the calls of the shortest way through them in
  the order of their paths, whatever order they were given in; each target is handed to the callback
  in its own directory.
\<close>

theorem path_driver_way:
  assumes "distinct (map RelpathCanonicalize paths)" "\<And>p. p \<in> set paths \<Longrightarrow> components p \<noteq> []"
  shows "PathDriverRevisions ctx (recorder []) paths revision visit s =
     (None, s @ way revision [] (map components (sort (map RelpathCanonicalize paths))))"
proof -
  let ?sorted = "sort (map RelpathCanonicalize paths)"
  have canonical: "dir_name (components p) = p \<and> wf_components (components p) \<and> components p \<noteq> []" if "p \<in> set ?sorted" for p
    using that assms(2) by (auto simp: RelpathCanonicalize_eq print_path_def)
  then have names: "map dir_name (map components ?sorted) = ?sorted" unfolding map_map by (intro map_idI) (simp add: canonical)
  have "[] \<notin> set ?sorted" using canonical components_join [of "[]"] by fastforce
  moreover have "distinct ?sorted" using assms(1) by simp
  ultimately show ?thesis
    using drive_paths_way [of "[]" "map components ?sorted" "[]" ctx revision s] canonical
    unfolding names by (simp add: PathDriverRevisions_def Let_def stack_of_Nil list_all_iff image_iff)
qed

text \<open>
  The order of the paths as strings puts \<open>a-b\<close> between \<open>a\<close> and \<open>a/c\<close>, so a directory the callback
  has added is closed for its neighbour and opened again for what is below it.
\<close>

definition add_or_visit :: "string \<Rightarrow> driven list path_callback" where
  "add_or_visit directory ctx d path s =
     (if path = directory
      then case AddDirectory d ctx path None s of (Inl e, s') \<Rightarrow> (Inl e, s') | (Inr new, s') \<Rightarrow> (Inr (Some new), s')
      else visit ctx d path s)"

lemma added_directory_reopened:
  "PathDriver ctx (recorder []) [''a'', ''a-b'', ''a/c''] rv (add_or_visit ''a'') [] =
     (None, [Added ''a'', Closed ''a'', Visited [] ''a-b'', Opened ''a'' rv, Visited ''a'' ''a/c'', Closed ''a''])"
proof -
  have canonical: "map RelpathCanonicalize [''a'', ''a-b'', ''a/c''] = [''a'', ''a-b'', ''a/c'']"
    "sort [''a'', ''a-b'', ''a/c''] = [''a'', ''a-b'', ''a/c'']" by code_simp+
  have names: "RelpathDirname ''a'' = []" "RelpathDirname ''a-b'' = []" "RelpathDirname ''a/c'' = ''a''"
    "RelpathSkipAncestor [] [] = Some []" "RelpathSkipAncestor ''a'' [] = None" "RelpathSkipAncestor [] ''a'' = Some ''a''"
    "RelpathSkipAncestor ''a'' ''a'' = Some []" "RelpathJoin [] [''a''] = ''a''" "split CHR ''/'' [] = [[]]" "split CHR ''/'' ''a'' = [''a'']"
    by code_simp+
  show ?thesis
    unfolding PathDriver_def PathDriverRevisions_def canonical Let_def
    by (simp add: drive_path_def names add_or_visit_def visit_def Let_def)
qed

end
