(* ===== verification/Go_Text.thy ===== *)
theory Go_Text
  imports Go_Strings
begin

text \<open>
  The functions of \<^verbatim>\<open>strings\<close> that know about Unicode white space and about substrings, on
  strings of bytes: \<open>space_codes\<close> lists the UTF-8 encodings of the characters
  \<^verbatim>\<open>unicode.IsSpace\<close> accepts, so a trimmed string is one that neither starts nor ends with one
  of them.
\<close>

section \<open>White space\<close>

definition space_codes :: "string list" where
  "space_codes =
     [[CHR 0x09], [CHR 0x0A], [CHR 0x0B], [CHR 0x0C], [CHR 0x0D], [CHR 0x20],
      [CHR 0xC2, CHR 0x85], [CHR 0xC2, CHR 0xA0], [CHR 0xE1, CHR 0x9A, CHR 0x80],
      [CHR 0xE2, CHR 0x80, CHR 0x80], [CHR 0xE2, CHR 0x80, CHR 0x81], [CHR 0xE2, CHR 0x80, CHR 0x82],
      [CHR 0xE2, CHR 0x80, CHR 0x83], [CHR 0xE2, CHR 0x80, CHR 0x84], [CHR 0xE2, CHR 0x80, CHR 0x85],
      [CHR 0xE2, CHR 0x80, CHR 0x86], [CHR 0xE2, CHR 0x80, CHR 0x87], [CHR 0xE2, CHR 0x80, CHR 0x88],
      [CHR 0xE2, CHR 0x80, CHR 0x89], [CHR 0xE2, CHR 0x80, CHR 0x8A], [CHR 0xE2, CHR 0x80, CHR 0xA8],
      [CHR 0xE2, CHR 0x80, CHR 0xA9], [CHR 0xE2, CHR 0x80, CHR 0xAF], [CHR 0xE2, CHR 0x81, CHR 0x9F],
      [CHR 0xE3, CHR 0x80, CHR 0x80]]"

text \<open>Drop prefixes taken from \<open>codes\<close> as long as there is one, at most \<open>n\<close> times.\<close>

fun drop_codes :: "nat \<Rightarrow> string list \<Rightarrow> string \<Rightarrow> string" where
  "drop_codes 0 codes s = s"
| "drop_codes (Suc n) codes s =
     (case find (HasPrefix s) codes of
        None \<Rightarrow> s
      | Some code \<Rightarrow> drop_codes n codes (drop (length code) s))"

definition TrimLeftSpace :: "string \<Rightarrow> string" where
  "TrimLeftSpace s = drop_codes (length s) space_codes s"

definition TrimRightSpace :: "string \<Rightarrow> string" where
  "TrimRightSpace s = rev (drop_codes (length s) (map rev space_codes) (rev s))"

definition TrimSpace :: "string \<Rightarrow> string" where
  "TrimSpace s = TrimRightSpace (TrimLeftSpace s)"

text \<open>Bytes at which no white space can start or end.\<close>

definition starts_space :: "char \<Rightarrow> bool" where
  "starts_space c \<longleftrightarrow> c \<in> set (map hd space_codes)"

definition ends_space :: "char \<Rightarrow> bool" where
  "ends_space c \<longleftrightarrow> c \<in> set (map last space_codes)"

lemma drop_codes_id:
  assumes "[] \<notin> set codes" "s \<noteq> [] \<Longrightarrow> hd s \<notin> hd ` set codes"
  shows "drop_codes n codes s = s"
proof (cases n)
  case (Suc m)
  have "\<not> HasPrefix s code" if "code \<in> set codes" for code
  proof
    assume "HasPrefix s code"
    then obtain r where "s = code @ r" by (auto simp: HasPrefix_iff)
    moreover have "code \<noteq> []" using assms(1) that by auto
    ultimately have "s \<noteq> []" "hd s = hd code" by auto
    with assms(2) that show False by (metis imageI)
  qed
  then have "find (HasPrefix s) codes = None" by (auto simp: find_None_iff)
  with Suc show ?thesis by simp
qed simp

lemma space_codes_not_Nil [simp]: "[] \<notin> set space_codes"
  by (simp add: space_codes_def)

lemma TrimLeftSpace_id: "(s \<noteq> [] \<Longrightarrow> \<not> starts_space (hd s)) \<Longrightarrow> TrimLeftSpace s = s"
  unfolding TrimLeftSpace_def by (rule drop_codes_id) (auto simp: starts_space_def)

lemma TrimRightSpace_id:
  assumes "s \<noteq> [] \<Longrightarrow> \<not> ends_space (last s)"
  shows "TrimRightSpace s = s"
proof -
  have "hd ` rev ` set space_codes = last ` set space_codes"
    unfolding image_image by (rule image_cong) (auto simp: hd_rev)
  then have "drop_codes (length s) (map rev space_codes) (rev s) = rev s"
    using assms by (intro drop_codes_id) (auto simp: ends_space_def hd_rev)
  then show ?thesis by (simp add: TrimRightSpace_def)
qed

lemma TrimSpace_id:
  assumes "s \<noteq> [] \<Longrightarrow> \<not> starts_space (hd s)" "s \<noteq> [] \<Longrightarrow> \<not> ends_space (last s)"
  shows "TrimSpace s = s"
  unfolding TrimSpace_def TrimLeftSpace_id [of s, OF assms(1), simplified]
  by (rule TrimRightSpace_id [OF assms(2)])

lemma TrimSpace_Nil [simp]: "TrimSpace [] = []"
  by (rule TrimSpace_id) simp_all

lemma not_space_of_char:
  "33 \<le> (of_char c :: nat) \<Longrightarrow> (of_char c :: nat) < 128 \<Longrightarrow> \<not> starts_space c \<and> \<not> ends_space c"
  by (auto simp: starts_space_def ends_space_def space_codes_def)

lemma digit_not_space [simp]: "is_digit c \<Longrightarrow> \<not> starts_space c" "is_digit c \<Longrightarrow> \<not> ends_space c"
  using not_space_of_char [of c] by (auto simp: is_digit_def less_eq_char_def)

text \<open>\<open>strings.Fields\<close>: the maximal runs without white space; \<open>word\<close> is the run being read.\<close>

fun fields_loop :: "nat \<Rightarrow> string \<Rightarrow> string \<Rightarrow> string list" where
  "fields_loop 0 word s = (if word = [] then [] else [word])"
| "fields_loop (Suc n) word s =
     (case s of
        [] \<Rightarrow> if word = [] then [] else [word]
      | c # rest \<Rightarrow>
          (case find (HasPrefix s) space_codes of
             Some code \<Rightarrow>
               (if word = [] then [] else [word]) @ fields_loop n [] (drop (length code) s)
           | None \<Rightarrow> fields_loop n (word @ [c]) rest))"

definition Fields :: "string \<Rightarrow> string list" where
  "Fields s = fields_loop (length s + 1) [] s"

text \<open>Words without white space.\<close>

definition plain :: "string \<Rightarrow> bool" where
  "plain w \<longleftrightarrow> list_all (\<lambda>c. \<not> starts_space c) w"

lemma plain_simps [simp]: "plain []" "plain (c # w) \<longleftrightarrow> \<not> starts_space c \<and> plain w" "plain (v @ w) \<longleftrightarrow> plain v \<and> plain w"
  by (simp_all add: plain_def)

lemma plain_digits: "list_all is_digit w \<Longrightarrow> plain w"
  by (induction w) simp_all

lemma find_code_none: "\<not> starts_space c \<Longrightarrow> find (HasPrefix (c # s)) space_codes = None"
proof -
  assume c: "\<not> starts_space c"
  have "\<not> HasPrefix (c # s) code" if "code \<in> set space_codes" for code
  proof
    assume "HasPrefix (c # s) code"
    then obtain r where r: "c # s = code @ r" by (auto simp: HasPrefix_iff)
    have "code \<noteq> []" using space_codes_not_Nil that by auto
    with r have "hd code = c" by (cases code) simp_all
    with c that show False by (auto simp: starts_space_def)
  qed
  then show ?thesis by (auto simp: find_None_iff)
qed

lemma find_code_blank: "find (HasPrefix (CHR '' '' # s)) space_codes = Some '' ''"
  by (simp add: space_codes_def)

lemma fields_loop_word: "plain w \<Longrightarrow> fields_loop (length w + n) acc (w @ s) = fields_loop n (acc @ w) s"
  by (induction w arbitrary: acc) (simp_all add: find_code_none)

lemma Fields_word: "plain w \<Longrightarrow> w \<noteq> [] \<Longrightarrow> Fields w = [w]"
  using fields_loop_word [of w 1 "[]" "[]"] by (simp add: Fields_def)

lemma Fields_words: "plain w \<Longrightarrow> w \<noteq> [] \<Longrightarrow> Fields (w @ CHR '' '' # s) = w # Fields s"
  using fields_loop_word [of w "Suc (Suc (length s))" "[]" "CHR '' '' # s"]
  by (simp add: Fields_def find_code_blank)

section \<open>Substrings\<close>

text \<open>\<open>strings.ReplaceAll(s, "\r\n", "\n")\<close> for a two-byte pattern and a one-byte replacement.\<close>

fun replace_pair :: "char \<Rightarrow> char \<Rightarrow> char \<Rightarrow> string \<Rightarrow> string" where
  "replace_pair a b r (x # y # s) =
     (if x = a \<and> y = b then r # replace_pair a b r s else x # replace_pair a b r (y # s))"
| "replace_pair a b r s = s"

lemma replace_pair_id: "b \<notin> set s \<Longrightarrow> replace_pair a b r s = s"
  by (induction a b r s rule: replace_pair.induct) auto

end
