(* ===== verification/Svn_Dirent.thy ===== *)
theory Svn_Dirent
  imports Svn_Path
begin

text \<open>
  Local paths, \<^verbatim>\<open>svn/path/dirent.go\<close>. The test \<open>runtime.GOOS == "windows"\<close> is the argument
  \<open>windows\<close>, the full Unicode mapping behind \<open>strings.ToLower\<close> a parameter that only strings with
  bytes outside ASCII reach, the working directory an argument of \<open>DirentAbsolute\<close>. The lemmas
  read the POSIX operations as operations on components; the main one is that a relative path
  \<open>DirentIsUnderRoot\<close> accepts never leads out of its base.
\<close>

section \<open>Definitions\<close>

definition ascii_lower :: "char \<Rightarrow> char" where
  "ascii_lower c = (if CHR ''A'' \<le> c \<and> c \<le> CHR ''Z'' then char_of (of_char c + 32 :: nat) else c)"

definition ascii_upper :: "char \<Rightarrow> char" where
  "ascii_upper c = (if CHR ''a'' \<le> c \<and> c \<le> CHR ''z'' then char_of (of_char c - 32 :: nat) else c)"

definition is_ascii :: "char \<Rightarrow> bool" where
  "is_ascii c \<longleftrightarrow> of_char c < (128 :: nat)"

definition ToLower :: "(string \<Rightarrow> string) \<Rightarrow> string \<Rightarrow> string" where
  "ToLower unicode_lower s = (if list_all is_ascii s then map ascii_lower s else unicode_lower s)"

definition is_letter :: "char \<Rightarrow> bool" where
  "is_letter c \<longleftrightarrow> (CHR ''A'' \<le> c \<and> c \<le> CHR ''Z'') \<or> (CHR ''a'' \<le> c \<and> c \<le> CHR ''z'')"

definition from_backslash :: "string \<Rightarrow> string" where
  "from_backslash path = map (\<lambda>c. if c = CHR 0x5C then CHR ''/'' else c) path"

definition isDrive :: "string \<Rightarrow> bool" where
  "isDrive path \<longleftrightarrow> length path \<ge> 2 \<and> is_letter (path ! 0) \<and> path ! 1 = CHR '':''"

definition isUNC :: "string \<Rightarrow> bool" where
  "isUNC path \<longleftrightarrow>
     (if \<not> HasPrefix path ''//'' then False
      else
        let parts = split CHR ''/'' (drop 2 path) in
        length parts \<ge> 2 \<and> parts ! 0 \<noteq> [] \<and> parts ! 0 \<noteq> ''.'' \<and> parts ! 0 \<noteq> ''..'' \<and>
        parts ! 1 \<noteq> [] \<and> parts ! 1 \<noteq> ''.'' \<and> parts ! 1 \<noteq> ''..'')"

definition DirentCanonicalize :: "(string \<Rightarrow> string) \<Rightarrow> bool \<Rightarrow> string \<Rightarrow> string" where
  "DirentCanonicalize unicode_lower windows path =
     (let path1 = (if windows then from_backslash path else path);
          path2 = (if windows \<and> isDrive path1 then ascii_upper (hd path1) # tl path1 else path1);
          fields = filter (\<lambda>part. part \<noteq> []) (split CHR ''/'' (drop 2 path2)) in
      if windows \<and> isUNC path2 \<and> length fields \<ge> 2 then
        ''//'' @ join ''/'' (ToLower unicode_lower (fields ! 0) # tl fields)
      else
        let drive = (if windows \<and> isDrive path2 then map ascii_upper (take 2 path2) else []);
            path3 = (if windows \<and> isDrive path2 then drop 2 path2 else path2);
            result = canonicalComponents path3 (HasPrefix path3 ''/'') in
        if drive \<noteq> [] then (if result = ''/'' then drive @ ''/'' else drive @ result) else result)"

definition DirentIsCanonical :: "(string \<Rightarrow> string) \<Rightarrow> bool \<Rightarrow> string \<Rightarrow> bool" where
  "DirentIsCanonical unicode_lower windows path \<longleftrightarrow> path = DirentCanonicalize unicode_lower windows path"

definition DirentIsAbsolute :: "bool \<Rightarrow> string \<Rightarrow> bool" where
  "DirentIsAbsolute windows path \<longleftrightarrow>
     (if windows then
        HasPrefix path ''/'' \<or>
        (isDrive path \<and> length path \<ge> 3 \<and> CHR ''A'' \<le> path ! 0 \<and> path ! 0 \<le> CHR ''Z'' \<and>
         path ! 2 = CHR ''/'')
      else HasPrefix path ''/'')"

definition DirentIsRoot :: "(string \<Rightarrow> string) \<Rightarrow> bool \<Rightarrow> string \<Rightarrow> bool" where
  "DirentIsRoot unicode_lower windows path \<longleftrightarrow>
     (let path' = DirentCanonicalize unicode_lower windows path in
      if path' = ''/'' then True
      else if windows then
        (if isDrive path' \<and> (length path' = 2 \<or> drop 2 path' = ''/'') then True
         else if isUNC path' then count_list (drop 2 path') CHR ''/'' = 1
         else False)
      else False)"

definition dirent_join_step :: "(string \<Rightarrow> string) \<Rightarrow> bool \<Rightarrow> string \<Rightarrow> string \<Rightarrow> string" where
  "dirent_join_step unicode_lower windows result component =
     (let component' = DirentCanonicalize unicode_lower windows component in
      if component' = [] then result
      else if DirentIsAbsolute windows component' \<or> (windows \<and> isDrive component') then component'
      else if HasPrefix component' ''/'' then
        (if windows \<and> isDrive result then take 2 result @ component' else component')
      else joinCanonical result [component'])"

definition DirentJoin :: "(string \<Rightarrow> string) \<Rightarrow> bool \<Rightarrow> string \<Rightarrow> string list \<Rightarrow> string" where
  "DirentJoin unicode_lower windows base parts =
     DirentCanonicalize unicode_lower windows
       (foldl (dirent_join_step unicode_lower windows) (DirentCanonicalize unicode_lower windows base)
         parts)"

definition direntRoot :: "bool \<Rightarrow> string \<Rightarrow> string" where
  "direntRoot windows path =
     (let parts = split CHR ''/'' (drop 2 path) in
      if windows \<and> isUNC path \<and> length parts \<ge> 2 then ''//'' @ parts ! 0 @ ''/'' @ parts ! 1
      else if windows \<and> isDrive path then
        (if length path \<ge> 3 \<and> path ! 2 = CHR ''/'' then take 3 path else take 2 path)
      else if HasPrefix path ''/'' then ''/''
      else [])"

definition sameDirentRoot :: "bool \<Rightarrow> string \<Rightarrow> string \<Rightarrow> bool" where
  "sameDirentRoot windows first second \<longleftrightarrow> direntRoot windows first = direntRoot windows second"

definition DirentSplit :: "(string \<Rightarrow> string) \<Rightarrow> bool \<Rightarrow> string \<Rightarrow> string \<times> string" where
  "DirentSplit unicode_lower windows path =
     (let path' = DirentCanonicalize unicode_lower windows path in
      splitPath path' (direntRoot windows path'))"

definition DirentDirname :: "(string \<Rightarrow> string) \<Rightarrow> bool \<Rightarrow> string \<Rightarrow> string" where
  "DirentDirname unicode_lower windows path =
     (let path' = DirentCanonicalize unicode_lower windows path in
      fst (splitPath path' (direntRoot windows path')))"

definition DirentBasename :: "(string \<Rightarrow> string) \<Rightarrow> bool \<Rightarrow> string \<Rightarrow> string" where
  "DirentBasename unicode_lower windows path =
     (let path' = DirentCanonicalize unicode_lower windows path in
      snd (splitPath path' (direntRoot windows path')))"

definition DirentSkipAncestor :: "(string \<Rightarrow> string) \<Rightarrow> bool \<Rightarrow> string \<Rightarrow> string \<Rightarrow> string option" where
  "DirentSkipAncestor unicode_lower windows parent child =
     (let parent' = DirentCanonicalize unicode_lower windows parent;
          child' = DirentCanonicalize unicode_lower windows child in
      if \<not> sameDirentRoot windows parent' child' then None else skipAncestor parent' child')"

definition DirentIsAncestor :: "(string \<Rightarrow> string) \<Rightarrow> bool \<Rightarrow> string \<Rightarrow> string \<Rightarrow> bool" where
  "DirentIsAncestor unicode_lower windows parent child \<longleftrightarrow>
     DirentSkipAncestor unicode_lower windows parent child \<noteq> None"

definition DirentIsChild :: "(string \<Rightarrow> string) \<Rightarrow> bool \<Rightarrow> string \<Rightarrow> string \<Rightarrow> string \<times> bool" where
  "DirentIsChild unicode_lower windows parent child =
     (case DirentSkipAncestor unicode_lower windows parent child of
        None \<Rightarrow> ([], False) | Some remainder \<Rightarrow> (remainder, remainder \<noteq> []))"

definition DirentLongestAncestor :: "(string \<Rightarrow> string) \<Rightarrow> bool \<Rightarrow> string \<Rightarrow> string \<Rightarrow> string option" where
  "DirentLongestAncestor unicode_lower windows first second =
     longestAncestor (DirentCanonicalize unicode_lower windows first)
       (DirentCanonicalize unicode_lower windows second)
       (DirentDirname unicode_lower windows) (sameDirentRoot windows)"

definition DirentCondense ::
    "(string \<Rightarrow> string) \<Rightarrow> bool \<Rightarrow> string list \<Rightarrow> bool \<Rightarrow> (string \<times> string list) option" where
  "DirentCondense unicode_lower windows targets removeRedundant =
     condense targets (DirentCanonicalize unicode_lower windows)
       (DirentLongestAncestor unicode_lower windows) (DirentSkipAncestor unicode_lower windows)
       removeRedundant"

definition DirentLocalStyle :: "(string \<Rightarrow> string) \<Rightarrow> bool \<Rightarrow> string \<Rightarrow> string" where
  "DirentLocalStyle unicode_lower windows path =
     (let path' = DirentCanonicalize unicode_lower windows path in
      if path' = [] then ''.''
      else if windows then map (\<lambda>c. if c = CHR ''/'' then CHR 0x5C else c) path'
      else path')"

definition DirentInternalStyle :: "(string \<Rightarrow> string) \<Rightarrow> bool \<Rightarrow> string \<Rightarrow> string" where
  "DirentInternalStyle unicode_lower windows path =
     DirentCanonicalize unicode_lower windows (if windows then from_backslash path else path)"

fun under_root_loop ::
    "(string \<Rightarrow> string) \<Rightarrow> bool \<Rightarrow> string list \<Rightarrow> string \<Rightarrow> nat \<Rightarrow> string option" where
  "under_root_loop unicode_lower windows [] result depth = Some result"
| "under_root_loop unicode_lower windows (part # parts) result depth =
     (if part = ''.'' \<or> part = [] then under_root_loop unicode_lower windows parts result depth
      else if part = ''..'' then
        (if depth = 0 then None
         else under_root_loop unicode_lower windows parts
           (DirentDirname unicode_lower windows result) (depth - 1))
      else under_root_loop unicode_lower windows parts
        (DirentJoin unicode_lower windows result [part]) (depth + 1))"

definition DirentIsUnderRoot :: "(string \<Rightarrow> string) \<Rightarrow> bool \<Rightarrow> string \<Rightarrow> string \<Rightarrow> string option" where
  "DirentIsUnderRoot unicode_lower windows base relative =
     (if relative = [] \<or> relative = ''.'' then Some (DirentCanonicalize unicode_lower windows base)
      else if DirentIsAbsolute windows relative then None
      else under_root_loop unicode_lower windows
        (split CHR ''/'' (if windows then from_backslash relative else relative))
        (DirentCanonicalize unicode_lower windows base) 0)"

definition DirentAbsolute ::
    "(string \<Rightarrow> string) \<Rightarrow> bool \<Rightarrow> string option \<Rightarrow> string \<Rightarrow> string option" where
  "DirentAbsolute unicode_lower windows getwd path =
     (if DirentIsAbsolute windows path then Some (DirentCanonicalize unicode_lower windows path)
      else if windows \<and> isDrive path then None
      else case getwd of
          None \<Rightarrow> None
        | Some workingDirectory \<Rightarrow>
            Some (DirentJoin unicode_lower windows
              (DirentInternalStyle unicode_lower windows workingDirectory) [path]))"

section \<open>POSIX paths as components\<close>

definition posix_root :: "string \<Rightarrow> string" where
  "posix_root path = (if HasPrefix path ''/'' then ''/'' else [])"

lemma posix_root_cases: "posix_root path = [] \<or> posix_root path = ''/''"
  by (simp add: posix_root_def)

lemma DirentCanonicalize_posix:
  "DirentCanonicalize ul False path = print_path (posix_root path) (components path)"
  by (simp add: DirentCanonicalize_def canonicalComponents_eq print_path_def posix_root_def Let_def)

lemma posix_root_print:
  "root = [] \<or> root = ''/'' \<Longrightarrow> wf_components cs \<Longrightarrow> posix_root (print_path root cs) = root"
  using join_no_leading [of cs] by (auto simp: posix_root_def print_path_def)

lemma direntRoot_print:
  "root = [] \<or> root = ''/'' \<Longrightarrow> wf_components cs \<Longrightarrow> direntRoot False (print_path root cs) = root"
  using posix_root_print [of root cs] by (simp add: direntRoot_def posix_root_def Let_def)

lemma DirentCanonicalize_print:
  "root = [] \<or> root = ''/'' \<Longrightarrow> wf_components cs \<Longrightarrow>
     DirentCanonicalize ul False (print_path root cs) = print_path root cs"
  by (simp add: DirentCanonicalize_posix posix_root_print)

lemma DirentDirname_print:
  "root = [] \<or> root = ''/'' \<Longrightarrow> wf_components cs \<Longrightarrow>
     DirentDirname ul False (print_path root cs) = print_path root (butlast cs)"
  by (simp add: DirentDirname_def Let_def DirentCanonicalize_print direntRoot_print splitPath_print)
    (simp add: print_path_def)

lemma DirentJoin_print:
  assumes "root = [] \<or> root = ''/''" "wf_components (cs @ [c])"
  shows "DirentJoin ul False (print_path root cs) [c] = print_path root (cs @ [c])"
proof -
  have c: "components c = [c]" "\<not> HasPrefix c ''/''"
    using assms(2) components_join [of "[c]"] join_no_leading [of "[c]"] by auto
  then have "DirentCanonicalize ul False c = c"
    by (simp add: DirentCanonicalize_posix posix_root_def print_path_def)
  then have "dirent_join_step ul False (print_path root cs) c = print_path root (cs @ [c])"
    using c assms joinCanonical_print [OF assms(1), of cs "[c]"]
    by (simp add: dirent_join_step_def DirentIsAbsolute_def Let_def)
  then show ?thesis
    using assms DirentCanonicalize_print [OF assms(1)] by (simp add: DirentJoin_def)
qed

lemma under_root_loop_inside:
  assumes "root = [] \<or> root = ''/''" "wf_components (cs @ ds)" "depth = length ds" "''..'' \<notin> set ds"
    and "\<forall>part\<in>set parts. CHR ''/'' \<notin> set part"
    and "under_root_loop ul False parts (print_path root (cs @ ds)) depth = Some result"
  shows "\<exists>es. result = print_path root (cs @ es) \<and> wf_components es \<and> ''..'' \<notin> set es"
  using assms
proof (induction parts arbitrary: ds depth)
  case (Cons part parts)
  consider "part = ''.'' \<or> part = []" | "part = ''..''" | "part \<notin> {''.'', [], ''..''}" by auto
  then show ?case
  proof cases
    case 1
    then show ?thesis using Cons.prems Cons.IH [of ds depth] by auto
  next
    case 2
    with Cons.prems obtain d es where d: "ds = es @ [d]" by (cases ds rule: rev_cases) auto
    have "DirentDirname ul False (print_path root (cs @ ds)) = print_path root (cs @ es)"
      using DirentDirname_print [OF Cons.prems(1,2)] by (simp add: d butlast_append)
    with 2 Cons.prems d Cons.IH [of es "length es"] show ?thesis by auto
  next
    case 3
    then have wf: "wf_components ((cs @ ds) @ [part])" using Cons.prems by simp
    with DirentJoin_print [OF Cons.prems(1) wf] 3 Cons.prems Cons.IH [of "ds @ [part]" "Suc depth"]
    show ?thesis by auto
  qed
qed auto

lemma DirentIsUnderRoot_posix:
  assumes "DirentIsUnderRoot ul False base relative = Some result"
  shows "\<exists>es. result = print_path (posix_root base) (components base @ es) \<and> wf_components es \<and> ''..'' \<notin> set es"
proof (cases "relative = [] \<or> relative = ''.''")
  case True
  with assms show ?thesis
    by (intro exI [of _ "[]"]) (simp add: DirentIsUnderRoot_def DirentCanonicalize_posix)
next
  case False
  with assms have loop: "under_root_loop ul False (split CHR ''/'' relative)
      (print_path (posix_root base) (components base @ [])) 0 = Some result"
    by (simp add: DirentIsUnderRoot_def DirentCanonicalize_posix split: if_splits)
  show ?thesis
    using under_root_loop_inside [OF posix_root_cases _ _ _ _ loop] by (simp add: split_parts)
qed

lemma DirentSkipAncestor_posix:
  "DirentSkipAncestor ul False parent child =
     (if posix_root parent = posix_root child \<and> prefix (components parent) (components child)
      then Some (join ''/'' (drop (length (components parent)) (components child))) else None)"
  using skipAncestor_print [OF posix_root_cases, of "components parent" "components child" child]
  by (auto simp: DirentSkipAncestor_def DirentCanonicalize_posix sameDirentRoot_def Let_def
      direntRoot_print posix_root_cases)

section \<open>Properties\<close>

text \<open>C18: on POSIX systems (\<open>windows = False\<close>), a relative path that \<open>DirentIsUnderRoot\<close> accepts names
  a place below its base, reached from the base without any parent step, whatever \<open>..\<close> the relative
  path contained. On Windows this fails, as \<open>drive_part_escapes\<close> below shows.\<close>

theorem under_root_contained:
  assumes "DirentIsUnderRoot ul False base relative = Some result"
  shows "DirentIsAncestor ul False base result \<and>
     DirentIsCanonical ul False result \<and>
     ''..'' \<notin> set (drop (length (components base)) (components result))"
proof -
  obtain es where es: "result = print_path (posix_root base) (components base @ es)"
      "wf_components es" "''..'' \<notin> set es"
    using DirentIsUnderRoot_posix [OF assms] by blast
  then have "components result = components base @ es" "posix_root result = posix_root base"
    using posix_root_cases by (simp_all add: posix_root_print)
  with es show ?thesis
    using DirentCanonicalize_print [OF posix_root_cases]
    by (simp add: DirentIsAncestor_def DirentSkipAncestor_posix DirentIsCanonical_def)
qed

theorem under_root_contained_witness:
  "DirentIsUnderRoot id False ''/home/u'' ''a/../b//c'' = Some ''/home/u/b/c'' \<and>
   DirentIsAncestor id False ''/home/u'' ''/home/u/b/c'' \<and>
   DirentIsUnderRoot id False ''/home/u'' ''a/../../x'' = None"
proof -
  have u: "DirentIsUnderRoot id False ''/home/u'' ''a/../b//c'' = Some ''/home/u/b/c''" by code_simp
  moreover have "DirentIsUnderRoot id False ''/home/u'' ''a/../../x'' = None" by code_simp
  ultimately show ?thesis using under_root_contained [OF u] by blast
qed

text \<open>
  The restriction to POSIX is needed: on Windows a part \<open>D:foo\<close> is not absolute, since no slash
  follows the drive, and \<open>DirentJoin\<close> lets a part with a drive replace the base it is joined to.
  Such a part is accepted and names a place on another drive.
\<close>

lemma drive_part_escapes:
  "DirentIsUnderRoot id True ''C:/base'' ''D:foo'' = Some ''D:foo'' \<and>
   \<not> DirentIsAncestor id True ''C:/base'' ''D:foo''"
  by code_simp

end
