(* ===== verification/Props_Subst.thy ===== *)
theory Props_Subst
  imports Go_Text Go_Maps Svn_Dirent
begin

text \<open>
  Keyword and line-ending translation of file contents (\<^verbatim>\<open>props/subst.go\<close>): a machine that is fed one
  byte after the other. The writer takes whatever it is given; what \<open>consume\<close> writes is the output
  component of the state. The two formats of a date are parameters of the keyword context, the
  operating system is the parameter \<open>windows\<close>.
\<close>

datatype subst_error = InconsistentEol | UnknownEol string | BadSpecial

section \<open>Keywords\<close>

record keyword_context =
  kc_author :: string
  kc_basename :: string
  kc_date :: string
  kc_rfc3339 :: string
  kc_path :: string
  kc_revision :: int
  kc_root_url :: string
  kc_url :: string

type_synonym keyword_values = "(string, string) fmap"

definition standard_keywords :: "keyword_context \<Rightarrow> (string \<times> string) list" where
  "standard_keywords kc =
     (let revision = itoa (kc_revision kc) in
      [(''Rev'', revision), (''Revision'', revision), (''LastChangedRevision'', revision),
       (''Date'', kc_date kc), (''LastChangedDate'', kc_date kc),
       (''Author'', kc_author kc), (''LastChangedBy'', kc_author kc),
       (''URL'', kc_url kc), (''HeadURL'', kc_url kc),
       (''Id'', TrimSpace (kc_basename kc @ '' '' @ revision @ '' '' @ kc_date kc @ '' '' @ kc_author kc)),
       (''Header'', TrimSpace (kc_url kc @ '' '' @ revision @ '' '' @ kc_date kc @ '' '' @ kc_author kc))])"

definition format_code :: "keyword_context \<Rightarrow> char \<Rightarrow> string option" where
  "format_code kc code =
     map_of [(CHR ''a'', kc_author kc), (CHR ''b'', kc_basename kc), (CHR ''d'', kc_date kc), (CHR ''D'', kc_rfc3339 kc),
       (CHR ''P'', kc_path kc), (CHR ''r'', itoa (kc_revision kc)), (CHR ''R'', kc_root_url kc), (CHR ''u'', kc_url kc),
       (CHR ''_'', '' ''), (CHR 0x25, [CHR 0x25])] code"

fun expandKeywordFormat :: "string \<Rightarrow> keyword_context \<Rightarrow> string" where
  "expandKeywordFormat [] kc = []"
| "expandKeywordFormat [c] kc = [c]"
| "expandKeywordFormat (c # code # format) kc =
     (if c = CHR 0x25
      then case format_code kc code of
          Some replacement \<Rightarrow> replacement @ expandKeywordFormat format kc
        | None \<Rightarrow> c # expandKeywordFormat (code # format) kc
      else c # expandKeywordFormat (code # format) kc)"

definition add_keyword :: "keyword_context \<Rightarrow> string \<Rightarrow> keyword_values \<Rightarrow> keyword_values" where
  "add_keyword kc spec_field found =
     (case cut CHR ''='' spec_field of (name, format, custom) \<Rightarrow>
      if custom then fmupd name (expandKeywordFormat format kc) found
      else case map_of (standard_keywords kc) name of
          Some v \<Rightarrow> fmupd name v found
        | None \<Rightarrow> found)"

definition ParseKeywords :: "string \<Rightarrow> keyword_context \<Rightarrow> keyword_values" where
  "ParseKeywords spec kc = fold (add_keyword kc) (Fields spec) fmempty"

definition KeywordNames :: "keyword_values \<Rightarrow> string list" where
  "KeywordNames keywords = map fst (sorted_entries keywords)"

text \<open>A candidate starts and ends with a dollar sign.\<close>

definition translateKeyword :: "string \<Rightarrow> keyword_values \<Rightarrow> bool \<Rightarrow> string" where
  "translateKeyword candidate keywords expand =
     (let inside = butlast (tl candidate);
          name = TrimSpace (case IndexByte inside CHR '':'' of Some i \<Rightarrow> take i inside | None \<Rightarrow> inside) in
      case fmlookup keywords name of
        None \<Rightarrow> candidate
      | Some v \<Rightarrow>
          if \<not> expand then ''$'' @ name @ ''$''
          else case Index inside ''::'' of
              Some marker \<Rightarrow>
                let prefix = ''$'' @ name @ ''::'';
                    available = int (length candidate) - int (length prefix) - 1 in
                if available < 0 then candidate
                else
                  let content = take (nat available) ('' '' @ v) in
                  prefix @ content @ replicate (nat available - length content) CHR '' '' @ ''$''
            | None \<Rightarrow> ''$'' @ name @ '': '' @ v @ '' $'')"

section \<open>Line endings\<close>

abbreviation CR :: char where "CR \<equiv> CHR 0x0D"
abbreviation LF :: char where "LF \<equiv> CHR 0x0A"

definition canonicalEOL :: "(string \<Rightarrow> string) \<Rightarrow> bool \<Rightarrow> string \<Rightarrow> subst_error + string option" where
  "canonicalEOL unicode_lower windows style =
     (let s = ToLower unicode_lower (TrimSpace style) in
      if s = [] \<or> s = ''none'' then Inr None
      else if s = ''native'' then Inr (Some (if windows then [CR, LF] else [LF]))
      else if s = ''lf'' then Inr (Some [LF])
      else if s = ''crlf'' then Inr (Some [CR, LF])
      else if s = ''cr'' then Inr (Some [CR])
      else Inl (UnknownEol style))"

section \<open>The machine\<close>

datatype eol_seen = SeenNone | SeenCR | SeenCRLF | SeenLF

record translation_state =
  ts_out :: string
  ts_eol :: "string option"
  ts_keywords :: keyword_values
  ts_expand :: bool
  ts_repair :: bool
  ts_keyword :: string
  ts_in_keyword :: bool
  ts_pending_cr :: bool
  ts_seen :: eol_seen

definition write_out :: "string \<Rightarrow> translation_state \<Rightarrow> translation_state" where
  "write_out data st = st\<lparr>ts_out := ts_out st @ data\<rparr>"

definition emitTextByte :: "char \<Rightarrow> translation_state \<Rightarrow> translation_state" where
  "emitTextByte c st =
     (if \<not> ts_in_keyword st then
        (if c \<noteq> CHR ''$'' then write_out [c] st
         else st\<lparr>ts_in_keyword := True, ts_keyword := [c]\<rparr>)
      else
        let keyword = ts_keyword st @ [c]; idle = st\<lparr>ts_in_keyword := False, ts_keyword := []\<rparr> in
        if c = CHR ''$'' \<and> length keyword > 1 then write_out (translateKeyword keyword (ts_keywords st) (ts_expand st)) idle
        else if length keyword > 255 \<or> c = LF \<or> c = CR then write_out keyword idle
        else st\<lparr>ts_keyword := keyword\<rparr>)"

definition own_eol :: "eol_seen \<Rightarrow> string" where
  "own_eol style = (case style of SeenCR \<Rightarrow> [CR] | SeenCRLF \<Rightarrow> [CR, LF] | _ \<Rightarrow> [LF])"

definition emitEOL :: "eol_seen \<Rightarrow> translation_state \<Rightarrow> subst_error + translation_state" where
  "emitEOL style st =
     (if ts_eol st \<noteq> None \<and> ts_seen st \<noteq> SeenNone \<and> ts_seen st \<noteq> style \<and> \<not> ts_repair st then Inl InconsistentEol
      else
        Inr (fold emitTextByte (case ts_eol st of None \<Rightarrow> own_eol style | Some eol \<Rightarrow> eol) (st\<lparr>ts_seen := style\<rparr>)))"

definition consume_now :: "char \<Rightarrow> translation_state \<Rightarrow> subst_error + translation_state" where
  "consume_now c st =
     (if c = CR then Inr (st\<lparr>ts_pending_cr := True\<rparr>)
      else if c = LF then emitEOL SeenLF st
      else Inr (emitTextByte c st))"

definition consume :: "char \<Rightarrow> translation_state \<Rightarrow> subst_error + translation_state" where
  "consume c st =
     (if ts_pending_cr st then
        let settled = st\<lparr>ts_pending_cr := False\<rparr> in
        if c = LF then emitEOL SeenCRLF settled
        else case emitEOL SeenCR settled of Inl e \<Rightarrow> Inl e | Inr st' \<Rightarrow> consume_now c st'
      else consume_now c st)"

definition close_translation :: "translation_state \<Rightarrow> subst_error + translation_state" where
  "close_translation st =
     (case (if ts_pending_cr st then emitEOL SeenCR st else Inr st) of
        Inl e \<Rightarrow> Inl e
      | Inr st' \<Rightarrow> Inr (if ts_in_keyword st' then write_out (ts_keyword st') st' else st'))"

fun consume_all :: "string \<Rightarrow> translation_state \<Rightarrow> subst_error + translation_state" where
  "consume_all [] st = close_translation st"
| "consume_all (c # input) st = (case consume c st of Inl e \<Rightarrow> Inl e | Inr st' \<Rightarrow> consume_all input st')"

text \<open>What is written; on an error the writer has already been given part of the output.\<close>

definition Translate ::
    "(string \<Rightarrow> string) \<Rightarrow> bool \<Rightarrow> string \<Rightarrow> string \<Rightarrow> keyword_values \<Rightarrow> bool \<Rightarrow> bool \<Rightarrow> subst_error + string" where
  "Translate unicode_lower windows input eol keywords expand repair =
     (case canonicalEOL unicode_lower windows eol of
        Inl e \<Rightarrow> Inl e
      | Inr target \<Rightarrow>
          (case consume_all input
              \<lparr>ts_out = [], ts_eol = target, ts_keywords = keywords, ts_expand = expand, ts_repair = repair,
               ts_keyword = [], ts_in_keyword = False, ts_pending_cr = False, ts_seen = SeenNone\<rparr> of
             Inl e \<Rightarrow> Inl e
           | Inr st \<Rightarrow> Inr (ts_out st)))"

definition DetranslateFile ::
    "(string \<Rightarrow> string) \<Rightarrow> bool \<Rightarrow> string \<Rightarrow> string \<Rightarrow> keyword_values \<Rightarrow> bool \<Rightarrow> subst_error + string" where
  "DetranslateFile unicode_lower windows input eol keywords repair =
     Translate unicode_lower windows input eol keywords False repair"

section \<open>Special files\<close>

definition EncodeSpecial :: "string \<Rightarrow> string" where
  "EncodeSpecial target = ''link '' @ target"

definition DecodeSpecial :: "string \<Rightarrow> subst_error + string" where
  "DecodeSpecial contents = (if HasPrefix contents ''link '' then Inr (drop 5 contents) else Inl BadSpecial)"

section \<open>Two passes\<close>

text \<open>The line ending that replaces one of the given style, and the text with all of them replaced.\<close>

definition eol_text :: "string option \<Rightarrow> eol_seen \<Rightarrow> string" where
  "eol_text target style = (case target of None \<Rightarrow> own_eol style | Some eol \<Rightarrow> eol)"

function (sequential) with_eols :: "string option \<Rightarrow> string \<Rightarrow> string" where
  "with_eols target [] = []"
| "with_eols target (c # s) =
     (if c = CR then
        (case s of
           [] \<Rightarrow> eol_text target SeenCR
         | d # s' \<Rightarrow> if d = LF then eol_text target SeenCRLF @ with_eols target s' else eol_text target SeenCR @ with_eols target (d # s'))
      else if c = LF then eol_text target SeenLF @ with_eols target s
      else c # with_eols target s)"
  by pat_completeness auto
termination by (relation "measure (length \<circ> snd)") auto

text \<open>The styles of the line endings of a text, in order.\<close>

function (sequential) eol_styles :: "string \<Rightarrow> eol_seen list" where
  "eol_styles [] = []"
| "eol_styles (c # s) =
     (if c = CR then
        (case s of
           [] \<Rightarrow> [SeenCR]
         | d # s' \<Rightarrow> if d = LF then SeenCRLF # eol_styles s' else SeenCR # eol_styles (d # s'))
      else if c = LF then SeenLF # eol_styles s
      else eol_styles s)"
  by pat_completeness auto
termination by (relation "measure length") auto

text \<open>Keyword translation of a whole text.\<close>

definition flush_keyword :: "translation_state \<Rightarrow> string" where
  "flush_keyword st = ts_out st @ (if ts_in_keyword st then ts_keyword st else [])"

definition translate_keywords :: "keyword_values \<Rightarrow> bool \<Rightarrow> string \<Rightarrow> string" where
  "translate_keywords keywords expand s =
     flush_keyword (fold emitTextByte s
       \<lparr>ts_out = [], ts_eol = None, ts_keywords = keywords, ts_expand = expand, ts_repair = False,
        ts_keyword = [], ts_in_keyword = False, ts_pending_cr = False, ts_seen = SeenNone\<rparr>)"

text \<open>What a byte of text does depends on the state of the keyword only.\<close>

definition same_keyword :: "translation_state \<Rightarrow> translation_state \<Rightarrow> bool" where
  "same_keyword st st' \<longleftrightarrow>
     ts_out st' = ts_out st \<and> ts_keywords st' = ts_keywords st \<and> ts_expand st' = ts_expand st \<and>
     ts_keyword st' = ts_keyword st \<and> ts_in_keyword st' = ts_in_keyword st"

lemma emit_same: "same_keyword st st' \<Longrightarrow> same_keyword (emitTextByte c st) (emitTextByte c st')"
  by (simp add: same_keyword_def emitTextByte_def write_out_def Let_def)

lemma emits_same: "same_keyword st st' \<Longrightarrow> same_keyword (fold emitTextByte s st) (fold emitTextByte s st')"
  by (induction s arbitrary: st st') (simp_all add: emit_same)

lemma emit_fields [simp]:
  "ts_eol (emitTextByte c st) = ts_eol st" "ts_repair (emitTextByte c st) = ts_repair st"
  "ts_pending_cr (emitTextByte c st) = ts_pending_cr st" "ts_seen (emitTextByte c st) = ts_seen st"
  by (simp_all add: emitTextByte_def write_out_def Let_def)

lemma emits_fields [simp]:
  "ts_eol (fold emitTextByte s st) = ts_eol st" "ts_repair (fold emitTextByte s st) = ts_repair st"
  "ts_pending_cr (fold emitTextByte s st) = ts_pending_cr st" "ts_seen (fold emitTextByte s st) = ts_seen st"
  by (induction s arbitrary: st) simp_all

lemma flush_same: "same_keyword st st' \<Longrightarrow> flush_keyword st' = flush_keyword st"
  by (simp add: same_keyword_def flush_keyword_def)

text \<open>Whether the line endings still to come are accepted.\<close>

definition consistent :: "translation_state \<Rightarrow> eol_seen list \<Rightarrow> bool" where
  "consistent st styles \<longleftrightarrow>
     ts_repair st \<or> ts_eol st = None \<or>
     (if ts_seen st = SeenNone then \<forall>x\<in>set styles. \<forall>y\<in>set styles. x = y else \<forall>x\<in>set styles. x = ts_seen st)"

lemma emitEOL_consistent:
  assumes "style \<noteq> SeenNone"
  shows "emitEOL style st = (if ts_repair st \<or> ts_eol st = None \<or> ts_seen st = SeenNone \<or> ts_seen st = style
     then Inr (fold emitTextByte (eol_text (ts_eol st) style) (st\<lparr>ts_seen := style\<rparr>)) else Inl InconsistentEol)"
    "consistent st (style # styles) \<longleftrightarrow> (ts_repair st \<or> ts_eol st = None \<or> ts_seen st = SeenNone \<or> ts_seen st = style) \<and>
       consistent (st\<lparr>ts_seen := style\<rparr>) styles"
  using assms by (auto simp: emitEOL_def eol_text_def consistent_def) metis

lemma eol_styles_not_none: "SeenNone \<notin> set (eol_styles s)"
  by (induction s rule: eol_styles.induct) (auto split: list.splits)

definition translated :: "translation_state \<Rightarrow> string \<Rightarrow> subst_error + string" where
  "translated st s =
     (if consistent st (eol_styles s) then Inr (flush_keyword (fold emitTextByte (with_eols (ts_eol st) s) st)) else Inl InconsistentEol)"

lemma translated_cong: "same_keyword st st' \<Longrightarrow> ts_eol st' = ts_eol st \<Longrightarrow> ts_repair st' = ts_repair st \<Longrightarrow> ts_seen st' = ts_seen st \<Longrightarrow>
    translated st' s = translated st s"
  using flush_same [OF emits_same] by (simp add: translated_def consistent_def)

lemma translated_eol:
  assumes "style \<noteq> SeenNone"
  shows "(case emitEOL style st of Inl e \<Rightarrow> Inl e | Inr st' \<Rightarrow> translated st' s) =
    (if consistent st (style # eol_styles s)
     then Inr (flush_keyword (fold emitTextByte (eol_text (ts_eol st) style @ with_eols (ts_eol st) s) st)) else Inl InconsistentEol)"
proof -
  have same: "same_keyword (fold emitTextByte x st) (fold emitTextByte x (st\<lparr>ts_seen := style\<rparr>))" for x
    by (rule emits_same) (simp add: same_keyword_def)
  have "flush_keyword (fold emitTextByte y (fold emitTextByte x (st\<lparr>ts_seen := style\<rparr>))) = flush_keyword (fold emitTextByte y (fold emitTextByte x st))" for x y
    by (rule flush_same, rule emits_same, rule same)
  moreover have "consistent (fold emitTextByte x (st\<lparr>ts_seen := style\<rparr>)) styles = consistent (st\<lparr>ts_seen := style\<rparr>) styles" for x styles
    by (simp add: consistent_def)
  ultimately show ?thesis unfolding emitEOL_consistent(1) [OF assms] emitEOL_consistent(2) [OF assms]
    by (simp add: translated_def)
qed

definition run_out :: "subst_error + translation_state \<Rightarrow> subst_error + string" where
  "run_out r = (case r of Inl e \<Rightarrow> Inl e | Inr st \<Rightarrow> Inr (ts_out st))"

lemma consume_all_translated:
  "run_out (consume_all s st) = translated st (if ts_pending_cr st then CR # s else s)"
proof (induction s arbitrary: st)
  case Nil
  have n: "consistent st []" by (simp add: consistent_def)
  show ?case
  proof (cases "ts_pending_cr st")
    case True
    have "run_out (close_translation st) = (case emitEOL SeenCR st of Inl e \<Rightarrow> Inl e | Inr st' \<Rightarrow> translated st' [])"
      using True by (auto simp: close_translation_def run_out_def translated_def flush_keyword_def write_out_def consistent_def split: sum.split)
    then show ?thesis using True by (simp add: translated_eol translated_def)
  next
    case False
    then show ?thesis using n by (simp add: close_translation_def run_out_def translated_def flush_keyword_def write_out_def)
  qed
next
  case (Cons c s)
  have now: "run_out (case consume_now c st of Inl e \<Rightarrow> Inl e | Inr st' \<Rightarrow> consume_all s st') = translated st (c # s)" if "\<not> ts_pending_cr st" for st
  proof -
    consider "c = CR" | "c = LF" | "c \<noteq> CR" "c \<noteq> LF" by blast
    then show ?thesis
    proof cases
      case 1
      then show ?thesis using Cons.IH [of "st\<lparr>ts_pending_cr := True\<rparr>"] translated_cong [of st "st\<lparr>ts_pending_cr := True\<rparr>"]
        by (simp add: consume_now_def same_keyword_def)
    next
      case 2
      have "run_out (case emitEOL SeenLF st of Inl e \<Rightarrow> Inl e | Inr st' \<Rightarrow> consume_all s st') =
          (case emitEOL SeenLF st of Inl e \<Rightarrow> Inl e | Inr st' \<Rightarrow> translated st' s)"
        using Cons.IH that by (auto simp: emitEOL_def run_out_def)
      then show ?thesis using 2 by (simp add: consume_now_def translated_eol) (simp add: translated_def)
    next
      case 3
      have "consistent (emitTextByte c st) = consistent st" by (simp add: consistent_def fun_eq_iff)
      then show ?thesis using 3 Cons.IH [of "emitTextByte c st"] that by (simp add: consume_now_def translated_def)
    qed
  qed
  show ?case
  proof (cases "ts_pending_cr st")
    case False
    then show ?thesis using now [OF False] by (simp add: consume_def)
  next
    case True
    let ?st = "st\<lparr>ts_pending_cr := False\<rparr>"
    have cong: "translated ?st x = translated st x" for x by (rule translated_cong) (simp_all add: same_keyword_def)
    show ?thesis
    proof (cases "c = LF")
      case True
      have "run_out (case emitEOL SeenCRLF ?st of Inl e \<Rightarrow> Inl e | Inr st' \<Rightarrow> consume_all s st') =
          (case emitEOL SeenCRLF ?st of Inl e \<Rightarrow> Inl e | Inr st' \<Rightarrow> translated st' s)"
        using Cons.IH by (auto simp: emitEOL_def run_out_def)
      then have "run_out (consume_all (c # s) st) = translated ?st (CR # c # s)"
        using True \<open>ts_pending_cr st\<close> by (simp add: consume_def Let_def translated_eol) (simp add: translated_def)
      then show ?thesis using \<open>ts_pending_cr st\<close> cong by simp
    next
      case False
      have "run_out (case (case emitEOL SeenCR ?st of Inl e \<Rightarrow> Inl e | Inr st' \<Rightarrow> consume_now c st') of Inl e \<Rightarrow> Inl e | Inr st' \<Rightarrow> consume_all s st') =
          (case emitEOL SeenCR ?st of Inl e \<Rightarrow> Inl e | Inr st' \<Rightarrow> translated st' (c # s))"
        using now by (auto simp: emitEOL_def run_out_def)
      then have "run_out (consume_all (c # s) st) = translated ?st (CR # c # s)"
        using False \<open>ts_pending_cr st\<close> by (simp add: consume_def Let_def translated_eol) (simp add: translated_def)
      then show ?thesis using \<open>ts_pending_cr st\<close> cong by simp
    qed
  qed
qed

section \<open>Line endings\<close>

lemma Translate_passes:
  "Translate unicode_lower windows input eol keywords expand repair =
     (case canonicalEOL unicode_lower windows eol of
        Inl e \<Rightarrow> Inl e
      | Inr target \<Rightarrow>
          if repair \<or> target = None \<or> (\<forall>x\<in>set (eol_styles input). \<forall>y\<in>set (eol_styles input). x = y)
          then Inr (translate_keywords keywords expand (with_eols target input)) else Inl InconsistentEol)"
proof (cases "canonicalEOL unicode_lower windows eol")
  case (Inr target)
  let ?st = "\<lparr>ts_out = [], ts_eol = target, ts_keywords = keywords, ts_expand = expand, ts_repair = repair,
               ts_keyword = [], ts_in_keyword = False, ts_pending_cr = False, ts_seen = SeenNone\<rparr>"
  have "Translate unicode_lower windows input eol keywords expand repair = run_out (consume_all input ?st)"
    by (simp add: Translate_def Inr run_out_def)
  also have "\<dots> = translated ?st input" by (simp add: consume_all_translated)
  also have "flush_keyword (fold emitTextByte s ?st) = translate_keywords keywords expand s" for s
    unfolding translate_keywords_def by (rule flush_same, rule emits_same) (simp add: same_keyword_def)
  then have "translated ?st input = (if repair \<or> target = None \<or> (\<forall>x\<in>set (eol_styles input). \<forall>y\<in>set (eol_styles input). x = y)
          then Inr (translate_keywords keywords expand (with_eols target input)) else Inl InconsistentEol)"
    by (simp add: translated_def consistent_def)
  finally show ?thesis by (simp add: Inr)
qed (simp add: Translate_def)

text \<open>Without keywords the keyword pass changes nothing.\<close>

lemma emit_no_keywords:
  assumes "ts_keywords st = fmempty"
  shows "flush_keyword (emitTextByte c st) = flush_keyword st @ [c]" "ts_keywords (emitTextByte c st) = fmempty"
  using assms by (auto simp: emitTextByte_def flush_keyword_def write_out_def translateKeyword_def Let_def)

lemma translate_no_keywords: "translate_keywords fmempty expand s = s"
proof -
  have "ts_keywords st = fmempty \<Longrightarrow> flush_keyword (fold emitTextByte s st) = flush_keyword st @ s" for st
    by (induction s arbitrary: st) (simp_all add: emit_no_keywords)
  then show ?thesis by (simp add: translate_keywords_def flush_keyword_def)
qed

text \<open>The lines of a text, whatever ends them.\<close>

function (sequential) text_lines :: "string \<Rightarrow> string list" where
  "text_lines [] = [[]]"
| "text_lines (c # s) =
     (if c = CR then
        (case s of
           [] \<Rightarrow> [[], []]
         | d # s' \<Rightarrow> if d = LF then [] # text_lines s' else [] # text_lines (d # s'))
      else if c = LF then [] # text_lines s
      else (case text_lines s of [] \<Rightarrow> [[c]] | l # ls \<Rightarrow> (c # l) # ls))"
  by pat_completeness auto
termination by (relation "measure length") auto

declare text_lines.simps [simp del] with_eols.simps [simp del]

lemma text_lines_simps [simp]:
  "text_lines [] = [[]]" "text_lines [CR] = [[], []]" "text_lines (CR # LF # s) = [] # text_lines s" "text_lines (LF # s) = [] # text_lines s"
  "d \<noteq> LF \<Longrightarrow> text_lines (CR # d # s) = [] # text_lines (d # s)"
  "c \<noteq> CR \<Longrightarrow> c \<noteq> LF \<Longrightarrow> text_lines (c # s) = (case text_lines s of [] \<Rightarrow> [[c]] | l # ls \<Rightarrow> (c # l) # ls)"
  by (simp_all add: text_lines.simps)

lemma with_eols_simps [simp]:
  "with_eols target [] = []" "with_eols target [CR] = eol_text target SeenCR"
  "with_eols target (CR # LF # s) = eol_text target SeenCRLF @ with_eols target s"
  "with_eols target (LF # s) = eol_text target SeenLF @ with_eols target s"
  "d \<noteq> LF \<Longrightarrow> with_eols target (CR # d # s) = eol_text target SeenCR @ with_eols target (d # s)"
  "c \<noteq> CR \<Longrightarrow> c \<noteq> LF \<Longrightarrow> with_eols target (c # s) = c # with_eols target s"
  by (simp_all add: with_eols.simps)

lemma text_induct [case_names Nil end_cr crlf lf cr char]:
  assumes "P []" "P [CR]" "\<And>s. P s \<Longrightarrow> P (CR # LF # s)" "\<And>s. P s \<Longrightarrow> P (LF # s)"
    "\<And>d s. d \<noteq> LF \<Longrightarrow> P (d # s) \<Longrightarrow> P (CR # d # s)" "\<And>c s. c \<noteq> CR \<Longrightarrow> c \<noteq> LF \<Longrightarrow> P s \<Longrightarrow> P (c # s)"
  shows "P s"
proof (induction s rule: length_induct)
  case (1 s)
  show ?case
  proof (cases s)
    case (Cons c s')
    show ?thesis
    proof (cases "c = CR")
      case True
      then show ?thesis using 1 Cons assms(2,3,5) by (cases s') (auto, metis length_Cons lessI less_Suc_eq)
    next
      case False
      then show ?thesis using 1 Cons assms(4,6) by (cases "c = LF") auto
    qed
  qed (use assms(1) in simp)
qed

definition line_text :: "string \<Rightarrow> bool" where "line_text l \<longleftrightarrow> CR \<notin> set l \<and> LF \<notin> set l"

lemma text_lines_not_empty [simp]: "text_lines s \<noteq> []"
  by (induction s rule: text_induct) (auto split: list.splits)

lemma text_lines_text: "list_all line_text (text_lines s)"
  by (induction s rule: text_induct) (auto simp: line_text_def split: list.splits)

lemma with_eols_join: "with_eols (Some e) s = join e (text_lines s)"
proof (induction s rule: text_induct)
  case (char c s)
  obtain l ls where "text_lines s = l # ls" using text_lines_not_empty by (metis list.exhaust)
  then show ?case using char by (cases ls) (simp_all add: join_Cons)
qed (simp_all add: eol_text_def join_Cons)

definition eol_ok :: "string \<Rightarrow> bool" where "eol_ok e \<longleftrightarrow> e = [CR] \<or> e = [LF] \<or> e = [CR, LF]"

text \<open>Joined lines are the lines again.\<close>

lemma text_lines_line: "line_text l \<Longrightarrow> s = [] \<or> eol_ok e \<and> s = e @ s' \<Longrightarrow> text_lines (l @ s) = (case text_lines s of [] \<Rightarrow> [] | x # xs \<Rightarrow> (l @ x) # xs)"
  by (induction l) (auto simp: line_text_def split: list.splits)

lemma text_lines_eol: "eol_ok e \<Longrightarrow> s = [] \<or> hd s \<noteq> LF \<or> e \<noteq> [CR] \<Longrightarrow> text_lines (e @ s) = [] # text_lines s"
  by (cases s) (auto simp: eol_ok_def)

lemma hd_join: "list_all line_text ls \<Longrightarrow> eol_ok e \<Longrightarrow> e = [CR] \<Longrightarrow> join e ls = [] \<or> hd (join e ls) \<noteq> LF"
proof (induction ls)
  case (Cons l ls)
  then show ?case by (cases l; cases ls) (auto simp: line_text_def join_Cons)
qed simp

lemma text_lines_join: "list_all line_text ls \<Longrightarrow> ls \<noteq> [] \<Longrightarrow> eol_ok e \<Longrightarrow> text_lines (join e ls) = ls"
proof (induction ls)
  case (Cons l ls)
  show ?case
  proof (cases "ls = []")
    case True
    then show ?thesis using Cons.prems text_lines_line [of l "[]"] by (simp add: join_Cons)
  next
    case False
    have "text_lines (e @ join e ls) = [] # ls"
      using text_lines_eol [OF Cons.prems(3), of "join e ls"] hd_join [of ls e] Cons False by auto
    then show ?thesis using text_lines_line [of l "e @ join e ls" e "join e ls"] Cons.prems False by (simp add: join_Cons)
  qed
qed simp

lemma with_eols_twice: "eol_ok e \<Longrightarrow> with_eols (Some e') (with_eols (Some e) s) = with_eols (Some e') s"
  using text_lines_text by (simp add: with_eols_join text_lines_join)

lemma canonicalEOL_ok: "canonicalEOL unicode_lower windows eol = Inr (Some e) \<Longrightarrow> eol_ok e"
  by (auto simp: canonicalEOL_def eol_ok_def Let_def split: if_splits)

lemma with_eols_None: "with_eols None s = s"
  by (induction s rule: text_induct) (simp_all add: eol_text_def own_eol_def)

text \<open>The styles of the line endings of joined lines.\<close>

declare eol_styles.simps [simp del]

lemma eol_styles_simps [simp]:
  "eol_styles [] = []" "eol_styles [CR] = [SeenCR]" "eol_styles (CR # LF # s) = SeenCRLF # eol_styles s" "eol_styles (LF # s) = SeenLF # eol_styles s"
  "d \<noteq> LF \<Longrightarrow> eol_styles (CR # d # s) = SeenCR # eol_styles (d # s)"
  "c \<noteq> CR \<Longrightarrow> c \<noteq> LF \<Longrightarrow> eol_styles (c # s) = eol_styles s"
  by (simp_all add: eol_styles.simps)

lemma eol_styles_line: "line_text l \<Longrightarrow> eol_styles (l @ s) = eol_styles s"
  by (induction l) (auto simp: line_text_def)

lemma eol_styles_eol: "eol_ok e \<Longrightarrow> s = [] \<or> hd s \<noteq> LF \<or> e \<noteq> [CR] \<Longrightarrow>
    eol_styles (e @ s) = (if e = [CR] then SeenCR else if e = [LF] then SeenLF else SeenCRLF) # eol_styles s"
  by (cases s) (auto simp: eol_ok_def)

lemma eol_styles_join: "list_all line_text ls \<Longrightarrow> eol_ok e \<Longrightarrow>
    set (eol_styles (join e ls)) \<subseteq> {if e = [CR] then SeenCR else if e = [LF] then SeenLF else SeenCRLF}"
proof (induction ls)
  case (Cons l ls)
  show ?case
  proof (cases "ls = []")
    case True
    then show ?thesis using Cons.prems eol_styles_line [of l "[]"] by (simp add: join_Cons)
  next
    case False
    have "join e ls = [] \<or> hd (join e ls) \<noteq> LF \<or> e \<noteq> [CR]" using hd_join [of ls e] Cons.prems by auto
    then show ?thesis using eol_styles_eol [OF Cons.prems(2), of "join e ls"] Cons False eol_styles_line [of l "e @ join e ls"]
      by (simp add: join_Cons)
  qed
qed simp

section \<open>Keywords in a text\<close>

text \<open>A text as pieces without dollar signs and keywords.\<close>

datatype text_piece = PlainPart string | KeywordPart string

definition keyword_value :: "keyword_values \<Rightarrow> string \<Rightarrow> string" where
  "keyword_value keywords name = (case fmlookup keywords name of None \<Rightarrow> [] | Some v \<Rightarrow> v)"

fun contracted :: "text_piece \<Rightarrow> string" where
  "contracted (PlainPart t) = t"
| "contracted (KeywordPart name) = ''$'' @ name @ ''$''"

fun expanded :: "keyword_values \<Rightarrow> text_piece \<Rightarrow> string" where
  "expanded keywords (PlainPart t) = t"
| "expanded keywords (KeywordPart name) = ''$'' @ name @ '': '' @ keyword_value keywords name @ '' $''"

definition keyword_text :: "string \<Rightarrow> bool" where
  "keyword_text s \<longleftrightarrow> CHR ''$'' \<notin> set s \<and> CR \<notin> set s \<and> LF \<notin> set s"

fun piece_ok :: "keyword_values \<Rightarrow> text_piece \<Rightarrow> bool" where
  "piece_ok keywords (PlainPart t) \<longleftrightarrow> CHR ''$'' \<notin> set t"
| "piece_ok keywords (KeywordPart name) \<longleftrightarrow>
     TrimSpace name = name \<and> CHR '':'' \<notin> set name \<and> fmlookup keywords name \<noteq> None \<and>
     keyword_text name \<and> keyword_text (keyword_value keywords name) \<and> length name + length (keyword_value keywords name) \<le> 251"

definition idle :: "translation_state \<Rightarrow> bool" where
  "idle st \<longleftrightarrow> \<not> ts_in_keyword st \<and> ts_keyword st = []"

lemma emit_plain: "idle st \<Longrightarrow> CHR ''$'' \<notin> set t \<Longrightarrow> fold emitTextByte t st = write_out t st"
proof (induction t arbitrary: st)
  case (Cons c t)
  then have "emitTextByte c st = write_out [c] st" "idle (write_out [c] st)" by (auto simp: idle_def emitTextByte_def write_out_def)
  then show ?case using Cons by (simp add: write_out_def)
qed (simp add: write_out_def)

lemma emit_inside:
  "ts_in_keyword st \<Longrightarrow> keyword_text t \<Longrightarrow> ts_keyword st \<noteq> [] \<Longrightarrow> length (ts_keyword st) + length t \<le> 255 \<Longrightarrow>
     fold emitTextByte t st = st\<lparr>ts_keyword := ts_keyword st @ t\<rparr>"
proof (induction t arbitrary: st)
  case (Cons c t)
  then have "emitTextByte c st = st\<lparr>ts_keyword := ts_keyword st @ [c]\<rparr>" by (auto simp: emitTextByte_def keyword_text_def Let_def)
  then show ?case using Cons by (simp add: keyword_text_def)
qed simp

lemma emit_candidate:
  assumes "idle st" "keyword_text t" "length t \<le> 254"
  shows "fold emitTextByte (''$'' @ t @ ''$'') st = write_out (translateKeyword (''$'' @ t @ ''$'') (ts_keywords st) (ts_expand st)) st"
proof -
  let ?st = "st\<lparr>ts_in_keyword := True, ts_keyword := ''$''\<rparr>"
  have "emitTextByte CHR ''$'' st = ?st" using assms(1) by (simp add: idle_def emitTextByte_def)
  moreover have "fold emitTextByte t ?st = ?st\<lparr>ts_keyword := ''$'' @ t\<rparr>" using emit_inside [of ?st t] assms(2,3) by simp
  ultimately show ?thesis using assms(1) by (simp add: emitTextByte_def Let_def write_out_def idle_def)
qed

lemma Index_no_char: "c \<notin> set s \<Longrightarrow> p \<noteq> [] \<Longrightarrow> hd p = c \<Longrightarrow> Index s p = None"
  by (induction s) (auto simp: HasPrefix_def split: option.splits list.splits, (metis list.sel(1) take_eq_Nil2 hd_take length_greater_0_conv)?)

lemma translate_name:
  assumes "piece_ok keywords (KeywordPart name)"
  shows "translateKeyword (''$'' @ name @ ''$'') keywords True = expanded keywords (KeywordPart name)"
    "translateKeyword (''$'' @ (name @ '': '' @ v @ '' '') @ ''$'') keywords False = contracted (KeywordPart name)"
proof -
  obtain w where w: "fmlookup keywords name = Some w" using assms by auto
  have trim: "TrimSpace name = name" using assms by simp
  have none: "Index name ''::'' = None" by (rule Index_no_char [where c = "CHR '':''"]) (use assms in simp_all)
  have inside: "butlast (tl (''$'' @ s @ ''$'')) = s" for s by simp
  show "translateKeyword (''$'' @ name @ ''$'') keywords True = expanded keywords (KeywordPart name)"
    unfolding translateKeyword_def inside using assms w by (simp add: Let_def IndexByte_none trim none keyword_value_def)
  show "translateKeyword (''$'' @ (name @ '': '' @ v @ '' '') @ ''$'') keywords False = contracted (KeywordPart name)"
    unfolding translateKeyword_def inside using assms w by (simp add: Let_def IndexByte_first trim)
qed

lemma idle_write: "idle (write_out data st) = idle st" "ts_keywords (write_out data st) = ts_keywords st" "ts_expand (write_out data st) = ts_expand st"
  "write_out a (write_out b st) = write_out (b @ a) st"
  by (simp_all add: idle_def write_out_def)

lemma emit_contracted:
  assumes "idle st" "piece_ok (ts_keywords st) piece" "ts_expand st"
  shows "fold emitTextByte (contracted piece) st = write_out (expanded (ts_keywords st) piece) st"
proof (cases piece)
  case (KeywordPart name)
  have "fold emitTextByte (''$'' @ name @ ''$'') st = write_out (translateKeyword (''$'' @ name @ ''$'') (ts_keywords st) (ts_expand st)) st"
    by (rule emit_candidate) (use assms KeywordPart in simp_all)
  then show ?thesis using translate_name(1) [of "ts_keywords st" name] assms(2,3) by (simp only: KeywordPart contracted.simps)
qed (use assms emit_plain in simp)

lemma emit_expanded:
  assumes "idle st" "piece_ok (ts_keywords st) piece" "\<not> ts_expand st"
  shows "fold emitTextByte (expanded (ts_keywords st) piece) st = write_out (contracted piece) st"
proof (cases piece)
  case (KeywordPart name)
  let ?inside = "name @ '': '' @ keyword_value (ts_keywords st) name @ '' ''"
  have "fold emitTextByte (''$'' @ ?inside @ ''$'') st = write_out (translateKeyword (''$'' @ ?inside @ ''$'') (ts_keywords st) (ts_expand st)) st"
    by (rule emit_candidate) (use assms KeywordPart in \<open>simp_all add: keyword_text_def\<close>)
  moreover have "expanded (ts_keywords st) (KeywordPart name) = ''$'' @ ?inside @ ''$''" by simp
  ultimately show ?thesis using translate_name(2) [of "ts_keywords st" name] assms(2,3) by (simp only: KeywordPart)
qed (use assms emit_plain in simp)

lemma emit_pieces:
  assumes "\<And>piece st. idle st \<Longrightarrow> ts_keywords st = kws \<Longrightarrow> ts_expand st = expand \<Longrightarrow> piece_ok kws piece \<Longrightarrow>
     fold emitTextByte (before piece) st = write_out (after piece) st"
  shows "idle st \<Longrightarrow> ts_keywords st = kws \<Longrightarrow> ts_expand st = expand \<Longrightarrow> list_all (piece_ok kws) pieces \<Longrightarrow>
     fold emitTextByte (concat (map before pieces)) st = write_out (concat (map after pieces)) st"
proof (induction pieces arbitrary: st)
  case (Cons piece pieces)
  then show ?case using assms [of st piece] by (simp add: idle_write)
qed (simp add: write_out_def)

lemma translate_pieces:
  assumes "list_all (piece_ok keywords) pieces"
  shows "translate_keywords keywords True (concat (map contracted pieces)) = concat (map (expanded keywords) pieces)"
    "translate_keywords keywords False (concat (map (expanded keywords) pieces)) = concat (map contracted pieces)"
proof -
  let ?st = "\<lambda>expand. \<lparr>ts_out = [], ts_eol = None, ts_keywords = keywords, ts_expand = expand, ts_repair = False,
        ts_keyword = [], ts_in_keyword = False, ts_pending_cr = False, ts_seen = SeenNone\<rparr>"
  have i: "idle (?st expand)" for expand by (simp add: idle_def)
  have "fold emitTextByte (concat (map contracted pieces)) (?st True) = write_out (concat (map (expanded keywords) pieces)) (?st True)"
    by (rule emit_pieces [where kws = "keywords" and expand = True]) (use i emit_contracted assms in auto)
  moreover have "fold emitTextByte (concat (map (expanded keywords) pieces)) (?st False) = write_out (concat (map contracted pieces)) (?st False)"
    by (rule emit_pieces [where kws = "keywords" and expand = False]) (use i emit_expanded assms in auto)
  ultimately show "translate_keywords keywords True (concat (map contracted pieces)) = concat (map (expanded keywords) pieces)"
    "translate_keywords keywords False (concat (map (expanded keywords) pieces)) = concat (map contracted pieces)"
    by (simp_all add: translate_keywords_def flush_keyword_def write_out_def)
qed

text \<open>A file whose contents are free of stray dollar signs, with keywords in their short form, has its keywords expanded by \<open>Translate\<close> and
  contracted again by \<open>DetranslateFile\<close>, as long as a keyword and its value are together at most 251 bytes long.\<close>

theorem keywords_roundtrip:
  assumes "canonicalEOL unicode_lower windows eol = Inr None" "list_all (piece_ok keywords) pieces"
  shows "Translate unicode_lower windows (concat (map contracted pieces)) eol keywords True repair = Inr (concat (map (expanded keywords) pieces))"
    and "DetranslateFile unicode_lower windows (concat (map (expanded keywords) pieces)) eol keywords repair = Inr (concat (map contracted pieces))"
  using assms translate_pieces [OF assms(2)] by (simp_all add: DetranslateFile_def Translate_passes with_eols_None)

theorem keywords_roundtrip_witness:
  "Translate id False ''a$Rev$b'' [] (fmupd ''Rev'' ''7'' fmempty) True False = Inr ''a$Rev: 7 $b'' \<and>
   DetranslateFile id False ''a$Rev: 7 $b'' [] (fmupd ''Rev'' ''7'' fmempty) False = Inr ''a$Rev$b''"
proof -
  have "canonicalEOL id False [] = Inr None" by code_simp
  moreover have "TrimSpace ''Rev'' = ''Rev''" by code_simp
  then have "list_all (piece_ok (fmupd ''Rev'' ''7'' fmempty)) [PlainPart ''a'', KeywordPart ''Rev'', PlainPart ''b'']"
    by (simp add: keyword_text_def keyword_value_def)
  ultimately show ?thesis
    using keywords_roundtrip [of id False "[]" "fmupd ''Rev'' ''7'' fmempty" "[PlainPart ''a'', KeywordPart ''Rev'', PlainPart ''b'']" False]
    by (simp add: keyword_value_def)
qed

text \<open>Translating line endings to a style keeps the lines, whatever ended them, mixed endings are refused unless they are to be
  repaired, and a file translated to one style is translated to another one as the original is.\<close>

theorem line_endings_translated:
  assumes "canonicalEOL unicode_lower windows eol = Inr (Some e)" "canonicalEOL unicode_lower windows eol' = Inr (Some e')"
  shows "Translate unicode_lower windows input eol fmempty expand repair =
      (if repair \<or> (\<forall>x\<in>set (eol_styles input). \<forall>y\<in>set (eol_styles input). x = y) then Inr (join e (text_lines input)) else Inl InconsistentEol)"
    and "Translate unicode_lower windows (join e (text_lines input)) eol' fmempty expand repair = Inr (join e' (text_lines input))"
proof -
  show "Translate unicode_lower windows input eol fmempty expand repair =
      (if repair \<or> (\<forall>x\<in>set (eol_styles input). \<forall>y\<in>set (eol_styles input). x = y) then Inr (join e (text_lines input)) else Inl InconsistentEol)"
    by (simp add: Translate_passes assms translate_no_keywords with_eols_join)
  note ok = canonicalEOL_ok [OF assms(1)]
  have "\<forall>x\<in>set (eol_styles (join e (text_lines input))). \<forall>y\<in>set (eol_styles (join e (text_lines input))). x = y"
    using eol_styles_join [OF text_lines_text ok, of input] by blast
  moreover have "with_eols (Some e') (join e (text_lines input)) = join e' (text_lines input)"
    using with_eols_twice [OF ok, of e' input] by (simp add: with_eols_join)
  ultimately show "Translate unicode_lower windows (join e (text_lines input)) eol' fmempty expand repair = Inr (join e' (text_lines input))"
    by (simp add: Translate_passes assms(2) translate_no_keywords)
qed

theorem line_endings_translated_witness:
  "Translate id False (''a'' @ [CR, LF] @ ''b'' @ [LF]) ''CRLF'' fmempty False True = Inr (''a'' @ [CR, LF] @ ''b'' @ [CR, LF]) \<and>
   Translate id False (''a'' @ [CR, LF] @ ''b'' @ [LF]) ''CRLF'' fmempty False False = Inl InconsistentEol"
proof -
  have "canonicalEOL id False ''CRLF'' = Inr (Some [CR, LF])" by code_simp
  note t = line_endings_translated(1) [OF this this, of "''a'' @ [CR, LF] @ ''b'' @ [LF]"]
  show ?thesis unfolding t by simp
qed

end
