(* ===== verification/Fsfs_Base.thy ===== *)
theory Fsfs_Base
  imports Go_Text Go_Maps Svn_Kind
begin

text \<open>
  What the parts of the file system back end (\<^verbatim>\<open>fs/fsfs\<close>) share: its errors and the step from
  bytes to text. An error that another package returns is \<open>Elsewhere\<close> with the name of the call.
\<close>

datatype fs_error =
    Corrupt string
  | GeneralError string
  | NoSuchRevision int
  | NotFound string
  | NotDirectory string
  | NotFile string
  | AlreadyExists string
  | PathSyntax string
  | IncorrectParams string
  | ConflictAt string
  | BadChecksum
  | BadLockToken string
  | TokenTooLong
  | Elsewhere string
  | Panics
  | NeverReturns

section \<open>Results\<close>

definition and_then :: "'e + 'a \<Rightarrow> ('a \<Rightarrow> 'e + 'b) \<Rightarrow> 'e + 'b" where
  "and_then r f = (case r of Inl e \<Rightarrow> Inl e | Inr x \<Rightarrow> f x)"

definition ok_or :: "'e \<Rightarrow> 'a option \<Rightarrow> 'e + 'a" where
  "ok_or e v = (case v of None \<Rightarrow> Inl e | Some x \<Rightarrow> Inr x)"

lemma and_then_simps [simp]: "and_then (Inl e) f = Inl e" "and_then (Inr x) f = f x"
  by (simp_all add: and_then_def)

lemma ok_or_simps [simp]: "ok_or e None = Inl e" "ok_or e (Some x) = Inr x"
  by (simp_all add: ok_or_def)

lemma and_then_Inr: "and_then r f = Inr y \<longleftrightarrow> (\<exists>x. r = Inr x \<and> f x = Inr y)"
  by (auto simp: and_then_def split: sum.split)

lemma ok_or_Inr: "ok_or e v = Inr x \<longleftrightarrow> v = Some x"
  by (auto simp: ok_or_def split: option.split)

section \<open>Bytes and text\<close>

definition text_of_bytes :: "bytes \<Rightarrow> string" where
  "text_of_bytes bs = map (\<lambda>b. char_of (unat b)) bs"

definition bytes_of_text :: "string \<Rightarrow> bytes" where
  "bytes_of_text s = map (\<lambda>c. of_nat (of_char c)) s"

lemma text_of_bytes_simps [simp]:
  "text_of_bytes [] = []" "text_of_bytes (b # bs) = char_of (unat b) # text_of_bytes bs"
  "text_of_bytes (bs @ cs) = text_of_bytes bs @ text_of_bytes cs" "length (text_of_bytes bs) = length bs"
  by (simp_all add: text_of_bytes_def)

lemma bytes_of_text_simps [simp]:
  "bytes_of_text [] = []" "bytes_of_text (c # s) = of_nat (of_char c) # bytes_of_text s"
  "bytes_of_text (s @ t) = bytes_of_text s @ bytes_of_text t" "length (bytes_of_text s) = length s"
  by (simp_all add: bytes_of_text_def)

lemma unat_of_char [simp]: "unat (of_nat (of_char c) :: byte) = of_char c"
  by (simp add: unat_of_nat)

lemma text_of_bytes_of_text [simp]: "text_of_bytes (bytes_of_text s) = s"
  by (induction s) (simp_all add: unat_of_char)

lemma bytes_of_text_of_bytes [simp]: "bytes_of_text (text_of_bytes bs) = bs"
proof (induction bs)
  case (Cons b bs)
  have "unat b < 256" using unsigned_less [of b] by simp
  with Cons show ?case by simp
qed simp

text \<open>\<^verbatim>\<open>strings.EqualFold\<close> on hexadecimal digits.\<close>

definition hex_lower :: "char \<Rightarrow> char" where
  "hex_lower c = (if CHR ''A'' \<le> c \<and> c \<le> CHR ''F'' then char_of ((of_char c :: nat) + 32) else c)"

definition equal_hex :: "string \<Rightarrow> string \<Rightarrow> bool" where
  "equal_hex a b \<longleftrightarrow> map hex_lower a = map hex_lower b"

end
