(* ===== verification/Fsfs_Index.thy ===== *)
theory Fsfs_Index
  imports Fsfs_Base Svn_Checksum Delta_Varint
begin

text \<open>
  Revision files with logical addressing: what \<^verbatim>\<open>fs/fsfs/commit.go\<close> writes and \<^verbatim>\<open>fs/fsfs/revfile.go\<close>
  reads. A file is its data, the index from items to offsets (L2P), the index from offsets to items
  (P2L), and a footer with the places and MD5 digests of the indexes. Integers of an index are
  variable-length, least significant digit first. A file is a list of bytes, a reader is the list of
  bytes it has left. Values are naturals and integers: each sum the code forms is behind a check that
  it fits in 64 bits. MD5 is a parameter.
\<close>

section \<open>Integers of an index\<close>

lemma drop_bit_7_smaller: "\<not> v < (0x80 :: u64) \<Longrightarrow> unat (drop_bit 7 v) < unat v"
proof -
  assume "\<not> v < (0x80 :: u64)"
  then have "128 \<le> unat v" by (simp add: word_less_nat_alt)
  then show ?thesis by (simp only: unat_drop_bit_eq) (simp add: drop_bit_eq_div)
qed

function writeUnsigned :: "u64 \<Rightarrow> bytes" where
  "writeUnsigned value =
     (if value < 0x80 then [ucast value]
      else (ucast value OR 0x80) # writeUnsigned (drop_bit 7 value))"
  by pat_completeness auto
termination
  by (relation "measure unat") (simp_all add: drop_bit_7_smaller)

declare writeUnsigned.simps [simp del]

definition writeSigned :: "int \<Rightarrow> bytes" where
  "writeSigned value =
     writeUnsigned (let v = word_of_int value in if value < 0 then push_bit 1 (- v) - 1 else push_bit 1 v)"

fun read_unsigned :: "nat \<Rightarrow> nat \<Rightarrow> u64 \<Rightarrow> bytes \<Rightarrow> fs_error + u64 \<times> bytes" where
  "read_unsigned 0 shift value data = Inl (Corrupt ''overflowing index integer'')"
| "read_unsigned (Suc n) shift value [] = Inl (Corrupt ''truncated index integer'')"
| "read_unsigned (Suc n) shift value (current # data) =
     (let value' = value OR push_bit shift (ucast (current AND 0x7f)) in
      if current AND 0x80 = 0 then Inr (value', data) else read_unsigned n (shift + 7) value' data)"

text \<open>The shifts 0, 7, \dots, 63 are the ten turns of the loop.\<close>

definition unsigned_word :: "bytes \<Rightarrow> fs_error + u64 \<times> bytes" where
  "unsigned_word data = read_unsigned 10 0 0 data"

definition unsigned_value :: "bytes \<Rightarrow> fs_error + nat \<times> bytes" where
  "unsigned_value data = map_sum id (map_prod unat id) (unsigned_word data)"

definition signed_of :: "u64 \<Rightarrow> int" where
  "signed_of value =
     (if value AND 1 = 0 then uint (drop_bit 1 value) else - uint (drop_bit 1 value) - 1)"

definition signed_value :: "bytes \<Rightarrow> fs_error + int \<times> bytes" where
  "signed_value data = map_sum id (map_prod signed_of id) (unsigned_word data)"

section \<open>Writing a revision file\<close>

record revision_item =
  item_number :: int
  item_kind :: nat
  item_bytes :: bytes

record p2l_entry =
  entry_offset :: int
  entry_size :: int
  entry_kind :: nat
  entry_checksum :: u32
  entry_revision :: int
  entry_item :: int

definition fnv_lane :: "u32 \<Rightarrow> byte \<Rightarrow> u32" where
  "fnv_lane hash b = (hash XOR ucast b) * 0x01000193"

fun fnv_lanes :: "u32 \<Rightarrow> u32 \<Rightarrow> u32 \<Rightarrow> u32 \<Rightarrow> bytes \<Rightarrow> bytes" where
  "fnv_lanes h0 h1 h2 h3 (a # b # c # d # data) =
     fnv_lanes (fnv_lane h0 a) (fnv_lane h1 b) (fnv_lane h2 c) (fnv_lane h3 d) data"
| "fnv_lanes h0 h1 h2 h3 trailing = put_u32 h0 @ put_u32 h1 @ put_u32 h2 @ put_u32 h3 @ trailing"

definition fnv1a32x4 :: "bytes \<Rightarrow> u32" where
  "fnv1a32x4 data = fnv1a (fnv_lanes 2166136261 2166136261 2166136261 2166136261 data)"

text \<open>
  \<open>for result < value { result <<= 1 }\<close>; a value above \<open>2 ^ 63\<close> shifts the one out of the word and
  the loop goes on for ever.
\<close>

partial_function (option) power_loop :: "u64 \<Rightarrow> u64 \<Rightarrow> u64 option" where
  "power_loop result value = (if result < value then power_loop (push_bit 1 result) value else Some result)"

definition nextPowerOfTwo :: "u64 \<Rightarrow> u64 option" where
  "nextPowerOfTwo value = power_loop 1 value"

definition index_marker :: "string \<Rightarrow> bytes" where
  "index_marker name = bytes_of_text name @ [0x0A]"

text \<open>Offsets are stored plus one, as differences; an item without a place has offset \<open>-1\<close>.\<close>

fun l2p_page :: "(int, int) fmap \<Rightarrow> int \<Rightarrow> int list \<Rightarrow> bytes" where
  "l2p_page locations previous [] = []"
| "l2p_page locations previous (item # rest) =
     (let current = (case fmlookup locations item of None \<Rightarrow> - 1 | Some offset \<Rightarrow> offset) + 1 in
      writeSigned (current - previous) @ l2p_page locations current rest)"

definition l2p_maximum :: "(int, int) fmap \<Rightarrow> int" where
  "l2p_maximum locations = fold max (sorted_list_of_fset (fmdom locations)) 0"

definition encodeL2P :: "int \<Rightarrow> (int, int) fmap \<Rightarrow> bytes option" where
  "encodeL2P revision locations =
     (let maximum = l2p_maximum locations;
          page = l2p_page locations 0 [0..maximum] in
      map_option (\<lambda>size.
          index_marker ''L2P-INDEX'' @ writeUnsigned (word_of_int revision) @ writeUnsigned size @
          writeUnsigned 1 @ writeUnsigned 1 @ writeUnsigned 1 @ writeUnsigned (of_nat (length page)) @
          writeUnsigned (word_of_int (maximum + 1)) @ page)
        (nextPowerOfTwo (word_of_int (maximum + 1))))"

fun p2l_page :: "int \<Rightarrow> int \<Rightarrow> p2l_entry list \<Rightarrow> bytes" where
  "p2l_page lastCompound lastRevision [] = []"
| "p2l_page lastCompound lastRevision (entry # entries) =
     (let compound = entry_item entry * 8 + int (entry_kind entry) in
      writeUnsigned (word_of_int (entry_size entry)) @ writeSigned (compound - lastCompound) @
      writeSigned (entry_revision entry - lastRevision) @ writeUnsigned (ucast (entry_checksum entry)) @
      p2l_page compound (entry_revision entry) entries)"

definition encodeP2L :: "int \<Rightarrow> int \<Rightarrow> p2l_entry list \<Rightarrow> bytes option" where
  "encodeP2L revision dataSize entries =
     map_option (\<lambda>power.
         let pageSize = (if power < push_bit 20 1 then push_bit 20 1 else power);
             unused = \<lparr>entry_offset = dataSize, entry_size = uint pageSize - dataSize, entry_kind = 0,
               entry_checksum = 0, entry_revision = revision, entry_item = 0\<rparr>;
             page = writeUnsigned 0 @ p2l_page 0 revision (entries @ [unused]) in
         index_marker ''P2L-INDEX'' @ writeUnsigned (word_of_int revision) @
         writeUnsigned (word_of_int dataSize) @ writeUnsigned pageSize @ writeUnsigned 1 @
         writeUnsigned (of_nat (length page)) @ page)
       (nextPowerOfTwo (word_of_int (max dataSize 1)))"

text \<open>The data of the items in a row, their places and their entries in the second index.\<close>

fun lay_out :: "int \<Rightarrow> int \<Rightarrow> revision_item list \<Rightarrow> bytes \<times> (int \<times> int) list \<times> p2l_entry list" where
  "lay_out revision offset [] = ([], [], [])"
| "lay_out revision offset (item # items) =
     (let (data, places, entries) = lay_out revision (offset + int (length (item_bytes item))) items in
      (item_bytes item @ data, (item_number item, offset) # places,
       \<lparr>entry_offset = offset, entry_size = int (length (item_bytes item)), entry_kind = item_kind item,
        entry_checksum = fnv1a32x4 (item_bytes item), entry_revision = revision,
        entry_item = item_number item\<rparr> # entries))"

definition footer_text :: "(bytes \<Rightarrow> bytes) \<Rightarrow> nat \<Rightarrow> bytes \<Rightarrow> nat \<Rightarrow> bytes \<Rightarrow> string" where
  "footer_text md5 l2pOffset l2p p2lOffset p2l =
     utoa l2pOffset @ '' '' @ hex_encode (md5 l2p) @ '' '' @ utoa p2lOffset @ '' '' @ hex_encode (md5 p2l)"

definition logicalRevision :: "(bytes \<Rightarrow> bytes) \<Rightarrow> int \<Rightarrow> revision_item list \<Rightarrow> fs_error + bytes" where
  "logicalRevision md5 revision items =
     (let (data, places, entries) = lay_out revision 0 items;
          locations = fold (\<lambda>(item, offset). fmupd item offset) places fmempty in
      and_then (ok_or NeverReturns (encodeL2P revision locations)) (\<lambda>l2p.
      and_then (ok_or NeverReturns (encodeP2L revision (int (length data)) entries)) (\<lambda>p2l.
      let footer = footer_text md5 (length data) l2p (length data + length l2p) p2l in
      if length footer > 255 then Inl (Corrupt ''logical footer is too long'')
      else Inr (data @ l2p @ p2l @ bytes_of_text footer @ [of_nat (length footer)]))))"

section \<open>The footer\<close>

abbreviation "max_int64 \<equiv> (2 ^ 63 - 1 :: int)"

record logical_footer =
  l2p_offset :: int
  p2l_offset :: int
  end_offset :: int
  l2p_digest :: string
  p2l_digest :: string

text \<open>The fields of a footer that ends the data at \<open>base\<close>.\<close>

definition footer_fields :: "string list \<Rightarrow> int \<Rightarrow> fs_error + logical_footer" where
  "footer_fields fs base =
     (if length fs \<noteq> 4 \<or> length (fs ! 1) \<noteq> 32 \<or> length (fs ! 3) \<noteq> 32
      then Inl (Corrupt ''invalid logical revision footer'')
      else case parse_int 64 (fs ! 0) of
        None \<Rightarrow> Inl (Corrupt ''invalid L2P offset'')
      | Some l2p \<Rightarrow>
          if l2p < 0 \<or> l2p \<ge> base then Inl (Corrupt ''invalid L2P offset'')
          else case parse_int 64 (fs ! 2) of
            None \<Rightarrow> Inl (Corrupt ''invalid P2L offset'')
          | Some p2l \<Rightarrow>
              if p2l \<le> l2p \<or> p2l \<ge> base then Inl (Corrupt ''invalid P2L offset'')
              else if hex_decode (fs ! 1) = None then Inl (Corrupt ''invalid L2P checksum'')
              else if hex_decode (fs ! 3) = None then Inl (Corrupt ''invalid P2L checksum'')
              else Inr \<lparr>l2p_offset = l2p, p2l_offset = p2l, end_offset = base,
                        l2p_digest = fs ! 1, p2l_digest = fs ! 3\<rparr>)"

definition parseLogicalFooter :: "bytes \<Rightarrow> fs_error + logical_footer" where
  "parseLogicalFooter data =
     (if data = [] then Inl (Corrupt ''empty logical revision file'')
      else
        let footerLength = unat (last data) in
        if footerLength = 0 \<or> footerLength + 1 > length data
        then Inl (Corrupt ''invalid logical revision footer'')
        else
          let endOffset = length data - footerLength - 1 in
          footer_fields (Fields (text_of_bytes (take footerLength (drop endOffset data)))) (int endOffset))"

definition parseLogicalFooterAt :: "bytes \<Rightarrow> int \<Rightarrow> fs_error + logical_footer" where
  "parseLogicalFooterAt data base = footer_fields (Fields (text_of_bytes (butlast data))) base"

definition checkMD5 :: "(bytes \<Rightarrow> bytes) \<Rightarrow> bytes \<Rightarrow> string \<Rightarrow> string \<Rightarrow> fs_error + unit" where
  "checkMD5 md5 data want name =
     (if equal_hex (hex_encode (md5 data)) want then Inr () else Inl (Corrupt (name @ '' checksum mismatch'')))"

section \<open>Reading the indexes\<close>

definition strip_marker :: "string \<Rightarrow> bytes \<Rightarrow> fs_error + bytes" where
  "strip_marker name data =
     (let marker = index_marker name in
      if take (length marker) data = marker then Inr (drop (length marker) data)
      else Inl (Corrupt ''missing index marker''))"

text \<open>Read a value that must satisfy a condition on it and on what is left; every failure is one error.\<close>

definition checked ::
    "string \<Rightarrow> ('a \<Rightarrow> bytes \<Rightarrow> bool) \<Rightarrow> (bytes \<Rightarrow> fs_error + 'a \<times> bytes) \<Rightarrow> bytes \<Rightarrow> fs_error + 'a \<times> bytes" where
  "checked message ok reader data =
     (case reader data of
        Inl e \<Rightarrow> Inl (Corrupt message)
      | Inr (v, rest) \<Rightarrow> if ok v rest then Inr (v, rest) else Inl (Corrupt message))"

definition powerOfTwoUnsigned :: "nat \<Rightarrow> bool" where
  "powerOfTwoUnsigned v \<longleftrightarrow> v \<noteq> 0 \<and> v AND (v - 1) = 0"

text \<open>\<open>v + d\<close> if it fits in 64 bits: the checks in front of the additions.\<close>

definition add_int64 :: "string \<Rightarrow> int \<Rightarrow> int \<Rightarrow> fs_error + int" where
  "add_int64 message v d =
     (if d > 0 \<and> v > max_int64 - d \<or> d < 0 \<and> v < - max_int64 - 1 - d then Inl (Corrupt message)
      else Inr (v + d))"

definition l2p_page_header :: "nat \<Rightarrow> bytes \<Rightarrow> fs_error + (nat \<times> nat) \<times> bytes" where
  "l2p_page_header pageSize =
     checked ''invalid L2P page header''
       (\<lambda>(size, entries) rest. size \<noteq> 0 \<and> entries \<noteq> 0 \<and> entries \<le> pageSize)
       (\<lambda>data. and_then (unsigned_value data) (\<lambda>(size, data1).
               and_then (unsigned_value data1) (\<lambda>(entries, data2). Inr ((size, entries), data2))))"

fun l2p_entries :: "nat \<Rightarrow> int \<Rightarrow> int \<Rightarrow> (int, int) fmap \<Rightarrow> bytes \<Rightarrow> fs_error + (int \<times> (int, int) fmap) \<times> bytes"
where
  "l2p_entries 0 offset item items data = Inr ((item, items), data)"
| "l2p_entries (Suc n) offset item items data =
     and_then (signed_value data) (\<lambda>(d, rest).
     and_then (add_int64 ''overflowing L2P offset'' offset d) (\<lambda>offset'.
     if offset' < 0 then Inl (Corrupt ''invalid L2P offset'')
     else l2p_entries n offset' (item + 1) (fmupd item (offset' - 1) items) rest))"

text \<open>The pages of one revision: item numbers go on from page to page, offsets start anew.\<close>

fun l2p_pages :: "nat \<Rightarrow> (nat \<times> nat) list \<Rightarrow> int \<Rightarrow> (int, int) fmap \<Rightarrow> bytes \<Rightarrow>
    fs_error + ((int, int) fmap \<times> (nat \<times> nat) list) \<times> bytes"
where
  "l2p_pages 0 pages item items data = Inr ((items, pages), data)"
| "l2p_pages (Suc n) [] item items data = Inl (Corrupt ''incomplete L2P page table'')"
| "l2p_pages (Suc n) ((bytesize, entries) # pages) item items data =
     (if bytesize > length data then Inl (Corrupt ''truncated L2P page'')
      else and_then (l2p_entries entries 0 item items (take bytesize data)) (\<lambda>((item', items'), left).
        if left \<noteq> [] then Inl (Corrupt ''L2P page size mismatch'')
        else l2p_pages n pages item' items' (drop bytesize data)))"

fun l2p_revisions :: "int \<Rightarrow> nat list \<Rightarrow> (nat \<times> nat) list \<Rightarrow> (int, (int, int) fmap) fmap \<Rightarrow> bytes \<Rightarrow>
    fs_error + (int, (int, int) fmap) fmap"
where
  "l2p_revisions revision [] pages result data =
     (if pages \<noteq> [] \<or> data \<noteq> [] then Inl (Corrupt ''incomplete L2P index'') else Inr result)"
| "l2p_revisions revision (count # counts) pages result data =
     and_then (l2p_pages count pages 0 fmempty data) (\<lambda>((items, pages'), rest).
     if revision > max_int64 then Inl (Corrupt ''overflowing L2P revision'')
     else l2p_revisions (revision + 1) counts pages' (fmupd revision items result) rest)"

definition parseL2P :: "bytes \<Rightarrow> fs_error + (int, (int, int) fmap) fmap" where
  "parseL2P index =
     and_then (strip_marker ''L2P-INDEX'' index) (\<lambda>data0.
     and_then (unsigned_value data0) (\<lambda>(firstRevision, data1).
     and_then (checked ''invalid L2P page size'' (\<lambda>v rest. powerOfTwoUnsigned v) unsigned_value data1) (\<lambda>(pageSize, data2).
     and_then (checked ''invalid L2P revision count'' (\<lambda>v rest. v \<noteq> 0 \<and> v \<le> length rest) unsigned_value data2) (\<lambda>(revisionCount, data3).
     and_then (checked ''invalid L2P page count'' (\<lambda>v rest. revisionCount \<le> v \<and> v \<le> length rest div 2) unsigned_value data3) (\<lambda>(pageCount, data4).
     and_then (decode_count (checked ''invalid L2P revision page count'' (\<lambda>v rest. v \<noteq> 0) unsigned_value) revisionCount data4) (\<lambda>(revisionPages, data5).
     and_then (decode_count (l2p_page_header pageSize) pageCount data5) (\<lambda>(pages, data6).
     l2p_revisions (int firstRevision) revisionPages pages fmempty data6)))))))"

text \<open>One entry of a P2L page, at \<open>offset\<close>, after an entry with the given compound and revision.\<close>

definition p2l_entry_read :: "nat \<Rightarrow> int \<Rightarrow> int \<Rightarrow> int \<Rightarrow> bytes \<Rightarrow> fs_error + p2l_entry \<times> bytes" where
  "p2l_entry_read indexedSize offset lastCompound lastRevision data =
     and_then (checked ''invalid P2L item size''
         (\<lambda>v rest. v \<noteq> 0 \<and> 0 \<le> offset \<and> offset \<le> int indexedSize \<and> int v \<le> int indexedSize - offset) unsigned_value data) (\<lambda>(size, data1).
     and_then (signed_value data1) (\<lambda>(compoundDelta, data2).
     and_then (add_int64 ''overflowing P2L item'' lastCompound compoundDelta) (\<lambda>compound.
     if compound < 0 \<or> compound mod 8 > 6 then Inl (Corrupt ''invalid P2L item type'')
     else and_then (signed_value data2) (\<lambda>(revisionDelta, data3).
     and_then (add_int64 ''overflowing P2L revision'' lastRevision revisionDelta) (\<lambda>revision.
     and_then (checked ''invalid P2L entry'' (\<lambda>v rest. v \<le> 2 ^ 32 - 1 \<and> 0 \<le> revision) unsigned_value data3) (\<lambda>(checksum, data4).
     if int size > max_int64 \<or> offset > max_int64 - int size then Inl (Corrupt ''overflowing P2L item range'')
     else Inr (\<lparr>entry_offset = offset, entry_size = int size, entry_kind = nat (compound mod 8),
            entry_checksum = of_nat checksum, entry_revision = revision, entry_item = compound div 8\<rparr>, data4)))))))"

lemma read_unsigned_shrinks: "read_unsigned n shift acc data = Inr (v, rest) \<Longrightarrow> length rest < length data"
proof (induction n shift acc data rule: read_unsigned.induct)
  case (3 n shift acc current data)
  then show ?case by (fastforce simp: Let_def split: if_splits)
qed simp_all

lemma unsigned_value_shrinks: "unsigned_value data = Inr (v, rest) \<Longrightarrow> length rest < length data"
  unfolding unsigned_value_def unsigned_word_def
  by (cases "read_unsigned 10 0 0 data") (auto dest: read_unsigned_shrinks)

lemma signed_value_shrinks: "signed_value data = Inr (v, rest) \<Longrightarrow> length rest < length data"
  unfolding signed_value_def unsigned_word_def
  by (cases "read_unsigned 10 0 0 data") (auto dest: read_unsigned_shrinks)

lemma checked_Inr: "checked message ok reader data = Inr (v, rest) \<longleftrightarrow> reader data = Inr (v, rest) \<and> ok v rest"
  by (auto simp: checked_def split: sum.splits prod.splits)

lemma add_int64_Inr: "add_int64 message v d = Inr w \<longleftrightarrow> w = v + d \<and> \<not> (d > 0 \<and> v > max_int64 - d \<or> d < 0 \<and> v < - max_int64 - 1 - d)"
  unfolding add_int64_def by auto

lemma p2l_entry_read_Inr:
  assumes "p2l_entry_read indexedSize offset lastCompound lastRevision data = Inr (entry, rest)"
  shows "length rest < length data" "entry_offset entry = offset" "0 \<le> offset" "0 < entry_size entry"
    "offset + entry_size entry \<le> max_int64"
  using assms unfolding p2l_entry_read_def
  by (auto simp: and_then_Inr checked_Inr split: if_splits dest!: unsigned_value_shrinks signed_value_shrinks)

function p2l_entries :: "nat \<Rightarrow> int \<Rightarrow> int \<Rightarrow> int \<Rightarrow> (int, p2l_entry) fmap \<Rightarrow> bytes \<Rightarrow> fs_error + (int, p2l_entry) fmap"
where
  "p2l_entries indexedSize offset compound revision byOffset data =
     (if data = [] then Inr byOffset
      else case p2l_entry_read indexedSize offset compound revision data of
          Inl e \<Rightarrow> Inl e
        | Inr (entry, rest) \<Rightarrow>
            if fmlookup byOffset offset \<noteq> None \<and> fmlookup byOffset offset \<noteq> Some entry
            then Inl (Corrupt ''inconsistent duplicate P2L entry'')
            else p2l_entries indexedSize (offset + entry_size entry)
                   (entry_item entry * 8 + int (entry_kind entry)) (entry_revision entry)
                   (fmupd offset entry byOffset) rest)"
  by pat_completeness auto
termination
  by (relation "measure (\<lambda>(_, _, _, _, _, data). length data)") (auto dest: p2l_entry_read_Inr(1))

declare p2l_entries.simps [simp del]

fun p2l_pages :: "nat \<Rightarrow> int \<Rightarrow> int \<Rightarrow> nat list \<Rightarrow> (int, p2l_entry) fmap \<Rightarrow> bytes \<Rightarrow>
    fs_error + (int, p2l_entry) fmap \<times> bytes"
where
  "p2l_pages indexedSize fileSize firstRevision [] byOffset data = Inr (byOffset, data)"
| "p2l_pages indexedSize fileSize firstRevision (encodedSize # sizes) byOffset data =
     (if encodedSize > length data then Inl (Corrupt ''truncated P2L page'')
      else if encodedSize = 0 then p2l_pages indexedSize fileSize firstRevision sizes byOffset data
      else and_then (checked ''invalid P2L item offset'' (\<lambda>v rest. int v \<le> fileSize) unsigned_value (take encodedSize data))
        (\<lambda>(offset, page). and_then (p2l_entries indexedSize (int offset) 0 firstRevision byOffset page)
        (\<lambda>byOffset'. p2l_pages indexedSize fileSize firstRevision sizes byOffset' (drop encodedSize data))))"

definition parseP2L :: "bytes \<Rightarrow> int \<Rightarrow> fs_error + p2l_entry list" where
  "parseP2L index fileSize =
     and_then (strip_marker ''P2L-INDEX'' index) (\<lambda>data0.
     and_then (checked ''invalid P2L first revision'' (\<lambda>v rest. int v \<le> max_int64) unsigned_value data0) (\<lambda>(firstRevision, data1).
     and_then (checked ''P2L file size mismatch'' (\<lambda>v rest. int v = fileSize) unsigned_value data1) (\<lambda>(declaredSize, data2).
     and_then (checked ''invalid P2L page size'' (\<lambda>v rest. powerOfTwoUnsigned v) unsigned_value data2) (\<lambda>(pageSize, data3).
     and_then (checked ''invalid P2L page count''
         (\<lambda>v rest. declaredSize \<noteq> 0 \<and> v = (declaredSize - 1) div pageSize + 1 \<and> v \<le> length rest) unsigned_value data3) (\<lambda>(pageCount, data4).
     and_then (decode_count unsigned_value pageCount data4) (\<lambda>(pageSizes, data5).
     if pageCount > (2 ^ 64 - 1) div pageSize then Inl (Corrupt ''overflowing P2L index size'')
     else and_then (p2l_pages (pageCount * pageSize) fileSize (int firstRevision) pageSizes fmempty data5) (\<lambda>(byOffset, rest).
     if rest \<noteq> [] then Inl (Corrupt ''P2L page size mismatch'')
     else Inr (map snd (sorted_entries byOffset)))))))))"

section \<open>Checking the indexes against the data\<close>

definition location_of :: "(int, (int, int) fmap) fmap \<Rightarrow> int \<Rightarrow> int \<Rightarrow> int" where
  "location_of locations revision item =
     (case fmlookup locations revision of
        None \<Rightarrow> 0
      | Some items \<Rightarrow> (case fmlookup items item of None \<Rightarrow> 0 | Some offset \<Rightarrow> offset))"

definition allZero :: "bytes \<Rightarrow> bool" where
  "allZero data \<longleftrightarrow> list_all (\<lambda>b. b = 0) data"

text \<open>\<open>stop\<close> is the end of the entries so far.\<close>

fun validate_entries ::
    "bytes \<Rightarrow> (int, (int, int) fmap) fmap \<Rightarrow> int \<Rightarrow> p2l_entry list \<Rightarrow> fs_error + int" where
  "validate_entries data locations stop [] = Inr stop"
| "validate_entries data locations stop (e # es) =
     (let stop' = entry_offset e + entry_size e in
      if entry_offset e \<noteq> stop then Inl (Corrupt ''P2L entries do not cover the revision data'')
      else if entry_kind e = 0 then
        (if entry_item e \<noteq> 0 \<or> entry_checksum e \<noteq> 0 \<or>
            entry_offset e < int (length data) \<and> stop' > int (length data) \<and> \<not> allZero (drop (nat (entry_offset e)) data)
         then Inl (Corrupt ''invalid unused P2L entry'')
         else validate_entries data locations stop' es)
      else if stop' > int (length data) then Inl (Corrupt ''P2L item extends beyond revision data'')
      else if location_of locations (entry_revision e) (entry_item e) \<noteq> entry_offset e
      then Inl (Corrupt ''L2P and P2L indexes disagree'')
      else case go_slice data (entry_offset e) stop' of
          None \<Rightarrow> Inl Panics
        | Some item \<Rightarrow>
            if fnv1a32x4 item \<noteq> entry_checksum e then Inl (Corrupt ''P2L item checksum mismatch'')
            else validate_entries data locations stop' es)"

definition final_page :: "int \<Rightarrow> p2l_entry list \<Rightarrow> int \<Rightarrow> fs_error + unit" where
  "final_page dataSize es stop =
     (if stop < dataSize \<or> es = [] \<or> entry_kind (last es) \<noteq> 0
      then Inl (Corrupt ''P2L index does not cover the final page'') else Inr ())"

definition validateLogicalIndexes ::
    "bytes \<Rightarrow> (int, (int, int) fmap) fmap \<Rightarrow> p2l_entry list \<Rightarrow> fs_error + unit" where
  "validateLogicalIndexes data locations es =
     and_then (validate_entries data locations 0 es) (final_page (int (length data)) es)"

text \<open>
  The same over a file that is read in pieces of 64 KiB; \<open>ReadAt\<close> gives what there is of a range,
  and the validated ranges lie in the file.
\<close>

definition read_at :: "bytes \<Rightarrow> int \<Rightarrow> int \<Rightarrow> bytes" where
  "read_at file offset sz = take (nat sz) (drop (nat offset) file)"

function readerRangeAllZero :: "bytes \<Rightarrow> int \<Rightarrow> int \<Rightarrow> bool" where
  "readerRangeAllZero file offset sz =
     (if sz > 0 then
        let len = min sz (64 * 1024) in
        if \<not> allZero (read_at file offset len) then False
        else readerRangeAllZero file (offset + len) (sz - len)
      else True)"
  by pat_completeness auto
termination
  by (relation "measure (\<lambda>(_, _, sz). nat sz)") auto

declare readerRangeAllZero.simps [simp del]

fun fnv_step :: "u32 \<times> u32 \<times> u32 \<times> u32 \<Rightarrow> bytes \<Rightarrow> u32 \<times> u32 \<times> u32 \<times> u32" where
  "fnv_step (h0, h1, h2, h3) (a # b # c # d # data) =
     fnv_step (fnv_lane h0 a, fnv_lane h1 b, fnv_lane h2 c, fnv_lane h3 d) data"
| "fnv_step hashes _ = hashes"

function fnv_read :: "bytes \<Rightarrow> int \<Rightarrow> int \<Rightarrow> u32 \<times> u32 \<times> u32 \<times> u32 \<Rightarrow> u32 \<times> u32 \<times> u32 \<times> u32" where
  "fnv_read file offset remaining hashes =
     (if remaining > 0 then
        let len = min remaining (64 * 1024) in
        fnv_read file (offset + len) (remaining - len) (fnv_step hashes (read_at file offset len))
      else hashes)"
  by pat_completeness auto
termination
  by (relation "measure (\<lambda>(_, _, remaining, _). nat remaining)") auto

declare fnv_read.simps [simp del]

definition fnv1a32x4Reader :: "bytes \<Rightarrow> int \<Rightarrow> int \<Rightarrow> u32" where
  "fnv1a32x4Reader file offset sz =
     (let complete = sz - sz mod 4;
          (h0, h1, h2, h3) = fnv_read file offset complete (2166136261, 2166136261, 2166136261, 2166136261) in
      fnv1a (put_u32 h0 @ put_u32 h1 @ put_u32 h2 @ put_u32 h3 @ read_at file (offset + complete) (sz - complete)))"

fun validate_entries_reader ::
    "bytes \<Rightarrow> int \<Rightarrow> (int, (int, int) fmap) fmap \<Rightarrow> int \<Rightarrow> p2l_entry list \<Rightarrow> fs_error + int" where
  "validate_entries_reader file dataSize locations stop [] = Inr stop"
| "validate_entries_reader file dataSize locations stop (e # es) =
     (let stop' = entry_offset e + entry_size e in
      if entry_offset e \<noteq> stop then Inl (Corrupt ''P2L entries do not cover the revision data'')
      else if entry_size e < 0 \<or> entry_offset e > max_int64 - entry_size e
      then Inl (Corrupt ''invalid P2L item range'')
      else if entry_kind e = 0 then
        (if entry_item e = 0 \<and> entry_checksum e = 0 \<and>
            (entry_offset e < dataSize \<and> stop' > dataSize \<longrightarrow>
               readerRangeAllZero file (entry_offset e) (dataSize - entry_offset e))
         then validate_entries_reader file dataSize locations stop' es
         else Inl (Corrupt ''invalid unused P2L entry''))
      else if stop' > dataSize then Inl (Corrupt ''P2L item extends beyond revision data'')
      else if location_of locations (entry_revision e) (entry_item e) \<noteq> entry_offset e
      then Inl (Corrupt ''L2P and P2L indexes disagree'')
      else if fnv1a32x4Reader file (entry_offset e) (entry_size e) \<noteq> entry_checksum e
      then Inl (Corrupt ''P2L item checksum mismatch'')
      else validate_entries_reader file dataSize locations stop' es)"

definition validateLogicalIndexesReader ::
    "bytes \<Rightarrow> int \<Rightarrow> (int, (int, int) fmap) fmap \<Rightarrow> p2l_entry list \<Rightarrow> fs_error + unit" where
  "validateLogicalIndexesReader file dataSize locations es =
     and_then (validate_entries_reader file dataSize locations 0 es) (final_page dataSize es)"

text \<open>Both indexes, and where the data ends.\<close>

definition slice_or_panic :: "bytes \<Rightarrow> int \<Rightarrow> int \<Rightarrow> fs_error + bytes" where
  "slice_or_panic data lo hi = ok_or Panics (go_slice data lo hi)"

definition parseLogicalIndexes :: "(bytes \<Rightarrow> bytes) \<Rightarrow> bytes \<Rightarrow> fs_error + (int, (int, int) fmap) fmap \<times> int" where
  "parseLogicalIndexes md5 data =
     and_then (parseLogicalFooter data) (\<lambda>footer.
     and_then (slice_or_panic data (l2p_offset footer) (p2l_offset footer)) (\<lambda>l2pData.
     and_then (slice_or_panic data (p2l_offset footer) (end_offset footer)) (\<lambda>p2lData.
     and_then (checkMD5 md5 l2pData (l2p_digest footer) ''L2P'') (\<lambda>_.
     and_then (checkMD5 md5 p2lData (p2l_digest footer) ''P2L'') (\<lambda>_.
     and_then (parseL2P l2pData) (\<lambda>locations.
     and_then (parseP2L p2lData (l2p_offset footer)) (\<lambda>entries.
     and_then (slice_or_panic data 0 (l2p_offset footer)) (\<lambda>contents.
     and_then (validateLogicalIndexes contents locations entries) (\<lambda>_.
     Inr (locations, l2p_offset footer))))))))))"

definition parseLogicalIndexesFile :: "(bytes \<Rightarrow> bytes) \<Rightarrow> bytes \<Rightarrow> fs_error + (int, (int, int) fmap) fmap \<times> int" where
  "parseLogicalIndexesFile md5 file =
     (let fileSize = int (length file) in
      if fileSize < 2 then Inl (Corrupt ''empty logical revision file'')
      else
        let footerLength = int (unat (last file)) in
        if footerLength = 0 \<or> footerLength + 1 > fileSize
        then Inl (Corrupt ''invalid logical revision footer'')
        else
          let base = fileSize - footerLength - 1 in
          and_then (parseLogicalFooterAt (read_at file base (footerLength + 1)) base) (\<lambda>footer.
          let indexData = read_at file (l2p_offset footer) (end_offset footer - l2p_offset footer);
              l2pEnd = nat (p2l_offset footer - l2p_offset footer);
              l2pData = take l2pEnd indexData; p2lData = drop l2pEnd indexData in
          and_then (checkMD5 md5 l2pData (l2p_digest footer) ''L2P'') (\<lambda>_.
          and_then (checkMD5 md5 p2lData (p2l_digest footer) ''P2L'') (\<lambda>_.
          and_then (parseL2P l2pData) (\<lambda>locations.
          and_then (parseP2L p2lData (l2p_offset footer)) (\<lambda>entries.
          and_then (validateLogicalIndexesReader file (l2p_offset footer) locations entries) (\<lambda>_.
          Inr (locations, l2p_offset footer))))))))"

section \<open>Items of a revision file\<close>

record revision_file =
  rf_contents :: bytes
  rf_start :: int
  rf_stop :: int
  rf_data_end :: int
  rf_locations :: "(int, (int, int) fmap) fmap option"

text \<open>\<open>openRevision\<close> on a file with logical addressing, given what is in the file.\<close>

definition open_logical :: "(bytes \<Rightarrow> bytes) \<Rightarrow> bytes \<Rightarrow> fs_error + revision_file" where
  "open_logical md5 contents =
     and_then (parseLogicalIndexesFile md5 contents) (\<lambda>(locations, dataEnd).
       Inr \<lparr>rf_contents = contents, rf_start = 0, rf_stop = int (length contents), rf_data_end = dataEnd,
            rf_locations = Some locations\<rparr>)"

definition readRange :: "revision_file \<Rightarrow> int \<Rightarrow> int \<Rightarrow> fs_error + bytes" where
  "readRange f lo hi =
     (if lo < 0 \<or> hi < lo \<or> hi > int (length (rf_contents f)) \<or> hi - lo > max_int64
      then Inl (Corrupt ''invalid revision file range'') else Inr (read_at (rf_contents f) lo (hi - lo)))"

definition itemOffset :: "revision_file \<Rightarrow> int \<Rightarrow> int \<Rightarrow> fs_error + int" where
  "itemOffset f revision item =
     (case rf_locations f of
        None \<Rightarrow> Inr (rf_start f + item)
      | Some locations \<Rightarrow>
          (case fmlookup locations revision of
             None \<Rightarrow> Inl (NoSuchRevision revision)
           | Some items \<Rightarrow>
               (case fmlookup items item of
                  None \<Rightarrow> Inl (NoSuchRevision revision)
                | Some offset \<Rightarrow> if offset < 0 then Inl (NoSuchRevision revision) else Inr offset)))"

text \<open>All offsets of the first index; an item ends where the next one starts.\<close>

definition all_offsets :: "revision_file \<Rightarrow> int list" where
  "all_offsets f =
     (case rf_locations f of
        None \<Rightarrow> []
      | Some locations \<Rightarrow> concat (map (\<lambda>(revision, items). map snd (sorted_entries items)) (sorted_entries locations)))"

definition closer :: "int \<Rightarrow> int \<Rightarrow> int \<Rightarrow> int" where
  "closer offset candidate stop = (if candidate > offset \<and> candidate < stop then candidate else stop)"

definition itemData :: "revision_file \<Rightarrow> int \<Rightarrow> int \<Rightarrow> fs_error + bytes" where
  "itemData f revision item =
     and_then (itemOffset f revision item) (\<lambda>offset.
     let stop = fold (closer offset) (all_offsets f) (if rf_data_end f = 0 then rf_stop f else rf_data_end f) in
     if offset < 0 \<or> stop < offset \<or> stop > int (length (rf_contents f)) then Inl (Corrupt ''invalid item range'')
     else readRange f offset stop)"

text \<open>A record ends at an empty line.\<close>

fun record_end :: "bytes \<Rightarrow> nat option" where
  "record_end (a # b # data) = (if a = 0x0A \<and> b = 0x0A then Some 0 else map_option Suc (record_end (b # data)))"
| "record_end _ = None"

definition recordData :: "revision_file \<Rightarrow> int \<Rightarrow> fs_error + bytes" where
  "recordData f offset =
     (let limit = offset + 16 * 1024 * 1024;
          stop = (if min (rf_data_end f) limit = 0 then min (rf_stop f) limit else min (rf_data_end f) limit) in
      and_then (readRange f offset stop) (\<lambda>data.
      case record_end data of
        Some n \<Rightarrow> Inr (take (n + 2) data)
      | None \<Rightarrow> Inl (Corrupt ''node-revision record is too large or incomplete'')))"

section \<open>Integers are read back\<close>

lemma small_byte:
  assumes "w < (0x80 :: u64)"
  shows "ucast (ucast w AND 0x7f :: byte) = w" "(ucast w :: byte) AND 0x80 = 0"
proof -
  have "unat w < 2 ^ 7" using assms by (simp add: word_less_nat_alt)
  then have "unat (take_bit 7 w) = unat w" by (simp add: unsigned_take_bit_eq take_bit_nat_eq_self)
  then have w: "take_bit 7 w = w" by (rule unsigned_word_eqI)
  have "bit (ucast (ucast w AND 0x7f :: byte) :: u64) n = bit (take_bit 7 w) n" if "n < 64" for n
    unfolding mask_7 by (auto simp: bit_simps)
  then show "ucast (ucast w AND 0x7f :: byte) = w" by (intro bit_word_eqI) (simp add: w)
  have "bit ((ucast (take_bit 7 w) :: byte) AND 0x80) n = bit (0 :: byte) n" if "n < 8" for n
    by (auto simp: bit_simps bit_int_128)
  then show "(ucast w :: byte) AND 0x80 = 0" by (intro bit_word_eqI) (simp add: w)
qed

lemma large_byte: "ucast ((ucast w OR 0x80 :: byte) AND 0x7f) = (take_bit 7 w :: u64)"
  unfolding mask_7 by (rule bit_word_eqI) (auto simp: bit_simps bit_int_128)

lemma read_unsigned_write:
  assumes "k \<le> 9" "unat w < 2 ^ (64 - 7 * k)"
  shows "read_unsigned (10 - k) (7 * k) acc (writeUnsigned w @ rest) = Inr (acc OR push_bit (7 * k) w, rest)"
  using assms
proof (induction w arbitrary: k acc rule: writeUnsigned.induct)
  case (1 w)
  obtain n where n: "10 - k = Suc n" "9 - k = n" using "1.prems"(1) by (cases "10 - k") auto
  show ?case
  proof (cases "w < 0x80")
    case True
    then show ?thesis using n by (simp add: writeUnsigned.simps [of w] small_byte Let_def)
  next
    case False
    then have w: "128 \<le> unat w" by (simp add: word_less_nat_alt)
    have "k \<noteq> 9" using w "1.prems"(2) by auto
    then have k: "Suc k \<le> 9" using "1.prems"(1) by simp
    then have e: "64 - 7 * k = 7 + (64 - 7 * Suc k)" by simp
    have "unat w div 128 < 2 ^ (64 - 7 * Suc k)"
      using "1.prems"(2) unfolding e power_add by (intro less_mult_imp_div_less) simp
    then have d: "unat (drop_bit 7 w) < 2 ^ (64 - 7 * Suc k)" by (simp only: unat_drop_bit_7)
    have split: "push_bit (7 * k) (take_bit 7 w) OR push_bit (7 + 7 * k) (drop_bit 7 w) = push_bit (7 * k) w"
    proof (rule bit_word_eqI)
      fix m :: nat
      assume "m < LENGTH(64)"
      then show "bit (push_bit (7 * k) (take_bit 7 w) OR push_bit (7 + 7 * k) (drop_bit 7 w)) m \<longleftrightarrow> bit (push_bit (7 * k) w) m"
        by (cases "m < 7 + 7 * k") (auto simp: bit_simps)
    qed
    have "read_unsigned (10 - k) (7 * k) acc (writeUnsigned w @ rest) =
        read_unsigned (10 - Suc k) (7 * Suc k) (acc OR push_bit (7 * k) (take_bit 7 w)) (writeUnsigned (drop_bit 7 w) @ rest)"
      using False n more_byte_continues by (simp add: writeUnsigned.simps [of w] large_byte Let_def add.commute)
    also have "\<dots> = Inr ((acc OR push_bit (7 * k) (take_bit 7 w)) OR push_bit (7 * Suc k) (drop_bit 7 w), rest)"
      by (rule "1.IH" [OF False k d])
    also have "\<dots> = Inr (acc OR push_bit (7 * k) w, rest)"
      using split by (simp add: or.assoc)
    finally show ?thesis .
  qed
qed

lemma unsigned_word_write: "unsigned_word (writeUnsigned w @ rest) = Inr (w, rest)"
proof -
  have "unat w < 2 ^ (64 - 7 * 0)" using unsigned_less [of w] by simp
  from read_unsigned_write [OF _ this, of 0 rest] show ?thesis by (simp add: unsigned_word_def)
qed

interpretation index_word: prefix_codec "\<lambda>_. True" writeUnsigned unsigned_word
  by unfold_locales (rule unsigned_word_write)

lemma unsigned_value_write [simp]: "unsigned_value (writeUnsigned w @ rest) = Inr (unat w, rest)"
  by (simp add: unsigned_value_def index_word.dec_enc)

definition fits_int64 :: "int \<Rightarrow> bool" where
  "fits_int64 v \<longleftrightarrow> - (2 ^ 63) \<le> v \<and> v < 2 ^ 63"

lemma signed_of_uint: "signed_of w = (if even (uint w) then uint w div 2 else - (uint w div 2) - 1)"
proof -
  have "uint (w mod 2) = uint w mod 2" by (simp add: uint_mod_distrib)
  then have "(w AND 1 = 0) = even (uint w)"
    by (metis and_one_eq even_iff_mod_2_eq_zero unsigned_0 unsigned_word_eqI)
  then show ?thesis by (simp add: signed_of_def drop_bit_eq_div uint_div_distrib)
qed

lemma signed_of_write:
  assumes "fits_int64 i"
  shows "signed_of (let v = word_of_int i in if i < 0 then push_bit 1 (- v) - 1 else push_bit 1 v) = i"
proof (cases "i < 0")
  case True
  define j where "j = - 2 * i - 1"
  have "push_bit 1 (- word_of_int i) - 1 = (word_of_int j :: u64)"
    by (simp add: push_bit_eq_mult j_def)
  moreover have "0 \<le> j" "j < 2 ^ 64" using assms True by (simp_all add: fits_int64_def j_def)
  then have "uint (word_of_int j :: u64) = j" by (simp add: uint_word_of_int)
  moreover have "odd j" "- (j div 2) - 1 = i" by (simp_all add: j_def)
  ultimately show ?thesis using True by (simp add: Let_def signed_of_uint)
next
  case False
  define j where "j = 2 * i"
  have "push_bit 1 (word_of_int i) = (word_of_int j :: u64)"
    by (simp add: push_bit_eq_mult j_def)
  moreover have "0 \<le> j" "j < 2 ^ 64" using assms False by (simp_all add: fits_int64_def j_def)
  then have "uint (word_of_int j :: u64) = j" by (simp add: uint_word_of_int)
  moreover have "even j" "j div 2 = i" by (simp_all add: j_def)
  ultimately show ?thesis using False by (simp add: Let_def signed_of_uint)
qed

lemma signed_value_write [simp]: "fits_int64 i \<Longrightarrow> signed_value (writeSigned i @ rest) = Inr (i, rest)"
  by (simp add: signed_value_def writeSigned_def index_word.dec_enc signed_of_write)

interpretation index_signed: prefix_codec fits_int64 writeSigned signed_value
  by unfold_locales (rule signed_value_write)

lemma writeUnsigned_length: "unat w < 128 ^ k \<Longrightarrow> 0 < k \<Longrightarrow> length (writeUnsigned w) \<le> k"
proof (induction w arbitrary: k rule: writeUnsigned.induct)
  case (1 w)
  show ?case
  proof (cases "w < 0x80")
    case True
    then show ?thesis using "1.prems"(2) by (simp add: writeUnsigned.simps [of w])
  next
    case False
    then have w: "128 \<le> unat w" by (simp add: word_less_nat_alt)
    then have "k \<noteq> 1" using "1.prems"(1) by auto
    then obtain j where j: "k = Suc j" "0 < j" using "1.prems"(2) by (cases k) auto
    have "unat (drop_bit 7 w) < 128 ^ j"
      unfolding unat_drop_bit_7 using "1.prems"(1) j by (intro less_mult_imp_div_less) (simp add: mult.commute)
    from "1.IH" [OF False this j(2)] show ?thesis using False j by (simp add: writeUnsigned.simps [of w])
  qed
qed

lemma writeUnsigned_bounds: "1 \<le> length (writeUnsigned w)" "length (writeUnsigned w) \<le> 10"
proof -
  show "1 \<le> length (writeUnsigned w)" by (subst writeUnsigned.simps) simp
  have "unat w < 2 ^ 64" using unsigned_less [of w] by simp
  then have "unat w < 128 ^ 10" by simp
  then show "length (writeUnsigned w) \<le> 10" by (rule writeUnsigned_length) simp
qed

lemma writeUnsigned_room:
  "Suc 0 \<le> length (writeUnsigned w) + n"
  "Suc 0 \<le> (length (writeUnsigned w) + (length (writeUnsigned w') + n)) div 2"
  using writeUnsigned_bounds(1) [of w] writeUnsigned_bounds(1) [of w'] by linarith+

section \<open>Page sizes\<close>

lemma unat_two_power: "k < 64 \<Longrightarrow> unat ((2 :: u64) ^ k) = 2 ^ k"
proof -
  assume "k < 64"
  then have "(2 :: nat) ^ k < 2 ^ 64" by (rule power_strict_increasing) simp
  then have "unat (of_nat (2 ^ k) :: u64) = 2 ^ k" by (simp add: unat_of_nat del: of_nat_power)
  then show ?thesis by simp
qed

lemma power_loop_reaches:
  assumes "k \<le> 63" "unat v \<le> 2 ^ 63"
  shows "\<exists>j. k \<le> j \<and> j \<le> 63 \<and> power_loop (2 ^ k) v = Some (2 ^ j) \<and> unat v \<le> 2 ^ j \<and> (j = k \<or> 2 ^ (j - 1) < unat v)"
  using assms
proof (induction "63 - k" arbitrary: k)
  case (0 k)
  then have k: "k = 63" by simp
  then have "\<not> 2 ^ k < v" using "0.prems"(2) by (simp add: word_less_nat_alt unat_two_power)
  then have "power_loop (2 ^ k) v = Some (2 ^ k)" by (simp add: power_loop.simps [of "2 ^ k"])
  moreover have "unat v \<le> 2 ^ k" using "0.prems"(2) unfolding k .
  ultimately show ?case using "0.prems"(1) by blast
next
  case (Suc n k)
  show ?case
  proof (cases "2 ^ k < v")
    case True
    have "n = 63 - Suc k" "Suc k \<le> 63" using Suc by simp_all
    from Suc.hyps(1) [OF this Suc.prems(2)] obtain j where j: "Suc k \<le> j" "j \<le> 63" "power_loop (2 ^ Suc k) v = Some (2 ^ j)"
      "unat v \<le> 2 ^ j" "j = Suc k \<or> 2 ^ (j - 1) < unat v" by blast
    moreover have "power_loop (2 ^ k) v = power_loop (2 ^ Suc k) v"
      using True by (simp add: power_loop.simps [of "2 ^ k"] push_bit_eq_mult mult.commute)
    moreover have "2 ^ k < unat v" using True Suc.hyps(2) by (simp add: word_less_nat_alt unat_two_power)
    ultimately show ?thesis by (intro exI [of _ j]) auto
  next
    case False
    moreover have "unat v \<le> 2 ^ k" using False Suc.hyps(2) by (simp add: word_less_nat_alt unat_two_power)
    ultimately show ?thesis using Suc.prems by (intro exI [of _ k]) (auto simp: power_loop.simps [of "2 ^ k"])
  qed
qed

lemma nextPowerOfTwo_reaches:
  assumes "unat v \<le> 2 ^ 63"
  obtains j where "j \<le> 63" "nextPowerOfTwo v = Some (2 ^ j)" "unat v \<le> 2 ^ j" "j = 0 \<or> 2 ^ (j - 1) < unat v"
  using power_loop_reaches [of 0 v] assms by (auto simp: nextPowerOfTwo_def)

lemma powerOfTwo_power: "powerOfTwoUnsigned (2 ^ j)"
proof -
  have "(2 :: nat) ^ j AND (2 ^ j - 1) = take_bit j (2 ^ j)"
    by (simp add: take_bit_eq_mask mask_eq_exp_minus_1)
  then show ?thesis by (simp add: powerOfTwoUnsigned_def take_bit_eq_mod)
qed

section \<open>The first index is read back\<close>

lemma strip_marker_written [simp]: "strip_marker name (index_marker name @ rest) = Inr rest"
  by (simp add: strip_marker_def)

lemma checked_reads: "reader data = Inr (v, rest) \<Longrightarrow> ok v rest \<Longrightarrow> checked message ok reader data = Inr (v, rest)"
  by (simp add: checked_def)

definition location :: "(int, int) fmap \<Rightarrow> int \<Rightarrow> int" where
  "location locations item = (case fmlookup locations item of None \<Rightarrow> - 1 | Some offset \<Rightarrow> offset)"

lemma fmlookup_fold_fmupd:
  "fmlookup (fold (\<lambda>i. fmupd i (f i)) items m) j = (if j \<in> set items then Some (f j) else fmlookup m j)"
  by (induction items arbitrary: m) auto

lemma l2p_entries_page:
  assumes "\<forall>i. - 1 \<le> location locations i \<and> location locations i \<le> 2 ^ 62" "0 \<le> prev" "prev \<le> 2 ^ 62 + 1"
  shows "l2p_entries n prev item items (l2p_page locations prev [item..item + int n - 1] @ rest) =
    Inr ((item + int n, fold (\<lambda>i. fmupd i (location locations i)) [item..item + int n - 1] items), rest)"
  using assms(2,3)
proof (induction n arbitrary: prev item items)
  case 0
  then show ?case by simp
next
  case (Suc n)
  have u: "[item..item + int (Suc n) - 1] = item # [item + 1..item + 1 + int n - 1]"
    by (subst upto_rec1) (simp_all add: algebra_simps)
  let ?c = "location locations item + 1"
  have c: "0 \<le> ?c" "?c \<le> 2 ^ 62 + 1" using assms(1) [rule_format, of item] by simp_all
  have "fits_int64 (?c - prev)" using c Suc.prems by (simp add: fits_int64_def)
  moreover have "add_int64 ''overflowing L2P offset'' prev (?c - prev) = Inr ?c"
    using c Suc.prems by (simp add: add_int64_def)
  moreover have "l2p_page locations prev [item..item + int (Suc n) - 1] =
      writeSigned (?c - prev) @ l2p_page locations ?c [item + 1..item + 1 + int n - 1]"
    unfolding u by (simp add: location_def Let_def)
  ultimately show ?case
    using c Suc.IH [OF c, of "item + 1" "fmupd item (location locations item) items"]
    unfolding u by simp
qed

lemma l2p_page_length:
  "length items \<le> length (l2p_page locations prev items) \<and> length (l2p_page locations prev items) \<le> 10 * length items"
proof (induction items arbitrary: prev)
  case (Cons i items)
  have "1 \<le> length (writeSigned v)" "length (writeSigned v) \<le> 10" for v
    unfolding writeSigned_def by (rule writeUnsigned_bounds)+
  from this [of "location locations i + 1 - prev"] Cons [of "location locations i + 1"]
  show ?case by (simp add: location_def [symmetric] Let_def)
qed simp

lemma l2p_maximum_bound:
  assumes "\<forall>k v. fmlookup locations k = Some v \<longrightarrow> 0 \<le> k \<and> k < b" "0 < b"
  shows "0 \<le> l2p_maximum locations" "l2p_maximum locations < b"
    "fmlookup locations k = Some v \<Longrightarrow> k \<le> l2p_maximum locations"
proof -
  let ?l = "sorted_list_of_fset (fmdom locations)"
  have l: "l2p_maximum locations = Max (set (0 # ?l))"
    by (simp only: l2p_maximum_def Max.set_eq_fold max.commute)
  have "\<forall>x \<in> set ?l. 0 \<le> x \<and> x < b" using assms(1) by (auto simp: sorted_keys fmlookup_dom_iff)
  then show "0 \<le> l2p_maximum locations" "l2p_maximum locations < b"
    using assms(2) unfolding l by (auto simp: Max_ge_iff)
  show "fmlookup locations k = Some v \<Longrightarrow> k \<le> l2p_maximum locations"
    unfolding l by (auto simp: sorted_keys fmlookup_dom_iff intro: Max_ge)
qed

lemma nat_word_of_int: "0 \<le> i \<Longrightarrow> i < 2 ^ 64 \<Longrightarrow> unat (word_of_int i :: u64) = nat i"
  by (simp add: unat_eq_nat_uint uint_word_of_int)

definition l2p_items :: "(int, int) fmap \<Rightarrow> (int, int) fmap" where
  "l2p_items locations = fold (\<lambda>i. fmupd i (location locations i)) [0..l2p_maximum locations] fmempty"

lemma parseL2P_encode:
  assumes dom: "\<forall>k v. fmlookup locations k = Some v \<longrightarrow> 0 \<le> k \<and> k < 2 ^ 40 \<and> 0 \<le> v \<and> v \<le> 2 ^ 62"
    and rev: "0 \<le> revision" "revision < 2 ^ 63"
  obtains index where "encodeL2P revision locations = Some index"
    "parseL2P index = Inr (fmupd revision (l2p_items locations) fmempty)"
    "length index \<le> 100 + 10 * nat (l2p_maximum locations)" "index \<noteq> []"
proof -
  let ?m = "l2p_maximum locations"
  have d: "\<forall>k v. fmlookup locations k = Some v \<longrightarrow> 0 \<le> k \<and> k < 2 ^ 40" using dom by blast
  have m: "0 \<le> ?m" "?m < 2 ^ 40" using l2p_maximum_bound(1,2) [OF d] by simp_all
  define page where "page = l2p_page locations 0 [0..?m]"
  have len: "nat ?m + 1 \<le> length page" "length page \<le> 10 * (nat ?m + 1)"
    using l2p_page_length [of "[0..?m]" locations 0] m by (auto simp: page_def)
  define wm where "wm = (word_of_int (?m + 1) :: u64)"
  define wl where "wl = (of_nat (length page) :: u64)"
  define wr where "wr = (word_of_int revision :: u64)"
  have count: "unat wm = Suc (nat ?m)"
    using nat_word_of_int [of "?m + 1"] m by (simp add: nat_add_distrib wm_def)
  then have "unat wm \<le> 2 ^ 63" using m by simp
  then obtain j where j: "j \<le> 63" "nextPowerOfTwo wm = Some (2 ^ j)" "Suc (nat ?m) \<le> 2 ^ j"
    unfolding count [symmetric] by (rule nextPowerOfTwo_reaches)
  have plen: "unat wl = length page" using len m by (simp add: wl_def unat_of_nat)
  have wr: "int (unat wr) = revision" using rev by (simp add: wr_def nat_word_of_int)
  define index where "index = index_marker ''L2P-INDEX'' @ writeUnsigned wr @ writeUnsigned (2 ^ j) @
          writeUnsigned 1 @ writeUnsigned 1 @ writeUnsigned 1 @ writeUnsigned wl @ writeUnsigned wm @ page"
  have e: "encodeL2P revision locations = Some index"
    unfolding encodeL2P_def Let_def wm_def [symmetric] page_def [symmetric] wl_def [symmetric] wr_def [symmetric]
    using j by (simp add: index_def)
  have loc: "\<forall>i. - 1 \<le> location locations i \<and> location locations i \<le> 2 ^ 62"
  proof
    fix i
    show "- 1 \<le> location locations i \<and> location locations i \<le> 2 ^ 62"
      using dom [rule_format, of i] by (cases "fmlookup locations i") (force simp: location_def)+
  qed
  have "l2p_entries (Suc (nat ?m)) 0 0 fmempty (page @ []) = Inr ((?m + 1, l2p_items locations), [])"
    using l2p_entries_page [OF loc, of 0 "Suc (nat ?m)" 0 fmempty "[]"] m by (simp add: page_def l2p_items_def)
  then have pages: "l2p_pages (Suc 0) [(length page, Suc (nat ?m))] 0 fmempty page = Inr ((l2p_items locations, []), [])"
    by (simp del: l2p_entries.simps)
  have header: "l2p_page_header (2 ^ j) (writeUnsigned wl @ writeUnsigned wm @ page) = Inr ((length page, Suc (nat ?m)), page)"
    unfolding l2p_page_header_def by (rule checked_reads) (use len j plen count in auto)
  have two: "unat ((2 :: u64) ^ j) = 2 ^ j" using j by (simp add: unat_two_power)
  have "parseL2P index = Inr (fmupd revision (l2p_items locations) fmempty)"
    unfolding parseL2P_def index_def
    using rev pages header wr
    by (simp add: checked_reads powerOfTwo_power two writeUnsigned_room del: l2p_pages.simps)
  moreover have "length (index_marker ''L2P-INDEX'') = 10" by (simp add: index_marker_def)
  then have "length index \<le> 100 + 10 * nat ?m"
    unfolding index_def using len(2) writeUnsigned_bounds(2) [of 1] writeUnsigned_bounds(2) [of wr]
      writeUnsigned_bounds(2) [of wl] writeUnsigned_bounds(2) [of wm] writeUnsigned_bounds(2) [of "2 ^ j"] by simp
  moreover have "index \<noteq> []" by (simp add: index_def index_marker_def)
  ultimately show thesis using e that by blast
qed

section \<open>The second index is read back\<close>

text \<open>Entries that follow one another from \<open>offset\<close> to \<open>stop\<close>, none empty, with values a page can hold.\<close>

fun follows :: "int \<Rightarrow> p2l_entry list \<Rightarrow> int \<Rightarrow> bool" where
  "follows offset [] stop \<longleftrightarrow> offset = stop"
| "follows offset (e # es) stop \<longleftrightarrow>
     entry_offset e = offset \<and> 0 < entry_size e \<and> follows (offset + entry_size e) es stop"

definition entry_fits :: "p2l_entry \<Rightarrow> bool" where
  "entry_fits e \<longleftrightarrow> 0 \<le> entry_item e \<and> entry_item e < 2 ^ 40 \<and> entry_kind e \<le> 6 \<and> 0 \<le> entry_revision e \<and> entry_revision e < 2 ^ 63"

lemma follows_le: "follows offset es stop \<Longrightarrow> offset \<le> stop"
  by (induction es arbitrary: offset) fastforce+

lemma follows_append: "follows offset (es @ es') stop \<longleftrightarrow> (\<exists>m. follows offset es m \<and> follows m es' stop)"
  by (induction es arbitrary: offset) auto

lemma p2l_entry_read_written:
  assumes "entry_fits e" "0 \<le> compound" "compound < 2 ^ 60" "0 \<le> revision" "revision < 2 ^ 63"
    "0 \<le> entry_offset e" "0 < entry_size e" "entry_offset e + entry_size e \<le> int indexedSize" "int indexedSize < 2 ^ 63"
  shows "p2l_entry_read indexedSize (entry_offset e) compound revision
      (writeUnsigned (word_of_int (entry_size e)) @ writeSigned (entry_item e * 8 + int (entry_kind e) - compound) @
       writeSigned (entry_revision e - revision) @ writeUnsigned (ucast (entry_checksum e)) @ rest) = Inr (e, rest)"
proof -
  let ?c = "entry_item e * 8 + int (entry_kind e)"
  note e = assms(1) [unfolded entry_fits_def]
  define ws where "ws = (word_of_int (entry_size e) :: u64)"
  have size: "int (unat ws) = entry_size e" using assms(6-9) by (simp add: ws_def nat_word_of_int)
  have c: "0 \<le> ?c" "?c < 2 ^ 60" "?c mod 8 = int (entry_kind e)" "?c div 8 = entry_item e" using e by simp_all
  have fits: "fits_int64 (?c - compound)" "fits_int64 (entry_revision e - revision)"
    using e c assms(2-5) by (simp_all add: fits_int64_def)
  have add: "add_int64 m compound (?c - compound) = Inr ?c" "add_int64 m revision (entry_revision e - revision) = Inr (entry_revision e)" for m
    using e c assms(2-5) by (simp_all add: add_int64_def)
  have ck1: "unat (entry_checksum e) < 2 ^ 32" using unsigned_less [of "entry_checksum e"] by simp
  then have ck2: "unat (entry_checksum e) \<le> 2 ^ 32 - 1" by simp
  have ck: "unat (ucast (entry_checksum e) :: u64) = unat (entry_checksum e)"
    using ck1 by (simp add: unsigned_ucast_eq take_bit_nat_eq_self)
  have rec: "\<lparr>entry_offset = entry_offset e, entry_size = entry_size e, entry_kind = nat (int (entry_kind e)),
      entry_checksum = of_nat (unat (entry_checksum e)), entry_revision = entry_revision e, entry_item = entry_item e\<rparr> = e"
    by simp
  have valid: "\<not> (?c < 0 \<or> ?c mod 8 > 6)" using c e by simp
  have range: "\<not> (int (unat ws) > max_int64 \<or> entry_offset e > max_int64 - int (unat ws))"
    using assms(6-9) unfolding size by simp
  have read: "checked m (\<lambda>v rest. v \<noteq> 0 \<and> 0 \<le> entry_offset e \<and> entry_offset e \<le> int indexedSize \<and> int v \<le> int indexedSize - entry_offset e)
      unsigned_value (writeUnsigned ws @ r) = Inr (unat ws, r)" for m r
    by (rule checked_reads, simp, intro conjI) (use assms(6-9) size in linarith)+
  have read2: "checked m (\<lambda>v rest. v \<le> 2 ^ 32 - 1 \<and> 0 \<le> entry_revision e)
      unsigned_value (writeUnsigned (ucast (entry_checksum e)) @ r) = Inr (unat (entry_checksum e), r)" for m r
    by (rule checked_reads) (use e ck ck2 in auto)
  show ?thesis
    unfolding ws_def [symmetric] p2l_entry_read_def read and_then_simps prod.case signed_value_write [OF fits(1)] add(1)
      if_not_P [OF valid] signed_value_write [OF fits(2)] add(2) read2 if_not_P [OF range]
    using c(3,4) size rec by simp
qed

lemma p2l_page_Nil [simp]: "p2l_page compound revision es = [] \<longleftrightarrow> es = []"
  by (cases es) (simp_all add: Let_def writeUnsigned.simps [of "word_of_int _"])

definition compound_after :: "int \<Rightarrow> p2l_entry list \<Rightarrow> int" where
  "compound_after compound es = (if es = [] then compound else entry_item (last es) * 8 + int (entry_kind (last es)))"

definition revision_after :: "int \<Rightarrow> p2l_entry list \<Rightarrow> int" where
  "revision_after revision es = (if es = [] then revision else entry_revision (last es))"

lemma p2l_entries_page:
  assumes "follows offset es stop" "0 \<le> offset" "stop \<le> int indexedSize" "int indexedSize < 2 ^ 63"
    "list_all entry_fits es" "0 \<le> compound" "compound < 2 ^ 60" "0 \<le> revision" "revision < 2 ^ 63"
    "\<forall>k. fmlookup byOffset k \<noteq> None \<longrightarrow> k < offset"
  shows "p2l_entries indexedSize offset compound revision byOffset (p2l_page compound revision (es @ es')) =
    p2l_entries indexedSize stop (compound_after compound es) (revision_after revision es)
      (fold (\<lambda>e. fmupd (entry_offset e) e) es byOffset)
      (p2l_page (compound_after compound es) (revision_after revision es) es')"
  using assms
proof (induction es arbitrary: offset compound revision byOffset)
  case Nil
  then show ?case by (simp add: compound_after_def revision_after_def)
next
  case (Cons e es)
  let ?c = "entry_item e * 8 + int (entry_kind e)"
  from Cons.prems have e: "entry_offset e = offset" "0 < entry_size e" "follows (offset + entry_size e) es stop" "entry_fits e"
    by simp_all
  then have le: "offset + entry_size e \<le> stop" by (simp add: follows_le)
  have page: "p2l_page compound revision ((e # es) @ es') =
      writeUnsigned (word_of_int (entry_size e)) @ writeSigned (?c - compound) @
      writeSigned (entry_revision e - revision) @ writeUnsigned (ucast (entry_checksum e)) @ p2l_page ?c (entry_revision e) (es @ es')"
    by (simp add: Let_def)
  have read: "p2l_entry_read indexedSize offset compound revision (p2l_page compound revision ((e # es) @ es')) =
      Inr (e, p2l_page ?c (entry_revision e) (es @ es'))"
    unfolding page using p2l_entry_read_written [of e compound revision indexedSize] Cons.prems e le by simp
  have none: "fmlookup byOffset offset = None" using Cons.prems(10) by force
  have "p2l_entries indexedSize offset compound revision byOffset (p2l_page compound revision ((e # es) @ es')) =
      p2l_entries indexedSize (offset + entry_size e) ?c (entry_revision e) (fmupd offset e byOffset) (p2l_page ?c (entry_revision e) (es @ es'))"
    using read none by (subst p2l_entries.simps) (simp del: p2l_page.simps append.simps)
  also have "\<dots> = p2l_entries indexedSize stop (compound_after ?c es) (revision_after (entry_revision e) es)
      (fold (\<lambda>e. fmupd (entry_offset e) e) es (fmupd offset e byOffset))
      (p2l_page (compound_after ?c es) (revision_after (entry_revision e) es) es')"
    by (rule Cons.IH) (use Cons.prems e in \<open>auto simp: entry_fits_def\<close>)
  finally show ?case using e by (simp add: compound_after_def revision_after_def)
qed

lemma p2l_page_length: "length (p2l_page compound revision es) \<le> 40 * length es"
proof (induction es arbitrary: compound revision)
  case (Cons e es)
  have "length (writeSigned v) \<le> 10" for v unfolding writeSigned_def by (rule writeUnsigned_bounds)
  from this [of "entry_item e * 8 + int (entry_kind e) - compound"] this [of "entry_revision e - revision"]
    writeUnsigned_bounds(2) [of "word_of_int (entry_size e)"] writeUnsigned_bounds(2) [of "ucast (entry_checksum e)"]
    Cons [of "entry_item e * 8 + int (entry_kind e)" "entry_revision e"]
  show ?case by (simp add: Let_def)
qed simp

lemma follows_offsets: "follows offset es stop \<Longrightarrow> sorted_wrt (<) (map entry_offset es) \<and> (\<forall>e\<in>set es. offset \<le> entry_offset e)"
  by (induction es arbitrary: offset) fastforce+

lemma sorted_entries_fold:
  assumes "sorted_wrt (<) (map key es)"
  shows "map snd (sorted_entries (fold (\<lambda>e. fmupd (key e) e) es fmempty)) = es"
proof -
  have look: "fmlookup (fold (\<lambda>e. fmupd (key e) e) es m) k = (case map_of (map (\<lambda>e. (key e, e)) es) k of None \<Rightarrow> fmlookup m k | Some e \<Rightarrow> Some e)" for m k
    using assms
  proof (induction es arbitrary: m)
    case (Cons e es)
    then have "map_of (map (\<lambda>e. (key e, e)) es) (key e) = None" by (force simp: map_of_eq_None_iff)
    with Cons show ?case by (auto split: option.split)
  qed simp
  let ?m = "fold (\<lambda>e. fmupd (key e) e) es fmempty"
  have dist: "distinct (map key es)" using assms by (simp add: strict_sorted_iff)
  have m: "fmlookup ?m = map_of (map (\<lambda>e. (key e, e)) es)" by (rule ext) (simp add: look split: option.split)
  have "fset (fmdom ?m) = dom (fmlookup ?m)" by (simp add: fmdom.rep_eq)
  then have "fset (fmdom ?m) = set (map key es)" by (simp add: m dom_map_of_conv_image_fst image_image)
  then have keys: "sorted_list_of_fset (fmdom ?m) = map key es"
    using assms by (simp only: sorted_list_of_fset.rep_eq sorted_list_of_set.idem_if_sorted_distinct strict_sorted_iff)
  have "fmlookup ?m (key e) = Some e" if "e \<in> set es" for e
    unfolding m using dist that by (simp add: map_of_eq_Some_iff comp_def)
  then show ?thesis by (simp add: sorted_entries_def keys comp_def map_idI)
qed

definition unused_entry :: "int \<Rightarrow> int \<Rightarrow> int \<Rightarrow> p2l_entry" where
  "unused_entry revision dataSize pageSize =
     \<lparr>entry_offset = dataSize, entry_size = pageSize - dataSize, entry_kind = 0, entry_checksum = 0,
      entry_revision = revision, entry_item = 0\<rparr>"

text \<open>
  The index of a data section is read back unless the section fills its page exactly: the entry for
  the unused rest then has no size, which the reader refuses.
\<close>

lemma parseP2L_encode:
  assumes es: "follows 0 es dataSize" "list_all entry_fits es" "length es < 2 ^ 40"
    and size: "0 < dataSize" "dataSize < 2 ^ 40" and rev: "0 \<le> revision" "revision < 2 ^ 63"
  obtains index pageSize where "encodeP2L revision dataSize es = Some index"
    "length index \<le> 150 + 40 * length es" "index \<noteq> []" "dataSize \<le> pageSize"
    "pageSize = dataSize \<longleftrightarrow> (\<exists>k\<ge>20. dataSize = 2 ^ k)"
    "parseP2L index dataSize =
      (if pageSize = dataSize then Inl (Corrupt ''invalid P2L item size'')
       else Inr (es @ [unused_entry revision dataSize pageSize]))"
proof -
  define wd where "wd = (word_of_int dataSize :: u64)"
  define wr where "wr = (word_of_int revision :: u64)"
  have wd: "unat wd = nat dataSize" using size by (simp add: wd_def nat_word_of_int)
  have wr: "int (unat wr) = revision" using rev by (simp add: wr_def nat_word_of_int)
  have "unat wd \<le> 2 ^ 63" using size by (simp add: wd)
  then obtain j where j: "nextPowerOfTwo wd = Some (2 ^ j)" "nat dataSize \<le> 2 ^ j" "j \<le> 63" "j = 0 \<or> 2 ^ (j - 1) < nat dataSize"
    unfolding wd [symmetric] by (rule nextPowerOfTwo_reaches)
  have j40: "j \<le> 40"
  proof (rule ccontr)
    assume "\<not> j \<le> 40"
    then have "(2 :: nat) ^ 40 \<le> 2 ^ (j - 1)" by (intro power_increasing) simp_all
    moreover have "nat dataSize < 2 ^ 40" using size by (simp add: nat_less_iff)
    moreover have "2 ^ (j - 1) < nat dataSize" using j(4) \<open>\<not> j \<le> 40\<close> by (metis zero_le)
    ultimately show False by linarith
  qed
  define m where "m = max j 20"
  define wp where "wp = (2 ^ m :: u64)"
  have m: "20 \<le> m" "m \<le> 40" using j40 by (simp_all add: m_def)
  have wp: "unat wp = 2 ^ m" using m by (simp add: wp_def unat_two_power)
  then have wpi: "uint wp = 2 ^ m" by (simp add: uint_nat)
  have choose: "(if (2 :: u64) ^ j < push_bit 20 1 then push_bit 20 1 else 2 ^ j) = wp"
  proof -
    have b: "push_bit 20 (1 :: u64) = 2 ^ 20" by (simp add: push_bit_eq_mult)
    have "unat ((2 :: u64) ^ j) < unat ((2 :: u64) ^ 20) \<longleftrightarrow> (2 :: nat) ^ j < 2 ^ 20"
      using j40 by (simp only: unat_two_power)
    also have "\<dots> \<longleftrightarrow> j < 20" by (rule power_strict_increasing_iff) simp
    finally have "(2 :: u64) ^ j < 2 ^ 20 \<longleftrightarrow> j < 20" by (simp only: word_less_nat_alt)
    then show ?thesis unfolding b wp_def m_def max_def by (simp only: if_distrib not_less le_less if_True if_False split: if_split) auto
  qed
  let ?P = "2 ^ m :: int"
  define u where "u = unused_entry revision dataSize ?P"
  define page where "page = writeUnsigned 0 @ p2l_page 0 revision (es @ [u])"
  define wl where "wl = (of_nat (length page) :: u64)"
  have plen: "length page \<le> 50 + 40 * length es"
    unfolding page_def using writeUnsigned_bounds(2) [of 0] p2l_page_length [of 0 revision "es @ [u]"] by simp
  have wl: "unat wl = length page" using plen es(3) by (simp add: wl_def unat_of_nat)
  define index where "index = index_marker ''P2L-INDEX'' @ writeUnsigned wr @ writeUnsigned wd @ writeUnsigned wp @
      writeUnsigned 1 @ writeUnsigned wl @ page"
  have "max dataSize 1 = dataSize" using size by simp
  then have max: "word_of_int (max dataSize 1) = wd" by (simp add: wd_def)
  have enc: "encodeP2L revision dataSize es = Some index"
    unfolding encodeP2L_def max j(1) option.map Let_def choose wpi unused_entry_def [symmetric] u_def [symmetric]
    by (simp add: index_def page_def wl_def wd_def wr_def)
  have "length (index_marker ''P2L-INDEX'') = 10" by (simp add: index_marker_def)
  then have ilen: "length index \<le> 150 + 40 * length es"
    unfolding index_def using plen writeUnsigned_bounds(2) [of 1] writeUnsigned_bounds(2) [of wr]
      writeUnsigned_bounds(2) [of wl] writeUnsigned_bounds(2) [of wd] writeUnsigned_bounds(2) [of wp] by simp
  have inil: "index \<noteq> []" by (simp add: index_def index_marker_def)
  have "dataSize = int (nat dataSize)" using size by simp
  also have "\<dots> \<le> int (2 ^ j)" using j(2) by (simp only: of_nat_le_iff)
  also have "\<dots> \<le> ?P" by (simp add: m_def)
  finally have le: "dataSize \<le> ?P" .
  have exact: "?P = dataSize \<longleftrightarrow> (\<exists>k\<ge>20. dataSize = 2 ^ k)"
  proof
    assume "\<exists>k\<ge>20. dataSize = 2 ^ k"
    then obtain k where k: "20 \<le> k" "dataSize = 2 ^ k" by blast
    have kn: "nat dataSize = 2 ^ k" by (simp add: k(2) nat_power_eq)
    have "k \<le> j" using j(2) by (simp add: kn)
    moreover have "j \<le> k"
      using j(4) kn by (cases j) (auto simp: power_strict_increasing_iff)
    ultimately show "?P = dataSize" using k by (simp add: m_def)
  qed (use m in metis)
  have zero: "(nat dataSize - 1) div 2 ^ m = 0"
  proof -
    have "int (nat dataSize) \<le> int (2 ^ m)" using le size by simp
    then have "nat dataSize \<le> 2 ^ m" by (simp only: of_nat_le_iff)
    then have "nat dataSize - 1 < 2 ^ m" using size by linarith
    then show ?thesis by simp
  qed
  have one: "\<not> 1 > (2 ^ 64 - 1) div (2 :: nat) ^ m"
  proof -
    have "(2 :: nat) ^ m \<le> 2 ^ 40" using m by (intro power_increasing) simp_all
    then have "(2 :: nat) ^ m \<le> 2 ^ 64 - 1" by (rule order_trans) simp
    then show ?thesis by (simp add: div_greater_zero_iff Suc_le_eq)
  qed
  have P63: "int (2 ^ m) < 2 ^ 63"
  proof -
    have "(2 :: int) ^ m \<le> 2 ^ 40" using m by (intro power_increasing) simp_all
    then show ?thesis by simp
  qed
  have body: "p2l_entries (2 ^ m) 0 0 revision fmempty (p2l_page 0 revision (es @ [u])) =
      (if ?P = dataSize then Inl (Corrupt ''invalid P2L item size'')
       else Inr (fold (\<lambda>e. fmupd (entry_offset e) e) (es @ [u]) fmempty))"
  proof (cases "?P = dataSize")
    case True
    then have "entry_size u = 0" by (simp add: u_def unused_entry_def)
    then have "p2l_entry_read (2 ^ m) dataSize c r (p2l_page c r [u]) = Inl (Corrupt ''invalid P2L item size'')" for c r
      by (simp add: p2l_entry_read_def checked_def Let_def)
    then have "p2l_entries (2 ^ m) dataSize c r F (p2l_page c r [u]) = Inl (Corrupt ''invalid P2L item size'')" for c r F
      by (subst p2l_entries.simps) (simp del: p2l_page.simps)
    with True show ?thesis
      using p2l_entries_page [OF es(1) _ _ P63 es(2), of 0 revision fmempty "[u]"] le rev by simp
  next
    case False
    have "follows 0 (es @ [u]) ?P"
      using es(1) le False by (auto simp: follows_append u_def unused_entry_def)
    moreover have "list_all entry_fits (es @ [u])"
      using es(2) rev by (simp add: u_def unused_entry_def entry_fits_def)
    ultimately have "p2l_entries (2 ^ m) 0 0 revision fmempty (p2l_page 0 revision ((es @ [u]) @ [])) =
        p2l_entries (2 ^ m) ?P (compound_after 0 (es @ [u])) (revision_after revision (es @ [u]))
          (fold (\<lambda>e. fmupd (entry_offset e) e) (es @ [u]) fmempty) []"
      using p2l_entries_page [of 0 "es @ [u]" ?P "2 ^ m" 0 revision fmempty "[]"] P63 rev by simp
    with False show ?thesis by (simp add: p2l_entries.simps)
  qed
  have sorted: "map snd (sorted_entries (fold (\<lambda>e. fmupd (entry_offset e) e) (es @ [u]) fmempty)) = es @ [u]" if "?P \<noteq> dataSize"
  proof (rule sorted_entries_fold)
    have "follows 0 (es @ [u]) ?P"
      using es(1) le that by (auto simp: follows_append u_def unused_entry_def)
    then show "sorted_wrt (<) (map entry_offset (es @ [u]))" by (simp only: follows_offsets)
  qed
  have first: "checked ''invalid P2L item offset'' (\<lambda>v rest. int v \<le> dataSize) unsigned_value page =
      Inr (0, p2l_page 0 revision (es @ [u]))"
    unfolding page_def using size by (intro checked_reads) simp_all
  have pages: "p2l_pages (2 ^ m) dataSize revision [length page] fmempty page =
      (if ?P = dataSize then Inl (Corrupt ''invalid P2L item size'')
       else Inr (fold (\<lambda>e. fmupd (entry_offset e) e) (es @ [u]) fmempty, []))"
  proof -
    have "length page \<noteq> 0" by (simp add: page_def writeUnsigned.simps [of 0])
    then show ?thesis by (simp add: first body)
  qed
  have "int (unat wr) \<le> int 9223372036854775807" using wr rev by simp
  then have wr2: "unat wr \<le> 9223372036854775807" by (simp only: of_nat_le_iff)
  have parse: "parseP2L index dataSize =
      (if ?P = dataSize then Inl (Corrupt ''invalid P2L item size'') else Inr (es @ [u]))"
    unfolding parseP2L_def index_def
    using pages sorted wr wr2 rev size wd wl wp zero one
    by (simp add: checked_reads powerOfTwo_power writeUnsigned_room del: p2l_pages.simps fold.simps fold_append)
  show thesis
    by (rule that [OF enc ilen inil le exact]) (simp add: parse u_def)
qed

section \<open>The two readers agree\<close>

definition in_range :: "p2l_entry \<Rightarrow> bool" where
  "in_range e \<longleftrightarrow> 0 \<le> entry_offset e \<and> 0 < entry_size e \<and> entry_offset e + entry_size e \<le> max_int64"

lemma p2l_entries_range:
  "p2l_entries indexedSize offset compound revision byOffset data = Inr m \<Longrightarrow>
     (\<And>k e. fmlookup byOffset k = Some e \<Longrightarrow> in_range e) \<Longrightarrow> fmlookup m k = Some e \<Longrightarrow> in_range e"
proof (induction indexedSize offset compound revision byOffset data arbitrary: k e rule: p2l_entries.induct)
  case (1 indexedSize offset compound revision byOffset data)
  show ?case
  proof (cases "data = []")
    case True
    then show ?thesis using "1.prems" by (simp add: p2l_entries.simps)
  next
    case False
    with "1.prems"(1) obtain entry rest where r: "p2l_entry_read indexedSize offset compound revision data = Inr (entry, rest)"
      by (subst (asm) p2l_entries.simps) (auto split: sum.splits)
    have ok: "in_range entry" using p2l_entry_read_Inr [OF r] by (simp add: in_range_def)
    have next_: "\<not> (fmlookup byOffset offset \<noteq> None \<and> fmlookup byOffset offset \<noteq> Some entry)"
      "p2l_entries indexedSize (offset + entry_size entry) (entry_item entry * 8 + int (entry_kind entry))
         (entry_revision entry) (fmupd offset entry byOffset) rest = Inr m"
      using "1.prems"(1) r False by (subst (asm) p2l_entries.simps; simp split: if_splits)+
    show ?thesis
      by (rule "1.IH" [OF False r refl next_ _ "1.prems"(3)]) (use "1.prems"(2) ok in \<open>auto split: if_splits\<close>)
  qed
qed

lemma p2l_pages_range:
  "p2l_pages indexedSize fileSize firstRevision sizes byOffset data = Inr (m, rest) \<Longrightarrow>
     (\<And>k e. fmlookup byOffset k = Some e \<Longrightarrow> in_range e) \<Longrightarrow> fmlookup m k = Some e \<Longrightarrow> in_range e"
proof (induction indexedSize fileSize firstRevision sizes byOffset data arbitrary: k e rule: p2l_pages.induct)
  case (2 indexedSize fileSize firstRevision encodedSize sizes byOffset data)
  show ?case
  proof (cases "encodedSize = 0")
    case True
    then show ?thesis using 2 by (simp split: if_splits)
  next
    case False
    with "2.prems"(1) obtain offset page byOffset' where r:
      "\<not> encodedSize > length data" "checked ''invalid P2L item offset'' (\<lambda>v rest. int v \<le> fileSize) unsigned_value (take encodedSize data) = Inr (offset, page)"
      "p2l_entries indexedSize (int offset) 0 firstRevision byOffset page = Inr byOffset'"
      "p2l_pages indexedSize fileSize firstRevision sizes byOffset' (drop encodedSize data) = Inr (m, rest)"
      by (auto simp: and_then_Inr split: if_splits)
    from p2l_entries_range [OF r(3)] "2.prems"(2) have ok: "\<And>k e. fmlookup byOffset' k = Some e \<Longrightarrow> in_range e" by blast
    show ?thesis by (rule "2.IH"(2) [OF r(1) False r(4) ok "2.prems"(3)])
  qed
qed simp

lemma parseP2L_range:
  assumes "parseP2L index fileSize = Inr es"
  shows "list_all in_range es"
proof -
  obtain n fr sizes data m where m: "p2l_pages n fileSize fr sizes fmempty data = Inr (m, [])" "es = map snd (sorted_entries m)"
    using assms unfolding parseP2L_def by (auto simp: and_then_Inr split: if_splits)
  have "in_range e" if "fmlookup m k = Some e" for k e
    by (rule p2l_pages_range [OF m(1) _ that]) simp
  then show ?thesis by (auto simp: m(2) list_all_iff sorted_entries_iff)
qed

lemma read_at_add:
  "0 \<le> offset \<Longrightarrow> 0 \<le> a \<Longrightarrow> 0 \<le> b \<Longrightarrow> read_at file offset (a + b) = read_at file offset a @ read_at file (offset + a) b"
  by (simp add: read_at_def nat_add_distrib take_add drop_drop add.commute)

lemma readerRangeAllZero_read: "0 \<le> offset \<Longrightarrow> readerRangeAllZero file offset sz = allZero (read_at file offset sz)"
proof (induction "file" offset sz rule: readerRangeAllZero.induct)
  case (1 "file" offset sz)
  show ?case
  proof (cases "sz > 0")
    case True
    define len where "len = min sz (64 * 1024)"
    have len: "0 \<le> len" "len \<le> sz" "min sz 65536 = len" using True by (simp_all add: len_def)
    have "readerRangeAllZero file (offset + len) (sz - len) = allZero (read_at file (offset + len) (sz - len))"
      if "allZero (read_at file offset len)"
      by (rule "1.IH" [OF True len_def]) (use that "1.prems" len in simp_all)
    moreover have "read_at file offset sz = read_at file offset len @ read_at file (offset + len) (sz - len)"
      using read_at_add [of offset len "sz - len" "file"] "1.prems" len by simp
    ultimately show ?thesis
      using True by (subst readerRangeAllZero.simps) (auto simp: len(3) allZero_def)
  next
    case False
    then show ?thesis by (simp add: readerRangeAllZero.simps read_at_def allZero_def)
  qed
qed

lemma fnv_step_append: "4 dvd length a \<Longrightarrow> fnv_step h (a @ b) = fnv_step (fnv_step h a) b"
proof (induction h a rule: fnv_step.induct)
  case (1 h0 h1 h2 h3 a b c d data)
  then have "4 dvd length data" by (simp add: dvd_eq_mod_eq_0)
  with 1 show ?case by simp
qed (simp_all add: dvd_eq_mod_eq_0)

lemma fnv_lanes_short:
  "length b < 4 \<Longrightarrow> fnv_lanes h0 h1 h2 h3 b = put_u32 h0 @ put_u32 h1 @ put_u32 h2 @ put_u32 h3 @ b"
  by (cases b; cases "tl b"; cases "tl (tl b)") auto

lemma fnv_lanes_step:
  "4 dvd length a \<Longrightarrow> length b < 4 \<Longrightarrow> fnv_lanes h0 h1 h2 h3 (a @ b) =
     (case fnv_step (h0, h1, h2, h3) a of (h0, h1, h2, h3) \<Rightarrow> put_u32 h0 @ put_u32 h1 @ put_u32 h2 @ put_u32 h3 @ b)"
proof (induction h0 h1 h2 h3 a rule: fnv_lanes.induct)
  case (1 h0 h1 h2 h3 a b c d data)
  then have "4 dvd length data" by (simp add: dvd_eq_mod_eq_0)
  with 1 show ?case by simp
qed (simp_all add: dvd_eq_mod_eq_0 fnv_lanes_short)

lemma read_at_length: "0 \<le> offset \<Longrightarrow> 0 \<le> sz \<Longrightarrow> offset + sz \<le> int (length file) \<Longrightarrow> length (read_at file offset sz) = nat sz"
  by (simp add: read_at_def)

lemma fnv_read_step:
  "0 \<le> offset \<Longrightarrow> 4 dvd remaining \<Longrightarrow> 0 \<le> remaining \<Longrightarrow> offset + remaining \<le> int (length file) \<Longrightarrow>
     fnv_read file offset remaining h = fnv_step h (read_at file offset remaining)"
proof (induction "file" offset remaining h rule: fnv_read.induct)
  case (1 "file" offset remaining h)
  show ?case
  proof (cases "remaining > 0")
    case True
    define len where "len = min remaining (64 * 1024)"
    have len: "0 \<le> len" "len \<le> remaining" "min remaining 65536 = len" using True by (simp_all add: len_def)
    have four: "4 dvd len" "4 dvd remaining - len" using "1.prems"(2) by (simp_all add: len_def min_def)
    have l: "length (read_at file offset len) = nat len"
      by (rule read_at_length) (use "1.prems" len in simp_all)
    have d: "4 dvd length (read_at file offset len)"
      unfolding l using four(1) len(1) by presburger
    have "fnv_read file (offset + len) (remaining - len) (fnv_step h (read_at file offset len)) =
        fnv_step (fnv_step h (read_at file offset len)) (read_at file (offset + len) (remaining - len))"
      by (rule "1.IH" [OF True len_def]) (use "1.prems" len four in simp_all)
    also have "\<dots> = fnv_step h (read_at file offset (len + (remaining - len)))"
      unfolding fnv_step_append [OF d, symmetric] using "1.prems"(1) len by (subst read_at_add) simp_all
    finally show ?thesis using True by (subst fnv_read.simps) (simp add: len(3))
  next
    case False
    then show ?thesis by (cases h) (simp add: fnv_read.simps read_at_def)
  qed
qed

lemma fnv1a32x4Reader_read:
  assumes "0 \<le> offset" "0 \<le> sz" "offset + sz \<le> int (length file)"
  shows "fnv1a32x4Reader file offset sz = fnv1a32x4 (read_at file offset sz)"
proof -
  define complete where "complete = sz - sz mod 4"
  define trailing where "trailing = read_at file (offset + complete) (sz - complete)"
  have c: "0 \<le> complete" "complete \<le> sz" "sz - complete < 4" "4 dvd complete"
    using assms(2) pos_mod_bound [of 4 sz] zmod_le_nonneg_dividend [OF assms(2), of 4] by (simp_all add: complete_def dvd_minus_mod)
  have l: "length (read_at file offset complete) = nat complete" "length trailing = nat (sz - complete)"
    using assms c by (simp_all add: read_at_length trailing_def)
  have four: "4 dvd length (read_at file offset complete)"
    unfolding l using c(1,4) by presburger
  have "length trailing < 4" unfolding l using c(3) by simp
  from fnv_lanes_step [OF four this]
  have "fnv1a32x4 (read_at file offset complete @ trailing) =
      (case fnv_step (2166136261, 2166136261, 2166136261, 2166136261) (read_at file offset complete) of
        (h0, h1, h2, h3) \<Rightarrow> fnv1a (put_u32 h0 @ put_u32 h1 @ put_u32 h2 @ put_u32 h3 @ trailing))"
    by (simp add: fnv1a32x4_def split: prod.split)
  moreover have "read_at file offset complete @ trailing = read_at file offset sz"
    using read_at_add [OF assms(1) c(1), of "sz - complete" "file"] c(2) by (simp add: trailing_def)
  moreover have "fnv_read file offset complete h = fnv_step h (read_at file offset complete)" for h
    by (rule fnv_read_step) (use assms c in simp_all)
  ultimately show ?thesis
    by (simp add: fnv1a32x4Reader_def Let_def complete_def [symmetric] trailing_def)
qed

lemma validate_readers:
  assumes "list_all in_range es" "0 \<le> stop" "int (length data) = dataSize" "file = data @ rest"
  shows "validate_entries_reader file dataSize locations stop es = validate_entries data locations stop es"
  using assms(1,2)
proof (induction es arbitrary: stop)
  case (Cons e es)
  have e: "0 \<le> entry_offset e" "0 < entry_size e" "\<not> (entry_size e < 0 \<or> entry_offset e > max_int64 - entry_size e)"
    using Cons.prems by (auto simp: in_range_def)
  have IH: "validate_entries_reader file dataSize locations (entry_offset e + entry_size e) es =
      validate_entries data locations (entry_offset e + entry_size e) es"
    by (rule Cons.IH) (use Cons.prems e in auto)
  have zero: "read_at file (entry_offset e) (dataSize - entry_offset e) = drop (nat (entry_offset e)) data" if "entry_offset e < dataSize"
    using that e assms(3,4) by (auto simp: read_at_def)
  have slice: "go_slice data (entry_offset e) (entry_offset e + entry_size e) = Some (read_at file (entry_offset e) (entry_size e))"
    if "entry_offset e + entry_size e \<le> dataSize"
    using that e assms(3,4) by (auto simp: read_at_def go_slice_def)
  have fnv: "fnv1a32x4Reader file (entry_offset e) (entry_size e) = fnv1a32x4 (read_at file (entry_offset e) (entry_size e))"
    if "entry_offset e + entry_size e \<le> dataSize"
    by (rule fnv1a32x4Reader_read) (use e assms(3,4) that in simp_all)
  show ?case
    using e(3) IH zero slice fnv assms(3) readerRangeAllZero_read [OF e(1)] by (simp add: Let_def) auto
qed simp

lemma footer_fields_range:
  assumes "footer_fields fs base = Inr footer"
  shows "0 \<le> l2p_offset footer" "l2p_offset footer < p2l_offset footer" "p2l_offset footer < base" "end_offset footer = base"
  using assms by (auto simp: footer_fields_def split: if_splits option.splits)

lemma parseLogicalIndexes_agree:
  assumes "2 \<le> length file"
  shows "parseLogicalIndexesFile md5 file = parseLogicalIndexes md5 file"
proof -
  obtain n where n: "unat (last file) = n" by simp
  let ?n = "n" and ?b = "length file - n - 1"
  have ne: "file \<noteq> []" using assms by auto
  show ?thesis
  proof (cases "?n = 0 \<or> ?n + 1 > length file")
    case True
    then show ?thesis using assms ne
      unfolding parseLogicalIndexesFile_def parseLogicalIndexes_def parseLogicalFooter_def Let_def n by auto
  next
    case False
    then have b: "int (length file) - int ?n - 1 = int ?b" "?b + ?n + 1 = length file" by linarith+
    have field_text: "butlast (read_at file (int ?b) (int ?n + 1)) = take ?n (drop ?b file)"
    proof -
      have "read_at file (int ?b) (int ?n + 1) = take (Suc ?n) (drop ?b file)" by (simp add: read_at_def nat_add_distrib)
      moreover have "Suc ?n \<le> length (drop ?b file)" using b(2) by (simp only: length_drop)
      ultimately show ?thesis by (simp only: butlast_take diff_Suc_1)
    qed
    have footer: "parseLogicalFooterAt (read_at file (int ?b) (int ?n + 1)) (int ?b) = parseLogicalFooter file"
      using False ne unfolding parseLogicalFooterAt_def parseLogicalFooter_def field_text Let_def n by simp
    have file_: "parseLogicalIndexesFile md5 file =
        and_then (parseLogicalFooter file) (\<lambda>footer.
          let indexData = read_at file (l2p_offset footer) (end_offset footer - l2p_offset footer);
              l2pEnd = nat (p2l_offset footer - l2p_offset footer);
              l2pData = take l2pEnd indexData; p2lData = drop l2pEnd indexData in
          and_then (checkMD5 md5 l2pData (l2p_digest footer) ''L2P'') (\<lambda>_.
          and_then (checkMD5 md5 p2lData (p2l_digest footer) ''P2L'') (\<lambda>_.
          and_then (parseL2P l2pData) (\<lambda>locations.
          and_then (parseP2L p2lData (l2p_offset footer)) (\<lambda>entries.
          and_then (validateLogicalIndexesReader file (l2p_offset footer) locations entries) (\<lambda>_.
          Inr (locations, l2p_offset footer)))))))"
      using False assms unfolding parseLogicalIndexesFile_def Let_def n b(1) footer by simp
    show ?thesis
    proof (cases "parseLogicalFooter file")
      case (Inl err)
      then show ?thesis by (simp add: file_ parseLogicalIndexes_def)
    next
      case (Inr footer)
      then have "footer_fields (Fields (text_of_bytes (take ?n (drop ?b file)))) (int ?b) = Inr footer"
        using False ne unfolding parseLogicalFooter_def Let_def n by simp
      note r = footer_fields_range [OF this]
      obtain l p where lp: "l2p_offset footer = int l" "p2l_offset footer = int p"
        using r by (metis nonneg_int_cases order_less_imp_le order_trans)
      then have lt: "l < p" "p < ?b" using r by simp_all
      define l2pData where "l2pData = take (p - l) (drop l file)"
      define p2lData where "p2lData = take (?b - p) (drop p file)"
      have s: "slice_or_panic file (int l) (int p) = Inr l2pData" "slice_or_panic file (int p) (int ?b) = Inr p2lData"
        "slice_or_panic file 0 (int l) = Inr (take l file)"
        using lt b(2) go_slice_nat [of l p "file"] go_slice_nat [of p ?b "file"] go_slice_nat [of 0 l "file"]
        by (simp_all add: slice_or_panic_def l2pData_def p2lData_def)
      have nn: "nat (int x - int y) = x - y" for x y by simp
      have d: "take (nat (int p - int l)) (read_at file (int l) (int ?b - int l)) = l2pData"
        "drop (nat (int p - int l)) (read_at file (int l) (int ?b - int l)) = p2lData"
        unfolding read_at_def nn nat_int l2pData_def p2lData_def using lt by (simp_all add: drop_take min_def)
      have ll: "length (take l file) = l" using lt by simp
      have valid: "validateLogicalIndexesReader file (int l) locations es = validateLogicalIndexes (take l file) locations es"
        if "parseP2L p2lData (int l) = Inr es" for locations es
        unfolding validateLogicalIndexesReader_def validateLogicalIndexes_def ll
        using validate_readers [OF parseP2L_range [OF that] order_refl, of "take l file" "int l" "file" "drop l file" locations]
        by (simp only: ll append_take_drop_id)
      have tail: "and_then (parseP2L p2lData (int l)) (\<lambda>entries.
            and_then (validateLogicalIndexesReader file (int l) locations entries) (\<lambda>_. Inr (locations, int l))) =
          and_then (parseP2L p2lData (int l)) (\<lambda>entries.
            and_then (validateLogicalIndexes (take l file) locations entries) (\<lambda>_. Inr (locations, int l)))" for locations
        using valid by (cases "parseP2L p2lData (int l)") simp_all
      show ?thesis
        unfolding file_ parseLogicalIndexes_def Inr and_then_simps lp r(4) s Let_def d tail ..
    qed
  qed
qed

section \<open>Written revision files are readable\<close>

definition item_fits :: "revision_item \<Rightarrow> bool" where
  "item_fits i \<longleftrightarrow> 0 \<le> item_number i \<and> item_number i < 2 ^ 40 \<and> 1 \<le> item_kind i \<and> item_kind i \<le> 6 \<and> item_bytes i \<noteq> []"

definition data_of :: "revision_item list \<Rightarrow> bytes" where
  "data_of items = concat (map item_bytes items)"

definition places_of :: "int \<Rightarrow> revision_item list \<Rightarrow> (int \<times> int) list" where
  "places_of offset items = fst (snd (lay_out 0 offset items))"

definition entries_of :: "int \<Rightarrow> int \<Rightarrow> revision_item list \<Rightarrow> p2l_entry list" where
  "entries_of revision offset items = snd (snd (lay_out revision offset items))"

lemma data_of_simps [simp]: "data_of [] = []" "data_of (i # items) = item_bytes i @ data_of items"
  "data_of (a @ b) = data_of a @ data_of b"
  by (simp_all add: data_of_def)

lemma places_of_simps [simp]: "places_of offset [] = []"
  "places_of offset (i # items) = (item_number i, offset) # places_of (offset + int (length (item_bytes i))) items"
  by (simp_all add: places_of_def Let_def split_beta)

lemma entries_of_simps [simp]: "entries_of revision offset [] = []"
  "entries_of revision offset (i # items) =
     \<lparr>entry_offset = offset, entry_size = int (length (item_bytes i)), entry_kind = item_kind i,
      entry_checksum = fnv1a32x4 (item_bytes i), entry_revision = revision, entry_item = item_number i\<rparr> #
     entries_of revision (offset + int (length (item_bytes i))) items"
  by (simp_all add: entries_of_def Let_def split_beta)

lemma lay_out_parts: "lay_out revision offset items = (data_of items, places_of offset items, entries_of revision offset items)"
  by (induction items arbitrary: offset) (simp_all add: Let_def)

lemma places_append: "places_of offset (a @ b) = places_of offset a @ places_of (offset + int (length (data_of a))) b"
  by (induction a arbitrary: offset) (simp_all add: add.assoc)

lemma places_numbers: "map fst (places_of offset items) = map item_number items"
  by (induction items arbitrary: offset) simp_all

lemma places_range:
  "list_all item_fits items \<Longrightarrow> (n, c) \<in> set (places_of offset items) \<Longrightarrow> offset \<le> c \<and> c < offset + int (length (data_of items))"
proof (induction items arbitrary: offset)
  case (Cons i items)
  then have len: "0 < int (length (item_bytes i))" by (simp add: item_fits_def)
  from Cons.prems(2) consider "c = offset" | "(n, c) \<in> set (places_of (offset + int (length (item_bytes i))) items)" by auto
  then show ?case
  proof cases
    case 1
    with len show ?thesis unfolding data_of_simps length_append of_nat_add by linarith
  next
    case 2
    with Cons.IH Cons.prems(1) len show ?thesis by fastforce
  qed
qed simp

lemma entries_follow:
  "list_all item_fits items \<Longrightarrow> follows offset (entries_of revision offset items) (offset + int (length (data_of items)))"
proof (induction items arbitrary: offset)
  case (Cons i items)
  then show ?case using Cons.IH [of "offset + int (length (item_bytes i))"] by (simp add: item_fits_def add.assoc)
qed simp

lemma entries_fit: "list_all item_fits items \<Longrightarrow> 0 \<le> revision \<Longrightarrow> revision < 2 ^ 63 \<Longrightarrow> list_all entry_fits (entries_of revision offset items)"
  by (induction items arbitrary: offset) (simp_all add: item_fits_def entry_fits_def)

lemma entries_length: "length (entries_of revision offset items) = length items"
  by (induction items arbitrary: offset) simp_all

lemma items_le_data: "list_all item_fits items \<Longrightarrow> length items \<le> length (data_of items)"
proof (induction items)
  case (Cons i items)
  then have "1 \<le> length (item_bytes i)" by (simp add: item_fits_def Suc_le_eq)
  moreover have "length items \<le> length (data_of items)" using Cons by simp
  ultimately show ?case unfolding data_of_simps length_append length_Cons by linarith
qed simp

lemma validate_lay_out:
  assumes "list_all item_fits items" "\<forall>(n, c)\<in>set (places_of offset items). location_of locations revision n = c"
    "offset = int (length before)"
  shows "validate_entries (before @ data_of items @ after) locations offset (entries_of revision offset items @ es) =
    validate_entries (before @ data_of items @ after) locations (offset + int (length (data_of items))) es"
  using assms
proof (induction items arbitrary: offset before)
  case (Cons i items)
  let ?next = "offset + int (length (item_bytes i))"
  have i: "item_kind i \<noteq> 0" "location_of locations revision (item_number i) = offset"
    using Cons.prems by (auto simp: item_fits_def)
  have IH: "validate_entries ((before @ item_bytes i) @ data_of items @ after) locations ?next (entries_of revision ?next items @ es) =
      validate_entries ((before @ item_bytes i) @ data_of items @ after) locations (?next + int (length (data_of items))) es"
    by (rule Cons.IH) (use Cons.prems in auto)
  have slice: "go_slice (before @ item_bytes i @ data_of items @ after) (int (length before)) (int (length before) + int (length (item_bytes i))) = Some (item_bytes i)"
    using go_slice_nat [of "length before" "length before + length (item_bytes i)" "before @ item_bytes i @ data_of items @ after"] by simp
  show ?case using i IH slice Cons.prems(3) by (simp add: Let_def add.assoc)
qed simp

text \<open>The nearest offset behind \<open>offset\<close>.\<close>

lemma closer_nearest:
  "stop \<le> start \<Longrightarrow> stop = start \<or> stop \<in> set candidates \<Longrightarrow> offset < stop \<Longrightarrow> (\<forall>c\<in>set candidates. offset < c \<longrightarrow> stop \<le> c) \<Longrightarrow>
     fold (closer offset) candidates start = stop"
  by (induction candidates arbitrary: start) (auto simp: closer_def)

lemma fold_fmupd_places:
  "distinct (map fst places) \<Longrightarrow> fmlookup (fold (\<lambda>(item, offset). fmupd item offset) places fmempty) n = map_of places n"
  by (simp add: fold_fmupd_lookup split: option.split)

lemma footer_read:
  assumes md5: "\<And>x. length (md5 x) = 16" and l: "l < p" "p < 2 ^ 60" "p < base"
  shows "footer_fields (Fields (footer_text md5 l l2p p p2l)) (int base) =
    Inr \<lparr>l2p_offset = int l, p2l_offset = int p, end_offset = int base,
      l2p_digest = hex_encode (md5 l2p), p2l_digest = hex_encode (md5 p2l)\<rparr>"
proof -
  have hex_plain: "plain (hex_encode b)" for b
  proof (induction b)
    case (Cons x b)
    have "\<forall>n\<in>{0..<16}. \<not> starts_space (hex_digits ! n)" by code_simp
    moreover have "unat x < 256" using unsigned_less [of x] by simp
    then have "unat x div 16 < 16" "unat x mod 16 < 16" by simp_all
    ultimately show ?case using Cons by simp
  qed simp
  have ne: "hex_encode (md5 x) \<noteq> []" for x
    using md5 [of x] by (cases "md5 x") simp_all
  have fs: "Fields (footer_text md5 l l2p p p2l) = [utoa l, hex_encode (md5 l2p), utoa p, hex_encode (md5 p2l)]"
    unfolding footer_text_def using hex_plain ne by (simp add: Fields_words Fields_word plain_digits)
  show ?thesis
    unfolding footer_fields_def fs using l md5 by (simp add: parse_int_utoa)
qed

lemma written_file:
  assumes md5: "\<forall>x. length (md5 x) = 16"
    and items: "items \<noteq> []" "list_all item_fits items" "distinct (map item_number items)"
    and size: "length (data_of items) < 2 ^ 40" and rev: "0 \<le> revision" "revision < 2 ^ 63"
  obtains contents locations where "logicalRevision md5 revision items = Inr contents"
    "parseLogicalIndexesFile md5 contents =
       (if \<exists>k\<ge>20. length (data_of items) = 2 ^ k then Inl (Corrupt ''invalid P2L item size'')
        else Inr (fmupd revision (l2p_items locations) fmempty, int (length (data_of items))))"
    "\<And>n. fmlookup locations n = map_of (places_of 0 items) n" "\<exists>rest. contents = data_of items @ rest"
proof -
  let ?data = "data_of items" and ?n = "int (length (data_of items))"
  define locations where "locations = fold (\<lambda>(item, offset). fmupd item offset) (places_of 0 items) fmempty"
  have loc: "fmlookup locations n = map_of (places_of 0 items) n" for n
    unfolding locations_def using items(3) by (intro fold_fmupd_places) (simp add: places_numbers)
  have places: "0 \<le> k \<and> k < 2 ^ 40 \<and> 0 \<le> v \<and> v < ?n" if "(k, v) \<in> set (places_of 0 items)" for k v
  proof -
    have "k \<in> item_number ` set items" using that places_numbers [of 0 items] by (metis fst_conv image_eqI image_set)
    then show ?thesis using places_range [OF items(2) that] items(2) by (auto simp: list_all_iff item_fits_def)
  qed
  have dom: "\<forall>k v. fmlookup locations k = Some v \<longrightarrow> 0 \<le> k \<and> k < 2 ^ 40 \<and> 0 \<le> v \<and> v \<le> 2 ^ 62"
    using places size by (fastforce simp: loc dest!: map_of_SomeD)
  have dom40: "\<forall>k v. fmlookup locations k = Some v \<longrightarrow> 0 \<le> k \<and> k < 2 ^ 40" using dom by blast
  obtain l2p where l2p: "encodeL2P revision locations = Some l2p"
    "parseL2P l2p = Inr (fmupd revision (l2p_items locations) fmempty)"
    "length l2p \<le> 100 + 10 * nat (l2p_maximum locations)" "l2p \<noteq> []"
    by (rule parseL2P_encode [OF dom rev])
  have "l2p_maximum locations < 2 ^ 40" "0 \<le> l2p_maximum locations"
    using l2p_maximum_bound(1,2) [OF dom40] by simp_all
  then have l2p_length: "length l2p \<le> 100 + 10 * 2 ^ 40" using l2p(3) by simp
  let ?es = "entries_of revision 0 items"
  have ne: "0 < length ?data" using items_le_data [OF items(2)] items(1) by (metis length_greater_0_conv not_less order.strict_trans1)
  have es: "follows 0 ?es ?n" "list_all entry_fits ?es" "length ?es < 2 ^ 40"
    using entries_follow [OF items(2), of 0 revision] entries_fit [OF items(2) rev] items_le_data [OF items(2)] size
    by (simp_all add: entries_length)
  obtain p2l pageSize where p2l: "encodeP2L revision ?n ?es = Some p2l"
    "length p2l \<le> 150 + 40 * length ?es" "p2l \<noteq> []" "?n \<le> pageSize" "(pageSize = ?n) = (\<exists>k\<ge>20. ?n = 2 ^ k)"
    "parseP2L p2l ?n = (if pageSize = ?n then Inl (Corrupt ''invalid P2L item size'')
       else Inr (?es @ [unused_entry revision ?n pageSize]))"
    by (rule parseP2L_encode [OF es _ _ rev]) (use ne size in simp_all)
  let ?l = "length ?data" and ?p = "length ?data + length l2p"
  let ?footer = "footer_text md5 ?l l2p ?p p2l"
  have small: "?p < 10 ^ 19" using size l2p_length by simp
  then have "length (utoa ?l) \<le> 19" "length (utoa ?p) \<le> 19" by (auto intro!: utoa_length)
  then have flen: "length ?footer \<le> 255" "length ?footer \<noteq> 0" using md5 by (simp_all add: footer_text_def)
  define contents where "contents = ?data @ l2p @ p2l @ bytes_of_text ?footer @ [of_nat (length ?footer)]"
  have written: "logicalRevision md5 revision items = Inr contents"
    unfolding logicalRevision_def lay_out_parts prod.case Let_def locations_def [symmetric] l2p(1) p2l(1)
    using flen by (simp add: contents_def)
  have tail: "\<exists>rest. contents = ?data @ rest" by (simp add: contents_def)
  define footer where "footer = ?footer"
  define base where "base = ?p + length p2l"
  have flen': "length footer \<le> 255" "length footer \<noteq> 0" using flen by (simp_all add: footer_def)
  have last: "unat (last contents) = length footer"
    using flen' by (simp add: contents_def footer_def [symmetric] unat_of_nat)
  have size_base: "length contents = base + length footer + 1" "length contents - length footer - 1 = base"
    by (simp_all add: contents_def base_def footer_def)
  have drop_base: "take (length footer) (drop base contents) = bytes_of_text footer"
    by (simp add: contents_def base_def footer_def)
  have l2p_slice: "slice_or_panic contents (int ?l) (int ?p) = Inr l2p"
    using go_slice_nat [of ?l ?p contents] by (simp add: slice_or_panic_def contents_def)
  have p2l_slice: "slice_or_panic contents (int ?p) (int base) = Inr p2l"
    using go_slice_nat [of ?p base contents] by (simp add: slice_or_panic_def contents_def base_def)
  have data_slice: "slice_or_panic contents 0 (int ?l) = Inr ?data"
    using go_slice_nat [of 0 ?l contents] by (simp add: slice_or_panic_def contents_def)
  have bounds: "?l < ?p" "?p < 2 ^ 60" "?p < base"
    using l2p(4) p2l(3) size l2p_length by (simp_all add: base_def)
  have footer_fields: "footer_fields (Fields footer) (int base) = Inr \<lparr>l2p_offset = int ?l, p2l_offset = int ?p,
      end_offset = int base, l2p_digest = hex_encode (md5 l2p), p2l_digest = hex_encode (md5 p2l)\<rparr>"
    unfolding footer_def by (rule footer_read [OF _ bounds]) (simp add: md5)
  have fields: "parseLogicalFooter contents = Inr \<lparr>l2p_offset = int ?l, p2l_offset = int ?p, end_offset = int base,
      l2p_digest = hex_encode (md5 l2p), p2l_digest = hex_encode (md5 p2l)\<rparr>"
    unfolding parseLogicalFooter_def Let_def last size_base(2) drop_base text_of_bytes_of_text footer_fields
    using flen' by (simp add: size_base(1)) (simp add: contents_def)
  have location: "location_of (fmupd revision (l2p_items locations) fmempty) revision n = c"
    if "(n, c) \<in> set (places_of 0 items)" for n c
  proof -
    have "fmlookup locations n = Some c"
      unfolding loc using that items(3) by (simp add: map_of_is_SomeI places_numbers)
    moreover from this have "n \<le> l2p_maximum locations" "0 \<le> n" using l2p_maximum_bound(3) [OF dom40] dom by auto
    ultimately show ?thesis by (simp add: location_of_def l2p_items_def fmlookup_fold_fmupd location_def)
  qed
  let ?locations = "fmupd revision (l2p_items locations) fmempty" and ?unused = "unused_entry revision ?n pageSize"
  have "validate_entries ([] @ ?data @ []) ?locations 0 (?es @ [?unused]) =
      validate_entries ([] @ ?data @ []) ?locations (0 + ?n) [?unused]"
    using location by (intro validate_lay_out [OF items(2)]) auto
  then have valid: "validateLogicalIndexes ?data ?locations (?es @ [?unused]) = Inr ()"
    using p2l(4) by (simp add: validateLogicalIndexes_def final_page_def unused_entry_def)
  have "parseLogicalIndexesFile md5 contents = parseLogicalIndexes md5 contents"
    by (rule parseLogicalIndexes_agree) (use size_base bounds(3) in simp)
  then have "parseLogicalIndexesFile md5 contents = and_then (parseP2L p2l ?n) (\<lambda>entries.
      and_then (validateLogicalIndexes ?data (fmupd revision (l2p_items locations) fmempty) entries) (\<lambda>_.
      Inr (fmupd revision (l2p_items locations) fmempty, ?n)))"
    unfolding parseLogicalIndexes_def fields
    by (simp del: of_nat_add add: l2p_slice p2l_slice data_slice checkMD5_def equal_hex_def l2p(2))
  also have "\<dots> = (if \<exists>k\<ge>20. length ?data = 2 ^ k then Inl (Corrupt ''invalid P2L item size'')
      else Inr (fmupd revision (l2p_items locations) fmempty, ?n))"
  proof -
    have "(\<exists>k\<ge>20. length ?data = 2 ^ k) = (pageSize = ?n)"
      unfolding p2l(5) by (metis of_nat_eq_iff of_nat_numeral of_nat_power)
    then show ?thesis by (simp add: p2l(6) valid)
  qed
  finally show thesis by (intro that [OF written _ loc tail])
qed

lemma places_item:
  "places_of 0 (a @ i # b) = places_of 0 a @ (item_number i, int (length (data_of a))) #
     places_of (int (length (data_of a)) + int (length (item_bytes i))) b"
  by (simp add: places_append)

lemma location_map_of:
  assumes "\<And>n. fmlookup locations n = map_of places n" "distinct (map fst places)" "\<forall>(k, v)\<in>set places. 0 \<le> k \<and> k < b" "0 < b"
  shows "fmlookup (l2p_items locations) k = (if 0 \<le> k \<and> k \<le> l2p_maximum locations then Some (location locations k) else None)"
    "(k, v) \<in> set places \<Longrightarrow> fmlookup (l2p_items locations) k = Some v"
    "fmlookup (l2p_items locations) k = Some v \<Longrightarrow> v = - 1 \<or> v \<in> snd ` set places"
proof -
  have dom: "\<forall>k v. fmlookup locations k = Some v \<longrightarrow> 0 \<le> k \<and> k < b"
    using assms(1,3) by (fastforce dest: map_of_SomeD)
  show look: "fmlookup (l2p_items locations) k = (if 0 \<le> k \<and> k \<le> l2p_maximum locations then Some (location locations k) else None)"
    for k by (simp add: l2p_items_def fmlookup_fold_fmupd)
  show "fmlookup (l2p_items locations) k = Some v" if "(k, v) \<in> set places"
  proof -
    have "fmlookup locations k = Some v" using that assms(2) by (simp add: assms(1))
    moreover from this have "k \<le> l2p_maximum locations" "0 \<le> k" using l2p_maximum_bound(3) [OF dom assms(4)] dom by auto
    ultimately show ?thesis by (simp add: look location_def)
  qed
  show "v = - 1 \<or> v \<in> snd ` set places" if "fmlookup (l2p_items locations) k = Some v"
    using that assms(1) by (force simp: look location_def split: if_splits option.splits dest: map_of_SomeD)
qed

lemma readRange_part:
  "rf_contents f = a @ d @ b \<Longrightarrow> length (a @ d) < 2 ^ 63 \<Longrightarrow>
     readRange f (int (length a)) (int (length a) + int (length d)) = Inr d"
  by (simp add: readRange_def read_at_def)

lemma snd_sorted_entries: "v \<in> set (map snd (sorted_entries m)) \<longleftrightarrow> (\<exists>k. fmlookup m k = Some v)"
proof -
  have "v \<in> set (map snd (sorted_entries m)) \<longleftrightarrow> (\<exists>k. (k, v) \<in> set (sorted_entries m))" by force
  then show ?thesis by (simp only: sorted_entries_iff)
qed

lemma item_located:
  assumes items: "items = a @ i # b" "list_all item_fits items" "distinct (map item_number items)" "length (data_of items) < 2 ^ 40"
    and locations: "\<And>n. fmlookup locations n = map_of (places_of 0 items) n"
    and f: "rf_contents f = data_of items @ rest" "rf_data_end f = int (length (data_of items))"
      "rf_locations f = Some (fmupd revision (l2p_items locations) fmempty)"
  shows "itemOffset f revision (item_number i) = Inr (int (length (data_of a)))"
    "itemData f revision (item_number i) = Inr (item_bytes i)"
proof -
  let ?lo = "int (length (data_of a))" and ?n = "int (length (data_of items))"
  let ?hi = "?lo + int (length (item_bytes i))"
  have range: "\<forall>(k, v)\<in>set (places_of 0 items). 0 \<le> k \<and> k < 2 ^ 40"
  proof -
    have "k \<in> item_number ` set items" if "(k, v) \<in> set (places_of 0 items)" for k v
      using that places_numbers [of 0 items] by (metis fst_conv image_eqI image_set)
    with items(2) show ?thesis by (fastforce simp: list_all_iff item_fits_def)
  qed
  have dist: "distinct (map fst (places_of 0 items))" using items(3) by (simp add: places_numbers)
  note look = location_map_of [OF locations dist range, simplified]
  have fits: "list_all item_fits a" "list_all item_fits b" "0 < length (item_bytes i)"
    using items(1,2) by (simp_all add: item_fits_def)
  show offset: "itemOffset f revision (item_number i) = Inr ?lo"
    using look(2) [of "item_number i" ?lo] by (simp add: itemOffset_def f(3) items(1) places_item)
  have offsets: "v \<in> set (all_offsets f) \<longleftrightarrow> (\<exists>k. fmlookup (l2p_items locations) k = Some v)" for v
  proof -
    have "all_offsets f = map snd (sorted_entries (l2p_items locations))"
      unfolding all_offsets_def f(3) by (simp add: sorted_entries_def sorted_list_of_fset.rep_eq)
    then show ?thesis by (simp only: snd_sorted_entries)
  qed
  have "fold (closer ?lo) (all_offsets f) ?n = ?hi"
  proof (rule closer_nearest)
    show "?hi \<le> ?n" by (simp add: items(1))
    show "?hi = ?n \<or> ?hi \<in> set (all_offsets f)"
    proof (cases b)
      case Nil
      then show ?thesis by (simp add: items(1))
    next
      case (Cons j b')
      then have "(item_number j, ?hi) \<in> set (places_of 0 items)" by (simp add: items(1) places_item)
      then show ?thesis using look(2) offsets by blast
    qed
    show "?lo < ?hi" using fits(3) by simp
    show "\<forall>c\<in>set (all_offsets f). ?lo < c \<longrightarrow> ?hi \<le> c"
    proof (intro ballI impI)
      fix c
      assume "c \<in> set (all_offsets f)" and c: "?lo < c"
      then have "c \<in> snd ` set (places_of 0 items)" using look(3) offsets by fastforce
      then consider k where "(k, c) \<in> set (places_of 0 a)" | "c = ?lo" | k where "(k, c) \<in> set (places_of ?hi b)"
        by (auto simp: items(1) places_item)
      then show "?hi \<le> c" using c places_range [OF fits(1)] places_range [OF fits(2)] by cases fastforce+
    qed
  qed
  moreover have "readRange f ?lo ?hi = Inr (item_bytes i)"
    by (rule readRange_part [of f _ _ "data_of b @ rest"]) (use f items in simp_all)
  moreover have "0 < ?n" "?hi \<le> int (length (rf_contents f))" using fits(3) unfolding items(1) f(1) data_of_simps length_append of_nat_add by linarith+
  ultimately show "itemData f revision (item_number i) = Inr (item_bytes i)"
    using f(2) offset by (simp add: itemData_def Let_def)
qed

lemma written_revision:
  assumes md5: "\<forall>x. length (md5 x) = 16"
    and items: "items \<noteq> []" "list_all item_fits items" "distinct (map item_number items)"
    and size: "length (data_of items) < 2 ^ 40" "\<nexists>k. 20 \<le> k \<and> length (data_of items) = 2 ^ k"
    and rev: "0 \<le> revision" "revision < 2 ^ 63"
  obtains contents f rest where "logicalRevision md5 revision items = Inr contents" "open_logical md5 contents = Inr f"
    "rf_contents f = data_of items @ rest" "rf_data_end f = int (length (data_of items))"
    "\<And>a i b. items = a @ i # b \<Longrightarrow> itemOffset f revision (item_number i) = Inr (int (length (data_of a)))"
    "\<And>i. i \<in> set items \<Longrightarrow> itemData f revision (item_number i) = Inr (item_bytes i)"
proof -
  obtain contents locations rest where w: "logicalRevision md5 revision items = Inr contents"
    "parseLogicalIndexesFile md5 contents =
       (if \<exists>k\<ge>20. length (data_of items) = 2 ^ k then Inl (Corrupt ''invalid P2L item size'')
        else Inr (fmupd revision (l2p_items locations) fmempty, int (length (data_of items))))"
    "\<And>n. fmlookup locations n = map_of (places_of 0 items) n" "contents = data_of items @ rest"
    by (rule written_file [OF md5 items size(1) rev]) blast
  define f where "f = \<lparr>rf_contents = contents, rf_start = 0, rf_stop = int (length contents),
    rf_data_end = int (length (data_of items)), rf_locations = Some (fmupd revision (l2p_items locations) fmempty)\<rparr>"
  have fs: "rf_contents f = data_of items @ rest" "rf_data_end f = int (length (data_of items))"
    "rf_locations f = Some (fmupd revision (l2p_items locations) fmempty)"
    by (simp_all add: f_def w(4))
  have located: "itemOffset f revision (item_number i) = Inr (int (length (data_of a)))"
    "itemData f revision (item_number i) = Inr (item_bytes i)" if "items = a @ i # b" for a i b
    using item_located [OF that items(2,3) size(1) w(3) fs] by simp_all
  have opened: "open_logical md5 contents = Inr f" using w(2) size(2) by (simp add: open_logical_def f_def)
  have data: "itemData f revision (item_number i) = Inr (item_bytes i)" if i: "i \<in> set items" for i
    using split_list [OF i] located(2) by blast
  show thesis by (rule that [OF w(1) opened fs(1,2) located(1) data])
qed

text \<open>C37: a revision file that was written can be opened again, and every item is found in it under its
  number.
\<close>

theorem revision_file_readable:
  assumes "\<forall>x. length (md5 x) = 16" "items \<noteq> []" "list_all item_fits items" "distinct (map item_number items)"
    "length (data_of items) < 2 ^ 40" "0 \<le> revision" "revision < 2 ^ 63"
    "\<nexists>k. 20 \<le> k \<and> length (data_of items) = 2 ^ k"
  shows "\<exists>contents f. logicalRevision md5 revision items = Inr contents \<and> open_logical md5 contents = Inr f \<and>
    (\<forall>i\<in>set items. itemData f revision (item_number i) = Inr (item_bytes i))"
proof -
  obtain contents f where "logicalRevision md5 revision items = Inr contents" "open_logical md5 contents = Inr f"
    "\<And>i. i \<in> set items \<Longrightarrow> itemData f revision (item_number i) = Inr (item_bytes i)"
    by (rule written_revision [OF assms(1-5,8,6,7)]) blast
  then show ?thesis by blast
qed

text \<open>C38: a data section of exactly a power of two, from the smallest page size on, fills its page; the
  file that is written then cannot be opened.
\<close>

theorem full_page_unreadable:
  assumes "\<forall>x. length (md5 x) = 16" "list_all item_fits items" "distinct (map item_number items)"
    "length (data_of items) = 2 ^ k" "20 \<le> k" "k < 40" "0 \<le> revision" "revision < 2 ^ 63"
  shows "\<exists>contents. logicalRevision md5 revision items = Inr contents \<and>
    open_logical md5 contents = Inl (Corrupt ''invalid P2L item size'')"
proof -
  have ne: "items \<noteq> []" using assms(4) by auto
  have size: "length (data_of items) < 2 ^ 40" unfolding assms(4) using assms(6) by (intro power_strict_increasing) simp_all
  have full: "\<exists>k\<ge>20. length (data_of items) = 2 ^ k" using assms(4,5) by blast
  obtain contents locations where w: "logicalRevision md5 revision items = Inr contents"
    "parseLogicalIndexesFile md5 contents =
       (if \<exists>k\<ge>20. length (data_of items) = 2 ^ k then Inl (Corrupt ''invalid P2L item size'')
        else Inr (fmupd revision (l2p_items locations) fmempty, int (length (data_of items))))"
    by (rule written_file [OF assms(1) ne assms(2,3) size assms(7,8)]) blast
  have "parseLogicalIndexesFile md5 contents = Inl (Corrupt ''invalid P2L item size'')"
    unfolding w(2) if_P [OF full] ..
  then show ?thesis using w(1) by (simp add: open_logical_def)
qed

theorem revision_file_readable_witness:
  "\<exists>contents f. logicalRevision (\<lambda>_. replicate 16 0) 7 [\<lparr>item_number = 3, item_kind = 1, item_bytes = [1, 2]\<rparr>] = Inr contents \<and>
     open_logical (\<lambda>_. replicate 16 0) contents = Inr f \<and> itemData f 7 3 = Inr [1, 2]"
proof -
  have "\<nexists>k. 20 \<le> k \<and> Suc (Suc 0) = 2 ^ k"
  proof
    assume "\<exists>k. 20 \<le> k \<and> Suc (Suc 0) = 2 ^ k"
    then obtain k where "20 \<le> k" "Suc (Suc 0) = 2 ^ k" by blast
    moreover from this(1) have "(2 :: nat) ^ 20 \<le> 2 ^ k" by (intro power_increasing) simp_all
    ultimately show False by simp
  qed
  then show ?thesis
    using revision_file_readable [of "\<lambda>_. replicate 16 0" "[\<lparr>item_number = 3, item_kind = 1, item_bytes = [1, 2]\<rparr>]" 7]
    by (simp add: item_fits_def)
qed

theorem full_page_unreadable_witness:
  "\<exists>contents. logicalRevision (\<lambda>_. replicate 16 0) 7 [\<lparr>item_number = 3, item_kind = 6, item_bytes = replicate (2 ^ 20) 0\<rparr>] =
       Inr contents \<and>
     open_logical (\<lambda>_. replicate 16 0) contents = Inl (Corrupt ''invalid P2L item size'')"
proof -
  have ne: "replicate (2 ^ 20) (0 :: byte) \<noteq> []" by (simp only: replicate_empty) simp
  show ?thesis
    by (rule full_page_unreadable [where k = 20]) (use ne in \<open>simp_all add: item_fits_def\<close>)
qed

text \<open>C39: the reader that works on the file piece by piece and the one that works on its bytes in memory
  give the same indexes, the same end of the data and the same errors.
\<close>

theorem index_readers_agree:
  "parseLogicalIndexesFile md5 contents = parseLogicalIndexes md5 contents \<or>
   length contents < 2 \<and> (\<exists>e e'. parseLogicalIndexesFile md5 contents = Inl e \<and> parseLogicalIndexes md5 contents = Inl e')"
proof (cases "2 \<le> length contents")
  case True
  then show ?thesis by (simp add: parseLogicalIndexes_agree)
next
  case False
  then have short: "length contents < 2" by simp
  then have "\<exists>e. parseLogicalIndexesFile md5 contents = Inl e" by (simp add: parseLogicalIndexesFile_def)
  moreover have "\<exists>e. parseLogicalFooter contents = Inl e"
    using short by (cases contents) (auto simp: parseLogicalFooter_def Let_def)
  then have "\<exists>e. parseLogicalIndexes md5 contents = Inl e" by (auto simp: parseLogicalIndexes_def)
  ultimately show ?thesis using short by blast
qed

end
