(* ===== verification/Go_Path.thy ===== *)
theory Go_Path
  imports Go_Strings
begin

text \<open>
  The functions of Go's package \<^verbatim>\<open>path\<close> that the repository back end uses on slash-separated paths.
  \<open>abs_path\<close> prints the components of a cleaned absolute path; the lemmas read the functions as
  operations on lists of components.
\<close>

text \<open>The components that are kept, the last one first: \<open>..\<close> takes the one before it away.\<close>

fun clean_parts :: "bool \<Rightarrow> string list \<Rightarrow> string list \<Rightarrow> string list" where
  "clean_parts rooted out [] = rev out"
| "clean_parts rooted out (part # parts) =
     (if part = [] \<or> part = ''.'' then clean_parts rooted out parts
      else if part = ''..'' then
        (if out \<noteq> [] \<and> hd out \<noteq> ''..'' then clean_parts rooted (tl out) parts
         else if rooted then clean_parts rooted out parts
         else clean_parts rooted (''..'' # out) parts)
      else clean_parts rooted (part # out) parts)"

definition path_Clean :: "string \<Rightarrow> string" where
  "path_Clean s =
     (let rooted = HasPrefix s ''/'';
          result = join ''/'' (clean_parts rooted [] (split CHR ''/'' s)) in
      if rooted then ''/'' @ result else if result = [] then ''.'' else result)"

definition path_Join :: "string list \<Rightarrow> string" where
  "path_Join elements =
     (let given = filter (\<lambda>e. e \<noteq> []) elements in
      if given = [] then [] else path_Clean (join ''/'' given))"

text \<open>What is in front of the last slash, slash included, and what is behind it.\<close>

definition path_Split :: "string \<Rightarrow> string \<times> string" where
  "path_Split s =
     (case LastIndexByte s CHR ''/'' of None \<Rightarrow> ([], s) | Some i \<Rightarrow> (take (Suc i) s, drop (Suc i) s))"

definition path_Dir :: "string \<Rightarrow> string" where
  "path_Dir s = path_Clean (fst (path_Split s))"

definition path_Base :: "string \<Rightarrow> string" where
  "path_Base s =
     (let stripped = rev (dropWhile (\<lambda>c. c = CHR ''/'') (rev s)); base = snd (path_Split stripped) in
      if s = [] then ''.'' else if base = [] then ''/'' else base)"

section \<open>Cleaned absolute paths\<close>

definition path_component :: "string \<Rightarrow> bool" where
  "path_component part \<longleftrightarrow> part \<noteq> [] \<and> part \<noteq> ''.'' \<and> part \<noteq> ''..'' \<and> CHR ''/'' \<notin> set part"

definition abs_path :: "string list \<Rightarrow> string" where
  "abs_path parts = ''/'' @ join ''/'' parts"

lemma clean_parts_valid:
  "list_all path_component out \<Longrightarrow> \<forall>part\<in>set parts. CHR ''/'' \<notin> set part \<Longrightarrow>
     list_all path_component (clean_parts True out parts)"
proof (induction parts arbitrary: out)
  case Nil
  then show ?case by (simp add: list_all_rev)
next
  case (Cons part parts)
  moreover have "list_all path_component (tl out)" using Cons.prems by (cases out) simp_all
  moreover have "part \<noteq> [] \<Longrightarrow> part \<noteq> ''.'' \<Longrightarrow> part \<noteq> ''..'' \<Longrightarrow> path_component part"
    using Cons.prems(2) by (simp add: path_component_def)
  ultimately show ?case by simp
qed

lemma clean_parts_id: "list_all path_component parts \<Longrightarrow> clean_parts True out parts = rev out @ parts"
  by (induction parts arbitrary: out) (auto simp: path_component_def)

lemma clean_parts_blank: "clean_parts rooted out ([] # parts) = clean_parts rooted out parts"
  by simp

lemma split_abs_path:
  "list_all path_component parts \<Longrightarrow> split CHR ''/'' (abs_path parts) = (if parts = [] then [[], []] else [] # parts)"
  using split_join [of parts "CHR ''/''"] by (auto simp: abs_path_def path_component_def list_all_iff)

lemma path_Clean_abs: "list_all path_component parts \<Longrightarrow> path_Clean (abs_path parts) = abs_path parts"
  by (auto simp: path_Clean_def split_abs_path clean_parts_id Let_def) (simp_all add: abs_path_def)

text \<open>A rooted path is cleaned to the path of valid components.\<close>

definition rooted_parts :: "string \<Rightarrow> string list" where
  "rooted_parts s = clean_parts True [] (split CHR ''/'' s)"

lemma rooted_parts_valid: "list_all path_component (rooted_parts s)"
  unfolding rooted_parts_def by (rule clean_parts_valid) (auto dest: split_parts)

lemma path_Clean_rooted: "path_Clean (CHR ''/'' # s) = abs_path (rooted_parts (CHR ''/'' # s))"
  by (simp add: path_Clean_def abs_path_def rooted_parts_def Let_def)

lemma path_Clean_idem: "path_Clean (path_Clean (CHR ''/'' # s)) = path_Clean (CHR ''/'' # s)"
  unfolding path_Clean_rooted by (rule path_Clean_abs) (rule rooted_parts_valid)

lemma abs_path_inj:
  assumes "list_all path_component a" "list_all path_component b" "abs_path a = abs_path b"
  shows "a = b"
proof -
  have "\<not> path_component []" by (simp add: path_component_def)
  moreover have "(if a = [] then [[], []] else [] # a) = (if b = [] then [[], []] else [] # b)"
    using split_abs_path [OF assms(1)] split_abs_path [OF assms(2)] assms(3) by simp
  ultimately show ?thesis using assms(1,2) by (cases a; cases b) simp_all
qed

lemma abs_path_snoc: "abs_path (parts @ [name]) = (if parts = [] then [] else abs_path parts) @ CHR ''/'' # name"
  by (simp add: abs_path_def join_append)

lemma clean_parts_abs:
  "list_all path_component parts \<Longrightarrow> clean_parts True [] (split CHR ''/'' (abs_path parts) @ more) = clean_parts True (rev parts) more"
proof -
  have "list_all path_component parts \<Longrightarrow> clean_parts True out (parts @ more) = clean_parts True (rev parts @ out) more" for out
    by (induction parts arbitrary: out) (auto simp: path_component_def)
  then show "list_all path_component parts \<Longrightarrow> ?thesis" by (simp add: split_abs_path)
qed

lemma HasPrefix_abs [simp]: "HasPrefix (abs_path parts @ s) ''/''" "abs_path parts \<noteq> []"
  by (simp_all add: abs_path_def)

lemma path_Clean_append:
  "list_all path_component parts \<Longrightarrow> path_Clean (abs_path parts @ CHR ''/'' # s) = ''/'' @ join ''/'' (clean_parts True (rev parts) (split CHR ''/'' s))"
  by (simp add: path_Clean_def split_append clean_parts_abs)

lemma path_Join_abs:
  "list_all path_component parts \<Longrightarrow> path_component name \<Longrightarrow> path_Join [abs_path parts, name] = abs_path (parts @ [name])"
  by (simp add: path_Join_def path_component_def path_Clean_append split_no_sep) (simp add: abs_path_def)

lemma path_Split_snoc:
  "path_component name \<Longrightarrow> path_Split (abs_path (parts @ [name])) = ((if parts = [] then [] else abs_path parts) @ ''/'', name)"
  by (simp add: path_Split_def abs_path_snoc LastIndexByte_last path_component_def)

lemma path_Dir_abs:
  "list_all path_component parts \<Longrightarrow> path_component name \<Longrightarrow> path_Dir (abs_path (parts @ [name])) = abs_path parts"
  unfolding path_Dir_def path_Split_snoc fst_conv
  by (cases "parts = []") (simp_all add: path_Clean_append, simp_all add: abs_path_def path_Clean_def)

lemma path_Base_abs:
  assumes "path_component name"
  shows "path_Base (abs_path (parts @ [name])) = name"
proof -
  have "name \<noteq> []" "last name \<noteq> CHR ''/''" using assms by (auto simp: path_component_def dest: last_in_set)
  then have "dropWhile (\<lambda>c. c = CHR ''/'') (rev (abs_path (parts @ [name]))) = rev (abs_path (parts @ [name]))"
    by (cases name rule: rev_cases) (simp_all add: abs_path_snoc)
  then show ?thesis using assms \<open>name \<noteq> []\<close> by (simp add: path_Base_def path_Split_snoc)
qed

end
