(* ===== verification/Fsfs_Noderev.thy ===== *)
theory Fsfs_Noderev
  imports Fsfs_Base Go_Path
begin

text \<open>
  The records of a revision file: node-revision identifiers (\<^verbatim>\<open>fs/fsfs/id.go\<close>), node revisions and
  representations (\<^verbatim>\<open>fs/fsfs/noderev.go\<close>, \<open>formatRepresentation\<close> of \<^verbatim>\<open>commit.go\<close>), and the list of
  changed paths (\<^verbatim>\<open>fs/fsfs/changes.go\<close>). Files are read as text, a character for a byte.
\<close>

section \<open>Identifiers\<close>

record node_id =
  id_node :: string
  id_copy :: string
  id_revision :: revnum
  id_item :: int

definition ParseID :: "string \<Rightarrow> fs_error + node_id" where
  "ParseID text =
     (let parts = split CHR ''.'' text in
      if length parts \<noteq> 3 \<or> \<not> HasPrefix (parts ! 2) ''r'' then Inl (GeneralError ''invalid node-revision ID'')
      else
        let location = split CHR ''/'' (TrimPrefix (parts ! 2) ''r'') in
        if length location \<noteq> 2 then Inl (GeneralError ''invalid node-revision location'')
        else case parse_int 64 (location ! 0) of
            None \<Rightarrow> Inl (GeneralError ''invalid node-revision revision'')
          | Some revision \<Rightarrow>
              if revision < 0 then Inl (GeneralError ''invalid node-revision revision'')
              else case parse_int 64 (location ! 1) of
                  None \<Rightarrow> Inl (GeneralError ''invalid node-revision item'')
                | Some item \<Rightarrow>
                    if item < 0 then Inl (GeneralError ''invalid node-revision item'')
                    else Inr \<lparr>id_node = parts ! 0, id_copy = parts ! 1, id_revision = revision, id_item = item\<rparr>)"

definition ID_String :: "node_id \<Rightarrow> string" where
  "ID_String i =
     id_node i @ ''.'' @ id_copy i @ ''.r'' @ itoa (id_revision i) @ ''/'' @ itoa (id_item i)"

section \<open>Representations\<close>

text \<open>An absent digest or uniquifier is the empty string.\<close>

record representation =
  rep_revision :: revnum
  rep_item :: int
  rep_length :: int
  rep_expanded :: int
  rep_md5 :: string
  rep_sha1 :: string
  rep_uniquifier :: string

definition validHexDigest :: "string \<Rightarrow> nat \<Rightarrow> bool" where
  "validHexDigest text n = (case hex_decode text of None \<Rightarrow> False | Some decoded \<Rightarrow> length decoded = n)"

fun rep_numbers :: "string list \<Rightarrow> int list option" where
  "rep_numbers [] = Some []"
| "rep_numbers (f # fs) =
     (case parse_int 64 f of
        None \<Rightarrow> None
      | Some parsed \<Rightarrow> if parsed < 0 then None else map_option ((#) parsed) (rep_numbers fs))"

definition parseRepresentation :: "string \<Rightarrow> fs_error + representation" where
  "parseRepresentation text =
     (let fs = Fields text in
      if length fs < 5 \<or> length fs > 7 then Inl (Corrupt ''invalid representation'')
      else case rep_numbers (take 4 fs) of
          None \<Rightarrow> Inl (Corrupt ''invalid representation'')
        | Some numbers \<Rightarrow>
            if \<not> validHexDigest (fs ! 4) 16 then Inl (Corrupt ''invalid representation MD5'')
            else
              let sha1 = (if length fs > 5 \<and> fs ! 5 \<noteq> ''-'' then fs ! 5 else []);
                  uniquifier = (if length fs > 6 \<and> fs ! 6 \<noteq> ''-'' then fs ! 6 else []) in
              if length fs > 5 \<and> fs ! 5 \<noteq> ''-'' \<and> \<not> validHexDigest sha1 20
              then Inl (Corrupt ''invalid representation SHA1'')
              else Inr \<lparr>rep_revision = numbers ! 0, rep_item = numbers ! 1, rep_length = numbers ! 2,
                     rep_expanded = numbers ! 3, rep_md5 = fs ! 4, rep_sha1 = sha1, rep_uniquifier = uniquifier\<rparr>)"

definition formatRepresentation :: "representation \<Rightarrow> string" where
  "formatRepresentation r =
     (let base = itoa (rep_revision r) @ '' '' @ itoa (rep_item r) @ '' '' @ itoa (rep_length r) @ '' '' @
            itoa (rep_expanded r) @ '' '' @ rep_md5 r in
      if rep_sha1 r = [] \<and> rep_uniquifier r = [] then base
      else base @ '' '' @ (if rep_sha1 r = [] then ''-'' else rep_sha1 r) @ '' '' @
             (if rep_uniquifier r = [] then ''-'' else rep_uniquifier r))"

section \<open>Paths in records\<close>

definition canonicalAbsolutePath :: "string \<Rightarrow> bool" where
  "canonicalAbsolutePath p \<longleftrightarrow> HasPrefix p ''/'' \<and> Index p ''//'' = None \<and> p = path_Clean p"

definition parseRevisionPath :: "string \<Rightarrow> fs_error + revnum \<times> string" where
  "parseRevisionPath text =
     (case cut CHR '' '' text of (revisionText, p, ok) \<Rightarrow>
      if \<not> ok then Inl (Corrupt ''invalid revision path'')
      else case parse_int 64 revisionText of
          None \<Rightarrow> Inl (Corrupt ''invalid revision path'')
        | Some revision \<Rightarrow>
            if revision < 0 \<or> \<not> canonicalAbsolutePath p then Inl (Corrupt ''invalid revision path'')
            else Inr (revision, p))"

section \<open>Lines\<close>

text \<open>
  \<open>bufio.Scanner\<close> with a buffer of 16 MiB: the lines, each without a carriage return before its
  newline, and whether a line that does not fit ended the scan.
\<close>

definition dropCR :: "string \<Rightarrow> string" where
  "dropCR line = TrimSuffix line [CHR 0x0D]"

function scan_lines :: "string \<Rightarrow> string list \<times> bool" where
  "scan_lines s =
     (if s = [] then ([], False)
      else
        let line = takeWhile (\<lambda>c. c \<noteq> CHR 0x0A) s in
        if length line \<ge> 16 * 1024 * 1024 then ([], True)
        else case scan_lines (drop (Suc (length line)) s) of (lines, failed) \<Rightarrow> (dropCR line # lines, failed))"
  by pat_completeness auto
termination
  by (relation "measure length") auto

declare scan_lines.simps [simp del]

section \<open>Node revisions\<close>

record node_revision =
  nr_id :: node_id
  nr_kind :: NodeKind
  nr_predecessor :: "node_id option"
  nr_count :: int
  nr_text :: "representation option"
  nr_properties :: "representation option"
  nr_created_path :: string
  nr_copyroot_path :: string
  nr_copyroot_rev :: revnum
  nr_copyfrom_path :: string
  nr_copyfrom_rev :: revnum
  nr_mergeinfo_count :: int
  nr_mergeinfo_here :: bool
  nr_has_mergeinfo_count :: bool

type_synonym record_fields = "(string, string) fmap"

text \<open>The value of a field; a field that is absent reads as the empty string.\<close>

definition field :: "record_fields \<Rightarrow> string \<Rightarrow> string" where
  "field fs name = (case fmlookup fs name of None \<Rightarrow> [] | Some v \<Rightarrow> v)"

definition cut_colon :: "string \<Rightarrow> string \<times> string \<times> bool" where
  "cut_colon line =
     (case Index line '': '' of None \<Rightarrow> (line, [], False) | Some i \<Rightarrow> (take i line, drop (i + 2) line, True))"

fun read_fields :: "record_fields \<Rightarrow> bool \<Rightarrow> string list \<Rightarrow> fs_error + record_fields" where
  "read_fields fs failed [] = (if failed then Inl TokenTooLong else Inr fs)"
| "read_fields fs failed (line # lines) =
     (if line = [] then Inr fs
      else case cut_colon line of (name, v, ok) \<Rightarrow>
        if \<not> ok \<or> field fs name \<noteq> [] then Inl (Corrupt ''invalid node-revision field'')
        else read_fields (fmupd name v fs) failed lines)"

text \<open>A field that may be missing, read by the given parser.\<close>

definition optional :: "string \<Rightarrow> (string \<Rightarrow> fs_error + 'a) \<Rightarrow> fs_error + 'a option" where
  "optional v parser = (if v = [] then Inr None else and_then (parser v) (\<lambda>x. Inr (Some x)))"

definition parse_count :: "string \<Rightarrow> string \<Rightarrow> fs_error + int" where
  "parse_count message v =
     (case parse_int 64 v of None \<Rightarrow> Inl (Corrupt message) | Some n \<Rightarrow> if n < 0 then Inl (Corrupt message) else Inr n)"

definition parseNodeRevision :: "string \<Rightarrow> fs_error + node_revision" where
  "parseNodeRevision data =
     (let (lines, failed) = scan_lines data in
      and_then (read_fields fmempty failed lines) (\<lambda>fs.
      and_then (ParseID (field fs ''id'')) (\<lambda>i.
      let createdPath = field fs ''cpath'' in
      if createdPath = [] \<or> \<not> canonicalAbsolutePath createdPath then Inl (Corrupt ''invalid created path'')
      else if field fs ''type'' \<noteq> ''file'' \<and> field fs ''type'' \<noteq> ''dir'' then Inl (Corrupt ''invalid node kind'')
      else
      and_then (optional (field fs ''pred'') ParseID) (\<lambda>predecessor.
      and_then (optional (field fs ''count'') (parse_count ''invalid predecessor count'')) (\<lambda>count.
      and_then (optional (field fs ''text'') parseRepresentation) (\<lambda>content.
      and_then (optional (field fs ''props'') parseRepresentation) (\<lambda>properties.
      and_then (optional (field fs ''copyroot'') parseRevisionPath) (\<lambda>copyroot.
      and_then (optional (field fs ''copyfrom'') parseRevisionPath) (\<lambda>copyfrom.
      and_then (optional (field fs ''minfo-cnt'') (parse_count ''invalid mergeinfo count'')) (\<lambda>mergeinfo.
      Inr \<lparr>nr_id = i, nr_kind = (if field fs ''type'' = ''file'' then NodeFile else NodeDir),
           nr_predecessor = predecessor, nr_count = (case count of None \<Rightarrow> 0 | Some n \<Rightarrow> n),
           nr_text = content, nr_properties = properties, nr_created_path = createdPath,
           nr_copyroot_path = (case copyroot of None \<Rightarrow> [] | Some (r, p) \<Rightarrow> p),
           nr_copyroot_rev = (case copyroot of None \<Rightarrow> InvalidRevnum | Some (r, p) \<Rightarrow> r),
           nr_copyfrom_path = (case copyfrom of None \<Rightarrow> [] | Some (r, p) \<Rightarrow> p),
           nr_copyfrom_rev = (case copyfrom of None \<Rightarrow> InvalidRevnum | Some (r, p) \<Rightarrow> r),
           nr_mergeinfo_count = (case mergeinfo of None \<Rightarrow> 0 | Some n \<Rightarrow> n),
           nr_mergeinfo_here = (fmlookup fs ''minfo-here'' \<noteq> None),
           nr_has_mergeinfo_count = (mergeinfo \<noteq> None)\<rparr>))))))))))"

section \<open>Changed paths\<close>

datatype change_kind = ChangeAdd | ChangeDelete | ChangeModify | ChangeReplace | ChangeReset

fun ChangeKind_String :: "change_kind \<Rightarrow> string" where
  "ChangeKind_String ChangeAdd = ''add''"
| "ChangeKind_String ChangeDelete = ''delete''"
| "ChangeKind_String ChangeModify = ''modify''"
| "ChangeKind_String ChangeReplace = ''replace''"
| "ChangeKind_String ChangeReset = ''reset''"

record path_change =
  pc_path :: string
  pc_kind :: change_kind
  pc_node_kind :: NodeKind
  pc_text :: bool
  pc_props :: bool
  pc_copyfrom_path :: string
  pc_copyfrom_rev :: revnum

definition parse_action :: "string \<Rightarrow> fs_error + change_kind \<times> NodeKind" where
  "parse_action action =
     (case cut CHR ''-'' action of (base, suffix, found) \<Rightarrow>
      if found \<and> suffix \<noteq> ''file'' \<and> suffix \<noteq> ''dir'' then Inl (Corrupt ''invalid changed path kind'')
      else
        let kind = (if \<not> found then NodeUnknown else if suffix = ''file'' then NodeFile else NodeDir) in
        case find (\<lambda>k. base = ChangeKind_String k) [ChangeAdd, ChangeDelete, ChangeModify, ChangeReplace, ChangeReset] of
          None \<Rightarrow> Inl (Corrupt ''invalid change action'')
        | Some change \<Rightarrow> Inr (change, kind))"

definition is_flag :: "string \<Rightarrow> bool" where
  "is_flag f \<longleftrightarrow> f = ''true'' \<or> f = ''false''"

definition parse_change_line :: "string \<Rightarrow> fs_error + path_change" where
  "parse_change_line line =
     (let fs = Fields line in
      if length fs < 5 then Inl (Corrupt ''invalid changed path'')
      else and_then (parse_action (fs ! 1)) (\<lambda>(change, kind).
        let pathIndex = (if length fs \<ge> 6 \<and> is_flag (fs ! 4) then 5 else 4) in
        if length fs \<le> pathIndex \<or> \<not> is_flag (fs ! 2) \<or> \<not> is_flag (fs ! 3)
        then Inl (Corrupt ''invalid changed path flags'')
        else Inr \<lparr>pc_path = fs ! pathIndex, pc_kind = change, pc_node_kind = kind, pc_text = (fs ! 2 = ''true''),
               pc_props = (fs ! 3 = ''true''), pc_copyfrom_path = [], pc_copyfrom_rev = InvalidRevnum\<rparr>))"

definition with_copyfrom :: "string \<Rightarrow> path_change \<Rightarrow> fs_error + path_change" where
  "with_copyfrom line change =
     (if line = [] then Inr change
      else and_then (parseRevisionPath line) (\<lambda>(revision, p).
        Inr (change\<lparr>pc_copyfrom_rev := revision, pc_copyfrom_path := p\<rparr>)))"

fun parse_change_lines :: "(string, path_change) fmap \<Rightarrow> bool \<Rightarrow> string list \<Rightarrow> fs_error + (string, path_change) fmap" where
  "parse_change_lines result failed [] = (if failed then Inl TokenTooLong else Inr result)"
| "parse_change_lines result failed [line] =
     (if line = [] then parse_change_lines result failed []
      else and_then (parse_change_line line) (\<lambda>change. Inl (Corrupt ''changed path copyfrom line is missing'')))"
| "parse_change_lines result failed (line # copyfrom # lines) =
     (if line = [] then parse_change_lines result failed (copyfrom # lines)
      else and_then (parse_change_line line) (\<lambda>change.
           and_then (with_copyfrom copyfrom change) (\<lambda>change'.
           parse_change_lines (fmupd (pc_path change') change' result) failed lines)))"

definition parseChanges :: "string \<Rightarrow> fs_error + (string, path_change) fmap" where
  "parseChanges data = (case scan_lines data of (lines, failed) \<Rightarrow> parse_change_lines fmempty failed lines)"

section \<open>Texts of lines\<close>

definition line_ok :: "string \<Rightarrow> bool" where
  "line_ok line \<longleftrightarrow> CHR 0x0A \<notin> set line \<and> length line < 16 * 1024 * 1024 \<and> (line = [] \<or> last line \<noteq> CHR 0x0D)"

lemma scan_lines_Nil [simp]: "scan_lines [] = ([], False)"
  by (simp add: scan_lines.simps)

lemma scan_lines_Cons:
  assumes "line_ok line"
  shows "scan_lines (line @ CHR 0x0A # s) = (case scan_lines s of (lines, failed) \<Rightarrow> (line # lines, failed))"
proof -
  have t: "takeWhile (\<lambda>c. c \<noteq> CHR 0x0A) (line @ CHR 0x0A # s) = line"
    using assms by (subst takeWhile_append2) (auto simp: line_ok_def)
  have "dropCR line = line" using assms by (auto simp: dropCR_def TrimSuffix_def HasSuffix_single line_ok_def)
  then show ?thesis using assms by (subst scan_lines.simps) (simp add: t line_ok_def)
qed

definition text_of_lines :: "string list \<Rightarrow> string" where
  "text_of_lines lines = concat (map (\<lambda>line. line @ [CHR 0x0A]) lines)"

lemma text_of_lines_simps [simp]: "text_of_lines [] = []" "text_of_lines (line # lines) = line @ CHR 0x0A # text_of_lines lines"
  "text_of_lines (a @ b) = text_of_lines a @ text_of_lines b"
  by (simp_all add: text_of_lines_def)

lemma scan_text_of_lines: "list_all line_ok lines \<Longrightarrow> scan_lines (text_of_lines lines) = (lines, False)"
  by (induction lines) (simp_all add: scan_lines_Cons)

section \<open>Records are read back\<close>

lemma Index_split: "Index s p = Some i \<Longrightarrow> \<exists>a b. s = a @ p @ b"
  by (metis Index_eq_Some HasPrefix_iff append_take_drop_id)

lemma abs_path_canonical [simp]: "list_all path_component parts \<Longrightarrow> canonicalAbsolutePath (abs_path parts)"
proof -
  assume parts: "list_all path_component parts"
  have "Index (abs_path parts) ''//'' = None"
  proof (rule ccontr)
    assume "Index (abs_path parts) ''//'' \<noteq> None"
    then obtain a b where "abs_path parts = a @ CHR ''/'' # CHR ''/'' # b" by (auto dest!: Index_split)
    then have "(if parts = [] then [[], []] else [] # parts) = split CHR ''/'' a @ [] # split CHR ''/'' b"
      using split_abs_path [OF parts] by (simp add: split_append)
    moreover obtain x xs where "split CHR ''/'' a = x # xs" by (cases "split CHR ''/'' a") simp_all
    moreover have "\<not> path_component []" "[] \<noteq> split CHR ''/'' b" by (simp_all add: path_component_def split_not_Nil [symmetric] del: split_not_Nil)
    ultimately show False using parts by (auto split: if_splits simp: append_eq_Cons_conv Cons_eq_append_conv)
  qed
  then show ?thesis using parts by (simp add: canonicalAbsolutePath_def path_Clean_abs) (simp add: abs_path_def)
qed

lemma canonicalAbsolutePath_iff: "canonicalAbsolutePath p \<longleftrightarrow> (\<exists>parts. list_all path_component parts \<and> p = abs_path parts)"
proof
  assume c: "canonicalAbsolutePath p"
  then obtain s where s: "p = CHR ''/'' # s" by (auto simp: canonicalAbsolutePath_def HasPrefix_iff)
  have "p = abs_path (rooted_parts p)" using c path_Clean_rooted [of s] by (simp add: canonicalAbsolutePath_def s)
  then show "\<exists>parts. list_all path_component parts \<and> p = abs_path parts" using rooted_parts_valid by blast
qed auto

definition nonneg64 :: "int \<Rightarrow> bool" where
  "nonneg64 n \<longleftrightarrow> 0 \<le> n \<and> n < 2 ^ 63"

lemma itoa_nonneg [simp]: "nonneg64 n \<Longrightarrow> itoa n = utoa (nat n)"
  by (simp add: itoa_def nonneg64_def)

lemma parse_itoa [simp]: "nonneg64 n \<Longrightarrow> parse_int 64 (utoa (nat n)) = Some n" "nonneg64 n \<Longrightarrow> \<not> n < 0"
  by (simp_all add: nonneg64_def parse_int_utoa nat_less_iff)

definition id_ok :: "node_id \<Rightarrow> bool" where
  "id_ok i \<longleftrightarrow> CHR ''.'' \<notin> set (id_node i) \<and> CHR ''.'' \<notin> set (id_copy i) \<and> nonneg64 (id_revision i) \<and> nonneg64 (id_item i)"

lemma utoa_no_mark [simp]: "CHR ''.'' \<notin> set (utoa n)" "CHR ''/'' \<notin> set (utoa n)" "CHR '' '' \<notin> set (utoa n)"
  by (simp_all add: utoa_no is_digit_def)

lemma ParseID_String [simp]:
  assumes "id_ok i"
  shows "ParseID (ID_String i) = Inr i"
proof -
  have parts: "split CHR ''.'' (ID_String i) = [id_node i, id_copy i, CHR ''r'' # utoa (nat (id_revision i)) @ CHR ''/'' # utoa (nat (id_item i))]"
    using assms by (simp add: ID_String_def id_ok_def split_append_sep split_no_sep)
  have "split CHR ''/'' (TrimPrefix (CHR ''r'' # utoa (nat (id_revision i)) @ CHR ''/'' # utoa (nat (id_item i))) ''r'') =
      [utoa (nat (id_revision i)), utoa (nat (id_item i))]"
    by (simp add: TrimPrefix_def split_append_sep split_no_sep)
  then show ?thesis using assms by (simp add: ParseID_def parts Let_def id_ok_def)
qed

lemma parseRevisionPath_written [simp]:
  "nonneg64 r \<Longrightarrow> canonicalAbsolutePath p \<Longrightarrow> parseRevisionPath (utoa (nat r) @ CHR '' '' # p) = Inr (r, p)"
  by (simp add: parseRevisionPath_def cut_at)

lemma hex_plain: "hex_decode s = Some b \<Longrightarrow> plain s"
proof (induction s arbitrary: b rule: hex_decode.induct)
  case (3 c d s)
  have "\<not> starts_space c" if "hex_value c = Some n" for c n
  proof -
    have "\<forall>c. hex_value c \<noteq> None \<longrightarrow> \<not> starts_space c" by code_simp
    with that show ?thesis by auto
  qed
  with 3 show ?case by (auto split: option.splits)
qed simp_all

lemma validHexDigest_plain: "validHexDigest s n \<Longrightarrow> plain s" "validHexDigest s (Suc n) \<Longrightarrow> s \<noteq> []" "\<not> validHexDigest ''-'' n"
  by (auto simp: validHexDigest_def split: option.splits dest: hex_plain)

definition rep_ok :: "representation \<Rightarrow> bool" where
  "rep_ok r \<longleftrightarrow> nonneg64 (rep_revision r) \<and> nonneg64 (rep_item r) \<and> nonneg64 (rep_length r) \<and> nonneg64 (rep_expanded r) \<and>
     validHexDigest (rep_md5 r) 16 \<and> (rep_sha1 r = [] \<or> validHexDigest (rep_sha1 r) 20) \<and>
     plain (rep_uniquifier r) \<and> rep_uniquifier r \<noteq> ''-''"

lemma plain_utoa [simp]: "plain (utoa n)"
  by (simp add: plain_digits)

lemma parseRepresentation_format [simp]:
  assumes "rep_ok r"
  shows "parseRepresentation (formatRepresentation r) = Inr r"
proof -
  note ok = assms [unfolded rep_ok_def]
  have md5: "plain (rep_md5 r)" "rep_md5 r \<noteq> []" using ok validHexDigest_plain(1,2) [of "rep_md5 r"] by (auto simp: numeral_eq_Suc)
  have sha1: "plain (rep_sha1 r)" "rep_sha1 r \<noteq> ''-''" using ok validHexDigest_plain(1,3) by auto
  have dash: "plain ''-''" by code_simp
  define base where "base = [utoa (nat (rep_revision r)), utoa (nat (rep_item r)), utoa (nat (rep_length r)), utoa (nat (rep_expanded r)), rep_md5 r]"
  have fs: "Fields (formatRepresentation r) =
     (if rep_sha1 r = [] \<and> rep_uniquifier r = [] then base
      else base @ [if rep_sha1 r = [] then ''-'' else rep_sha1 r, if rep_uniquifier r = [] then ''-'' else rep_uniquifier r])"
    using ok md5 sha1 dash by (auto simp: formatRepresentation_def base_def Let_def Fields_words Fields_word)
  show ?thesis using ok sha1 by (auto simp: parseRepresentation_def fs base_def Let_def)
qed

text \<open>The fields of a record, written one to a line and ended by an empty line, are found again.\<close>

definition field_line :: "string \<times> string \<Rightarrow> string" where
  "field_line f = fst f @ '': '' @ snd f"

lemma cut_colon_line [simp]: "CHR '':'' \<notin> set name \<Longrightarrow> cut_colon (field_line (name, v)) = (name, v, True)"
proof -
  assume n: "CHR '':'' \<notin> set name"
  have "Index (name @ '': '' @ v) '': '' = Some (length name)"
    unfolding Index_eq_Some
  proof (intro conjI allI impI)
    fix j
    assume "j < length name"
    then obtain c s where "drop j (name @ '': '' @ v) = c # s" "c \<in> set name"
      by (metis Cons_nth_drop_Suc append_eq_conv_conj drop_append nth_mem diff_is_0_eq' drop0 less_imp_le append_Cons)
    with n show "\<not> HasPrefix (drop j (name @ '': '' @ v)) '': ''" by auto
  qed simp_all
  then show ?thesis by (simp add: cut_colon_def field_line_def)
qed

lemma read_fields_lines:
  assumes "\<forall>(name, v)\<in>set pairs. CHR '':'' \<notin> set name \<and> field fs name = []" "distinct (map fst pairs)"
  shows "read_fields fs failed (map field_line pairs @ [] # lines) = Inr (fold (\<lambda>(name, v). fmupd name v) pairs fs)"
  using assms
proof (induction pairs arbitrary: fs)
  case (Cons f pairs)
  obtain name v where f: "f = (name, v)" by (cases f)
  have ne: "field_line (name, v) \<noteq> []" by (simp add: field_line_def)
  have "read_fields (fmupd name v fs) failed (map field_line pairs @ [] # lines) =
      Inr (fold (\<lambda>(name, v). fmupd name v) pairs (fmupd name v fs))"
    by (rule Cons.IH) (use Cons.prems f in \<open>force simp: field_def\<close>)+
  then show ?case using Cons.prems ne by (simp add: f)
qed simp

lemma field_of_pairs:
  "distinct (map fst pairs) \<Longrightarrow> field (fold (\<lambda>(name, v). fmupd name v) pairs fmempty) name =
     (case map_of pairs name of None \<Rightarrow> [] | Some v \<Rightarrow> v)"
  by (simp add: field_def fold_fmupd_lookup split: option.split)

end
