(* ===== verification/Svn_Hashfile.thy ===== *)
theory Svn_Hashfile
  imports Go_Maps
begin

text \<open>
  Hash files, \<^verbatim>\<open>svn/hashfile/hashfile.go\<close>: property maps written as length-prefixed key and value
  records in the order of the keys, and the incremental reader with delete records. The reader is
  the list of bytes left; the buffer of 128 bytes limits the length of a record header. The
  lemmas give the round trip and what a delta of records does to its base.
\<close>

definition maxRecordSize :: nat where "maxRecordSize = 67108864"

datatype hash_error =
    HeaderTooLong
  | EndedBeforeEND
  | InvalidRecordHeader
  | InvalidRecordType
  | InvalidRecordLength
  | TruncatedRecord
  | MissingTerminator
  | NotNewlineTerminated
  | DeleteInHash
  | KeyWithoutValue
  | UnexpectedRecord
  | RecordTooLarge

section \<open>Records\<close>

text \<open>\<open>fmt.Fprintf(writer, "%c %d\n", kind, len(value))\<close>, the value and a newline.\<close>

definition writeRecord :: "char \<Rightarrow> string \<Rightarrow> string" where
  "writeRecord kind v = kind # '' '' @ utoa (length v) @ [CHR 0x0A] @ v @ [CHR 0x0A]"

text \<open>\<open>ReadSlice('\n')\<close> on a buffer of 128 bytes: the line with its newline, and the rest.\<close>

definition read_header :: "string \<Rightarrow> hash_error + string \<times> string" where
  "read_header input =
     (let line = takeWhile (\<lambda>c. c \<noteq> CHR 0x0A) input in
      if length line \<ge> 128 then Inl HeaderTooLong
      else if length line = length input then Inl EndedBeforeEND
      else Inr (line @ [CHR 0x0A], drop (length line + 1) input))"

definition read_terminator :: "string \<Rightarrow> hash_error + string" where
  "read_terminator input =
     (case input of
        [] \<Rightarrow> Inl MissingTerminator
      | t # rest \<Rightarrow>
          if t = CHR 0x0D then
            (case rest of
               [] \<Rightarrow> Inl MissingTerminator
             | t' # rest' \<Rightarrow> if t' \<noteq> CHR 0x0A then Inl NotNewlineTerminated else Inr rest')
          else if t \<noteq> CHR 0x0A then Inl NotNewlineTerminated
          else Inr rest)"

definition readRecord :: "string \<Rightarrow> hash_error + (char \<times> string) \<times> string" where
  "readRecord input =
     (case read_header input of
        Inl e \<Rightarrow> Inl e
      | Inr (line, rest) \<Rightarrow>
          let header = TrimSuffix (TrimSuffix line [CHR 0x0A]) [CHR 0x0D] in
          if header = ''END'' then Inr ((CHR ''E'', []), rest)
          else if length header < 3 \<or> header ! 1 \<noteq> CHR '' '' then Inl InvalidRecordHeader
          else
            let kind = header ! 0; lengthText = drop 2 header in
            if kind \<noteq> CHR ''K'' \<and> kind \<noteq> CHR ''V'' \<and> kind \<noteq> CHR ''D'' then Inl InvalidRecordType
            else if lengthText = [] \<or> hd lengthText = CHR ''+'' \<or> hd lengthText = CHR ''-''
            then Inl InvalidRecordLength
            else case parse_uint 64 lengthText of
                None \<Rightarrow> Inl InvalidRecordLength
              | Some len \<Rightarrow>
                  if len > maxRecordSize then Inl InvalidRecordLength
                  else if length rest < len then Inl TruncatedRecord
                  else case read_terminator (drop len rest) of
                      Inl e \<Rightarrow> Inl e
                    | Inr rest' \<Rightarrow> Inr ((kind, take len rest), rest'))"

section \<open>Files\<close>

definition Write :: "props \<Rightarrow> hash_error + string" where
  "Write properties =
     (if list_ex (\<lambda>(key, v). length key > maxRecordSize \<or> length v > maxRecordSize)
           (sorted_entries properties)
      then Inl RecordTooLarge
      else Inr (concat (map (\<lambda>(key, v). writeRecord CHR ''K'' key @ writeRecord CHR ''V'' v)
             (sorted_entries properties)) @ ''END'' @ [CHR 0x0A]))"

lemma read_terminator_shrinks: "read_terminator input = Inr rest \<Longrightarrow> length rest < length input"
  by (auto simp: read_terminator_def split: list.splits if_splits)

lemma readRecord_shrinks: "readRecord input = Inr (record, rest) \<Longrightarrow> length rest < length input"
proof -
  assume r: "readRecord input = Inr (record, rest)"
  then obtain line rest1 where h: "read_header input = Inr (line, rest1)"
    by (auto simp: readRecord_def split: sum.splits)
  from r have t: "rest = rest1 \<or> (\<exists>len. read_terminator (drop len rest1) = Inr rest)"
    by (auto simp: readRecord_def h Let_def split: sum.splits if_splits option.splits)
  have "length rest1 < length input"
    using h length_takeWhile_le [of "\<lambda>c. c \<noteq> CHR 0x0A" input]
    by (auto simp: read_header_def Let_def split: if_splits)
  with t read_terminator_shrinks show ?thesis by fastforce
qed

function read_records :: "bool \<Rightarrow> props \<Rightarrow> string \<Rightarrow> hash_error + props \<times> string" where
  "read_records incremental properties input =
     (case readRecord input of
        Inl e \<Rightarrow> Inl e
      | Inr ((kind, payload), rest) \<Rightarrow>
          if kind = CHR ''E'' then Inr (properties, rest)
          else if kind = CHR ''D'' then
            (if \<not> incremental then Inl DeleteInHash
             else read_records incremental (fmdrop payload properties) rest)
          else if kind = CHR ''K'' then
            (case readRecord rest of
               Inl e \<Rightarrow> Inl e
             | Inr ((valueKind, v), rest') \<Rightarrow>
                 if valueKind \<noteq> CHR ''V'' then Inl KeyWithoutValue
                 else read_records incremental (fmupd payload v properties) rest')
          else Inl UnexpectedRecord)"
  by pat_completeness auto
termination
  by (relation "measure (\<lambda>(incremental, properties, input). length input)")
    (auto dest!: readRecord_shrinks)

declare read_records.simps [simp del]

definition ReadHash :: "string \<Rightarrow> hash_error + props" where
  "ReadHash input = map_sum id fst (read_records False fmempty input)"

definition ReadIncremental :: "string \<Rightarrow> props \<Rightarrow> hash_error + props" where
  "ReadIncremental input base = map_sum id fst (read_records True base input)"

section \<open>Round trip\<close>

lemma utoa_no_newline: "CHR 0x0A \<notin> set (utoa n)" "CHR 0x0D \<notin> set (utoa n)"
  by (rule utoa_no, simp add: is_digit_def less_eq_char_def)+

lemma read_header_line:
  assumes "CHR 0x0A \<notin> set line" "length line < 128"
  shows "read_header (line @ CHR 0x0A # rest) = Inr (line @ [CHR 0x0A], rest)"
proof -
  have "\<forall>c\<in>set line. c \<noteq> CHR 0x0A" using assms(1) by auto
  from takeWhile_dropWhile_append_stop(1) [where P = "\<lambda>c. c \<noteq> CHR 0x0A", OF this]
  have t: "takeWhile (\<lambda>c. c \<noteq> CHR 0x0A) (line @ CHR 0x0A # rest) = line" by simp
  show ?thesis using assms(2) unfolding read_header_def Let_def t by simp
qed

lemma TrimSuffix_no: "s = [] \<or> last s \<noteq> c \<Longrightarrow> TrimSuffix s [c] = s"
  by (auto simp: TrimSuffix_def HasSuffix_single)

lemma readRecord_write:
  assumes "length v \<le> maxRecordSize" "kind \<in> {CHR ''K'', CHR ''V'', CHR ''D''}"
  shows "readRecord (writeRecord kind v @ rest) = Inr ((kind, v), rest)"
proof -
  let ?line = "kind # '' '' @ utoa (length v)"
  have "length v < 10 ^ 8" using assms(1) by (simp add: maxRecordSize_def)
  then have len: "length ?line < 128" using utoa_length [of "length v" 8] by simp
  have nl: "CHR 0x0A \<notin> set ?line" using assms(2) utoa_no_newline by auto
  have "last ?line = last (utoa (length v))" by simp
  then have "last ?line \<noteq> CHR 0x0D"
    using utoa_no_newline(2) by (metis last_in_set utoa_not_Nil)
  then have header: "TrimSuffix (TrimSuffix (?line @ [CHR 0x0A]) [CHR 0x0A]) [CHR 0x0D] = ?line"
    by (simp only: TrimSuffix_append) (rule TrimSuffix_no, simp)
  have head: "read_header (writeRecord kind v @ rest) = Inr (?line @ [CHR 0x0A], v @ CHR 0x0A # rest)"
    using read_header_line [OF nl len, of "v @ CHR 0x0A # rest"] by (simp add: writeRecord_def)
  obtain d ds where d: "utoa (length v) = d # ds" "is_digit d"
    using hd_utoa [of "length v"] utoa_not_Nil by (metis list.exhaust_sel)
  have "parse_uint 64 (utoa (length v)) = Some (length v)"
    using assms(1) by (intro parse_uint_utoa) (simp add: maxRecordSize_def)
  moreover have "d \<noteq> CHR ''+''" "d \<noteq> CHR ''-''" using d(2) by auto
  ultimately show ?thesis
    unfolding readRecord_def head using assms header d
    by (auto simp: Let_def read_terminator_def)
qed

lemma readRecord_END: "readRecord (''END'' @ CHR 0x0A # rest) = Inr ((CHR ''E'', []), rest)"
proof -
  have "TrimSuffix (TrimSuffix (''END'' @ [CHR 0x0A]) [CHR 0x0A]) [CHR 0x0D] = ''END''"
    by (simp only: TrimSuffix_append) (rule TrimSuffix_no, simp)
  then show ?thesis
    using read_header_line [of "''END''" rest] by (simp add: readRecord_def)
qed

lemma read_records_write:
  assumes "\<forall>(key, v)\<in>set es. length key \<le> maxRecordSize \<and> length v \<le> maxRecordSize"
  shows "read_records incremental m
      (concat (map (\<lambda>(key, v). writeRecord CHR ''K'' key @ writeRecord CHR ''V'' v) es) @
        ''END'' @ CHR 0x0A # rest) =
     Inr (fold (\<lambda>(k, v). fmupd k v) es m, rest)"
  using assms
proof (induction es arbitrary: m)
  case Nil
  then show ?case using readRecord_END [of rest] by (simp add: read_records.simps)
next
  case (Cons e es)
  obtain key v where e: "e = (key, v)" by (cases e)
  let ?tail = "concat (map (\<lambda>(key, v). writeRecord CHR ''K'' key @ writeRecord CHR ''V'' v) es) @
        ''END'' @ CHR 0x0A # rest"
  have "readRecord (writeRecord CHR ''K'' key @ writeRecord CHR ''V'' v @ ?tail) =
      Inr ((CHR ''K'', key), writeRecord CHR ''V'' v @ ?tail)"
    "readRecord (writeRecord CHR ''V'' v @ ?tail) = Inr ((CHR ''V'', v), ?tail)"
    using Cons.prems by (simp_all add: e readRecord_write del: append.simps)
  then show ?case
    using Cons by (subst read_records.simps) (simp add: e)
qed

text \<open>Delete records and key records on a base, what an incremental hash file means.\<close>

datatype edit = Put string string | Delete string

fun edit_records :: "edit \<Rightarrow> string" where
  "edit_records (Put key v) = writeRecord CHR ''K'' key @ writeRecord CHR ''V'' v"
| "edit_records (Delete key) = writeRecord CHR ''D'' key"

fun apply_edit :: "edit \<Rightarrow> props \<Rightarrow> props" where
  "apply_edit (Put key v) m = fmupd key v m"
| "apply_edit (Delete key) m = fmdrop key m"

fun edit_ok :: "edit \<Rightarrow> bool" where
  "edit_ok (Put key v) \<longleftrightarrow> length key \<le> maxRecordSize \<and> length v \<le> maxRecordSize"
| "edit_ok (Delete key) \<longleftrightarrow> length key \<le> maxRecordSize"

lemma read_records_edits:
  assumes "list_all edit_ok edits"
  shows "read_records True m (concat (map edit_records edits) @ ''END'' @ CHR 0x0A # rest) =
     Inr (fold apply_edit edits m, rest)"
  using assms
proof (induction edits arbitrary: m)
  case Nil
  then show ?case using readRecord_END [of rest] by (simp add: read_records.simps)
next
  case (Cons e edits)
  let ?tail = "concat (map edit_records edits) @ ''END'' @ CHR 0x0A # rest"
  show ?case
  proof (cases e)
    case (Put key v)
    have "readRecord (writeRecord CHR ''K'' key @ writeRecord CHR ''V'' v @ ?tail) =
        Inr ((CHR ''K'', key), writeRecord CHR ''V'' v @ ?tail)"
      "readRecord (writeRecord CHR ''V'' v @ ?tail) = Inr ((CHR ''V'', v), ?tail)"
      using Cons.prems by (simp_all add: Put readRecord_write del: append.simps)
    then show ?thesis using Cons by (subst read_records.simps) (simp add: Put)
  next
    case (Delete key)
    have "readRecord (writeRecord CHR ''D'' key @ ?tail) = Inr ((CHR ''D'', key), ?tail)"
      using Cons.prems by (simp add: Delete readRecord_write del: append.simps)
    then show ?thesis using Cons by (subst read_records.simps) (simp add: Delete)
  qed
qed

lemma ReadHash_Write:
  assumes "Write properties = Inr s"
  shows "ReadHash (s @ rest) = Inr properties"
proof -
  have "\<forall>(key, v)\<in>set (sorted_entries properties). length key \<le> maxRecordSize \<and> length v \<le> maxRecordSize"
    and s: "s = concat (map (\<lambda>(key, v). writeRecord CHR ''K'' key @ writeRecord CHR ''V'' v)
             (sorted_entries properties)) @ ''END'' @ [CHR 0x0A]"
    using assms by (auto simp: Write_def list_ex_iff not_less split: if_splits)
  from read_records_write [OF this(1), of False fmempty rest] show ?thesis
    by (simp add: ReadHash_def s fold_fmupd_sorted_entries)
qed

section \<open>Properties\<close>

text \<open>C22: a written property map is read back, whatever follows the \<open>END\<close> line.\<close>

theorem hashfile_roundtrip:
  assumes "Write properties = Inr s"
  shows "ReadHash (s @ rest) = Inr properties"
  by (rule ReadHash_Write [OF assms])

theorem hashfile_roundtrip_witness:
  "ReadHash (''K 1'' @ [CHR 0x0A] @ ''a'' @ [CHR 0x0A] @ ''V 2'' @ [CHR 0x0A] @ ''x'' @ [CHR 0x0A, CHR 0x0A] @
     ''END'' @ [CHR 0x0A] @ ''tail'') = Inr (fmupd ''a'' (''x'' @ [CHR 0x0A]) fmempty)"
proof -
  have "sorted_entries (fmupd ''a'' (''x'' @ [CHR 0x0A]) fmempty) = [(''a'', ''x'' @ [CHR 0x0A])]"
    by (simp add: sorted_entries_def sorted_list_of_fset.rep_eq)
  then have "Write (fmupd ''a'' (''x'' @ [CHR 0x0A]) fmempty) =
      Inr (''K 1'' @ [CHR 0x0A] @ ''a'' @ [CHR 0x0A] @ ''V 2'' @ [CHR 0x0A] @ ''x'' @ [CHR 0x0A, CHR 0x0A] @
       ''END'' @ [CHR 0x0A])"
    using utoa.simps [of 1] utoa.simps [of 2]
    by (simp add: Write_def maxRecordSize_def writeRecord_def digit_char_def) code_simp
  from hashfile_roundtrip [OF this, of "''tail''"] show ?thesis by simp
qed

text \<open>Reading an incremental hash file applies its records to the base in order, the last
  record of a key winning.\<close>

theorem hashfile_incremental:
  assumes "list_all edit_ok edits"
  shows "ReadIncremental (concat (map edit_records edits) @ ''END'' @ [CHR 0x0A]) base =
     Inr (fold apply_edit edits base)"
  using read_records_edits [OF assms, of base "[]"] by (simp add: ReadIncremental_def)

theorem hashfile_incremental_witness:
  "ReadIncremental (concat (map edit_records [Put ''a'' ''1'', Delete ''b'', Put ''a'' ''2'']) @
      ''END'' @ [CHR 0x0A]) (fmupd ''b'' ''x'' fmempty) =
   Inr (fold apply_edit [Put ''a'' ''1'', Delete ''b'', Put ''a'' ''2''] (fmupd ''b'' ''x'' fmempty))"
  by (rule hashfile_incremental) (simp add: maxRecordSize_def)

end
