(* ===== verification/Svn_Mergeinfo.thy ===== *)
theory Svn_Mergeinfo
  imports Go_Text Go_Maps Svn_Path
begin

text \<open>
  Merge tracking, \<^verbatim>\<open>mergeinfo/mergeinfo.go\<close>. A range \<open>(Start, End]\<close> of revisions is a record, a
  rangelist a list of ranges, mergeinfo a finite map from paths to rangelists; a nil rangelist is
  the empty one and an absent path has it. Revision numbers are integers: all arithmetic adds or
  subtracts one, and the loop of \<open>ToRevs\<close>, the one place where the 64 bits matter, wraps around.
\<close>

section \<open>Rangelists\<close>

record range =
  Start :: int
  End :: int
  Inheritable :: bool

definition mk_range :: "int \<Rightarrow> int \<Rightarrow> bool \<Rightarrow> range" where
  "mk_range s e i = \<lparr>Start = s, End = e, Inheritable = i\<rparr>"

type_synonym rangelist = "range list"

text \<open>
  \<open>combine\<close>: the intervals between the sorted boundaries, less repetitions, that the predicate
  keeps; neighbours with the same inheritance are joined. \<open>result\<close> is the slice built so far.
\<close>

definition combine_add :: "rangelist \<Rightarrow> int \<Rightarrow> int \<Rightarrow> bool \<Rightarrow> rangelist" where
  "combine_add result start stop inherited =
     (if result \<noteq> [] \<and> End (last result) = start \<and> Inheritable (last result) = inherited
      then butlast result @ [(last result)\<lparr>End := stop\<rparr>]
      else result @ [mk_range start stop inherited])"

fun combine_loop :: "(int \<Rightarrow> int \<Rightarrow> bool \<times> bool) \<Rightarrow> rangelist \<Rightarrow> int list \<Rightarrow> rangelist" where
  "combine_loop predicate result (start # stop # unique) =
     (let (present, inherited) = predicate start stop in
      combine_loop predicate
        (if present then combine_add result start stop inherited else result) (stop # unique))"
| "combine_loop predicate result _ = result"

definition combine :: "int list \<Rightarrow> (int \<Rightarrow> int \<Rightarrow> bool \<times> bool) \<Rightarrow> rangelist" where
  "combine boundaries predicate = combine_loop predicate [] (remdups_adj (sort boundaries))"

definition item_covers :: "int \<Rightarrow> int \<Rightarrow> range \<Rightarrow> bool" where
  "item_covers start stop i \<longleftrightarrow> Start i \<le> start \<and> stop \<le> End i"

definition item_bounds :: "rangelist \<Rightarrow> int list" where
  "item_bounds ranges = concat (map (\<lambda>i. [Start i, End i]) ranges)"

definition Normalize :: "rangelist \<Rightarrow> rangelist" where
  "Normalize ranges =
     combine (item_bounds (filter (\<lambda>i. \<not> (Start i < 0 \<or> End i \<le> Start i)) ranges))
       (\<lambda>start stop.
          (list_ex (item_covers start stop) ranges,
           list_ex (\<lambda>i. item_covers start stop i \<and> Inheritable i) ranges))"

definition collectBoundaries :: "rangelist list \<Rightarrow> int list" where
  "collectBoundaries rangelists = concat (map (\<lambda>l. item_bounds (Normalize l)) rangelists)"

definition covers :: "rangelist \<Rightarrow> int \<Rightarrow> int \<Rightarrow> bool \<times> bool" where
  "covers ranges start stop =
     (case find (item_covers start stop) (Normalize ranges) of
        None \<Rightarrow> (False, False)
      | Some i \<Rightarrow> (True, Inheritable i))"

definition MergeRangelists :: "rangelist \<Rightarrow> rangelist \<Rightarrow> rangelist" where
  "MergeRangelists a b =
     combine (collectBoundaries [a, b])
       (\<lambda>start stop.
          let (pa, ia) = covers a start stop; (pb, ib) = covers b start stop in
          (pa \<or> pb, ia \<or> ib))"

definition IntersectRangelists :: "rangelist \<Rightarrow> rangelist \<Rightarrow> bool \<Rightarrow> rangelist" where
  "IntersectRangelists a b considerInheritance =
     combine (collectBoundaries [a, b])
       (\<lambda>start stop.
          let (pa, ia) = covers a start stop; (pb, ib) = covers b start stop in
          if considerInheritance \<and> ia \<noteq> ib then (False, False)
          else (pa \<and> pb, ia \<or> ib))"

definition RemoveRangelist :: "rangelist \<Rightarrow> rangelist \<Rightarrow> bool \<Rightarrow> rangelist" where
  "RemoveRangelist eraser whiteboard considerInheritance =
     combine (collectBoundaries [eraser, whiteboard])
       (\<lambda>start stop.
          let (white, whiteInherited) = covers whiteboard start stop;
              (erase, eraseInherited) = covers eraser start stop;
              erase' = (if considerInheritance \<and> whiteInherited \<noteq> eraseInherited then False else erase) in
          (white \<and> \<not> erase', whiteInherited))"

definition DiffRangelists :: "rangelist \<Rightarrow> rangelist \<Rightarrow> bool \<Rightarrow> rangelist \<times> rangelist" where
  "DiffRangelists src dst considerInheritance =
     (RemoveRangelist dst src considerInheritance, RemoveRangelist src dst considerInheritance)"

definition Reverse :: "rangelist \<Rightarrow> rangelist" where
  "Reverse ranges = map (\<lambda>i. mk_range (End i) (Start i) (Inheritable i)) (rev ranges)"

definition Inheritable_ranges :: "rangelist \<Rightarrow> rangelist" where
  "Inheritable_ranges ranges = filter Inheritable (Normalize ranges)"

text \<open>
  \<open>for revision := Start+1; revision <= End; revision++\<close> over 64-bit numbers: \<open>None\<close> is the loop
  that never ends.
\<close>

definition next_revision :: "int \<Rightarrow> int" where
  "next_revision r = (if r = 2 ^ 63 - 1 then - (2 ^ 63) else r + 1)"

partial_function (option) revision_loop :: "int \<Rightarrow> int \<Rightarrow> int list option" where
  "revision_loop revision stop =
     (if revision \<le> stop
      then Option.bind (revision_loop (next_revision revision) stop) (\<lambda>rest. Some (revision # rest))
      else Some [])"

fun ranges_revisions :: "rangelist \<Rightarrow> int list option" where
  "ranges_revisions [] = Some []"
| "ranges_revisions (i # ranges) =
     Option.bind (revision_loop (next_revision (Start i)) (End i)) (\<lambda>revs.
     Option.bind (ranges_revisions ranges) (\<lambda>rest. Some (revs @ rest)))"

definition ToRevs :: "rangelist \<Rightarrow> int list option" where
  "ToRevs ranges = ranges_revisions (Normalize ranges)"

section \<open>Text\<close>

datatype mergeinfo_error = InvalidLine nat | EmptyRangelist | InvalidRevision string
  | ReversedRange string | OverlappingInheritance | AtLine nat mergeinfo_error

definition parseRevision :: "string \<Rightarrow> mergeinfo_error + int" where
  "parseRevision text =
     (case parse_int 64 text of
        None \<Rightarrow> Inl (InvalidRevision text)
      | Some number \<Rightarrow> if number \<le> 0 then Inl (InvalidRevision text) else Inr number)"

definition parse_field :: "string \<Rightarrow> mergeinfo_error + range" where
  "parse_field text =
     (let trimmed = TrimSpace text;
          inheritable = (\<not> HasSuffix trimmed ''*'');
          field = TrimSuffix trimmed ''*'';
          (before, after, paired) = cut CHR ''-'' field in
      case parseRevision before of
        Inl e \<Rightarrow> Inl e
      | Inr start \<Rightarrow>
          if paired then
            (case parseRevision after of
               Inl e \<Rightarrow> Inl e
             | Inr stop \<Rightarrow>
                 if stop \<le> start then Inl (ReversedRange field)
                 else Inr (mk_range (start - 1) stop inheritable))
          else Inr (mk_range (start - 1) start inheritable))"

fun parse_fields :: "string list \<Rightarrow> mergeinfo_error + rangelist" where
  "parse_fields [] = Inr []"
| "parse_fields (field # rest) =
     (case parse_field field of
        Inl e \<Rightarrow> Inl e
      | Inr r \<Rightarrow> (case parse_fields rest of Inl e \<Rightarrow> Inl e | Inr rs \<Rightarrow> Inr (r # rs)))"

definition conflicting :: "range \<Rightarrow> range \<Rightarrow> bool" where
  "conflicting a b \<longleftrightarrow> Start a < End b \<and> Start b < End a \<and> Inheritable a \<noteq> Inheritable b"

fun has_conflict :: "rangelist \<Rightarrow> bool" where
  "has_conflict [] = False"
| "has_conflict (r # rs) = (list_ex (conflicting r) rs \<or> has_conflict rs)"

definition ParseRangelist :: "string \<Rightarrow> mergeinfo_error + rangelist" where
  "ParseRangelist text =
     (if TrimSpace text = [] then Inl EmptyRangelist
      else case parse_fields (split CHR '','' text) of
          Inl e \<Rightarrow> Inl e
        | Inr ranges \<Rightarrow>
            if has_conflict ranges then Inl OverlappingInheritance else Inr (Normalize ranges))"

definition range_text :: "range \<Rightarrow> string option" where
  "range_text i =
     map_option (\<lambda>text. if Inheritable i then text else text @ ''*'')
       (if Start i = End i - 1 then Some (itoa (End i))
        else if Start i - 1 = End i then Some (''-'' @ itoa (Start i))
        else if Start i < End i then Some (itoa (Start i + 1) @ ''-'' @ itoa (End i))
        else if Start i > End i then Some (itoa (Start i) @ ''-'' @ itoa (End i + 1))
        else None)"

definition Rangelist_String :: "rangelist \<Rightarrow> string" where
  "Rangelist_String ranges = join '','' (List.map_filter range_text ranges)"

section \<open>Mergeinfo and catalogs\<close>

type_synonym mergeinfo = "(string, rangelist) fmap"
type_synonym catalog = "(string, mergeinfo) fmap"

definition ranges_at :: "mergeinfo \<Rightarrow> string \<Rightarrow> rangelist" where
  "ranges_at info path = (case fmlookup info path of None \<Rightarrow> [] | Some ranges \<Rightarrow> ranges)"

definition hasDotSegment :: "string \<Rightarrow> bool" where
  "hasDotSegment path \<longleftrightarrow> list_ex (\<lambda>segment. segment = ''.'' \<or> segment = ''..'') (split CHR ''/'' path)"

fun parse_lines :: "nat \<Rightarrow> string list \<Rightarrow> mergeinfo \<Rightarrow> mergeinfo_error + mergeinfo" where
  "parse_lines lineNumber [] result = Inr result"
| "parse_lines lineNumber (text # rest) result =
     (let line = TrimSpace text in
      if line = [] then parse_lines (lineNumber + 1) rest result
      else case LastIndexByte line CHR '':'' of
          None \<Rightarrow> Inl (InvalidLine (lineNumber + 1))
        | Some separator \<Rightarrow>
            (let path = take separator line; ranges = drop (separator + 1) line in
             if \<not> FspathIsCanonical path \<or> hasDotSegment path \<or> path = ''/'' \<and> TrimSpace ranges = []
             then Inl (InvalidLine (lineNumber + 1))
             else case ParseRangelist ranges of
                 Inl e \<Rightarrow> Inl (AtLine (lineNumber + 1) e)
               | Inr parsed \<Rightarrow>
                   parse_lines (lineNumber + 1) rest
                     (fmupd path (MergeRangelists (ranges_at result path) parsed) result)))"

definition Mergeinfo_Parse :: "string \<Rightarrow> mergeinfo_error + mergeinfo" where
  "Mergeinfo_Parse text =
     parse_lines 0 (split CHR 0x0A (replace_pair CHR 0x0D CHR 0x0A CHR 0x0A text)) fmempty"

definition info_lines :: "(string \<times> rangelist) list \<Rightarrow> string list" where
  "info_lines entries =
     map (\<lambda>(path, ranges). path @ '':'' @ Rangelist_String (Normalize ranges))
       (filter (\<lambda>(path, ranges). Normalize ranges \<noteq> []) entries)"

definition Mergeinfo_String :: "mergeinfo \<Rightarrow> string" where
  "Mergeinfo_String info = join [CHR 0x0A] (info_lines (sorted_entries info))"

definition combineMergeinfo ::
    "mergeinfo \<Rightarrow> mergeinfo \<Rightarrow> (rangelist \<Rightarrow> rangelist \<Rightarrow> rangelist) \<Rightarrow> mergeinfo" where
  "combineMergeinfo a b operation =
     fmap_of_list (filter (\<lambda>(path, ranges). ranges \<noteq> [])
       (map (\<lambda>path. (path, operation (ranges_at a path) (ranges_at b path)))
         (sorted_list_of_fset (fmdom a |\<union>| fmdom b))))"

definition Merge :: "mergeinfo \<Rightarrow> mergeinfo \<Rightarrow> mergeinfo" where
  "Merge a b = combineMergeinfo a b MergeRangelists"

definition Intersect :: "mergeinfo \<Rightarrow> mergeinfo \<Rightarrow> bool \<Rightarrow> mergeinfo" where
  "Intersect a b considerInheritance =
     combineMergeinfo a b (\<lambda>x y. IntersectRangelists x y considerInheritance)"

definition Remove :: "mergeinfo \<Rightarrow> mergeinfo \<Rightarrow> bool \<Rightarrow> mergeinfo" where
  "Remove eraser whiteboard considerInheritance =
     combineMergeinfo whiteboard eraser (\<lambda>a b. RemoveRangelist b a considerInheritance)"

definition Mergeinfo_Diff :: "mergeinfo \<Rightarrow> mergeinfo \<Rightarrow> bool \<Rightarrow> mergeinfo \<times> mergeinfo" where
  "Mergeinfo_Diff src dst considerInheritance =
     (Remove dst src considerInheritance, Remove src dst considerInheritance)"

definition ReverseMergeinfo :: "mergeinfo \<Rightarrow> mergeinfo" where
  "ReverseMergeinfo info = fmmap Reverse info"

definition InheritableMergeinfo :: "mergeinfo \<Rightarrow> mergeinfo" where
  "InheritableMergeinfo info = fmfilter (\<lambda>path. Inheritable_ranges (ranges_at info path) \<noteq> [])
     (fmmap Inheritable_ranges info)"

definition MergeCatalogs :: "catalog \<Rightarrow> catalog \<Rightarrow> catalog" where
  "MergeCatalogs a b =
     fold (\<lambda>(path, info) result.
         fmupd path (Merge (case fmlookup result path of None \<Rightarrow> fmempty | Some i \<Rightarrow> i) info) result)
       (sorted_entries b) a"

section \<open>What a rangelist says about a revision\<close>

text \<open>
  \<open>mark ranges r\<close> is \<open>None\<close> when no range holds revision \<open>r\<close>, and otherwise whether one that is
  inheritable does. Rangelists are \<open>normal\<close> when their ranges are non-empty, in order, disjoint,
  and neighbours that touch differ in inheritance; a normal list is determined by its marks.
\<close>

definition in_range :: "int \<Rightarrow> range \<Rightarrow> bool" where
  "in_range r i \<longleftrightarrow> Start i < r \<and> r \<le> End i"

definition mark :: "rangelist \<Rightarrow> int \<Rightarrow> bool option" where
  "mark ranges r =
     (if list_ex (in_range r) ranges
      then Some (list_ex (\<lambda>i. in_range r i \<and> Inheritable i) ranges) else None)"

definition nonneg :: "rangelist \<Rightarrow> bool" where
  "nonneg ranges \<longleftrightarrow> list_all (\<lambda>i. 0 \<le> Start i) ranges"

definition apart :: "range \<Rightarrow> range \<Rightarrow> bool" where
  "apart i j \<longleftrightarrow> End i \<le> Start j \<and> (End i = Start j \<longrightarrow> Inheritable i \<noteq> Inheritable j)"

definition normal :: "rangelist \<Rightarrow> bool" where
  "normal ranges \<longleftrightarrow> list_all (\<lambda>i. 0 \<le> Start i \<and> Start i < End i) ranges \<and> successively apart ranges"

definition outcome :: "bool \<times> bool \<Rightarrow> bool option" where
  "outcome p = (if fst p then Some (snd p) else None)"

lemma mk_range_simps [simp]: "Start (mk_range s e i) = s" "End (mk_range s e i) = e" "Inheritable (mk_range s e i) = i"
  by (simp_all add: mk_range_def)

lemma nonneg_Nil [simp]: "nonneg []"
  by (simp add: nonneg_def)

lemma mark_Nil [simp]: "mark [] r = None"
  by (simp add: mark_def)

lemma normal_Nil [simp]: "normal []"
  by (simp add: normal_def)

lemma normal_ConsD:
  assumes "normal (i # rest)"
  shows "normal rest" "0 \<le> Start i" "Start i < End i" "\<And>j. j \<in> set rest \<Longrightarrow> End i \<le> Start j"
proof -
  show "normal rest" "0 \<le> Start i" "Start i < End i"
    using assms by (auto simp: normal_def successively_Cons)
  show "End i \<le> Start j" if "j \<in> set rest" for j
    using assms that
  proof (induction rest arbitrary: i)
    case (Cons k rest)
    from Cons.prems have k: "End i \<le> Start k" "Start k < End k" "normal (k # rest)"
      by (auto simp: normal_def apart_def)
    then show ?case using Cons by fastforce
  qed simp
qed

lemma normal_snoc:
  "normal (ranges @ [i]) \<longleftrightarrow>
     normal ranges \<and> 0 \<le> Start i \<and> Start i < End i \<and> (ranges \<noteq> [] \<longrightarrow> apart (last ranges) i)"
  by (auto simp: normal_def successively_append_iff)

lemma normal_before_last:
  assumes "normal (ranges @ [i])" "j \<in> set ranges"
  shows "End j \<le> Start i"
  using assms
proof (induction ranges)
  case (Cons k ranges)
  then show ?case using normal_ConsD [of k "ranges @ [i]"] by auto
qed simp

lemma mark_snoc:
  assumes "normal (ranges @ [i])"
  shows "mark (ranges @ [i]) r = (if in_range r i then Some (Inheritable i) else mark ranges r)"
proof -
  have "\<not> in_range r j" if "in_range r i" "j \<in> set ranges" for j
    using normal_before_last [OF assms that(2)] that(1) by (simp add: in_range_def)
  then show ?thesis by (auto simp: mark_def list_ex_iff)
qed

lemma mark_Cons:
  assumes "normal (i # ranges)"
  shows "mark (i # ranges) r = (if in_range r i then Some (Inheritable i) else mark ranges r)"
proof -
  have "\<not> in_range r j" if "in_range r i" "j \<in> set ranges" for j
    using normal_ConsD(4) [OF assms that(2)] that(1) by (simp add: in_range_def)
  then show ?thesis by (auto simp: mark_def list_ex_iff)
qed

lemma mark_find: "normal ranges \<Longrightarrow> mark ranges r = map_option Inheritable (find (in_range r) ranges)"
  by (induction ranges) (simp_all add: mark_Cons normal_ConsD(1))

lemma mark_after:
  assumes "normal (i # ranges)" "r \<le> End i"
  shows "mark ranges r = None"
  using normal_ConsD(4) [OF assms(1)] assms(2) by (force simp: mark_def list_ex_iff in_range_def)

lemma normal_unique:
  assumes "normal xs" "normal ys" "\<And>r. mark xs r = mark ys r"
  shows "xs = ys"
  using assms
proof (induction xs arbitrary: ys)
  case Nil
  then show ?case
  proof (cases ys)
    case (Cons y ys')
    with Nil.prems have "mark ys (End y) = Some (Inheritable y)"
      using normal_ConsD(3) [of y ys'] by (simp add: mark_Cons in_range_def)
    with Nil.prems(3) [of "End y"] show ?thesis by simp
  qed simp
next
  case (Cons x xs)
  note nx = Cons.prems(1)
  have low: "Start u \<le> Start v"
    if "normal (u # us)" "normal (v # vs)" "\<And>r. mark (u # us) r = mark (v # vs) r" for u us v vs
  proof (rule ccontr)
    assume "\<not> Start u \<le> Start v"
    moreover have "mark (v # vs) (Start v + 1) = Some (Inheritable v)"
      using normal_ConsD(3) [OF that(2)] by (simp add: mark_Cons [OF that(2)] in_range_def)
    moreover have "mark us r = None" if "r \<le> Start u" for r
      using mark_after [of u us r] \<open>normal (u # us)\<close> normal_ConsD(3) [of u us] that by simp
    ultimately show False
      using that(3) [of "Start v + 1"] by (simp add: mark_Cons [OF that(1)] in_range_def split: if_splits)
  qed
  have high: "End u \<le> End v"
    if n: "normal (u # us)" "normal (v # vs)" and m: "\<And>r. mark (u # us) r = mark (v # vs) r"
      and s: "Start u = Start v" "Inheritable u = Inheritable v" for u us v vs
  proof (rule ccontr)
    assume less: "\<not> End u \<le> End v"
    then have "mark (u # us) (End v + 1) = Some (Inheritable u)"
      using normal_ConsD(3) [OF n(2)] s by (simp add: mark_Cons [OF n(1)] in_range_def)
    then have v: "mark vs (End v + 1) = Some (Inheritable v)"
      using m [of "End v + 1"] s by (simp add: mark_Cons [OF n(2)] in_range_def)
    obtain w ws where w: "vs = w # ws" using v by (cases vs) auto
    with n(2) have nw: "normal (w # ws)" "apart v w" by (auto simp: normal_def)
    have "mark ws (End v + 1) = None"
      using mark_after [OF nw(1)] nw normal_ConsD(3) [OF nw(1)] by (simp add: apart_def)
    with v w nw show False
      by (auto simp: mark_Cons [OF nw(1)] in_range_def apart_def split: if_splits)
  qed
  have "ys \<noteq> []"
  proof
    assume "ys = []"
    with Cons.prems(3) [of "End x"] normal_ConsD(3) [OF nx] show False
      by (simp add: mark_Cons [OF nx] in_range_def)
  qed
  then obtain y ys' where y: "ys = y # ys'" by (cases ys) auto
  note ny = Cons.prems(2) [unfolded y] and m = Cons.prems(3) [unfolded y]
  have s: "Start x = Start y" using low [OF nx ny m] low [OF ny nx m [symmetric]] by simp
  have i: "Inheritable x = Inheritable y"
    using m [of "Start x + 1"] s normal_ConsD(3) [OF nx] normal_ConsD(3) [OF ny]
    by (simp add: mark_Cons [OF nx] mark_Cons [OF ny] in_range_def)
  have e: "End x = End y" using high [OF nx ny m s i] high [OF ny nx m [symmetric] s [symmetric] i [symmetric]] by simp
  have "x = y" using s i e by simp
  moreover have "mark xs r = mark ys' r" for r
    using m [of r, unfolded mark_Cons [OF nx] mark_Cons [OF ny]]
      mark_after [OF nx, of r] mark_after [OF ny, of r] \<open>x = y\<close>
    by (cases "r \<le> End x") (simp_all add: in_range_def)
  ultimately show ?case
    using Cons.IH [of ys'] normal_ConsD(1) [OF nx] normal_ConsD(1) [OF ny] y by simp
qed

section \<open>What combining computes\<close>

fun segment :: "int list \<Rightarrow> int \<Rightarrow> (int \<times> int) option" where
  "segment (s # e # bounds) r = (if s < r \<and> r \<le> e then Some (s, e) else segment (e # bounds) r)"
| "segment _ r = None"

lemma segment_above: "segment (b # bounds) r = Some (s, e) \<Longrightarrow> sorted_wrt (<) (b # bounds) \<Longrightarrow> b < r"
  by (induction "b # bounds" r arbitrary: b bounds rule: segment.induct) (fastforce split: if_splits)+

lemma segment_Some:
  assumes "segment bounds r = Some (s, e)" "sorted_wrt (<) bounds"
  shows "s < r \<and> r \<le> e \<and> s \<in> set bounds \<and> e \<in> set bounds \<and> (\<forall>b \<in> set bounds. b \<le> s \<or> e \<le> b)"
  using assms
  by (induction bounds r rule: segment.induct) (auto split: if_splits)

lemma segment_None:
  assumes "segment bounds r = None" "sorted_wrt (<) bounds" "a \<in> set bounds" "b \<in> set bounds" "a < r"
  shows "b < r"
proof -
  have "segment bounds r = None \<Longrightarrow> sorted_wrt (<) bounds \<Longrightarrow> hd bounds < r \<Longrightarrow> b \<in> set bounds \<Longrightarrow> b < r"
    for bounds
    by (induction bounds r rule: segment.induct) (auto split: if_splits)
  moreover have "hd bounds \<le> a" using assms(2,3) by (cases bounds) auto
  ultimately show ?thesis using assms by fastforce
qed

lemma sorted_wrt_remdups_adj: "sorted xs \<Longrightarrow> sorted_wrt (<) (remdups_adj xs)" for xs :: "int list"
  by (induction xs rule: remdups_adj.induct) auto

lemma combine_add_normal:
  assumes "normal result" "result \<noteq> [] \<Longrightarrow> End (last result) \<le> start" "0 \<le> start" "start < stop"
  shows "normal (combine_add result start stop inherited)"
    and "End (last (combine_add result start stop inherited)) = stop"
    and "mark (combine_add result start stop inherited) r =
      (if start < r \<and> r \<le> stop then Some inherited else mark result r)"
proof -
  have "normal (combine_add result start stop inherited) \<and>
      End (last (combine_add result start stop inherited)) = stop \<and>
      mark (combine_add result start stop inherited) r =
      (if start < r \<and> r \<le> stop then Some inherited else mark result r)"
  proof (cases "result \<noteq> [] \<and> End (last result) = start \<and> Inheritable (last result) = inherited")
    case True
    then obtain res l where res: "result = res @ [l]" by (metis append_butlast_last_id)
    with True have l: "End l = start" "Inheritable l = inherited" by auto
    from assms(1) have n: "normal res" "0 \<le> Start l" "Start l < End l" "res \<noteq> [] \<longrightarrow> apart (last res) l"
      by (simp_all add: res normal_snoc)
    then have n': "normal (res @ [l\<lparr>End := stop\<rparr>])"
      using assms l by (auto simp: normal_snoc apart_def)
    show ?thesis
      using True n' assms l n(3)
      by (auto simp: combine_add_def res mark_snoc [OF n'] mark_snoc [OF assms(1) [unfolded res]] in_range_def)
  next
    case False
    then have c: "combine_add result start stop inherited = result @ [mk_range start stop inherited]"
      unfolding combine_add_def by (rule if_not_P)
    have n': "normal (result @ [mk_range start stop inherited])"
      using assms False by (auto simp: normal_snoc apart_def)
    show ?thesis using n' by (simp add: c mark_snoc [OF n'] in_range_def)
  qed
  then show "normal (combine_add result start stop inherited)"
    "End (last (combine_add result start stop inherited)) = stop"
    "mark (combine_add result start stop inherited) r =
      (if start < r \<and> r \<le> stop then Some inherited else mark result r)"
    by simp_all
qed

lemma mark_beyond:
  assumes "normal result" "result \<noteq> [] \<Longrightarrow> End (last result) \<le> b" "b < r"
  shows "mark result r = None"
proof (cases result rule: rev_cases)
  case (snoc res l)
  have "End j \<le> b" if "j \<in> set result" for j
    using that normal_before_last [OF assms(1) [unfolded snoc]] assms(1,2)
    by (force simp: snoc normal_snoc)
  then show ?thesis using assms(3) by (force simp: mark_def list_ex_iff in_range_def)
qed simp

lemma combine_loop_spec:
  assumes "sorted_wrt (<) (b # bounds)" "0 \<le> b" "normal result" "result \<noteq> [] \<Longrightarrow> End (last result) \<le> b"
  shows "normal (combine_loop p result (b # bounds)) \<and>
    mark (combine_loop p result (b # bounds)) r =
      (case segment (b # bounds) r of None \<Rightarrow> mark result r | Some (s, e) \<Rightarrow> outcome (p s e))"
  using assms
proof (induction bounds arbitrary: b result)
  case (Cons e bounds)
  obtain pr inh where p: "p b e = (pr, inh)" by (cases "p b e")
  let ?res = "if pr then combine_add result b e inh else result"
  have be: "b < e" using Cons.prems(1) by simp
  note add = combine_add_normal [OF Cons.prems(3,4,2) be, of inh]
  have l: "End (last ?res) \<le> e" if "?res \<noteq> []"
    using add(2) Cons.prems(4) be that by (cases pr) fastforce+
  have n: "normal ?res" using add(1) Cons.prems(3) by simp
  have "normal (combine_loop p ?res (e # bounds)) \<and>
      mark (combine_loop p ?res (e # bounds)) r =
        (case segment (e # bounds) r of None \<Rightarrow> mark ?res r | Some (s, e) \<Rightarrow> outcome (p s e))"
    by (rule Cons.IH) (use Cons.prems be n l in auto)
  moreover have "segment (e # bounds) r = None" if "r \<le> e"
    using segment_above [of e bounds r] that Cons.prems(1) by (cases "segment (e # bounds) r") fastforce+
  moreover have "mark result r = None" if "b < r"
    by (rule mark_beyond [OF Cons.prems(3,4) that])
  ultimately show ?case
    by (auto simp: p add(3) outcome_def split: option.split)
qed simp

lemma combine_spec:
  assumes nonneg: "\<forall>b \<in> set bounds. 0 \<le> b"
    and uniform: "\<And>s e. s < r \<Longrightarrow> r \<le> e \<Longrightarrow> s \<in> set bounds \<Longrightarrow> e \<in> set bounds \<Longrightarrow>
      (\<forall>b \<in> set bounds. b \<le> s \<or> e \<le> b) \<Longrightarrow> outcome (p s e) = Q"
    and inside: "Q \<noteq> None \<Longrightarrow> \<exists>a \<in> set bounds. \<exists>b \<in> set bounds. a < r \<and> r \<le> b"
  shows "normal (combine bounds p)" "mark (combine bounds p) r = Q"
proof -
  let ?u = "remdups_adj (sort bounds)"
  have u: "sorted_wrt (<) ?u" by (simp add: sorted_wrt_remdups_adj)
  have set: "set ?u = set bounds" by simp
  have "normal (combine bounds p) \<and> mark (combine bounds p) r =
      (case segment ?u r of None \<Rightarrow> None | Some (s, e) \<Rightarrow> outcome (p s e))"
  proof (cases ?u)
    case (Cons b bs)
    then have "0 \<le> b" using nonneg set by (metis list.set_intros(1))
    then show ?thesis
      using combine_loop_spec [of b bs "[]" p r] u Cons by (auto simp: combine_def split: option.splits)
  qed (simp add: combine_def)
  moreover have "Q = None" if "segment ?u r = None"
    using inside segment_None [OF that u] set by (metis not_le)
  ultimately show "normal (combine bounds p)" "mark (combine bounds p) r = Q"
    using segment_Some [OF _ u, of r] set uniform by (fastforce split: option.splits)+
qed

lemma set_item_bounds: "b \<in> set (item_bounds ranges) \<longleftrightarrow> (\<exists>i \<in> set ranges. b = Start i \<or> b = End i)"
  by (auto simp: item_bounds_def)

lemma item_covers_atomic:
  assumes "s < r" "r \<le> e" "\<forall>b \<in> B. b \<le> s \<or> e \<le> b" "Start i \<in> B" "End i \<in> B"
  shows "item_covers s e i \<longleftrightarrow> in_range r i"
  using assms by (fastforce simp: item_covers_def in_range_def)

lemma item_covers_empty: "s < r \<Longrightarrow> r \<le> e \<Longrightarrow> End i \<le> Start i \<Longrightarrow> \<not> item_covers s e i \<and> \<not> in_range r i"
  by (auto simp: item_covers_def in_range_def)

lemma Normalize_spec:
  assumes "nonneg ranges"
  shows "normal (Normalize ranges)" "mark (Normalize ranges) r = mark ranges r"
proof -
  let ?valid = "\<lambda>i. \<not> (Start i < 0 \<or> End i \<le> Start i)"
  let ?bounds = "item_bounds (filter ?valid ranges)"
  let ?p = "\<lambda>start stop. (list_ex (item_covers start stop) ranges,
           list_ex (\<lambda>i. item_covers start stop i \<and> Inheritable i) ranges)"
  have nn: "0 \<le> Start i" if "i \<in> set ranges" for i using assms that by (auto simp: nonneg_def list_all_iff)
  have 1: "\<forall>b \<in> set ?bounds. 0 \<le> b" by (auto simp: set_item_bounds)
  have 2: "outcome (?p s e) = mark ranges r"
    if "s < r" "r \<le> e" "s \<in> set ?bounds" "e \<in> set ?bounds" "\<forall>b \<in> set ?bounds. b \<le> s \<or> e \<le> b" for s e r
  proof -
    have "item_covers s e i \<longleftrightarrow> in_range r i" if "i \<in> set ranges" for i
    proof (cases "End i \<le> Start i")
      case True
      then show ?thesis using item_covers_empty [of s r e i] \<open>s < r\<close> \<open>r \<le> e\<close> by simp
    next
      case False
      then have "Start i \<in> set ?bounds" "End i \<in> set ?bounds"
        using nn [OF that] that by (auto simp: set_item_bounds)
      then show ?thesis
        using item_covers_atomic \<open>s < r\<close> \<open>r \<le> e\<close> \<open>\<forall>b \<in> set ?bounds. b \<le> s \<or> e \<le> b\<close> by blast
    qed
    then show ?thesis by (auto simp: outcome_def mark_def list_ex_iff)
  qed
  have 3: "\<exists>a \<in> set ?bounds. \<exists>b \<in> set ?bounds. a < r \<and> r \<le> b" if some: "mark ranges r \<noteq> None" for r
  proof -
    obtain i where "i \<in> set ranges" "in_range r i"
      using some by (auto simp: mark_def list_ex_iff split: if_splits)
    then show ?thesis using nn [of i] by (fastforce simp: set_item_bounds in_range_def)
  qed
  show "normal (Normalize ranges)" "mark (Normalize ranges) r = mark ranges r"
    unfolding Normalize_def by (rule combine_spec [OF 1 2 3]; assumption)+
qed

lemma normal_nonneg: "normal ranges \<Longrightarrow> nonneg ranges"
  by (auto simp: normal_def nonneg_def list_all_iff)

lemma Normalize_normal: "normal ranges \<Longrightarrow> Normalize ranges = ranges"
  by (rule normal_unique) (simp_all add: Normalize_spec normal_nonneg)

lemma covers_spec:
  assumes "nonneg ranges" "s < r" "r \<le> e" "\<forall>b \<in> B. b \<le> s \<or> e \<le> b"
    "set (item_bounds (Normalize ranges)) \<subseteq> B"
  shows "covers ranges s e = (case mark ranges r of None \<Rightarrow> (False, False) | Some i \<Rightarrow> (True, i))"
proof -
  have "item_covers s e i \<longleftrightarrow> in_range r i" if "i \<in> set (Normalize ranges)" for i
    by (rule item_covers_atomic [OF assms(2-4)])
      (use that assms(5) in \<open>auto simp: set_item_bounds subset_iff\<close>)
  then have "find (item_covers s e) (Normalize ranges) = find (in_range r) (Normalize ranges)"
    by (simp cong: find_cong)
  then show ?thesis
    using mark_find [OF Normalize_spec(1) [OF assms(1)], of r] Normalize_spec(2) [OF assms(1), of r]
    by (simp add: covers_def split: option.split)
qed

text \<open>The shape the three set operations share: a pointwise operation on marks.\<close>

lemma combine_pointwise:
  assumes nn: "nonneg a" "nonneg b"
    and p: "\<And>s e. outcome (p s e) = f (covers a s e) (covers b s e)"
    and none: "f (False, False) (False, False) = None"
  defines "m \<equiv> \<lambda>x. case x of None \<Rightarrow> (False, False) | Some i \<Rightarrow> (True, i)"
  shows "normal (combine (collectBoundaries [a, b]) p)"
    "mark (combine (collectBoundaries [a, b]) p) r = f (m (mark a r)) (m (mark b r))"
proof -
  let ?B = "set (collectBoundaries [a, b])"
  have B: "?B = set (item_bounds (Normalize a)) \<union> set (item_bounds (Normalize b))"
    by (simp add: collectBoundaries_def)
  have na: "normal (Normalize a)" "normal (Normalize b)" using nn Normalize_spec by simp_all
  then have 1: "\<forall>x \<in> ?B. 0 \<le> x" unfolding B by (fastforce simp: set_item_bounds normal_def list_all_iff)
  have 2: "outcome (p s e) = f (m (mark a r)) (m (mark b r))"
    if "s < r" "r \<le> e" "s \<in> ?B" "e \<in> ?B" "\<forall>x \<in> ?B. x \<le> s \<or> e \<le> x" for s e r
    unfolding p m_def
    using covers_spec [OF nn(1) that(1,2,5)] covers_spec [OF nn(2) that(1,2,5)] B by simp
  have 3: "\<exists>x \<in> ?B. \<exists>y \<in> ?B. x < r \<and> r \<le> y" if "f (m (mark a r)) (m (mark b r)) \<noteq> None" for r
  proof -
    have "mark a r \<noteq> None \<or> mark b r \<noteq> None" using that none by (auto simp: m_def split: option.splits)
    then have "mark (Normalize a) r \<noteq> None \<or> mark (Normalize b) r \<noteq> None"
      using nn Normalize_spec(2) by simp
    then obtain i where "i \<in> set (Normalize a) \<union> set (Normalize b)" "in_range r i"
      by (auto simp: mark_def list_ex_iff split: if_splits)
    then show ?thesis unfolding B in_range_def by (metis Un_iff set_item_bounds)
  qed
  show "normal (combine (collectBoundaries [a, b]) p)"
    "mark (combine (collectBoundaries [a, b]) p) r = f (m (mark a r)) (m (mark b r))"
    by (rule combine_spec [OF 1 2 3]; assumption)+
qed

text \<open>The pointwise operations.\<close>

fun merge_marks :: "bool option \<Rightarrow> bool option \<Rightarrow> bool option" where
  "merge_marks None b = b"
| "merge_marks a None = a"
| "merge_marks (Some i) (Some j) = Some (i \<or> j)"

fun intersect_marks :: "bool \<Rightarrow> bool option \<Rightarrow> bool option \<Rightarrow> bool option" where
  "intersect_marks ci (Some i) (Some j) = (if ci \<and> i \<noteq> j then None else Some (i \<or> j))"
| "intersect_marks ci _ _ = None"

fun remove_marks :: "bool \<Rightarrow> bool option \<Rightarrow> bool option \<Rightarrow> bool option" where
  "remove_marks ci (Some e) (Some w) = (if ci \<and> e \<noteq> w then Some w else None)"
| "remove_marks ci _ w = w"

lemma Merge_spec:
  assumes "nonneg a" "nonneg b"
  shows "normal (MergeRangelists a b)" "mark (MergeRangelists a b) r = merge_marks (mark a r) (mark b r)"
proof -
  note c = combine_pointwise [OF assms, of _ "\<lambda>(pa, ia) (pb, ib). outcome (pa \<or> pb, ia \<or> ib)"]
  show "normal (MergeRangelists a b)" unfolding MergeRangelists_def
    by (rule c(1)) (auto simp: outcome_def split: prod.split)
  show "mark (MergeRangelists a b) r = merge_marks (mark a r) (mark b r)"
    unfolding MergeRangelists_def
    by (subst c(2)) (auto simp: outcome_def split: prod.split option.split)
qed

lemma Intersect_spec:
  assumes "nonneg a" "nonneg b"
  shows "normal (IntersectRangelists a b ci)"
    "mark (IntersectRangelists a b ci) r = intersect_marks ci (mark a r) (mark b r)"
proof -
  note c = combine_pointwise [OF assms, of _ "\<lambda>(pa, ia) (pb, ib). outcome (if ci \<and> ia \<noteq> ib then (False, False) else (pa \<and> pb, ia \<or> ib))"]
  show "normal (IntersectRangelists a b ci)" unfolding IntersectRangelists_def
    by (rule c(1)) (auto simp: outcome_def split: prod.split)
  show "mark (IntersectRangelists a b ci) r = intersect_marks ci (mark a r) (mark b r)"
    unfolding IntersectRangelists_def
    by (subst c(2)) (auto simp: outcome_def split: prod.split option.split)
qed

lemma Remove_spec:
  assumes "nonneg e" "nonneg w"
  shows "normal (RemoveRangelist e w ci)"
    "mark (RemoveRangelist e w ci) r = remove_marks ci (mark e r) (mark w r)"
proof -
  note c = combine_pointwise [OF assms, of _ "\<lambda>(erase, ie) (white, iw).
      outcome (white \<and> \<not> (if ci \<and> iw \<noteq> ie then False else erase), iw)"]
  show "normal (RemoveRangelist e w ci)" unfolding RemoveRangelist_def
    by (rule c(1)) (auto simp: outcome_def Let_def split: prod.split)
  show "mark (RemoveRangelist e w ci) r = remove_marks ci (mark e r) (mark w r)"
    unfolding RemoveRangelist_def
    by (subst c(2)) (auto simp: outcome_def Let_def split: prod.split option.split)
qed

section \<open>Listing revisions\<close>

lemma revision_loop_None: "stop = 2 ^ 63 - 1 \<Longrightarrow> r \<le> stop \<Longrightarrow> revision_loop r stop = None"
proof -
  have "stop = 2 ^ 63 - 1 \<longrightarrow> r \<le> stop \<longrightarrow> False" if "revision_loop r stop = Some ys" for ys
  proof (rule revision_loop.raw_induct [OF _ that])
    fix loop :: "int \<Rightarrow> int \<Rightarrow> int list option" and r stop ys
    assume IH: "\<And>r stop ys. loop r stop = Some ys \<Longrightarrow> stop = 2 ^ 63 - 1 \<longrightarrow> r \<le> stop \<longrightarrow> False"
      and eq: "(if r \<le> stop then Option.bind (loop (next_revision r) stop) (\<lambda>rest. Some (r # rest)) else Some []) = Some ys"
    show "stop = 2 ^ 63 - 1 \<longrightarrow> r \<le> stop \<longrightarrow> False"
    proof (intro impI)
      assume s: "stop = 2 ^ 63 - 1" "r \<le> stop"
      then have n: "next_revision r \<le> stop" by (simp add: next_revision_def)
      from eq s obtain rest where "loop (next_revision r) stop = Some rest"
        by (auto simp: Option.bind_eq_Some_conv split: if_splits)
      from IH [OF this] s n show False by blast
    qed
  qed
  then show "stop = 2 ^ 63 - 1 \<Longrightarrow> r \<le> stop \<Longrightarrow> revision_loop r stop = None" by fastforce
qed

lemma revision_loop_Some:
  assumes "stop < 2 ^ 63 - 1" "r \<le> stop + 1"
  shows "revision_loop r stop = Some [r..stop]"
  using assms(2)
proof (induction "nat (stop + 1 - r)" arbitrary: r)
  case 0
  then show ?case by (simp add: revision_loop.simps [of r])
next
  case (Suc n)
  then have "r \<le> stop" by simp
  then have nx: "next_revision r = r + 1" using assms(1) by (simp add: next_revision_def)
  have "revision_loop (r + 1) stop = Some [r + 1..stop]" using Suc by simp
  with nx \<open>r \<le> stop\<close> show ?case by (simp add: revision_loop.simps [of r] upto_rec1)
qed

lemma ranges_revisions_spec:
  assumes "normal ranges" "\<forall>i \<in> set ranges. End i \<le> 2 ^ 63 - 1"
  shows "(ranges_revisions ranges = None \<longleftrightarrow> (\<exists>i \<in> set ranges. End i = 2 ^ 63 - 1)) \<and>
    (\<forall>revs. ranges_revisions ranges = Some revs \<longrightarrow>
       sorted_wrt (<) revs \<and> set revs = {r. mark ranges r \<noteq> None})"
  using assms
proof (induction ranges)
  case (Cons i ranges)
  note n = Cons.prems(1)
  have b: "Start i < End i" "End i \<le> 2 ^ 63 - 1" using normal_ConsD(3) [OF n] Cons.prems(2) by simp_all
  then have s: "next_revision (Start i) = Start i + 1" by (simp add: next_revision_def)
  have IH: "(ranges_revisions ranges = None \<longleftrightarrow> (\<exists>i \<in> set ranges. End i = 2 ^ 63 - 1)) \<and>
    (\<forall>revs. ranges_revisions ranges = Some revs \<longrightarrow>
       sorted_wrt (<) revs \<and> set revs = {r. mark ranges r \<noteq> None})"
    using Cons normal_ConsD(1) [OF n] by simp
  show ?case
  proof (cases "End i = 2 ^ 63 - 1")
    case True
    then show ?thesis using b by (simp add: s revision_loop_None)
  next
    case False
    then have l: "revision_loop (Start i + 1) (End i) = Some [Start i + 1..End i]"
      using b by (intro revision_loop_Some) simp_all
    have later: "End i < r" if "mark ranges r \<noteq> None" for r
      using mark_after [OF n, of r] that by fastforce
    have "sorted_wrt (<) ([Start i + 1..End i] @ rest) \<and>
        set ([Start i + 1..End i] @ rest) = {r. mark (i # ranges) r \<noteq> None}"
      if "sorted_wrt (<) rest" "set rest = {r. mark ranges r \<noteq> None}" for rest
      using that later
      by (auto simp: sorted_wrt_append mark_Cons [OF n] in_range_def strict_sorted_iff) fastforce+
    with IH False show ?thesis
      by (auto simp: s l Option.bind_eq_Some_conv Option.bind_eq_None_conv)
  qed
qed simp

section \<open>Reading what was printed\<close>

definition printable :: "range \<Rightarrow> bool" where
  "printable i \<longleftrightarrow> 0 \<le> Start i \<and> Start i < End i \<and> End i < 2 ^ 63"

definition range_body :: "range \<Rightarrow> string" where
  "range_body i =
     (if Start i = End i - 1 then itoa (End i) else itoa (Start i + 1) @ ''-'' @ itoa (End i))"

lemma range_text_printable:
  "printable i \<Longrightarrow> range_text i = Some (if Inheritable i then range_body i else range_body i @ ''*'')"
  by (auto simp: range_text_def range_body_def printable_def)

lemma itoa_digits: "0 \<le> n \<Longrightarrow> list_all is_digit (itoa n) \<and> itoa n \<noteq> []"
  by (simp add: itoa_def)

lemma range_body_chars:
  assumes "printable i"
  shows "range_body i \<noteq> []" "is_digit (hd (range_body i))" "is_digit (last (range_body i))"
    "c \<in> set (range_body i) \<Longrightarrow> is_digit c \<or> c = CHR ''-''"
proof -
  have d: "list_all is_digit (itoa n)" "itoa n \<noteq> []" if "0 \<le> n" for n using itoa_digits that by auto
  have e: "is_digit (hd (itoa n))" "is_digit (last (itoa n))" "\<And>c. c \<in> set (itoa n) \<Longrightarrow> is_digit c" if "0 \<le> n" for n
    using d [OF that] by (simp_all add: list_all_iff)
  have s: "0 \<le> End i" "0 \<le> Start i + 1" using assms by (simp_all add: printable_def)
  from d(2) [OF s(1)] d(2) [OF s(2)] e [OF s(1)] e [OF s(2)] show "range_body i \<noteq> []" "is_digit (hd (range_body i))" "is_digit (last (range_body i))"
    "c \<in> set (range_body i) \<Longrightarrow> is_digit c \<or> c = CHR ''-''"
    by (auto simp: range_body_def split: if_splits)
qed

lemma star_not_space [simp]: "\<not> ends_space CHR ''*''"
  by (simp add: ends_space_def space_codes_def)

definition full_text :: "range \<Rightarrow> string" where
  "full_text i = (if Inheritable i then range_body i else range_body i @ ''*'')"

lemma full_text_props:
  assumes "printable i"
  shows "full_text i \<noteq> []" "TrimSpace (full_text i) = full_text i" "is_digit (hd (full_text i))"
    "\<not> ends_space (last (full_text i))" "c \<in> set (full_text i) \<Longrightarrow> is_digit c \<or> c = CHR ''-'' \<or> c = CHR ''*''"
    "last (full_text i) \<noteq> CHR 0x0D"
proof -
  note b = range_body_chars [OF assms]
  show ne: "full_text i \<noteq> []" using b(1) by (simp add: full_text_def)
  show h: "is_digit (hd (full_text i))" using b(1,2) by (simp add: full_text_def)
  show l: "\<not> ends_space (last (full_text i))" using b(1,3) by (simp add: full_text_def)
  show "TrimSpace (full_text i) = full_text i" by (rule TrimSpace_id) (use h l in simp_all)
  show "c \<in> set (full_text i) \<Longrightarrow> is_digit c \<or> c = CHR ''-'' \<or> c = CHR ''*''"
    using b(4) by (auto simp: full_text_def split: if_splits)
  show "last (full_text i) \<noteq> CHR 0x0D" using l by (auto simp: ends_space_def space_codes_def)
qed

lemma parse_field_full:
  assumes "printable i"
  shows "parse_field (full_text i) = Inr i"
proof -
  note b = range_body_chars [OF assms]
  have "range_body i \<noteq> [] \<and> last (range_body i) \<noteq> CHR ''*''" using b(1,3) by (auto simp: is_digit_def)
  then have ns: "\<not> HasSuffix (range_body i) ''*''" by (simp add: HasSuffix_single)
  then have f: "HasSuffix (full_text i) ''*'' \<longleftrightarrow> \<not> Inheritable i" "TrimSuffix (full_text i) ''*'' = range_body i"
    by (auto simp: full_text_def TrimSuffix_def)
  have p: "parse_int 64 (itoa n) = Some n" if "0 \<le> n" "n < 2 ^ 63" for n
    by (rule parse_int_itoa) (use that in simp_all)
  have nd: "CHR ''-'' \<notin> set (itoa n)" if "0 \<le> n" for n
    using itoa_digits [OF that] by (auto simp: list_all_iff)
  have pr: "printable i" by fact
  show ?thesis
  proof (cases "Start i = End i - 1")
    case True
    then have "cut CHR ''-'' (range_body i) = (itoa (End i), [], False)"
      using pr nd by (simp add: range_body_def cut_none printable_def)
    with True pr p show ?thesis
      by (auto simp: parse_field_def full_text_props(2) [OF assms] f parseRevision_def printable_def mk_range_def Let_def)
  next
    case False
    then have "cut CHR ''-'' (range_body i) = (itoa (Start i + 1), itoa (End i), True)"
      using pr nd [of "Start i + 1"] cut_at [of "CHR ''-''" "itoa (Start i + 1)" "itoa (End i)"]
      by (simp add: range_body_def printable_def)
    with False pr p show ?thesis
      by (auto simp: parse_field_def full_text_props(2) [OF assms] f parseRevision_def printable_def mk_range_def Let_def)
  qed
qed

definition printable_list :: "rangelist \<Rightarrow> bool" where
  "printable_list ranges \<longleftrightarrow> ranges \<noteq> [] \<and> normal ranges \<and> list_all (\<lambda>i. End i < 2 ^ 63) ranges"

lemma printable_list_item: "printable_list ranges \<Longrightarrow> i \<in> set ranges \<Longrightarrow> printable i"
  by (auto simp: printable_list_def normal_def printable_def list_all_iff)

lemma Rangelist_String_eq:
  assumes "list_all printable ranges"
  shows "Rangelist_String ranges = join '','' (map full_text ranges)"
proof -
  have "List.map_filter range_text ranges = map full_text ranges"
    using assms by (induction ranges) (simp_all add: range_text_printable full_text_def)
  then show ?thesis by (simp add: Rangelist_String_def)
qed

lemma parse_fields_full:
  "list_all printable ranges \<Longrightarrow> parse_fields (map full_text ranges) = Inr ranges"
  by (induction ranges) (simp_all add: parse_field_full)

lemma normal_no_conflict: "normal ranges \<Longrightarrow> \<not> has_conflict ranges"
proof (induction ranges)
  case (Cons i ranges)
  then show ?case
    using normal_ConsD(1) [OF Cons.prems] normal_ConsD(4) [OF Cons.prems]
    by (force simp: list_ex_iff conflicting_def)
qed simp

lemma join_chars: "c \<in> set (join [sep] parts) \<Longrightarrow> c = sep \<or> (\<exists>p \<in> set parts. c \<in> set p)"
  by (induction "[sep]" parts rule: join.induct) auto

lemma join_ends:
  "parts \<noteq> [] \<Longrightarrow> \<forall>p \<in> set parts. p \<noteq> [] \<Longrightarrow>
     join [sep] parts \<noteq> [] \<and> hd (join [sep] parts) = hd (hd parts) \<and> last (join [sep] parts) = last (last parts)"
  by (induction "[sep]" parts rule: join.induct) auto

lemma rangelist_text:
  assumes "printable_list ranges"
  shows "Rangelist_String ranges \<noteq> []" "is_digit (hd (Rangelist_String ranges))"
    "\<not> ends_space (last (Rangelist_String ranges))"
    "c \<in> set (Rangelist_String ranges) \<Longrightarrow> is_digit c \<or> c \<in> {CHR ''-'', CHR ''*'', CHR '',''}"
    "ParseRangelist (Rangelist_String ranges) = Inr ranges"
proof -
  have p: "list_all printable ranges" using printable_list_item [OF assms] by (simp add: list_all_iff)
  have ne: "ranges \<noteq> []" and n: "normal ranges" using assms by (simp_all add: printable_list_def)
  note t = full_text_props [OF printable_list_item [OF assms]]
  note eq = Rangelist_String_eq [OF p]
  have ends: "Rangelist_String ranges \<noteq> [] \<and>
      hd (Rangelist_String ranges) = hd (full_text (hd ranges)) \<and>
      last (Rangelist_String ranges) = last (full_text (last ranges))"
    using join_ends [of "map full_text ranges" "CHR '',''"] ne t(1) by (simp add: eq hd_map last_map)
  then show tx: "Rangelist_String ranges \<noteq> []" "is_digit (hd (Rangelist_String ranges))"
    "\<not> ends_space (last (Rangelist_String ranges))"
    using t(3) [of "hd ranges"] t(4) [of "last ranges"] ne by simp_all
  show "is_digit c \<or> c \<in> {CHR ''-'', CHR ''*'', CHR '',''}" if "c \<in> set (Rangelist_String ranges)"
    using join_chars [of c "CHR '',''"] that t(5) unfolding eq by fastforce
  have "TrimSpace (Rangelist_String ranges) = Rangelist_String ranges"
    by (rule TrimSpace_id) (use tx in simp_all)
  moreover have "split CHR '','' (Rangelist_String ranges) = map full_text ranges"
    unfolding eq using ne t(5) [of _ "CHR '',''"] by (intro split_join) (auto simp: is_digit_def)
  ultimately show "ParseRangelist (Rangelist_String ranges) = Inr ranges"
    using tx(1) by (simp add: ParseRangelist_def parse_fields_full [OF p] normal_no_conflict [OF n] Normalize_normal [OF n])
qed

lemma replace_pair_none: "successively (\<lambda>x y. \<not> (x = a \<and> y = b)) s \<Longrightarrow> replace_pair a b r s = s"
  by (induction a b r s rule: replace_pair.induct) auto

lemma successively_join:
  assumes "\<forall>p \<in> set parts. p \<noteq> [] \<and> sep \<notin> set p \<and> last p \<noteq> a" "sep \<noteq> a"
  shows "successively (\<lambda>x y. \<not> (x = a \<and> y = sep)) (join [sep] parts)"
proof -
  have one: "successively (\<lambda>x y. x = a \<longrightarrow> y \<noteq> sep) p" if "sep \<notin> set p" for p
    using that by (induction p rule: induct_list012) auto
  show ?thesis
    using assms
    by (induction "[sep]" parts rule: join.induct)
      (auto simp: one successively_append_iff successively_Cons)
qed

text \<open>Entries whose path and ranges \<open>Mergeinfo_String\<close> writes in a way that can be read back.\<close>

definition readable :: "mergeinfo \<Rightarrow> bool" where
  "readable info \<longleftrightarrow>
     (\<forall>(path, ranges) \<in> set (sorted_entries info).
        FspathIsCanonical path \<and> \<not> hasDotSegment path \<and> CHR 0x0A \<notin> set path \<and> printable_list ranges)"

definition entry_line :: "string \<times> rangelist \<Rightarrow> string" where
  "entry_line e = fst e @ '':'' @ Rangelist_String (snd e)"

lemma entry_line_props:
  assumes "FspathIsCanonical path" "CHR 0x0A \<notin> set path" "printable_list ranges"
  shows "entry_line (path, ranges) \<noteq> []" "TrimSpace (entry_line (path, ranges)) = entry_line (path, ranges)"
    "LastIndexByte (entry_line (path, ranges)) CHR '':'' = Some (length path)"
    "CHR 0x0A \<notin> set (entry_line (path, ranges))" "last (entry_line (path, ranges)) \<noteq> CHR 0x0D"
proof -
  note t = rangelist_text [OF assms(3)]
  have h: "hd (entry_line (path, ranges)) = CHR ''/''"
    using assms(1) by (cases path) (simp_all add: FspathIsCanonical_def entry_line_def)
  have l: "\<not> ends_space (last (entry_line (path, ranges)))" using t by (simp add: entry_line_def)
  show "entry_line (path, ranges) \<noteq> []" by (simp add: entry_line_def)
  show "last (entry_line (path, ranges)) \<noteq> CHR 0x0D" using l by (auto simp: ends_space_def space_codes_def)
  show "TrimSpace (entry_line (path, ranges)) = entry_line (path, ranges)"
    by (rule TrimSpace_id) (use h l not_space_of_char [of "CHR ''/''"] in simp_all)
  have "CHR '':'' \<notin> set (Rangelist_String ranges)" using t(4) [of "CHR '':''"] by (auto simp: is_digit_def less_eq_char_def)
  then show "LastIndexByte (entry_line (path, ranges)) CHR '':'' = Some (length path)"
    by (simp add: entry_line_def LastIndexByte_last)
  show "CHR 0x0A \<notin> set (entry_line (path, ranges))"
    using assms(2) t(4) [of "CHR 0x0A"] by (auto simp: entry_line_def is_digit_def)
qed

lemma Merge_Nil: "normal ranges \<Longrightarrow> MergeRangelists [] ranges = ranges"
  using Merge_spec [of "[]" ranges] by (intro normal_unique) (simp_all add: normal_nonneg)

lemma parse_lines_entries:
  assumes "\<forall>(path, ranges) \<in> set es. FspathIsCanonical path \<and> \<not> hasDotSegment path \<and> CHR 0x0A \<notin> set path \<and>
      printable_list ranges"
    and "distinct (map fst es)" "\<forall>e \<in> set es. fmlookup info (fst e) = None"
  shows "parse_lines n (map entry_line es) info = Inr (fold (\<lambda>(k, v). fmupd k v) es info)"
  using assms
proof (induction es arbitrary: n info)
  case (Cons e es)
  obtain path ranges where e: "e = (path, ranges)" by (cases e)
  have ok: "FspathIsCanonical path" "\<not> hasDotSegment path" "CHR 0x0A \<notin> set path" "printable_list ranges"
    using Cons.prems(1) e by auto
  note p = entry_line_props [OF ok(1,3,4)]
  have parts: "take (length path) (entry_line e) = path" "drop (length path + 1) (entry_line e) = Rangelist_String ranges"
    by (simp_all add: entry_line_def e)
  have "TrimSpace (Rangelist_String ranges) = Rangelist_String ranges"
    by (rule TrimSpace_id) (use rangelist_text [OF ok(4)] in simp_all)
  with rangelist_text [OF ok(4)] have r: "TrimSpace (Rangelist_String ranges) \<noteq> []" by simp
  have m: "MergeRangelists (ranges_at info path) ranges = ranges"
    using Cons.prems(3) ok(4) by (simp add: e ranges_at_def Merge_Nil printable_list_def)
  have "parse_lines n (map entry_line (e # es)) info = parse_lines (n + 1) (map entry_line es) (fmupd path ranges info)"
    using ok r p parts by (simp add: e rangelist_text(5) m Let_def)
  also have "\<dots> = Inr (fold (\<lambda>(k, v). fmupd k v) es (fmupd path ranges info))"
    using Cons.prems by (intro Cons.IH) (auto simp: e image_iff)
  finally show ?case by (simp add: e)
qed simp

section \<open>Properties\<close>

text \<open>C25: merging, intersecting and removing rangelists act on every revision by itself, whatever
  order and overlaps the arguments have, and always give a normal list; a normal list is the only
  one with its marks, so equalities between results are equalities of marks.\<close>

theorem rangelist_operations:
  assumes "nonneg a" "nonneg b"
  shows "(\<forall>r. mark (Normalize a) r = mark a r \<and>
      mark (MergeRangelists a b) r = merge_marks (mark a r) (mark b r) \<and>
      mark (IntersectRangelists a b ci) r = intersect_marks ci (mark a r) (mark b r) \<and>
      mark (RemoveRangelist a b ci) r = remove_marks ci (mark a r) (mark b r)) \<and>
    normal (Normalize a) \<and> normal (MergeRangelists a b) \<and>
    normal (IntersectRangelists a b ci) \<and> normal (RemoveRangelist a b ci)"
  using assms by (simp add: Normalize_spec Merge_spec Intersect_spec Remove_spec)

theorem rangelist_operations_witness:
  "normal (MergeRangelists [mk_range 4 9 True, mk_range 0 5 False] [mk_range 7 12 False]) \<and>
   mark (MergeRangelists [mk_range 4 9 True, mk_range 0 5 False] [mk_range 7 12 False]) 8 = Some True"
proof -
  have "nonneg [mk_range 4 9 True, mk_range 0 5 False]" "nonneg [mk_range 7 12 False]"
    by (simp_all add: nonneg_def)
  from rangelist_operations [OF this] show ?thesis
    by (simp add: mark_def in_range_def)
qed

text \<open>C26: a difference applied to where it was taken from: take away what was deleted, then merge
  what was added. Taken with regard to inheritance it gives where it leads, in normal form. Taken
  without, it covers the same revisions as where it leads, but a revision that both lists cover
  keeps the inheritance it had in the first: such a difference does not see it changed.\<close>

theorem diff_applied:
  assumes "nonneg src" "nonneg dst"
  shows "let diff = DiffRangelists src dst ci;
       result = MergeRangelists (RemoveRangelist (fst diff) src ci) (snd diff) in
     normal result \<and> (ci \<longrightarrow> result = Normalize dst \<and> (normal dst \<longrightarrow> result = dst)) \<and>
     (\<not> ci \<longrightarrow> (\<forall>r. mark result r =
        (case mark dst r of None \<Rightarrow> None
         | Some inherit \<Rightarrow> Some (case mark src r of None \<Rightarrow> inherit | Some before \<Rightarrow> before))))"
proof -
  note nn = assms
  let ?d = "RemoveRangelist dst src ci" and ?a = "RemoveRangelist src dst ci"
  let ?result = "MergeRangelists (RemoveRangelist ?d src ci) ?a"
  have d: "nonneg ?d" "nonneg ?a" using nn Remove_spec(1) normal_nonneg by blast+
  have e: "nonneg (RemoveRangelist ?d src ci)" using Remove_spec(1) [OF d(1) nn(1)] normal_nonneg by blast
  have norm: "normal ?result" using Merge_spec(1) [OF e d(2)] .
  have marks: "mark ?result r = (if ci then mark dst r else
      case mark dst r of None \<Rightarrow> None
      | Some inherit \<Rightarrow> Some (case mark src r of None \<Rightarrow> inherit | Some before \<Rightarrow> before))" for r
    by (simp add: Merge_spec [OF e d(2)] Remove_spec [OF d(1) nn(1)] Remove_spec nn)
      (cases "mark src r"; cases "mark dst r"; simp)
  have "?result = Normalize dst" if ci
    using that norm marks Normalize_spec [OF nn(2)] by (simp add: normal_unique)
  moreover have "?result = dst" if ci "normal dst"
    using that norm marks by (simp add: normal_unique)
  moreover have "\<forall>r. mark ?result r = (case mark dst r of None \<Rightarrow> None
      | Some inherit \<Rightarrow> Some (case mark src r of None \<Rightarrow> inherit | Some before \<Rightarrow> before))" if "\<not> ci"
    using that marks by simp
  ultimately show ?thesis
    using norm unfolding DiffRangelists_def Let_def fst_conv snd_conv by blast
qed

theorem diff_applied_witness:
  "MergeRangelists (RemoveRangelist (fst (DiffRangelists [mk_range 0 9 True] [mk_range 2 5 True, mk_range 5 12 False] True))
      [mk_range 0 9 True] True)
    (snd (DiffRangelists [mk_range 0 9 True] [mk_range 2 5 True, mk_range 5 12 False] True)) =
   [mk_range 2 5 True, mk_range 5 12 False] \<and>
   mark (MergeRangelists (RemoveRangelist (fst (DiffRangelists [mk_range 0 1 False] [mk_range 0 1 True] False))
      [mk_range 0 1 False] False)
    (snd (DiffRangelists [mk_range 0 1 False] [mk_range 0 1 True] False))) 1 = Some False"
proof -
  have "nonneg [mk_range 0 9 True]" "nonneg [mk_range 2 5 True, mk_range 5 12 False]"
    "normal [mk_range 2 5 True, mk_range 5 12 False]"
    by (simp_all add: nonneg_def normal_def apart_def)
  note first = diff_applied [OF this(1,2), of True, unfolded Let_def] this(3)
  have "nonneg [mk_range 0 1 False]" "nonneg [mk_range 0 1 True]" by (simp_all add: nonneg_def)
  from diff_applied [OF this, of False] have "mark (MergeRangelists (RemoveRangelist (fst (DiffRangelists
      [mk_range 0 1 False] [mk_range 0 1 True] False)) [mk_range 0 1 False] False)
    (snd (DiffRangelists [mk_range 0 1 False] [mk_range 0 1 True] False))) 1 = Some False"
    by (simp add: Let_def mark_def in_range_def)
  with first show ?thesis by blast
qed

text \<open>C27: mergeinfo written by \<open>String\<close> is read back by \<open>Parse\<close>: paths in canonical form
  without line breaks or dot segments, and rangelists in normal form within 64 bits.\<close>

theorem mergeinfo_roundtrip:
  assumes "readable info"
  shows "Mergeinfo_Parse (Mergeinfo_String info) = Inr info"
proof -
  let ?es = "sorted_entries info"
  have ok: "\<forall>(path, ranges) \<in> set ?es. FspathIsCanonical path \<and> \<not> hasDotSegment path \<and> CHR 0x0A \<notin> set path \<and>
      printable_list ranges"
    using assms by (simp add: readable_def)
  have n: "Normalize ranges = ranges \<and> ranges \<noteq> []" if "(path, ranges) \<in> set ?es" for path ranges
    using ok that by (auto simp: printable_list_def Normalize_normal)
  have l: "info_lines ?es = map entry_line ?es"
  proof -
    have "filter (\<lambda>(path, ranges). Normalize ranges \<noteq> []) ?es = ?es"
      by (rule filter_True) (use n in auto)
    then show ?thesis using n by (auto simp: info_lines_def entry_line_def)
  qed
  have p: "p \<noteq> [] \<and> CHR 0x0A \<notin> set p \<and> last p \<noteq> CHR 0x0D" if "p \<in> set (map entry_line ?es)" for p
    using that ok entry_line_props(1,4,5) by auto
  have r: "replace_pair CHR 0x0D CHR 0x0A CHR 0x0A (Mergeinfo_String info) = Mergeinfo_String info"
    unfolding Mergeinfo_String_def l by (rule replace_pair_none, rule successively_join) (use p in auto)
  have d: "distinct (map fst ?es)" by (simp add: sorted_entries_keys sorted_keys)
  show ?thesis
  proof (cases "?es = []")
    case True
    then have "info = fmempty" using fold_fmupd_sorted_entries [of info] by simp
    with True r show ?thesis by (simp add: Mergeinfo_Parse_def Mergeinfo_String_def info_lines_def)
  next
    case False
    then have "split CHR 0x0A (Mergeinfo_String info) = map entry_line ?es"
      unfolding Mergeinfo_String_def l using p by (intro split_join) auto
    then show ?thesis
      using parse_lines_entries [OF ok d, of fmempty 0] fold_fmupd_sorted_entries [of info]
      by (simp add: Mergeinfo_Parse_def r)
  qed
qed

theorem mergeinfo_roundtrip_witness:
  "Mergeinfo_Parse ''/trunk:3,5-7*'' = Inr (fmupd ''/trunk'' [mk_range 2 3 True, mk_range 4 7 False] fmempty)"
proof -
  let ?i = "fmupd ''/trunk'' [mk_range 2 3 True, mk_range 4 7 False] fmempty :: mergeinfo"
  have e: "sorted_entries ?i = [(''/trunk'', [mk_range 2 3 True, mk_range 4 7 False])]"
    by (simp add: sorted_entries_def sorted_list_of_fset.rep_eq)
  have "FspathIsCanonical ''/trunk''" "\<not> hasDotSegment ''/trunk''" by code_simp+
  then have r: "readable ?i"
    by (simp add: readable_def e printable_list_def normal_def apart_def)
  have "Mergeinfo_String ?i = ''/trunk:3,5-7*''"
    by (simp add: Mergeinfo_String_def e info_lines_def Normalize_normal normal_def apart_def) code_simp
  with mergeinfo_roundtrip [OF r] show ?thesis by simp
qed

text \<open>C28: \<open>ToRevs\<close> lists exactly the revisions of a rangelist in ascending order, and always
  comes back unless the list holds the largest 64-bit number, when its loop never ends.\<close>

theorem to_revs_returns:
  assumes "nonneg ranges" "\<forall>i \<in> set ranges. End i \<le> 2 ^ 63 - 1"
  shows "(ToRevs ranges = None \<longleftrightarrow> mark ranges (2 ^ 63 - 1) \<noteq> None) \<and>
    (mark ranges (2 ^ 63 - 1) = None \<longrightarrow>
       (\<exists>revs. ToRevs ranges = Some revs \<and> sorted_wrt (<) revs \<and> set revs = {r. mark ranges r \<noteq> None}))"
proof -
  let ?N = "Normalize ranges"
  note n = Normalize_spec [OF assms(1)]
  have top: "End i \<le> 2 ^ 63 - 1" if "i \<in> set ?N" for i
  proof -
    have "in_range (End i) i" using n(1) that by (auto simp: normal_def in_range_def list_all_iff)
    then have "mark ?N (End i) \<noteq> None" using that by (auto simp: mark_def list_ex_iff)
    then have "mark ranges (End i) \<noteq> None" by (simp only: n(2) not_False_eq_True)
    then have "\<exists>j \<in> set ranges. in_range (End i) j" by (auto simp: mark_def list_ex_iff split: if_splits)
    then show ?thesis using assms(2) by (force simp: in_range_def)
  qed
  have "(\<exists>i \<in> set ?N. End i = 2 ^ 63 - 1) \<longleftrightarrow> mark ?N (2 ^ 63 - 1) \<noteq> None"
  proof
    assume "\<exists>i \<in> set ?N. End i = 2 ^ 63 - 1"
    then obtain i where i: "i \<in> set ?N" "End i = 2 ^ 63 - 1" by blast
    with n(1) have "in_range (2 ^ 63 - 1) i" by (auto simp: normal_def list_all_iff in_range_def)
    with i(1) show "mark ?N (2 ^ 63 - 1) \<noteq> None" by (auto simp: mark_def list_ex_iff)
  next
    assume "mark ?N (2 ^ 63 - 1) \<noteq> None"
    then obtain i where i: "i \<in> set ?N" "in_range (2 ^ 63 - 1) i"
      by (auto simp: mark_def list_ex_iff split: if_splits)
    with top [OF i(1)] have "End i = 2 ^ 63 - 1" by (simp add: in_range_def)
    with i(1) show "\<exists>i \<in> set ?N. End i = 2 ^ 63 - 1" by blast
  qed
  then have none: "ToRevs ranges = None \<longleftrightarrow> mark ranges (2 ^ 63 - 1) \<noteq> None"
    using ranges_revisions_spec [OF n(1)] top unfolding ToRevs_def n(2) by blast
  moreover have "sorted_wrt (<) revs \<and> set revs = {r. mark ranges r \<noteq> None}" if "ToRevs ranges = Some revs" for revs
    using ranges_revisions_spec [OF n(1)] top that unfolding ToRevs_def n(2) by blast
  ultimately show ?thesis by (metis option.exhaust)
qed

theorem to_revs_returns_witness:
  "(\<exists>revs. ToRevs [mk_range 2 4 True] = Some revs \<and> sorted_wrt (<) revs \<and> set revs = {3, 4}) \<and>
   ToRevs [mk_range (2 ^ 63 - 2) (2 ^ 63 - 1) True] = None"
proof -
  have "{r. mark [mk_range 2 4 True] r \<noteq> None} = {3, 4}"
    by (auto simp: mark_def in_range_def)
  then show ?thesis
    using to_revs_returns [of "[mk_range 2 4 True]"] to_revs_returns [of "[mk_range (2 ^ 63 - 2) (2 ^ 63 - 1) True]"]
    by (simp add: nonneg_def mark_def in_range_def)
qed

end
