(* ===== verification/Fsfs_Read.thy ===== *)
theory Fsfs_Read
  imports Fsfs_Index Fsfs_Noderev Delta_Stream Svn_Hashfile Svn_Mergeinfo
begin

text \<open>
  Reading a repository: representations (\<^verbatim>\<open>fs/fsfs/representation.go\<close>), revision roots
  (\<^verbatim>\<open>fs/fsfs/root.go\<close>) and the trees below them (\<^verbatim>\<open>fs/fsfs/tree.go\<close>). A repository is its youngest
  revision, the revision files, with logical addressing and one file for a revision, the files of
  revision properties, and the number of the next transaction. MD5, SHA-1
  and the decompressor are the parameter \<open>stdlib\<close>. Contexts are not cancelled; the caches of indexes
  and directories keep what the code would read again and are left out.
\<close>

record stdlib =
  std_md5 :: "bytes \<Rightarrow> bytes"
  std_sha1 :: "bytes \<Rightarrow> bytes"
  std_inflate :: inflater

record repository =
  repo_youngest :: revnum
  repo_files :: "(revnum, bytes) fmap"
  repo_revprops :: "(revnum, bytes) fmap"
  repo_sequence :: nat

definition openRevision :: "stdlib \<Rightarrow> repository \<Rightarrow> revnum \<Rightarrow> fs_error + revision_file" where
  "openRevision lib repo revision =
     (if revision < 0 then Inl (NoSuchRevision revision)
      else case fmlookup (repo_files repo) revision of
          None \<Rightarrow> Inl (NoSuchRevision revision)
        | Some contents \<Rightarrow> open_logical (std_md5 lib) contents)"

section \<open>Representations\<close>

definition parse_nonneg :: "string \<Rightarrow> string \<Rightarrow> fs_error + int" where
  "parse_nonneg message text =
     (case parse_int 64 text of None \<Rightarrow> Inl (Corrupt message) | Some n \<Rightarrow> if n < 0 then Inl (Corrupt message) else Inr n)"

text \<open>Whether the data is plain, and the base of a delta.\<close>

definition parseRepresentationHeader :: "string \<Rightarrow> fs_error + bool \<times> representation option" where
  "parseRepresentationHeader data =
     (let fs = Fields data in
      if length fs = 1 \<and> fs ! 0 = ''PLAIN'' then Inr (True, None)
      else if length fs = 1 \<and> fs ! 0 = ''DELTA'' then Inr (False, None)
      else if length fs \<noteq> 4 \<or> fs ! 0 \<noteq> ''DELTA'' then Inl (Corrupt ''invalid representation header'')
      else
        and_then (parse_nonneg ''invalid delta base revision'' (fs ! 1)) (\<lambda>revision.
        and_then (parse_nonneg ''invalid delta base item'' (fs ! 2)) (\<lambda>item.
        and_then (parse_nonneg ''invalid delta base length'' (fs ! 3)) (\<lambda>len.
        Inr (False, Some \<lparr>rep_revision = revision, rep_item = item, rep_length = len, rep_expanded = - 1,
               rep_md5 = [], rep_sha1 = [], rep_uniquifier = []\<rparr>)))))"

text \<open>A representation of a revision file: its header, its payload and what follows the payload.\<close>

record representation_header =
  rh_plain :: bool
  rh_base :: "representation option"
  rh_payload :: bytes
  rh_after :: bytes

definition readRepresentation :: "stdlib \<Rightarrow> repository \<Rightarrow> representation \<Rightarrow> fs_error + representation_header" where
  "readRepresentation lib repo r =
     and_then (openRevision lib repo (rep_revision r)) (\<lambda>file.
     and_then (itemOffset file (rep_revision r) (rep_item r)) (\<lambda>offset.
     let size = int (length (rf_contents file)) in
     if offset < 0 \<or> offset \<ge> size then Inl (Corrupt ''representation offset is outside revision file'')
     else
       let buffered = drop (nat offset) (rf_contents file);
           line = takeWhile (\<lambda>b. b \<noteq> 0x0A) buffered;
           len = int (length line) + 1 in
       if length line = length buffered \<or> len > 64 * 1024
       then Inl (Corrupt ''representation header is incomplete'')
       else if rep_length r < 0 \<or> offset + len > size \<or> rep_length r > size - offset - len
       then Inl (Corrupt ''representation data is truncated'')
       else and_then (parseRepresentationHeader (text_of_bytes line)) (\<lambda>(plain_data, base).
         let rest = drop (nat len) buffered in
         Inr \<lparr>rh_plain = plain_data, rh_base = base, rh_payload = take (nat (rep_length r)) rest,
              rh_after = drop (nat (rep_length r)) rest\<rparr>)))"

text \<open>
  The contents of a representation; the first argument counts the bases that may still be read.
  The decoder reads its input to the end before it reports that there is no window left, so a
  payload that decodes is consumed.
\<close>

definition check_digest :: "(bytes \<Rightarrow> bytes) \<Rightarrow> string \<Rightarrow> bytes \<Rightarrow> bool" where
  "check_digest digest want contents \<longleftrightarrow> want = [] \<or> equal_hex (hex_encode (digest contents)) want"

definition expand_delta :: "stdlib \<Rightarrow> bytes \<Rightarrow> bytes \<Rightarrow> fs_error + bytes" where
  "expand_delta lib base payload =
     (case NewDecoder payload of
        Inl e \<Rightarrow> Inl (Elsewhere ''delta.NewDecoder'')
      | Inr decoder \<Rightarrow>
          (case Apply (std_md5 lib) (Some base) (decoder_next (std_inflate lib)) decoder None of
             None \<Rightarrow> Inl NeverReturns
           | Some (Inl e) \<Rightarrow> Inl (Elsewhere ''delta.Apply'')
           | Some (Inr (contents, checksum)) \<Rightarrow> Inr contents))"

fun write_representation :: "nat \<Rightarrow> stdlib \<Rightarrow> repository \<Rightarrow> representation option \<Rightarrow> fs_error + bytes" where
  "write_representation n lib repo None = Inr []"
| "write_representation 0 lib repo (Some r) = Inl (Corrupt ''representation delta chain is too deep'')"
| "write_representation (Suc n) lib repo (Some r) =
     and_then (readRepresentation lib repo r) (\<lambda>header.
     and_then (if rh_plain header then Inr (rh_payload header)
               else and_then (write_representation n lib repo (rh_base header)) (\<lambda>base.
                      expand_delta lib base (rh_payload header))) (\<lambda>contents.
     if take 7 (rh_after header) \<noteq> bytes_of_text (''ENDREP'' @ [CHR 0x0A])
     then Inl (Corrupt ''representation trailer is missing'')
     else if rep_expanded r \<ge> 0 \<and> int (length contents) \<noteq> rep_expanded r
     then Inl (Corrupt ''representation expanded to a wrong size'')
     else if \<not> check_digest (std_md5 lib) (rep_md5 r) contents then Inl BadChecksum
     else if \<not> check_digest (std_sha1 lib) (rep_sha1 r) contents then Inl BadChecksum
     else Inr contents))"

definition writeRepresentation :: "stdlib \<Rightarrow> repository \<Rightarrow> representation option \<Rightarrow> fs_error + bytes" where
  "writeRepresentation = write_representation 1025"

section \<open>Nodes and directories\<close>

definition readNode :: "stdlib \<Rightarrow> repository \<Rightarrow> node_id \<Rightarrow> fs_error + node_revision" where
  "readNode lib repo i =
     and_then (openRevision lib repo (id_revision i)) (\<lambda>file.
     and_then (itemOffset file (id_revision i) (id_item i)) (\<lambda>offset.
     if offset < 0 \<or> offset \<ge> int (length (rf_contents file)) then Inl (Corrupt ''invalid node-revision offset'')
     else
       and_then (recordData file offset) (\<lambda>data.
       and_then (parseNodeRevision (text_of_bytes data)) (\<lambda>node.
       if nr_id node \<noteq> i then Inl (Corrupt ''node-revision ID mismatch'') else Inr node))))"

record directory_entry =
  de_kind :: NodeKind
  de_id :: node_id

definition parse_entry :: "string \<Rightarrow> fs_error + directory_entry" where
  "parse_entry v =
     (case cut CHR '' '' v of (kindText, idText, ok) \<Rightarrow>
      if \<not> ok then Inl (Corrupt ''invalid directory entry'')
      else case ParseNodeKind kindText of
          None \<Rightarrow> Inl (Corrupt ''invalid directory entry kind'')
        | Some kind \<Rightarrow>
            if kind \<noteq> NodeFile \<and> kind \<noteq> NodeDir then Inl (Corrupt ''invalid directory entry kind'')
            else and_then (ParseID idText) (\<lambda>i. Inr \<lparr>de_kind = kind, de_id = i\<rparr>))"

fun parse_entries :: "(string \<times> string) list \<Rightarrow> fs_error + (string, directory_entry) fmap" where
  "parse_entries [] = Inr fmempty"
| "parse_entries ((name, v) # values) =
     and_then (parse_entry v) (\<lambda>entry.
     and_then (parse_entries values) (\<lambda>entries. Inr (fmupd name entry entries)))"

definition parseDirectoryEntries :: "string \<Rightarrow> fs_error + (string, directory_entry) fmap" where
  "parseDirectoryEntries data =
     (case ReadHash data of
        Inl e \<Rightarrow> Inl (Elsewhere ''hashfile.Read'')
      | Inr values \<Rightarrow> parse_entries (sorted_entries values))"

definition directoryEntries :: "stdlib \<Rightarrow> repository \<Rightarrow> node_revision \<Rightarrow> fs_error + (string, directory_entry) fmap" where
  "directoryEntries lib repo node =
     (if nr_kind node \<noteq> NodeDir then Inl (NotDirectory [])
      else if nr_text node = None then Inr fmempty
      else and_then (writeRepresentation lib repo (nr_text node)) (\<lambda>data.
        parseDirectoryEntries (text_of_bytes data)))"

section \<open>Revision roots\<close>

record revision_root =
  root_revision :: revnum
  root_node :: node_revision

definition RevisionRoot :: "stdlib \<Rightarrow> repository \<Rightarrow> revnum \<Rightarrow> fs_error + revision_root" where
  "RevisionRoot lib repo revision =
     (if revision < 0 \<or> revision > repo_youngest repo then Inl (NoSuchRevision revision)
      else
        and_then (openRevision lib repo revision) (\<lambda>file.
        and_then (itemOffset file revision 2) (\<lambda>offset.
        if offset < 0 \<or> offset \<ge> int (length (rf_contents file)) then Inl (Corrupt ''invalid root node offset'')
        else
          and_then (recordData file offset) (\<lambda>data.
          and_then (parseNodeRevision (text_of_bytes data)) (\<lambda>node.
          if nr_kind node \<noteq> NodeDir \<or> id_revision (nr_id node) \<noteq> revision
          then Inl (Corrupt ''revision root is invalid'')
          else Inr \<lparr>root_revision = revision, root_node = node\<rparr>)))))"

definition cleanPath :: "string \<Rightarrow> fs_error + string" where
  "cleanPath v =
     (if CHR 0x00 \<in> set v \<or> CHR 0x5C \<in> set v then Inl (PathSyntax v)
      else
        let cleaned = path_Clean (''/'' @ TrimPrefix v ''/'') in
        if cleaned = ''/..'' \<or> HasPrefix cleaned ''/../'' then Inl (PathSyntax v) else Inr cleaned)"

fun find_below :: "stdlib \<Rightarrow> repository \<Rightarrow> string \<Rightarrow> node_revision \<Rightarrow> string list \<Rightarrow> fs_error + node_revision option" where
  "find_below lib repo nodePath node [] = Inr (Some node)"
| "find_below lib repo nodePath node (name # names) =
     (if nr_kind node \<noteq> NodeDir then Inl (NotDirectory nodePath)
      else and_then (directoryEntries lib repo node) (\<lambda>entries.
        case fmlookup entries name of
          None \<Rightarrow> Inr None
        | Some entry \<Rightarrow> and_then (readNode lib repo (de_id entry)) (\<lambda>child. find_below lib repo nodePath child names)))"

definition findNode :: "stdlib \<Rightarrow> repository \<Rightarrow> revision_root \<Rightarrow> string \<Rightarrow> fs_error + node_revision option" where
  "findNode lib repo root nodePath =
     and_then (cleanPath nodePath) (\<lambda>cleaned.
     if cleaned = ''/'' then Inr (Some (root_node root))
     else find_below lib repo nodePath (root_node root) (split CHR ''/'' (TrimPrefix cleaned ''/'')))"

definition nodeAt :: "stdlib \<Rightarrow> repository \<Rightarrow> revision_root \<Rightarrow> string \<Rightarrow> fs_error + node_revision" where
  "nodeAt lib repo root nodePath =
     and_then (findNode lib repo root nodePath) (\<lambda>found. ok_or (NotFound nodePath) found)"

section \<open>What a revision shows\<close>

definition CheckPath :: "stdlib \<Rightarrow> repository \<Rightarrow> revision_root \<Rightarrow> string \<Rightarrow> fs_error + NodeKind" where
  "CheckPath lib repo root nodePath =
     and_then (findNode lib repo root nodePath) (\<lambda>found.
       Inr (case found of None \<Rightarrow> NodeNone | Some node \<Rightarrow> nr_kind node))"

definition read_props :: "stdlib \<Rightarrow> repository \<Rightarrow> representation option \<Rightarrow> fs_error + props" where
  "read_props lib repo r =
     (if r = None then Inr fmempty
      else and_then (writeRepresentation lib repo r) (\<lambda>data.
        case ReadHash (text_of_bytes data) of Inl e \<Rightarrow> Inl (Elsewhere ''hashfile.Read'') | Inr values \<Rightarrow> Inr values))"

definition NodeProps :: "stdlib \<Rightarrow> repository \<Rightarrow> revision_root \<Rightarrow> string \<Rightarrow> fs_error + props" where
  "NodeProps lib repo root nodePath =
     and_then (nodeAt lib repo root nodePath) (\<lambda>node. read_props lib repo (nr_properties node))"

definition DirEntries :: "stdlib \<Rightarrow> repository \<Rightarrow> revision_root \<Rightarrow> string \<Rightarrow> fs_error + (string \<times> NodeKind) list" where
  "DirEntries lib repo root nodePath =
     and_then (nodeAt lib repo root nodePath) (\<lambda>node.
     if nr_kind node \<noteq> NodeDir then Inl (NotDirectory nodePath)
     else and_then (directoryEntries lib repo node) (\<lambda>entries.
       Inr (map (\<lambda>(name, entry). (name, de_kind entry)) (sorted_entries entries))))"

definition FileContents :: "stdlib \<Rightarrow> repository \<Rightarrow> revision_root \<Rightarrow> string \<Rightarrow> fs_error + bytes" where
  "FileContents lib repo root nodePath =
     and_then (nodeAt lib repo root nodePath) (\<lambda>node.
     if nr_kind node \<noteq> NodeFile then Inl (NotFile nodePath) else writeRepresentation lib repo (nr_text node))"

definition FileLength :: "stdlib \<Rightarrow> repository \<Rightarrow> revision_root \<Rightarrow> string \<Rightarrow> fs_error + int" where
  "FileLength lib repo root nodePath =
     and_then (nodeAt lib repo root nodePath) (\<lambda>node.
     if nr_kind node \<noteq> NodeFile then Inl (NotFile nodePath)
     else Inr (case nr_text node of None \<Rightarrow> 0 | Some r \<Rightarrow> rep_expanded r))"

definition FileChecksum :: "stdlib \<Rightarrow> repository \<Rightarrow> revision_root \<Rightarrow> string \<Rightarrow> ChecksumKind \<Rightarrow> fs_error + checksum" where
  "FileChecksum lib repo root nodePath kind =
     and_then (nodeAt lib repo root nodePath) (\<lambda>node.
     if nr_kind node \<noteq> NodeFile then Inl (NotFile nodePath)
     else case nr_text node of
         None \<Rightarrow> Inr (Sum (std_md5 lib) (std_sha1 lib) kind [])
       | Some r \<Rightarrow>
           let stored = (if kind = ChecksumSHA1 then rep_sha1 r else rep_md5 r) in
           if stored \<noteq> [] then
             (case ParseChecksumHex kind stored of Inl e \<Rightarrow> Inl (Elsewhere ''svn.ParseChecksumHex'') | Inr c \<Rightarrow> Inr c)
           else if checksumSize kind = 0 then Inl (Elsewhere ''svn.ErrBadChecksumKind'')
           else and_then (writeRepresentation lib repo (Some r)) (\<lambda>contents.
             Inr (Sum (std_md5 lib) (std_sha1 lib) kind contents)))"

definition PathsChanged :: "stdlib \<Rightarrow> repository \<Rightarrow> revision_root \<Rightarrow> fs_error + (string, path_change) fmap" where
  "PathsChanged lib repo root =
     and_then (openRevision lib repo (root_revision root)) (\<lambda>file.
     and_then (itemData file (root_revision root) 1) (\<lambda>data. parseChanges (text_of_bytes data)))"

definition NodeCreatedRevision :: "stdlib \<Rightarrow> repository \<Rightarrow> revision_root \<Rightarrow> string \<Rightarrow> fs_error + revnum" where
  "NodeCreatedRevision lib repo root nodePath =
     and_then (nodeAt lib repo root nodePath) (\<lambda>node. Inr (id_revision (nr_id node)))"

definition NodeID :: "stdlib \<Rightarrow> repository \<Rightarrow> revision_root \<Rightarrow> string \<Rightarrow> fs_error + string" where
  "NodeID lib repo root nodePath = and_then (nodeAt lib repo root nodePath) (\<lambda>node. Inr (id_node (nr_id node)))"

definition NodeCreatedPath :: "stdlib \<Rightarrow> repository \<Rightarrow> revision_root \<Rightarrow> string \<Rightarrow> fs_error + string" where
  "NodeCreatedPath lib repo root nodePath =
     and_then (nodeAt lib repo root nodePath) (\<lambda>node. Inr (nr_created_path node))"

section \<open>History\<close>

text \<open>
  The loops over predecessors and parents, \<open>None\<close> if they do not end. \<open>seen\<close> holds the
  identifiers visited.
\<close>

partial_function (option) origin_loop ::
    "stdlib \<Rightarrow> repository \<Rightarrow> node_id list \<Rightarrow> node_revision \<Rightarrow> (fs_error + revnum) option" where
  "origin_loop lib repo seen node =
     (case nr_predecessor node of
        None \<Rightarrow> Some (Inr (id_revision (nr_id node)))
      | Some p \<Rightarrow>
          if p \<in> set seen then Some (Inl (Corrupt ''cyclic node predecessor chain''))
          else case readNode lib repo p of
              Inl e \<Rightarrow> Some (Inl e)
            | Inr node' \<Rightarrow> origin_loop lib repo (p # seen) node')"

definition NodeOrigin :: "stdlib \<Rightarrow> repository \<Rightarrow> revision_root \<Rightarrow> string \<Rightarrow> (fs_error + revnum) option" where
  "NodeOrigin lib repo root nodePath =
     (case nodeAt lib repo root nodePath of Inl e \<Rightarrow> Some (Inl e) | Inr node \<Rightarrow> origin_loop lib repo [] node)"

definition closer_copy :: "node_revision \<Rightarrow> string \<Rightarrow> string \<times> revnum \<Rightarrow> string \<times> revnum" where
  "closer_copy node current closest =
     (let closest' = (if nr_copyroot_rev node > snd closest \<and> nr_copyroot_rev node > 0
                      then (nr_copyroot_path node, nr_copyroot_rev node) else closest) in
      if nr_copyfrom_rev node \<ge> 0 \<and> id_revision (nr_id node) > snd closest'
      then (current, id_revision (nr_id node)) else closest')"

partial_function (option) closest_loop ::
    "stdlib \<Rightarrow> repository \<Rightarrow> revision_root \<Rightarrow> string \<Rightarrow> string \<times> revnum \<Rightarrow> (fs_error + string \<times> revnum) option" where
  "closest_loop lib repo root current closest =
     (case nodeAt lib repo root current of
        Inl e \<Rightarrow> Some (Inl e)
      | Inr node \<Rightarrow>
          let closest' = closer_copy node current closest in
          if current = ''/'' then Some (Inr closest')
          else closest_loop lib repo root (path_Dir current) closest')"

definition ClosestCopy :: "stdlib \<Rightarrow> repository \<Rightarrow> revision_root \<Rightarrow> string \<Rightarrow> (fs_error + string \<times> revnum) option" where
  "ClosestCopy lib repo root nodePath =
     (case cleanPath nodePath of Inl e \<Rightarrow> Some (Inl e) | Inr cleaned \<Rightarrow> closest_loop lib repo root cleaned ([], InvalidRevnum))"

type_synonym history = "(string \<times> revnum) list"

partial_function (option) history_loop ::
    "stdlib \<Rightarrow> repository \<Rightarrow> revnum \<Rightarrow> history \<Rightarrow> node_id list \<Rightarrow> node_revision \<Rightarrow> (fs_error + history \<times> node_id list) option"
where
  "history_loop lib repo copyRevision history seen node =
     (if IsValid copyRevision \<and> id_revision (nr_id node) \<le> copyRevision then Some (Inr (history, seen))
      else
        let history' = history @ [(nr_created_path node, id_revision (nr_id node))] in
        case nr_predecessor node of
          None \<Rightarrow> Some (Inr (history', seen))
        | Some p \<Rightarrow>
            if p \<in> set seen then Some (Inl (Corrupt ''cyclic node predecessor chain''))
            else case readNode lib repo p of
                Inl e \<Rightarrow> Some (Inl e)
              | Inr node' \<Rightarrow> history_loop lib repo copyRevision history' (p # seen) node')"

text \<open>Where the copy that made \<open>nodePath\<close> took it from, by the changed paths of its revision.\<close>

definition copy_source_of ::
    "stdlib \<Rightarrow> repository \<Rightarrow> string \<Rightarrow> string \<Rightarrow> revnum \<Rightarrow> fs_error + revision_root \<times> string" where
  "copy_source_of lib repo nodePath copyPath copyRevision =
     and_then (RevisionRoot lib repo copyRevision) (\<lambda>copyRoot.
     and_then (PathsChanged lib repo copyRoot) (\<lambda>changes.
     let found = (case fmlookup changes copyPath of
                    Some change \<Rightarrow> Some change | None \<Rightarrow> fmlookup changes (TrimPrefix copyPath ''/'')) in
     case found of
       None \<Rightarrow> Inl (Corrupt ''copyroot has no copy source'')
     | Some change \<Rightarrow>
         if \<not> IsValid (pc_copyfrom_rev change) \<or> pc_copyfrom_path change = []
         then Inl (Corrupt ''copyroot has no copy source'')
         else
           let suffix = TrimPrefix (TrimPrefix nodePath copyPath) ''/'' in
           and_then (RevisionRoot lib repo (pc_copyfrom_rev change)) (\<lambda>sourceRoot.
           Inr (sourceRoot, path_Join [pc_copyfrom_path change, suffix]))))"

partial_function (option) node_history ::
    "stdlib \<Rightarrow> repository \<Rightarrow> revision_root \<Rightarrow> string \<Rightarrow> bool \<Rightarrow> node_id list \<Rightarrow> (fs_error + history) option" where
  "node_history lib repo root nodePath crossCopies seen =
     (case nodeAt lib repo root nodePath of
        Inl e \<Rightarrow> Some (Inl e)
      | Inr node \<Rightarrow>
          Option.bind (ClosestCopy lib repo root nodePath) (\<lambda>closest.
          case closest of
            Inl e \<Rightarrow> Some (Inl e)
          | Inr (copyPath, copyRevision) \<Rightarrow>
              Option.bind (history_loop lib repo copyRevision [] seen node) (\<lambda>walked.
              case walked of
                Inl e \<Rightarrow> Some (Inl e)
              | Inr (history, seen') \<Rightarrow>
                  if \<not> IsValid copyRevision then Some (Inr history)
                  else
                    let history' = history @ [(nodePath, copyRevision)] in
                    if \<not> crossCopies then Some (Inr history')
                    else case copy_source_of lib repo nodePath copyPath copyRevision of
                        Inl e \<Rightarrow> Some (Inl e)
                      | Inr (sourceRoot, sourcePath) \<Rightarrow>
                          Option.bind (node_history lib repo sourceRoot sourcePath True seen') (\<lambda>source.
                          Some (case source of Inl e \<Rightarrow> Inl e | Inr older \<Rightarrow> Inr (history' @ older))))))"

definition NodeHistory :: "stdlib \<Rightarrow> repository \<Rightarrow> revision_root \<Rightarrow> string \<Rightarrow> bool \<Rightarrow> (fs_error + history) option" where
  "NodeHistory lib repo root nodePath crossCopies =
     (case cleanPath nodePath of
        Inl e \<Rightarrow> Some (Inl e)
      | Inr cleaned \<Rightarrow> node_history lib repo root cleaned crossCopies [])"

text \<open>
  The walk of \<open>collectMergeinfo\<close> in preorder, with the paths still to visit in a list; a path
  whose node has no mergeinfo below it is not entered.
\<close>

partial_function (option) collect_mergeinfo ::
    "stdlib \<Rightarrow> repository \<Rightarrow> revision_root \<Rightarrow> bool \<Rightarrow> string list \<Rightarrow> (string, mergeinfo) fmap \<Rightarrow>
       (fs_error + (string, mergeinfo) fmap) option" where
  "collect_mergeinfo lib repo root descendants paths result =
     (case paths of
        [] \<Rightarrow> Some (Inr result)
      | nodePath # later \<Rightarrow>
          (case nodeAt lib repo root nodePath of
             Inl e \<Rightarrow> Some (Inl e)
           | Inr node \<Rightarrow>
               if nr_has_mergeinfo_count node \<and> nr_mergeinfo_count node = 0
               then collect_mergeinfo lib repo root descendants later result
               else case NodeProps lib repo root nodePath of
                   Inl e \<Rightarrow> Some (Inl e)
                 | Inr values \<Rightarrow>
                     (case (case fmlookup values ''svn:mergeinfo'' of
                              None \<Rightarrow> Inr result
                            | Some raw \<Rightarrow>
                                (case Mergeinfo_Parse raw of
                                   Inl e \<Rightarrow> Inl (Elsewhere ''mergeinfo.Parse'')
                                 | Inr parsed \<Rightarrow> Inr (fmupd (TrimPrefix nodePath ''/'') parsed result))) of
                        Inl e \<Rightarrow> Some (Inl e)
                      | Inr result' \<Rightarrow>
                          if \<not> descendants \<or> nr_kind node \<noteq> NodeDir
                          then collect_mergeinfo lib repo root descendants later result'
                          else case DirEntries lib repo root nodePath of
                              Inl e \<Rightarrow> Some (Inl e)
                            | Inr entries \<Rightarrow>
                                collect_mergeinfo lib repo root descendants
                                  (map (\<lambda>(name, kind). path_Join [nodePath, name]) entries @ later) result')))"

definition RootMergeinfo ::
    "stdlib \<Rightarrow> repository \<Rightarrow> revision_root \<Rightarrow> string \<Rightarrow> bool \<Rightarrow> (fs_error + (string, mergeinfo) fmap) option" where
  "RootMergeinfo lib repo root nodePath descendants =
     (case cleanPath nodePath of
        Inl e \<Rightarrow> Some (Inl e)
      | Inr cleaned \<Rightarrow> collect_mergeinfo lib repo root descendants [cleaned] fmempty)"

text \<open>The windows from one file to another; the temporary files hold the contents.\<close>

definition GetFileDelta ::
    "stdlib \<Rightarrow> repository \<Rightarrow> revision_root option \<Rightarrow> string \<Rightarrow> revision_root \<Rightarrow> string \<Rightarrow> fs_error + tx_stream" where
  "GetFileDelta lib repo source sourcePath root targetPath =
     and_then (FileContents lib repo root targetPath) (\<lambda>target.
     case source of
       None \<Rightarrow> Inr (NewTxDeltaStream None (Some (bytes_reader target)))
     | Some sourceRoot \<Rightarrow>
         and_then (FileContents lib repo sourceRoot sourcePath) (\<lambda>base.
         Inr (NewTxDeltaStream (Some (bytes_reader base)) (Some (bytes_reader target)))))"

section \<open>The loops end\<close>

definition readable :: "stdlib \<Rightarrow> repository \<Rightarrow> node_id set" where
  "readable lib repo = {i. \<exists>node. readNode lib repo i = Inr node}"

lemma open_logical_locations: "open_logical md5 contents = Inr file \<Longrightarrow> \<exists>locations. rf_locations file = Some locations"
  by (auto simp: open_logical_def and_then_Inr)

lemma itemOffset_located:
  "rf_locations file = Some locations \<Longrightarrow> itemOffset file revision item = Inr offset \<Longrightarrow>
     \<exists>items. fmlookup locations revision = Some items \<and> fmlookup items item = Some offset"
  by (auto simp: itemOffset_def split: option.splits if_splits)

lemma readNode_unique:
  "readNode lib repo i = Inr m \<Longrightarrow> readNode lib repo j = Inr n \<Longrightarrow>
     id_revision i = id_revision j \<Longrightarrow> id_item i = id_item j \<Longrightarrow> i = j"
  by (auto simp: readNode_def and_then_Inr split: if_splits)

lemma finite_readable: "finite (readable lib repo)"
proof -
  define located where "located r = (case openRevision lib repo r of Inl e \<Rightarrow> {} | Inr file \<Rightarrow>
      (case rf_locations file of None \<Rightarrow> {} | Some locations \<Rightarrow>
        (case fmlookup locations r of None \<Rightarrow> {} | Some items \<Rightarrow> fset (fmdom items))))" for r
  let ?places = "\<Union>r\<in>fset (fmdom (repo_files repo)). {r} \<times> located r"
  have "finite (located r)" for r
    by (simp add: located_def split: sum.split option.split)
  then have fin: "finite ?places" by simp
  have "(id_revision i, id_item i) \<in> ?places" if i: "i \<in> readable lib repo" for i
  proof -
    obtain "file" offset where o: "openRevision lib repo (id_revision i) = Inr file"
      "itemOffset file (id_revision i) (id_item i) = Inr offset"
      using i by (auto simp: readable_def readNode_def and_then_Inr)
    then obtain contents where c: "fmlookup (repo_files repo) (id_revision i) = Some contents"
      "open_logical (std_md5 lib) contents = Inr file"
      by (auto simp: openRevision_def split: if_splits option.splits)
    obtain locations where l: "rf_locations file = Some locations" using open_logical_locations [OF c(2)] by blast
    obtain items where m: "fmlookup locations (id_revision i) = Some items" "fmlookup items (id_item i) = Some offset"
      using itemOffset_located [OF l o(2)] by blast
    then have "id_item i \<in> located (id_revision i)" by (simp add: located_def o(1) l fmdomI)
    with c(1) show ?thesis by (auto simp: fmdomI)
  qed
  then have "(\<lambda>i. (id_revision i, id_item i)) ` readable lib repo \<subseteq> ?places" by blast
  then have "finite ((\<lambda>i. (id_revision i, id_item i)) ` readable lib repo)" using fin by (rule finite_subset)
  moreover have "inj_on (\<lambda>i. (id_revision i, id_item i)) (readable lib repo)"
  proof (rule inj_onI)
    fix i j
    assume "i \<in> readable lib repo" "j \<in> readable lib repo" and e: "(id_revision i, id_item i) = (id_revision j, id_item j)"
    then obtain m n where "readNode lib repo i = Inr m" "readNode lib repo j = Inr n" unfolding readable_def by blast
    with e show "i = j" by (intro readNode_unique) simp_all
  qed
  ultimately show ?thesis by (rule finite_imageD)
qed

lemma unseen_decreases: "p \<in> readable lib repo \<Longrightarrow> p \<notin> set seen \<Longrightarrow>
    card (readable lib repo - set (p # seen)) < card (readable lib repo - set seen)"
  by (rule psubset_card_mono) (use finite_readable in auto)

section \<open>Reading ends\<close>

text \<open>
  No reader gives the error \<open>NeverReturns\<close>, which stands for a call of \<open>delta.Apply\<close> that would
  not end: such a call always ends on a decoder.
\<close>

definition ends :: "fs_error + 'a \<Rightarrow> bool" where
  "ends r \<longleftrightarrow> r \<noteq> Inl NeverReturns"

named_theorems ends

lemma ends_simps [simp]: "ends (Inr x)" "ends (Inl e) \<longleftrightarrow> e \<noteq> NeverReturns"
  by (simp_all add: ends_def)

lemma ends_and_then [ends]: "ends a \<Longrightarrow> (\<And>x. a = Inr x \<Longrightarrow> ends (f x)) \<Longrightarrow> ends (and_then a f)"
  by (cases a) (auto simp: ends_def)

lemma ends_if [ends]: "(P \<Longrightarrow> ends a) \<Longrightarrow> (\<not> P \<Longrightarrow> ends b) \<Longrightarrow> ends (if P then a else b)"
  by simp

lemma ends_option [ends]:
  "(v = None \<Longrightarrow> ends a) \<Longrightarrow> (\<And>x. v = Some x \<Longrightarrow> ends (f x)) \<Longrightarrow> ends (case v of None \<Rightarrow> a | Some x \<Rightarrow> f x)"
  by (cases v) simp_all

lemma ends_sum [ends]:
  "(\<And>e. v = Inl e \<Longrightarrow> ends (f e)) \<Longrightarrow> (\<And>x. v = Inr x \<Longrightarrow> ends (g x)) \<Longrightarrow> ends (case v of Inl e \<Rightarrow> f e | Inr x \<Rightarrow> g x)"
  by (cases v) simp_all

lemma ends_prod [ends]: "(\<And>a b. v = (a, b) \<Longrightarrow> ends (f a b)) \<Longrightarrow> ends (case v of (a, b) \<Rightarrow> f a b)"
  by (cases v) simp

lemma ends_ok_or [ends]: "e \<noteq> NeverReturns \<Longrightarrow> ends (ok_or e v)"
  by (cases v) simp_all

lemma ends_decode_count [ends]: "(\<And>data. ends (reader data)) \<Longrightarrow> ends (decode_count reader n data)"
proof (induction n arbitrary: data)
  case (Suc n)
  then show ?case by (auto intro!: ends) (metis ends_def)+
qed simp

text \<open>The indexes.\<close>

lemma ends_unsigned_value [ends]: "ends (unsigned_value data)" "ends (signed_value data)"
proof -
  have "ends (read_unsigned n shift v data)" for n shift v
    by (induction n shift v data rule: read_unsigned.induct) (simp_all add: Let_def)
  from this [of 10 0 0] show "ends (unsigned_value data)" "ends (signed_value data)"
    by (cases "read_unsigned 10 0 0 data"; simp add: unsigned_value_def signed_value_def unsigned_word_def)+
qed

lemma ends_checked [ends]: "ends (checked message ok reader data)"
  unfolding checked_def by (intro ends) simp_all

lemma ends_add_int64 [ends]: "ends (add_int64 message v d)"
  unfolding add_int64_def by (intro ends) simp_all

lemma ends_l2p_entries [ends]: "ends (l2p_entries n offset item items data)"
  by (induction n offset item items data rule: l2p_entries.induct) (auto intro!: ends)

lemma ends_l2p_pages [ends]: "ends (l2p_pages n pages item items data)"
  by (induction n pages item items data rule: l2p_pages.induct) (auto intro!: ends)

lemma ends_l2p_revisions [ends]: "ends (l2p_revisions revision counts pages result data)"
  by (induction revision counts pages result data rule: l2p_revisions.induct) (auto intro!: ends)

lemma ends_strip_marker [ends]: "ends (strip_marker name data)"
  unfolding strip_marker_def Let_def by (intro ends) simp_all

lemma ends_parseL2P [ends]: "ends (parseL2P index)"
  unfolding parseL2P_def l2p_page_header_def by (intro ends) 

lemma ends_p2l_entry_read [ends]: "ends (p2l_entry_read indexedSize offset compound revision data)"
  unfolding p2l_entry_read_def by (intro ends) simp_all

lemma ends_p2l_entries [ends]: "ends (p2l_entries indexedSize offset compound revision byOffset data)"
proof (induction indexedSize offset compound revision byOffset data rule: p2l_entries.induct)
  case (1 indexedSize offset compound revision byOffset data)
  have "ends (p2l_entry_read indexedSize offset compound revision data)" by (rule ends)
  then have entry: "ends (Inl e :: fs_error + unit)"
    if "p2l_entry_read indexedSize offset compound revision data = Inl e" for e
    using that by (simp add: ends_def)
  show ?case
    by (subst p2l_entries.simps, intro ends; (use entry 1 in force)?)
qed

lemma ends_p2l_pages [ends]: "ends (p2l_pages indexedSize fileSize firstRevision sizes byOffset data)"
  by (induction indexedSize fileSize firstRevision sizes byOffset data rule: p2l_pages.induct) (auto intro!: ends)

lemma ends_parseP2L [ends]: "ends (parseP2L index fileSize)"
  unfolding parseP2L_def by (intro ends) simp_all

lemma ends_validate_entries_reader [ends]: "ends (validate_entries_reader file dataSize locations stop es)"
  by (induction es arbitrary: stop) (auto simp: Let_def intro!: ends)

lemma ends_validate [ends]: "ends (validateLogicalIndexesReader file dataSize locations es)"
  unfolding validateLogicalIndexesReader_def final_page_def by (intro ends) simp_all

lemma ends_footer_fields [ends]: "ends (footer_fields fs base)"
  unfolding footer_fields_def by (intro ends) simp_all

lemma ends_checkMD5 [ends]: "ends (checkMD5 md5 data want name)"
  unfolding checkMD5_def by (intro ends) simp_all

lemma ends_open_logical [ends]: "ends (open_logical md5 contents)"
  unfolding open_logical_def parseLogicalIndexesFile_def parseLogicalFooterAt_def Let_def
  by (intro ends) simp_all

lemma ends_openRevision [ends]: "ends (openRevision lib repo revision)"
  unfolding openRevision_def by (intro ends) simp_all

lemma ends_itemOffset [ends]: "ends (itemOffset f revision item)"
  unfolding itemOffset_def by (intro ends) simp_all

lemma ends_readRange [ends]: "ends (readRange f lo hi)"
  unfolding readRange_def by (intro ends) simp_all

lemma ends_recordData [ends]: "ends (recordData f offset)"
  unfolding recordData_def Let_def by (intro ends) simp_all

text \<open>Records and representations.\<close>

lemma ends_ParseID [ends]: "ends (ParseID text)"
  unfolding ParseID_def Let_def by (intro ends) simp_all

lemma ends_parseRepresentation [ends]: "ends (parseRepresentation text)"
  unfolding parseRepresentation_def Let_def by (intro ends) simp_all

lemma ends_parseRevisionPath [ends]: "ends (parseRevisionPath text)"
  unfolding parseRevisionPath_def by (intro ends) simp_all

lemma ends_read_fields [ends]: "ends (read_fields fs failed lines)"
proof (induction lines arbitrary: fs)
  case (Cons line lines)
  then show ?case unfolding read_fields.simps by (intro ends) simp_all
qed simp

lemma ends_optional [ends]: "(\<And>text. ends (parser text)) \<Longrightarrow> ends (optional v parser)"
  unfolding optional_def by (intro ends) simp_all

lemma ends_parse_count [ends]: "ends (parse_count message v)"
  unfolding parse_count_def by (intro ends) simp_all

lemma ends_parseNodeRevision [ends]: "ends (parseNodeRevision data)"
  unfolding parseNodeRevision_def Let_def by (intro ends) simp_all

lemma ends_readNode [ends]: "ends (readNode lib repo i)"
  unfolding readNode_def by (intro ends) simp_all

lemma ends_parse_nonneg [ends]: "ends (parse_nonneg message text)"
  unfolding parse_nonneg_def by (intro ends) simp_all

lemma ends_readRepresentation [ends]: "ends (readRepresentation lib repo r)"
  unfolding readRepresentation_def parseRepresentationHeader_def Let_def by (intro ends) simp_all

lemma ends_expand_delta [ends]: "ends (expand_delta lib base payload)"
  unfolding expand_delta_def by (intro ends) (simp_all add: Apply_decoder_returns)

lemma ends_write_representation [ends]: "ends (write_representation n lib repo r)"
  by (induction n lib repo r rule: write_representation.induct) (auto intro!: ends)

lemma ends_directoryEntries [ends]: "ends (directoryEntries lib repo node)"
proof -
  have "ends (parse_entries values)" for "values"
    by (induction "values" rule: parse_entries.induct) (auto intro!: ends simp: parse_entry_def)
  then show ?thesis
    unfolding directoryEntries_def writeRepresentation_def parseDirectoryEntries_def by (intro ends) simp_all
qed

lemma ends_cleanPath [ends]: "ends (cleanPath v)"
  unfolding cleanPath_def Let_def by (intro ends) simp_all

lemma ends_find_below [ends]: "ends (find_below lib repo nodePath node names)"
  by (induction lib repo nodePath node names rule: find_below.induct) (auto intro!: ends)

lemma ends_nodeAt [ends]: "ends (nodeAt lib repo root nodePath)"
  unfolding nodeAt_def findNode_def by (intro ends) simp_all

text \<open>A search that returns, and not with the error that stands for a call that would not.\<close>

definition settles :: "(fs_error + 'a) option \<Rightarrow> bool" where
  "settles v \<longleftrightarrow> (\<exists>r. v = Some r \<and> ends r)"

lemma settles_simps [simp]: "settles (Some r) \<longleftrightarrow> ends r" "\<not> settles None"
  by (simp_all add: settles_def)

lemma ends_readNode_Inl: "readNode lib repo p = Inl e \<Longrightarrow> e \<noteq> NeverReturns"
  using ends_readNode [of lib repo p] by auto

lemma ends_nodeAt_Inl: "nodeAt lib repo root nodePath = Inl e \<Longrightarrow> e \<noteq> NeverReturns"
  using ends_nodeAt [of lib repo root nodePath] by auto

lemma origin_loop_settles: "settles (origin_loop lib repo seen node)"
proof (induction "card (readable lib repo - set seen)" arbitrary: seen node rule: less_induct)
  case less
  show ?case
  proof (cases "nr_predecessor node")
    case None
    then show ?thesis by (simp add: origin_loop.simps)
  next
    case (Some p)
    show ?thesis
    proof (cases "readNode lib repo p")
      case (Inl e)
      with Some show ?thesis by (subst origin_loop.simps) (simp add: ends_readNode_Inl)
    next
      case (Inr node')
      then have "p \<in> readable lib repo" by (simp add: readable_def)
      then have "settles (origin_loop lib repo (p # seen) node')" if "p \<notin> set seen"
        using less.hyps unseen_decreases that by blast
      with Some Inr show ?thesis by (subst origin_loop.simps) simp
    qed
  qed
qed

lemma history_loop_settles: "settles (history_loop lib repo copyRevision history seen node)"
proof (induction "card (readable lib repo - set seen)" arbitrary: history seen node rule: less_induct)
  case less
  show ?case
  proof (cases "nr_predecessor node")
    case None
    then show ?thesis by (subst history_loop.simps) (simp add: Let_def)
  next
    case (Some p)
    show ?thesis
    proof (cases "readNode lib repo p")
      case (Inl e)
      with Some show ?thesis by (subst history_loop.simps) (simp add: Let_def ends_readNode_Inl)
    next
      case (Inr node')
      then have "p \<in> readable lib repo" by (simp add: readable_def)
      then have "settles (history_loop lib repo copyRevision h (p # seen) node')" if "p \<notin> set seen" for h
        using less.hyps unseen_decreases that by blast
      with Some Inr show ?thesis by (subst history_loop.simps) (simp add: Let_def)
    qed
  qed
qed

lemma closest_loop_settles: "list_all path_component parts \<Longrightarrow> settles (closest_loop lib repo root (abs_path parts) closest)"
proof (induction parts arbitrary: closest rule: rev_induct)
  case Nil
  then show ?case
    by (subst closest_loop.simps) (simp add: abs_path_def Let_def ends_nodeAt_Inl split: sum.split)
next
  case (snoc name parts)
  then have "settles (closest_loop lib repo root (path_Dir (abs_path (parts @ [name]))) c)" for c
    by (simp add: path_Dir_abs)
  then show ?case by (subst closest_loop.simps) (simp add: Let_def ends_nodeAt_Inl split: sum.split)
qed

lemma cleanPath_parts: "cleanPath v = Inr cleaned \<Longrightarrow> \<exists>parts. list_all path_component parts \<and> cleaned = abs_path parts"
proof -
  assume c: "cleanPath v = Inr cleaned"
  then have "cleaned = path_Clean (CHR ''/'' # TrimPrefix v ''/'')"
    by (auto simp: cleanPath_def Let_def split: if_splits)
  then show ?thesis using path_Clean_rooted rooted_parts_valid by metis
qed

lemma cleanPath_Inl: "cleanPath v = Inl e \<Longrightarrow> e \<noteq> NeverReturns"
  using ends_cleanPath [of v] by auto

lemma ClosestCopy_settles: "settles (ClosestCopy lib repo root nodePath)"
  using cleanPath_parts [of nodePath] closest_loop_settles [of _ lib repo root]
  by (auto simp: ClosestCopy_def cleanPath_Inl split: sum.split)

lemma node_history_settles: "settles (node_history lib repo root nodePath False seen)"
proof (cases "nodeAt lib repo root nodePath")
  case (Inl e)
  then show ?thesis by (subst node_history.simps) (simp add: ends_nodeAt_Inl)
next
  case (Inr node)
  obtain closest where c: "ClosestCopy lib repo root nodePath = Some closest" "ends closest"
    using ClosestCopy_settles [of lib repo root nodePath] unfolding settles_def by blast
  show ?thesis
  proof (cases closest)
    case (Inl e)
    with c Inr show ?thesis by (subst node_history.simps) simp
  next
    case (Inr copy)
    obtain copyPath copyRevision where copy: "copy = (copyPath, copyRevision)" by force
    obtain walked where w: "history_loop lib repo copyRevision [] seen node = Some walked" "ends walked"
      using history_loop_settles [of lib repo copyRevision "[]" seen node] unfolding settles_def by blast
    then show ?thesis
      using c Inr \<open>nodeAt lib repo root nodePath = Inr node\<close> copy
      by (subst node_history.simps) (auto simp: Let_def split: sum.split prod.split)
  qed
qed


end
