(* ===== verification/Fsfs_Txn.thy ===== *)
theory Fsfs_Txn
  imports Fsfs_Read
begin

text \<open>
  Transactions: the tree of nodes an uncommitted change works on (\<^verbatim>\<open>fs/fsfs/txnroot.go\<close>), its list of
  changed paths, and its merge with revisions committed meanwhile (\<^verbatim>\<open>fs/fsfs/merge.go\<close>). A node
  loads its children, properties and contents from its base when they are first needed; \<open>None\<close>
  stands for what is not loaded. The pointers of the code form a tree, which is the datatype
  \<open>txn_node\<close>; an operation returns its result and the tree it leaves, loaded parts included, on
  errors too. The files of a transaction (\<^verbatim>\<open>fs/fsfs/txn.go\<close>, \<open>persist\<close> of \<^verbatim>\<open>fs/fsfs/txnpersist.go\<close>) are a
  map from their names; what \<open>persist\<close> loads to write it is not kept in the tree.
\<close>

section \<open>Nodes\<close>

record txn_data =
  tn_base :: "revision_root option"
  tn_base_node :: node_revision
  tn_base_path :: string
  tn_kind :: NodeKind
  tn_created_path :: string
  tn_properties :: "props option"
  tn_content :: "bytes option"
  tn_dirty :: bool
  tn_text_modified :: bool
  tn_props_modified :: bool
  tn_new :: bool
  tn_copyfrom_path :: string
  tn_copyfrom_rev :: revnum
  tn_temporary_id :: string

datatype txn_node = TxnNode (data_of_node: txn_data) (children_of_node: "(string \<times> txn_node) list option")

type_synonym txn_children = "(string \<times> txn_node) list"

abbreviation node_kind :: "txn_node \<Rightarrow> NodeKind" where "node_kind n \<equiv> tn_kind (data_of_node n)"

definition newTxnNode :: "revision_root \<Rightarrow> string \<Rightarrow> node_revision \<Rightarrow> txn_data" where
  "newTxnNode root nodePath node =
     \<lparr>tn_base = Some root, tn_base_node = node, tn_base_path = nodePath, tn_kind = nr_kind node,
      tn_created_path = nodePath, tn_properties = None, tn_content = None, tn_dirty = False,
      tn_text_modified = False, tn_props_modified = False, tn_new = False, tn_copyfrom_path = [],
      tn_copyfrom_rev = InvalidRevnum, tn_temporary_id = []\<rparr>"

text \<open>The zero value of a node revision, the base of a new node.\<close>

definition no_revision :: node_revision where
  "no_revision =
     \<lparr>nr_id = \<lparr>id_node = [], id_copy = [], id_revision = 0, id_item = 0\<rparr>, nr_kind = NodeNone, nr_predecessor = None,
      nr_count = 0, nr_text = None, nr_properties = None, nr_created_path = [], nr_copyroot_path = [],
      nr_copyroot_rev = 0, nr_copyfrom_path = [], nr_copyfrom_rev = 0, nr_mergeinfo_count = 0,
      nr_mergeinfo_here = False, nr_has_mergeinfo_count = False\<rparr>"

definition mark_dirty :: "txn_node \<Rightarrow> txn_node" where
  "mark_dirty n = TxnNode (data_of_node n\<lparr>tn_dirty := True\<rparr>) (children_of_node n)"

text \<open>Children under their names; a name occurs once.\<close>

definition put_child :: "string \<Rightarrow> txn_node \<Rightarrow> txn_children \<Rightarrow> txn_children" where
  "put_child name child cs = (name, child) # filter (\<lambda>(n, c). n \<noteq> name) cs"

definition drop_child :: "string \<Rightarrow> txn_children \<Rightarrow> txn_children" where
  "drop_child name cs = filter (\<lambda>(n, c). n \<noteq> name) cs"

section \<open>Loading\<close>

text \<open>The children a directory has in its base, read in the order of their names.\<close>

fun load_entries ::
    "stdlib \<Rightarrow> repository \<Rightarrow> revision_root \<Rightarrow> txn_data \<Rightarrow> (string \<times> directory_entry) list \<Rightarrow> fs_error + txn_children" where
  "load_entries lib repo base d [] = Inr []"
| "load_entries lib repo base d ((name, entry) # entries) =
     and_then (readNode lib repo (de_id entry)) (\<lambda>child.
     and_then (load_entries lib repo base d entries) (\<lambda>cs.
     Inr ((name, TxnNode ((newTxnNode base (path_Join [tn_base_path d, name]) child)
        \<lparr>tn_created_path := path_Join [tn_created_path d, name]\<rparr>) None) # cs)))"

definition loadChildren :: "stdlib \<Rightarrow> repository \<Rightarrow> txn_node \<Rightarrow> fs_error + txn_children" where
  "loadChildren lib repo n =
     (case children_of_node n of
        Some cs \<Rightarrow> Inr cs
      | None \<Rightarrow>
          let d = data_of_node n in
          if tn_kind d \<noteq> NodeDir then Inl (NotDirectory (tn_created_path d))
          else case tn_base d of
              None \<Rightarrow> Inl Panics
            | Some base \<Rightarrow>
                and_then (directoryEntries lib repo (tn_base_node d)) (\<lambda>entries.
                load_entries lib repo base d (sorted_entries entries)))"

definition loadProperties :: "stdlib \<Rightarrow> repository \<Rightarrow> txn_data \<Rightarrow> fs_error + props" where
  "loadProperties lib repo d =
     (case tn_properties d of
        Some values \<Rightarrow> Inr values
      | None \<Rightarrow> (case tn_base d of None \<Rightarrow> Inl Panics | Some base \<Rightarrow> NodeProps lib repo base (tn_base_path d)))"

definition loadContent :: "stdlib \<Rightarrow> repository \<Rightarrow> txn_data \<Rightarrow> fs_error + bytes" where
  "loadContent lib repo d =
     (case tn_content d of
        Some contents \<Rightarrow> Inr contents
      | None \<Rightarrow> (case tn_base d of None \<Rightarrow> Inl Panics | Some base \<Rightarrow> FileContents lib repo base (tn_base_path d)))"

section \<open>Walking to a path\<close>

definition path_names :: "string \<Rightarrow> string list" where
  "path_names cleaned = (if cleaned = ''/'' then [] else split CHR ''/'' (TrimPrefix cleaned ''/''))"

text \<open>\<open>lookup\<close> on its own: the node found, \<open>None\<close> where an entry is missing.\<close>

fun txn_lookup :: "stdlib \<Rightarrow> repository \<Rightarrow> string list \<Rightarrow> txn_node \<Rightarrow> fs_error + txn_node option" where
  "txn_lookup lib repo [] n = Inr (Some n)"
| "txn_lookup lib repo (name # names) n =
     (if node_kind n \<noteq> NodeDir then Inl (NotDirectory (tn_created_path (data_of_node n)))
      else and_then (loadChildren lib repo n) (\<lambda>cs.
        case map_of cs name of None \<Rightarrow> Inr None | Some child \<Rightarrow> txn_lookup lib repo names child))"

text \<open>
  \<open>lookup\<close> followed by work on the node found: the work returns a result and the node it leaves, and
  if it succeeds and \<open>marks\<close> is set, the node and the nodes above it become dirty. \<open>missing\<close> is the
  result when an entry is missing.
\<close>

fun at_path ::
    "stdlib \<Rightarrow> repository \<Rightarrow> bool \<Rightarrow> fs_error + 'a \<Rightarrow> (txn_node \<Rightarrow> (fs_error + 'a) \<times> txn_node) \<Rightarrow> string list \<Rightarrow>
       txn_node \<Rightarrow> (fs_error + 'a) \<times> txn_node" where
  "at_path lib repo marks missing work [] n =
     (case work n of
        (Inl e, n') \<Rightarrow> (Inl e, n')
      | (Inr x, n') \<Rightarrow> (Inr x, if marks then mark_dirty n' else n'))"
| "at_path lib repo marks missing work (name # names) n =
     (if node_kind n \<noteq> NodeDir then (Inl (NotDirectory (tn_created_path (data_of_node n))), n)
      else case loadChildren lib repo n of
          Inl e \<Rightarrow> (Inl e, n)
        | Inr cs \<Rightarrow>
            (case map_of cs name of
               None \<Rightarrow> (missing, TxnNode (data_of_node n) (Some cs))
             | Some child \<Rightarrow>
                 (case at_path lib repo marks missing work names child of
                    (Inl e, child') \<Rightarrow> (Inl e, TxnNode (data_of_node n) (Some (put_child name child' cs)))
                  | (Inr x, child') \<Rightarrow>
                      let n' = TxnNode (data_of_node n) (Some (put_child name child' cs)) in
                      (Inr x, if marks then mark_dirty n' else n'))))"

section \<open>Transactions\<close>

record transaction =
  tx_name :: string
  tx_base :: revnum
  tx_root :: txn_node
  tx_changes :: "(string, path_change) fmap"
  tx_next :: nat
  tx_files :: "(string, bytes) fmap"
  tx_protorev :: bytes

text \<open>\<open>strconv.FormatInt(n, 36)\<close>.\<close>

function base36 :: "nat \<Rightarrow> string" where
  "base36 n =
     (if n < 36 then [''0123456789abcdefghijklmnopqrstuvwxyz'' ! n]
      else base36 (n div 36) @ [''0123456789abcdefghijklmnopqrstuvwxyz'' ! (n mod 36)])"
  by pat_completeness auto
termination by (relation "measure id") auto

declare base36.simps [simp del]

definition write_hash :: "props \<Rightarrow> fs_error + bytes" where
  "write_hash values = (case Write values of Inl e \<Rightarrow> Inl (Elsewhere ''hashfile.Write'') | Inr text \<Rightarrow> Inr (bytes_of_text text))"

definition read_hash :: "bytes \<Rightarrow> fs_error + props" where
  "read_hash data = (case ReadHash (text_of_bytes data) of Inl e \<Rightarrow> Inl (Elsewhere ''hashfile.Read'') | Inr values \<Rightarrow> Inr values)"

definition set_prop :: "string \<Rightarrow> string option \<Rightarrow> props \<Rightarrow> props" where
  "set_prop name v values = (case v of None \<Rightarrow> fmdrop name values | Some data \<Rightarrow> fmupd name data values)"

text \<open>The files of a new transaction; \<open>date\<close> is the formatted time.\<close>

definition create_files :: "string \<Rightarrow> fs_error + (string, bytes) fmap" where
  "create_files date =
     and_then (write_hash (fmupd ''svn:date'' date fmempty)) (\<lambda>values.
     Inr (fmupd ''props'' values (fmupd ''changes'' []
       (fmupd ''next-ids'' (bytes_of_text (''0 0'' @ [CHR 0x0A, CHR 0x00])) fmempty))))"

text \<open>
  \<open>BeginTxn\<close> followed by \<open>Root\<close>: the operations on the transaction need its root, and \<open>Commit\<close>
  makes it if it is missing.
\<close>

definition BeginTxn :: "stdlib \<Rightarrow> string \<Rightarrow> revnum \<Rightarrow> repository \<Rightarrow> fs_error + transaction \<times> repository" where
  "BeginTxn lib date base repo =
     (if base < 0 \<or> base > repo_youngest repo then Inl (NoSuchRevision base)
      else
        and_then (create_files date) (\<lambda>files.
        and_then (RevisionRoot lib repo base) (\<lambda>root.
        Inr (\<lparr>tx_name = itoa base @ ''-'' @ base36 (repo_sequence repo), tx_base = base,
               tx_root = TxnNode (newTxnNode root ''/'' (root_node root)) None, tx_changes = fmempty, tx_next = 0,
               tx_files = files, tx_protorev = []\<rparr>,
             repo\<lparr>repo_sequence := Suc (repo_sequence repo)\<rparr>))))"

definition Properties :: "transaction \<Rightarrow> fs_error + props" where
  "Properties tx =
     (case fmlookup (tx_files tx) ''props'' of None \<Rightarrow> Inl (Elsewhere ''os.Open'') | Some data \<Rightarrow> read_hash data)"

definition ChangeProperty :: "string \<Rightarrow> string option \<Rightarrow> transaction \<Rightarrow> fs_error + transaction" where
  "ChangeProperty name v tx =
     (if name = [] then Inl (IncorrectParams ''empty transaction property name'')
      else
        and_then (Properties tx) (\<lambda>values.
        and_then (write_hash (set_prop name v values)) (\<lambda>data.
        Inr (tx\<lparr>tx_files := fmupd ''props'' data (tx_files tx)\<rparr>))))"

definition recordChange :: "path_change \<Rightarrow> (string, path_change) fmap \<Rightarrow> (string, path_change) fmap" where
  "recordChange change changes =
     fmupd (pc_path change)
       (case fmlookup changes (pc_path change) of
          None \<Rightarrow> change
        | Some previous \<Rightarrow>
            if pc_kind previous = ChangeDelete \<and> pc_kind change = ChangeAdd
            then change\<lparr>pc_kind := ChangeReplace\<rparr>
            else if pc_kind previous = ChangeAdd \<or> pc_kind previous = ChangeReplace
            then
              let merged = change\<lparr>pc_kind := pc_kind previous, pc_text := pc_text change \<or> pc_text previous,
                             pc_props := pc_props change \<or> pc_props previous\<rparr> in
              if pc_copyfrom_path merged = []
              then merged\<lparr>pc_copyfrom_path := pc_copyfrom_path previous, pc_copyfrom_rev := pc_copyfrom_rev previous\<rparr>
              else merged
            else change)
       changes"

section \<open>Persisting\<close>

definition txnNodeID :: "string \<Rightarrow> txn_data \<Rightarrow> string" where
  "txnNodeID name d =
     (if tn_temporary_id d \<noteq> [] then tn_temporary_id d @ ''.0'' 
      else id_node (nr_id (tn_base_node d)) @ ''.'' @ id_copy (nr_id (tn_base_node d))) @ ''.t'' @ name"

text \<open>The dirty nodes, parents first and children in the order of their names.\<close>

fun collectTxnNodes :: "txn_node \<Rightarrow> txn_node list" where
  "collectTxnNodes (TxnNode d cs) =
     (if \<not> tn_dirty d then []
      else TxnNode d cs #
        (case cs of
           None \<Rightarrow> []
         | Some children \<Rightarrow>
             concat (map snd (sort_key fst (map (\<lambda>(name, child). (name, collectTxnNodes child)) children)))))"

definition txn_nodePath :: "string \<Rightarrow> txn_data \<Rightarrow> string" where
  "txn_nodePath name d = (let parts = split CHR ''.'' (txnNodeID name d) in ''node.'' @ parts ! 0 @ ''.'' @ parts ! 1)"

text \<open>The fields of a record in their order: name, whether it is written, value.\<close>

definition present_fields :: "(string \<times> bool \<times> string) list \<Rightarrow> (string \<times> string) list" where
  "present_fields table = [(name, v). (name, present, v) \<leftarrow> table, present]"

definition copyroot_of :: "revnum \<Rightarrow> txn_data \<Rightarrow> revnum \<times> string" where
  "copyroot_of revision d =
     (if IsValid (tn_copyfrom_rev d) then (revision, tn_created_path d)
      else if tn_new d then (0, ''/'')
      else (nr_copyroot_rev (tn_base_node d), nr_copyroot_path (tn_base_node d)))"

definition txn_nodeRecord ::
    "string \<Rightarrow> revnum \<Rightarrow> txn_data \<Rightarrow> bool \<Rightarrow> representation option \<Rightarrow> representation option \<Rightarrow> bytes" where
  "txn_nodeRecord name base_revision d listed content properties =
     (let base = tn_base_node d; (copyrootRev, copyrootPath) = copyroot_of base_revision d in
      bytes_of_text (text_of_lines (map field_line (present_fields
       [(''id'', True, txnNodeID name d),
        (''type'', True, NodeKind_String (tn_kind d)),
        (''pred'', \<not> tn_new d, ID_String (nr_id base)),
        (''count'', True, if tn_new d then ''0'' else itoa (nr_count base + 1)),
        (''text'', listed \<or> content \<noteq> None, if listed then ''-1'' else formatRepresentation (the content)),
        (''props'', properties \<noteq> None, if tn_props_modified d \<or> tn_new d then ''-1'' else formatRepresentation (the properties)),
        (''cpath'', True, tn_created_path d),
        (''copyroot'', IsValid copyrootRev \<and> copyrootPath \<noteq> [], itoa copyrootRev @ '' '' @ copyrootPath),
        (''copyfrom'', IsValid (tn_copyfrom_rev d), itoa (tn_copyfrom_rev d) @ '' '' @ tn_copyfrom_path d)]) @ [[]])))"

definition plain_representation :: "bytes \<Rightarrow> bytes" where
  "plain_representation contents =
     bytes_of_text (''PLAIN'' @ [CHR 0x0A]) @ contents @ bytes_of_text (''ENDREP'' @ [CHR 0x0A])"

text \<open>
  What \<open>persist\<close> has written so far: the counter, the protorevision file with the places of its
  items, and the other files.
\<close>

record txn_representation =
  tr_item :: nat
  tr_offset :: nat
  tr_data :: bytes

record persist_state =
  ps_next :: nat
  ps_protorev :: bytes
  ps_items :: "txn_representation list"
  ps_files :: "(string, bytes) fmap"

text \<open>A state is kept when a step fails.\<close>

definition then_state :: "(fs_error + 'a) \<times> 's \<Rightarrow> ('a \<Rightarrow> 's \<Rightarrow> (fs_error + 'b) \<times> 's) \<Rightarrow> (fs_error + 'b) \<times> 's" where
  "then_state r f = (case r of (Inl e, s) \<Rightarrow> (Inl e, s) | (Inr x, s) \<Rightarrow> f x s)"

definition persist_text ::
    "stdlib \<Rightarrow> repository \<Rightarrow> string \<Rightarrow> txn_data \<Rightarrow> persist_state \<Rightarrow> (fs_error + representation option) \<times> persist_state" where
  "persist_text lib repo name d ps =
     (if tn_kind d = NodeFile \<and> (tn_text_modified d \<or> tn_new d) then
        case loadContent lib repo d of
          Inl e \<Rightarrow> (Inl e, ps)
        | Inr contents \<Rightarrow>
            let item = ps_next ps; data = plain_representation contents in
            (Inr (Some \<lparr>rep_revision = - 1, rep_item = int item, rep_length = int (length contents),
                rep_expanded = int (length contents), rep_md5 = hex_encode (std_md5 lib contents),
                rep_sha1 = hex_encode (std_sha1 lib contents), rep_uniquifier = name @ ''/_'' @ base36 (item + 1)\<rparr>),
             ps\<lparr>ps_next := item + 2, ps_protorev := ps_protorev ps @ data,
                ps_items := ps_items ps @ [\<lparr>tr_item = item, tr_offset = length (ps_protorev ps), tr_data = data\<rparr>]\<rparr>)
      else (Inr (nr_text (tn_base_node d)), ps))"

definition write_txn_hash :: "string \<Rightarrow> props \<Rightarrow> persist_state \<Rightarrow> (fs_error + unit) \<times> persist_state" where
  "write_txn_hash file_name values ps =
     (case write_hash values of Inl e \<Rightarrow> (Inl e, ps) | Inr data \<Rightarrow> (Inr (), ps\<lparr>ps_files := fmupd file_name data (ps_files ps)\<rparr>))"

definition child_values :: "string \<Rightarrow> txn_children \<Rightarrow> props" where
  "child_values name cs =
     fold (\<lambda>(child_name, child). fmupd child_name
       (NodeKind_String (node_kind child) @ '' '' @ txnNodeID name (data_of_node child))) cs fmempty"

definition persist_children :: "string \<Rightarrow> txn_node \<Rightarrow> persist_state \<Rightarrow> (fs_error + unit) \<times> persist_state" where
  "persist_children name n ps =
     (case children_of_node n of
        Some cs \<Rightarrow>
          if node_kind n = NodeDir
          then write_txn_hash (txn_nodePath name (data_of_node n) @ ''.children'') (child_values name cs) ps
          else (Inr (), ps)
      | None \<Rightarrow> (Inr (), ps))"

definition persist_properties ::
    "stdlib \<Rightarrow> repository \<Rightarrow> string \<Rightarrow> txn_data \<Rightarrow> persist_state \<Rightarrow> (fs_error + representation option) \<times> persist_state" where
  "persist_properties lib repo name d ps =
     (if tn_props_modified d \<or> tn_new d then
        case loadProperties lib repo d of
          Inl e \<Rightarrow> (Inl e, ps)
        | Inr values \<Rightarrow>
            if values = fmempty then (Inr None, ps)
            else then_state (write_txn_hash (txn_nodePath name d @ ''.props'') values ps) (\<lambda>_ ps'.
              (Inr (Some \<lparr>rep_revision = - 1, rep_item = 0, rep_length = 0, rep_expanded = 0, rep_md5 = [], rep_sha1 = [],
                  rep_uniquifier = []\<rparr>), ps'))
      else (Inr (nr_properties (tn_base_node d)), ps))"

fun persist_nodes ::
    "stdlib \<Rightarrow> repository \<Rightarrow> string \<Rightarrow> revnum \<Rightarrow> txn_node list \<Rightarrow> persist_state \<Rightarrow> (fs_error + unit) \<times> persist_state" where
  "persist_nodes lib repo name base_revision [] ps = (Inr (), ps)"
| "persist_nodes lib repo name base_revision (n # ns) ps =
     (let d = data_of_node n; listed = (tn_kind d = NodeDir \<and> children_of_node n \<noteq> None) in
      then_state (persist_text lib repo name d ps) (\<lambda>content ps1.
      then_state (persist_children name n ps1) (\<lambda>_ ps2.
      then_state (persist_properties lib repo name d ps2) (\<lambda>properties ps3.
      persist_nodes lib repo name base_revision ns
        (ps3\<lparr>ps_files := fmupd (txn_nodePath name d) (txn_nodeRecord name base_revision d listed content properties) (ps_files ps3)\<rparr>)))))"

text \<open>The changed paths with the temporary identifiers of their nodes.\<close>

definition bool_text :: "bool \<Rightarrow> string" where
  "bool_text b = (if b then ''true'' else ''false'')"

definition change_lines :: "string \<Rightarrow> path_change \<Rightarrow> string list" where
  "change_lines i change =
     [i @ '' '' @ ChangeKind_String (pc_kind change) @ ''-'' @ NodeKind_String (pc_node_kind change) @ '' '' @
        bool_text (pc_text change) @ '' '' @ bool_text (pc_props change) @ '' false '' @ pc_path change,
      (if IsValid (pc_copyfrom_rev change) \<and> pc_copyfrom_path change \<noteq> []
       then itoa (pc_copyfrom_rev change) @ '' '' @ pc_copyfrom_path change else [])]"

definition change_node_id :: "stdlib \<Rightarrow> repository \<Rightarrow> transaction \<Rightarrow> string \<Rightarrow> string" where
  "change_node_id lib repo tx p =
     (case cleanPath p of
        Inl e \<Rightarrow> ''0.0.t'' @ tx_name tx
      | Inr cleaned \<Rightarrow>
          (case txn_lookup lib repo (path_names cleaned) (tx_root tx) of
             Inr (Some n) \<Rightarrow> txnNodeID (tx_name tx) (data_of_node n)
           | _ \<Rightarrow> ''0.0.t'' @ tx_name tx))"

definition transactionChanges :: "stdlib \<Rightarrow> repository \<Rightarrow> transaction \<Rightarrow> bytes" where
  "transactionChanges lib repo tx =
     bytes_of_text (text_of_lines
       (concat (map (\<lambda>(p, change). change_lines (change_node_id lib repo tx p) change) (sorted_entries (tx_changes tx)))))"

definition little_endian :: "nat \<Rightarrow> nat \<Rightarrow> bytes" where
  "little_endian width n = map (\<lambda>i. word_of_nat (n div 256 ^ i)) [0..<width]"

definition writeProtoIndexes :: "txn_representation list \<Rightarrow> bytes \<times> bytes" where
  "writeProtoIndexes items =
     (let sorted_items = sort_key tr_item items in
      (concat (map (\<lambda>r. little_endian 8 (tr_offset r + 1) @ little_endian 8 (tr_item r)) sorted_items),
       concat (map (\<lambda>r. little_endian 8 (tr_offset r) @ little_endian 8 (length (tr_data r)) @ little_endian 4 1 @
         little_endian 4 (unat (fnv1a32x4 (tr_data r))) @ replicate 12 0 @ little_endian 8 (tr_item r)) sorted_items)))"

definition persist :: "stdlib \<Rightarrow> repository \<Rightarrow> transaction \<Rightarrow> (fs_error + unit) \<times> transaction" where
  "persist lib repo tx =
     (case persist_nodes lib repo (tx_name tx) (tx_base tx) (collectTxnNodes (tx_root tx))
             \<lparr>ps_next = tx_next tx, ps_protorev = [], ps_items = [], ps_files = tx_files tx\<rparr> of
        (Inl e, ps) \<Rightarrow> (Inl e, tx\<lparr>tx_files := ps_files ps\<rparr>)
      | (Inr _, ps) \<Rightarrow>
          let (l2p, p2l) = writeProtoIndexes (ps_items ps);
              next_item = ps_next ps;
              files = fmupd ''changes'' (transactionChanges lib repo tx)
                (fmupd ''next-ids'' (bytes_of_text (base36 next_item @ '' 0'' @ [CHR 0x0A, CHR 0x00]))
                (fmupd ''itemidx'' (bytes_of_text (itoa (int next_item)))
                (fmupd ''index.p2l'' p2l (fmupd ''index.l2p'' l2p (ps_files ps))))) in
          (Inr (), tx\<lparr>tx_next := next_item, tx_files := files, tx_protorev := ps_protorev ps\<rparr>))"

section \<open>Queries\<close>

definition on_path ::
    "stdlib \<Rightarrow> repository \<Rightarrow> bool \<Rightarrow> fs_error + 'a \<Rightarrow> string \<Rightarrow> (txn_node \<Rightarrow> (fs_error + 'a) \<times> txn_node) \<Rightarrow> transaction \<Rightarrow>
       (fs_error + 'a) \<times> transaction" where
  "on_path lib repo marks missing nodePath work tx =
     (case cleanPath nodePath of
        Inl e \<Rightarrow> (Inl e, tx)
      | Inr cleaned \<Rightarrow>
          (case at_path lib repo marks missing work (path_names cleaned) (tx_root tx) of
             (r, root) \<Rightarrow> (r, tx\<lparr>tx_root := root\<rparr>)))"

definition txn_CheckPath :: "stdlib \<Rightarrow> repository \<Rightarrow> string \<Rightarrow> transaction \<Rightarrow> (fs_error + NodeKind) \<times> transaction" where
  "txn_CheckPath lib repo nodePath =
     on_path lib repo False (Inr NodeNone) nodePath (\<lambda>n. (Inr (node_kind n), n))"

definition txn_NodeProps :: "stdlib \<Rightarrow> repository \<Rightarrow> string \<Rightarrow> transaction \<Rightarrow> (fs_error + props) \<times> transaction" where
  "txn_NodeProps lib repo nodePath =
     on_path lib repo False (Inl (NotFound nodePath)) nodePath (\<lambda>n.
       case loadProperties lib repo (data_of_node n) of
         Inl e \<Rightarrow> (Inl e, n)
       | Inr values \<Rightarrow> (Inr values, TxnNode (data_of_node n\<lparr>tn_properties := Some values\<rparr>) (children_of_node n)))"

definition txn_DirEntries ::
    "stdlib \<Rightarrow> repository \<Rightarrow> string \<Rightarrow> transaction \<Rightarrow> (fs_error + (string \<times> NodeKind) list) \<times> transaction" where
  "txn_DirEntries lib repo nodePath =
     on_path lib repo False (Inl (NotFound nodePath)) nodePath (\<lambda>n.
       if node_kind n \<noteq> NodeDir then (Inl (NotDirectory nodePath), n)
       else case loadChildren lib repo n of
           Inl e \<Rightarrow> (Inl e, n)
         | Inr cs \<Rightarrow> (Inr (sort_key fst (map (\<lambda>(name, child). (name, node_kind child)) cs)), TxnNode (data_of_node n) (Some cs)))"

definition txn_FileContents :: "stdlib \<Rightarrow> repository \<Rightarrow> string \<Rightarrow> transaction \<Rightarrow> (fs_error + bytes) \<times> transaction" where
  "txn_FileContents lib repo nodePath =
     on_path lib repo False (Inl (NotFound nodePath)) nodePath (\<lambda>n.
       if node_kind n \<noteq> NodeFile then (Inl (NotFile nodePath), n)
       else case loadContent lib repo (data_of_node n) of
           Inl e \<Rightarrow> (Inl e, n)
         | Inr contents \<Rightarrow> (Inr contents, TxnNode (data_of_node n\<lparr>tn_content := Some contents\<rparr>) (children_of_node n)))"

section \<open>Changes\<close>

definition splitTxnPath :: "string \<Rightarrow> fs_error + string \<times> string \<times> string" where
  "splitTxnPath v =
     and_then (cleanPath v) (\<lambda>cleaned.
     if cleaned = ''/'' then Inl (IncorrectParams ''cannot replace transaction root'')
     else Inr (cleaned, path_Dir cleaned, path_Base cleaned))"

text \<open>Work on the children of a directory that is to change.\<close>

definition in_directory ::
    "stdlib \<Rightarrow> repository \<Rightarrow> string \<Rightarrow> (txn_children \<Rightarrow> fs_error + 'a \<times> txn_children) \<Rightarrow> txn_node \<Rightarrow> (fs_error + 'a) \<times> txn_node" where
  "in_directory lib repo parentPath work parent =
     (if node_kind parent \<noteq> NodeDir then (Inl (NotDirectory parentPath), parent)
      else case loadChildren lib repo parent of
          Inl e \<Rightarrow> (Inl e, parent)
        | Inr cs \<Rightarrow>
            (case work cs of
               Inl e \<Rightarrow> (Inl e, TxnNode (data_of_node parent) (Some cs))
             | Inr (x, cs') \<Rightarrow> (Inr x, TxnNode (data_of_node parent) (Some cs'))))"

text \<open>After a change of the tree: the record of the change, and the files of the transaction.\<close>

definition recorded ::
    "stdlib \<Rightarrow> repository \<Rightarrow> ('a \<Rightarrow> path_change) \<Rightarrow> nat \<Rightarrow> (fs_error + 'a) \<times> transaction \<Rightarrow> (fs_error + unit) \<times> transaction" where
  "recorded lib repo change ids result =
     (case result of
        (Inl e, tx) \<Rightarrow> (Inl e, tx)
      | (Inr x, tx) \<Rightarrow>
          persist lib repo (tx\<lparr>tx_changes := recordChange (change x) (tx_changes tx), tx_next := tx_next tx + ids\<rparr>))"

definition change_at :: "string \<Rightarrow> change_kind \<Rightarrow> NodeKind \<Rightarrow> bool \<Rightarrow> bool \<Rightarrow> path_change" where
  "change_at p kind of_kind text_changed props_changed =
     \<lparr>pc_path = p, pc_kind = kind, pc_node_kind = of_kind, pc_text = text_changed, pc_props = props_changed,
      pc_copyfrom_path = [], pc_copyfrom_rev = InvalidRevnum\<rparr>"

definition temporary_id :: "transaction \<Rightarrow> string" where
  "temporary_id tx = ''_'' @ base36 (tx_next tx)"

definition new_node :: "string \<Rightarrow> NodeKind \<Rightarrow> string \<Rightarrow> txn_node" where
  "new_node cleaned kind temporary =
     TxnNode
       \<lparr>tn_base = None, tn_base_node = no_revision, tn_base_path = cleaned, tn_kind = kind, tn_created_path = cleaned,
        tn_properties = Some fmempty, tn_content = (if kind = NodeDir then None else Some []), tn_dirty = True,
        tn_text_modified = (kind = NodeFile), tn_props_modified = False, tn_new = True, tn_copyfrom_path = [],
        tn_copyfrom_rev = InvalidRevnum, tn_temporary_id = temporary\<rparr>
       (if kind = NodeDir then Some [] else None)"

definition makeNode :: "stdlib \<Rightarrow> repository \<Rightarrow> string \<Rightarrow> NodeKind \<Rightarrow> transaction \<Rightarrow> (fs_error + unit) \<times> transaction" where
  "makeNode lib repo nodePath kind tx =
     (case splitTxnPath nodePath of
        Inl e \<Rightarrow> (Inl e, tx)
      | Inr (cleaned, parentPath, name) \<Rightarrow>
          recorded lib repo (\<lambda>_. change_at cleaned ChangeAdd kind True False) 1
            (on_path lib repo True (Inl (NotFound parentPath)) parentPath
              (in_directory lib repo parentPath (\<lambda>cs.
                 if map_of cs name \<noteq> None then Inl (AlreadyExists cleaned)
                 else Inr ((), put_child name (new_node cleaned kind (temporary_id tx)) cs))) tx))"

definition MakeDir :: "stdlib \<Rightarrow> repository \<Rightarrow> string \<Rightarrow> transaction \<Rightarrow> (fs_error + unit) \<times> transaction" where
  "MakeDir lib repo nodePath = makeNode lib repo nodePath NodeDir"

definition MakeFile :: "stdlib \<Rightarrow> repository \<Rightarrow> string \<Rightarrow> transaction \<Rightarrow> (fs_error + unit) \<times> transaction" where
  "MakeFile lib repo nodePath = makeNode lib repo nodePath NodeFile"

definition txn_Delete :: "stdlib \<Rightarrow> repository \<Rightarrow> string \<Rightarrow> transaction \<Rightarrow> (fs_error + unit) \<times> transaction" where
  "txn_Delete lib repo nodePath tx =
     (case splitTxnPath nodePath of
        Inl e \<Rightarrow> (Inl e, tx)
      | Inr (cleaned, parentPath, name) \<Rightarrow>
          recorded lib repo (\<lambda>kind. change_at cleaned ChangeDelete kind False False) 0
            (on_path lib repo True (Inl (NotFound parentPath)) parentPath
              (in_directory lib repo parentPath (\<lambda>cs.
                 case map_of cs name of
                   None \<Rightarrow> Inl (NotFound cleaned)
                 | Some child \<Rightarrow> Inr (node_kind child, drop_child name cs))) tx))"

definition txn_Copy ::
    "stdlib \<Rightarrow> repository \<Rightarrow> revnum \<Rightarrow> string \<Rightarrow> string \<Rightarrow> transaction \<Rightarrow> (fs_error + unit) \<times> transaction" where
  "txn_Copy lib repo sourceRevision sourcePath destinationPath tx =
     (case splitTxnPath destinationPath of
        Inl e \<Rightarrow> (Inl e, tx)
      | Inr (cleaned, parentPath, name) \<Rightarrow>
          recorded lib repo (\<lambda>source. (change_at cleaned ChangeAdd (nr_kind source) False False)
              \<lparr>pc_copyfrom_path := nr_created_path source, pc_copyfrom_rev := sourceRevision\<rparr>) 1
            (on_path lib repo True (Inl (NotFound parentPath)) parentPath
              (in_directory lib repo parentPath (\<lambda>cs.
                 if map_of cs name \<noteq> None then Inl (AlreadyExists cleaned)
                 else
                   and_then (RevisionRoot lib repo sourceRevision) (\<lambda>sourceRoot.
                   and_then (nodeAt lib repo sourceRoot sourcePath) (\<lambda>source.
                   Inr (source, put_child name
                     (TxnNode ((newTxnNode sourceRoot (nr_created_path source) source)
                        \<lparr>tn_created_path := cleaned, tn_copyfrom_path := nr_created_path source,
                         tn_copyfrom_rev := sourceRevision, tn_temporary_id := temporary_id tx, tn_dirty := True\<rparr>)
                        None) cs))))) tx))"

definition ChangeNodeProp ::
    "stdlib \<Rightarrow> repository \<Rightarrow> string \<Rightarrow> string \<Rightarrow> string option \<Rightarrow> transaction \<Rightarrow> (fs_error + unit) \<times> transaction" where
  "ChangeNodeProp lib repo nodePath name v tx =
     (if name = [] then (Inl (IncorrectParams ''empty node property name''), tx)
      else
        recorded lib repo (\<lambda>d. change_at (tn_created_path d) ChangeModify (tn_kind d) False True) 0
          (on_path lib repo True (Inl (NotFound nodePath)) nodePath (\<lambda>n.
             let d = data_of_node n in
             case loadProperties lib repo d of
               Inl e \<Rightarrow> (Inl e, n)
             | Inr values \<Rightarrow>
                 (Inr d, TxnNode (d\<lparr>tn_properties := Some (set_prop name v values), tn_props_modified := True\<rparr>) (children_of_node n))) tx))"

definition set_content :: "bytes \<Rightarrow> txn_node \<Rightarrow> txn_node" where
  "set_content contents n =
     TxnNode (data_of_node n\<lparr>tn_content := Some contents, tn_text_modified := True\<rparr>) (children_of_node n)"

definition ApplyText :: "stdlib \<Rightarrow> repository \<Rightarrow> string \<Rightarrow> bytes \<Rightarrow> transaction \<Rightarrow> (fs_error + unit) \<times> transaction" where
  "ApplyText lib repo nodePath contents tx =
     recorded lib repo (\<lambda>d. change_at (tn_created_path d) ChangeModify NodeFile True False) 0
       (on_path lib repo True (Inl (NotFound nodePath)) nodePath (\<lambda>n.
          if node_kind n \<noteq> NodeFile then (Inl (NotFile nodePath), n)
          else (Inr (data_of_node n), set_content contents n)) tx)"

text \<open>
  A text delta that is driven to its end: the handler checks the base, applies the windows one after
  the other, and sets the contents when it is closed. No other operation comes in between.
\<close>

definition handler_window :: "bytes \<Rightarrow> bytes \<Rightarrow> window \<Rightarrow> fs_error + bytes" where
  "handler_window base target w =
     (let start = SourceOffset w; stop = wrap_int (start + SourceLength w) in
      if start < 0 \<or> stop > int (length base) then Inl (Elsewhere ''svn.ErrSvndiffInvalidOps'')
      else
        and_then (slice_or_panic base start stop) (\<lambda>view.
        case ApplyWindow view w of
          Inl e \<Rightarrow> Inl (Elsewhere ''delta.ApplyWindow'')
        | Inr contents \<Rightarrow> Inr (target @ contents)))"

text \<open>The sum of the check wraps at 64 bits, and a view that starts far enough passes it.\<close>

lemma window_sum_wraps:
  "handler_window [] [] \<lparr>SourceOffset = 2 ^ 63 - 1, SourceLength = 1, TargetLength = 0, Ops = [], NewData = []\<rparr> = Inl Panics"
  by code_simp

fun handler_windows :: "bytes \<Rightarrow> bytes \<Rightarrow> window list \<Rightarrow> fs_error + bytes" where
  "handler_windows base target [] = Inr target"
| "handler_windows base target (w # ws) = and_then (handler_window base target w) (\<lambda>target'. handler_windows base target' ws)"

definition ApplyTextDelta ::
    "stdlib \<Rightarrow> repository \<Rightarrow> string \<Rightarrow> checksum option \<Rightarrow> window list \<Rightarrow> transaction \<Rightarrow> (fs_error + unit) \<times> transaction" where
  "ApplyTextDelta lib repo nodePath checksum windows tx =
     recorded lib repo (\<lambda>d. change_at (tn_created_path d) ChangeModify NodeFile True False) 0
       (on_path lib repo True (Inl (NotFound nodePath)) nodePath (\<lambda>n.
          if node_kind n \<noteq> NodeFile then (Inl (NotFile nodePath), n)
          else case loadContent lib repo (data_of_node n) of
              Inl e \<Rightarrow> (Inl e, n)
            | Inr base \<Rightarrow>
                let loaded = TxnNode (data_of_node n\<lparr>tn_content := Some base\<rparr>) (children_of_node n) in
                if (case checksum of None \<Rightarrow> False
                    | Some c \<Rightarrow> \<not> Equal (Sum (std_md5 lib) (std_sha1 lib) (checksum_kind c) base) c)
                then (Inl BadChecksum, loaded)
                else case handler_windows base [] windows of
                    Inl e \<Rightarrow> (Inl e, loaded)
                  | Inr target \<Rightarrow> (Inr (data_of_node n), set_content target loaded)) tx)"

section \<open>Merging with later revisions\<close>

definition isPathAncestor :: "string \<Rightarrow> string \<Rightarrow> bool" where
  "isPathAncestor parent child \<longleftrightarrow> parent = ''/'' \<or> HasPrefix child (TrimSuffix parent ''/'' @ ''/'')"

definition changesConflict :: "string \<Rightarrow> path_change \<Rightarrow> string \<Rightarrow> path_change \<Rightarrow> bool" where
  "changesConflict localPath local upstreamPath upstream =
     (let l = path_Clean localPath; u = path_Clean upstreamPath in
      if l = u then
        (if pc_kind local \<noteq> ChangeModify \<or> pc_kind upstream \<noteq> ChangeModify then True
         else pc_text local \<and> pc_text upstream \<or> pc_props local \<and> pc_props upstream)
      else if isPathAncestor u l then pc_kind upstream = ChangeDelete \<or> pc_kind upstream = ChangeReplace
      else if isPathAncestor l u
      then pc_kind local = ChangeAdd \<or> pc_kind local = ChangeDelete \<or> pc_kind local = ChangeReplace
      else False)"

definition conflictPath :: "string \<Rightarrow> string \<Rightarrow> string" where
  "conflictPath left right = (if length left \<le> length right then left else right)"

text \<open>The nodes behind the entries of a directory, in the order of their names.\<close>

fun read_entries :: "stdlib \<Rightarrow> repository \<Rightarrow> (string \<times> directory_entry) list \<Rightarrow> fs_error + (string \<times> node_revision) list" where
  "read_entries lib repo [] = Inr []"
| "read_entries lib repo ((name, entry) # entries) =
     and_then (readNode lib repo (de_id entry)) (\<lambda>child.
     and_then (read_entries lib repo entries) (\<lambda>rest. Inr ((name, child) # rest)))"

definition rebase :: "revision_root \<Rightarrow> node_revision \<Rightarrow> string \<Rightarrow> txn_data \<Rightarrow> txn_data" where
  "rebase latest latestNode nodePath d =
     (if tn_new d then d
      else d\<lparr>tn_base := Some latest, tn_base_node := latestNode, tn_base_path := nodePath\<rparr>)"

text \<open>
  The children of a merged directory. A candidate is a child of the transaction with the outcome of
  merging it; the dirty ones are kept, merged if the later revision has their name, and every other
  name of the later revision is taken from there.
\<close>

type_synonym merge_candidate = "string \<times> txn_node \<times> (fs_error + txn_node)"

fun merge_children :: "merge_candidate list \<Rightarrow> (string \<times> node_revision) list \<Rightarrow> fs_error + txn_children" where
  "merge_children [] latestChildren = Inr []"
| "merge_children ((name, child, merged) # candidates) latestChildren =
     (if \<not> tn_dirty (data_of_node child) then merge_children candidates latestChildren
      else
        and_then (if map_of latestChildren name \<noteq> None \<and> \<not> tn_new (data_of_node child) then merged else Inr child) (\<lambda>child'.
        and_then (merge_children candidates latestChildren) (\<lambda>cs. Inr ((name, child') # cs))))"

definition take_latest :: "revision_root \<Rightarrow> string \<Rightarrow> (string \<times> node_revision) list \<Rightarrow> txn_children \<Rightarrow> txn_children" where
  "take_latest latest nodePath latestChildren kept =
     kept @ map (\<lambda>(name, child). (name, TxnNode (newTxnNode latest (path_Join [nodePath, name]) child) None))
              (filter (\<lambda>(name, child). map_of kept name = None) latestChildren)"

fun mergeTxnDirectory ::
    "stdlib \<Rightarrow> repository \<Rightarrow> revision_root \<Rightarrow> string \<Rightarrow> txn_node \<Rightarrow> fs_error + txn_node" where
  "mergeTxnDirectory lib repo latest nodePath (TxnNode d stored) =
     and_then (nodeAt lib repo latest nodePath) (\<lambda>latestNode.
     if tn_kind d \<noteq> nr_kind latestNode then Inl (ConflictAt nodePath)
     else if tn_kind d \<noteq> NodeDir then Inr (TxnNode (rebase latest latestNode nodePath d) stored)
     else
       and_then (case stored of
           Some children \<Rightarrow> Inr (map (\<lambda>(name, child).
             (name, child, mergeTxnDirectory lib repo latest (path_Join [nodePath, name]) child)) children)
         | None \<Rightarrow> and_then (loadChildren lib repo (TxnNode d stored)) (\<lambda>loaded. Inr (map (\<lambda>(name, child). (name, child, Inr child)) loaded)))
         (\<lambda>candidates.
       and_then (directoryEntries lib repo latestNode) (\<lambda>entries.
       and_then (read_entries lib repo (sorted_entries entries)) (\<lambda>latestChildren.
       and_then (merge_children candidates latestChildren) (\<lambda>kept.
       Inr (TxnNode (rebase latest latestNode nodePath d) (Some (take_latest latest nodePath latestChildren kept))))))))"

fun check_revisions :: "stdlib \<Rightarrow> repository \<Rightarrow> (string, path_change) fmap \<Rightarrow> revnum list \<Rightarrow> fs_error + unit" where
  "check_revisions lib repo changes [] = Inr ()"
| "check_revisions lib repo changes (revision # revisions) =
     and_then (RevisionRoot lib repo revision) (\<lambda>root.
     and_then (PathsChanged lib repo root) (\<lambda>upstream.
     case [(l, u). (l, local) \<leftarrow> sorted_entries changes, (u, theirs) \<leftarrow> sorted_entries upstream,
            changesConflict l local u theirs] of
       (l, u) # _ \<Rightarrow> Inl (ConflictAt (conflictPath l u))
     | [] \<Rightarrow> check_revisions lib repo changes revisions))"

definition mergeYoungest :: "stdlib \<Rightarrow> repository \<Rightarrow> revnum \<Rightarrow> transaction \<Rightarrow> fs_error + transaction" where
  "mergeYoungest lib repo youngest tx =
     and_then (check_revisions lib repo (tx_changes tx) [tx_base tx + 1..youngest]) (\<lambda>_.
     and_then (RevisionRoot lib repo youngest) (\<lambda>latest.
     and_then (mergeTxnDirectory lib repo latest ''/'' (tx_root tx)) (\<lambda>root.
     Inr (tx\<lparr>tx_root := root, tx_base := youngest\<rparr>))))"

end
