(* ===== verification/Fsfs_Commit.thy ===== *)
theory Fsfs_Commit
  imports Fsfs_Txn "HOL-Library.Multiset"
begin

text \<open>
  Committing a transaction to a repository with logical addressing (\<^verbatim>\<open>fs/fsfs/commit.go\<close>, the first
  revision of \<^verbatim>\<open>fs/fsfs/create.go\<close>): numbers and identifiers for the dirty nodes, the items of the
  revision file, the merge with later revisions, the locks. The map from nodes to their identifiers
  is an annotation of the tree. The table of locks and the formatted time are parameters; the
  removal of the lock tokens that are used up is left out.
\<close>

section \<open>Identifiers\<close>

definition permanentIDPart :: "string \<Rightarrow> revnum \<Rightarrow> string" where
  "permanentIDPart temporary revision =
     (let counter = TrimPrefix temporary ''_'' in
      (if counter = [] then ''0'' else counter) @ ''-'' @ base36 (nat revision))"

definition permanent_id :: "revnum \<Rightarrow> txn_data \<Rightarrow> int \<Rightarrow> node_id" where
  "permanent_id revision d item =
     \<lparr>id_node = (if tn_new d then permanentIDPart (tn_temporary_id d) revision else id_node (nr_id (tn_base_node d))),
      id_copy = (if IsValid (tn_copyfrom_rev d) then permanentIDPart (tn_temporary_id d) revision
                 else if tn_new d then ''0'' else id_copy (nr_id (tn_base_node d))),
      id_revision = revision, id_item = item\<rparr>"

text \<open>A node with the identifier it gets, if it is dirty, and its children in the order of their names.\<close>

datatype commit_node =
  CommitNode (cn_id: "node_id option") (cn_data: txn_data) (cn_children: "(string \<times> commit_node) list option")

lemma size_list_sort_key [simp]: "size_list f (sort_key k xs) = size_list f xs"
proof -
  have "size_list f ys = sum_mset (image_mset f (mset ys)) + size (mset ys)" for ys
    by (induction ys) simp_all
  then show ?thesis by simp
qed

fun unassigned :: "txn_node \<Rightarrow> commit_node" where
  "unassigned (TxnNode d cs) = CommitNode None d (map_option (map (\<lambda>(name, child). (name, unassigned child))) cs)"

function (sequential) assignNodes :: "revnum \<Rightarrow> bool \<Rightarrow> int \<Rightarrow> txn_node \<Rightarrow> commit_node \<times> int"
  and assign_children :: "revnum \<Rightarrow> int \<Rightarrow> txn_children \<Rightarrow> (string \<times> commit_node) list \<times> int" where
  "assignNodes revision is_root next_item (TxnNode d cs) =
     (if \<not> tn_dirty d \<and> \<not> is_root then (unassigned (TxnNode d cs), next_item)
      else
        let item = (if is_root then 2 else next_item);
            next' = (if is_root then next_item else next_item + 1);
            i = permanent_id revision d item in
        case (if tn_kind d = NodeDir then cs else None) of
          None \<Rightarrow> (CommitNode (Some i) d None, next')
        | Some children \<Rightarrow>
            (case assign_children revision next' (sort_key fst children) of
               (kids, next'') \<Rightarrow> (CommitNode (Some i) d (Some kids), next'')))"
| "assign_children revision next_item [] = ([], next_item)"
| "assign_children revision next_item ((name, child) # children) =
     (case assignNodes revision False next_item child of
        (kid, next') \<Rightarrow>
          (case assign_children revision next' children of (kids, next'') \<Rightarrow> ((name, kid) # kids, next'')))"
  by pat_completeness auto
termination
  by (relation "measure (\<lambda>x. case x of Inl (_, _, _, n) \<Rightarrow> size n | Inr (_, _, cs) \<Rightarrow> size_list (size_prod (\<lambda>_. 0) size) cs)")
    (auto split: if_splits)

section \<open>Items\<close>

record commit_builder =
  b_next :: int
  b_items :: "revision_item list"

definition addRepresentation ::
    "stdlib \<Rightarrow> string \<Rightarrow> revnum \<Rightarrow> bytes \<Rightarrow> nat \<Rightarrow> commit_builder \<Rightarrow> representation \<times> commit_builder" where
  "addRepresentation lib name revision contents kind b =
     (let item = b_next b in
      (\<lparr>rep_revision = revision, rep_item = item, rep_length = int (length contents),
        rep_expanded = int (length contents), rep_md5 = hex_encode (std_md5 lib contents),
        rep_sha1 = hex_encode (std_sha1 lib contents), rep_uniquifier = name @ ''/_'' @ base36 (nat item)\<rparr>,
       b\<lparr>b_next := item + 1,
         b_items := b_items b @ [\<lparr>item_number = item, item_kind = kind, item_bytes = plain_representation contents\<rparr>]\<rparr>))"

definition node_fields ::
    "revnum \<Rightarrow> node_id \<Rightarrow> txn_data \<Rightarrow> representation option \<Rightarrow> representation option \<Rightarrow> (string \<times> string) list" where
  "node_fields revision i d content properties =
     (let base = tn_base_node d; (copyrootRev, copyrootPath) = copyroot_of revision d in
      present_fields
       [(''id'', True, ID_String i),
        (''type'', True, NodeKind_String (tn_kind d)),
        (''pred'', \<not> tn_new d, ID_String (nr_id base)),
        (''count'', True, if tn_new d then ''0'' else itoa (nr_count base + 1)),
        (''text'', content \<noteq> None, formatRepresentation (the content)),
        (''props'', properties \<noteq> None, formatRepresentation (the properties)),
        (''cpath'', True, tn_created_path d),
        (''copyroot'', IsValid copyrootRev \<and> copyrootPath \<noteq> [], itoa copyrootRev @ '' '' @ copyrootPath),
        (''copyfrom'', IsValid (tn_copyfrom_rev d), itoa (tn_copyfrom_rev d) @ '' '' @ tn_copyfrom_path d),
        (''minfo-cnt'', nr_has_mergeinfo_count base, itoa (nr_mergeinfo_count base)),
        (''minfo-here'', nr_mergeinfo_here base, ''true'')])"

definition nodeRecord ::
    "revnum \<Rightarrow> node_id \<Rightarrow> txn_data \<Rightarrow> representation option \<Rightarrow> representation option \<Rightarrow> bytes" where
  "nodeRecord revision i d content properties =
     bytes_of_text (text_of_lines (map field_line (node_fields revision i d content properties) @ [[]]))"

text \<open>The text of a directory: the kind and identifier of every child.\<close>

definition commit_id :: "commit_node \<Rightarrow> node_id" where
  "commit_id c = (case cn_id c of Some i \<Rightarrow> i | None \<Rightarrow> nr_id (tn_base_node (cn_data c)))"

definition directory_values :: "(string \<times> NodeKind \<times> node_id) list \<Rightarrow> props" where
  "directory_values entries =
     fold (\<lambda>(name, kind, i). fmupd name (NodeKind_String kind @ '' '' @ ID_String i)) entries fmempty"

definition child_entries :: "(string \<times> commit_node) list \<Rightarrow> (string \<times> NodeKind \<times> node_id) list" where
  "child_entries kids = map (\<lambda>(name, c). (name, tn_kind (cn_data c), commit_id c)) kids"

definition build_text ::
    "stdlib \<Rightarrow> repository \<Rightarrow> string \<Rightarrow> revnum \<Rightarrow> txn_data \<Rightarrow> (string \<times> NodeKind \<times> node_id) list \<Rightarrow> commit_builder \<Rightarrow>
       fs_error + representation option \<times> commit_builder" where
  "build_text lib repo name revision d entries b =
     (if tn_kind d = NodeDir then
        and_then (write_hash (directory_values entries)) (\<lambda>directory.
        case addRepresentation lib name revision directory 2 b of (r, b') \<Rightarrow> Inr (Some r, b'))
      else if tn_text_modified d \<or> tn_new d then
        and_then (loadContent lib repo d) (\<lambda>contents.
        case addRepresentation lib name revision contents 1 b of (r, b') \<Rightarrow> Inr (Some r, b'))
      else Inr (nr_text (tn_base_node d), b))"

definition build_properties ::
    "stdlib \<Rightarrow> repository \<Rightarrow> string \<Rightarrow> revnum \<Rightarrow> txn_data \<Rightarrow> commit_builder \<Rightarrow> fs_error + representation option \<times> commit_builder" where
  "build_properties lib repo name revision d b =
     (if tn_props_modified d \<or> tn_new d then
        and_then (loadProperties lib repo d) (\<lambda>values.
        if values = fmempty then Inr (None, b)
        else
          and_then (write_hash values) (\<lambda>data.
          case addRepresentation lib name revision data (if tn_kind d = NodeDir then 4 else 3) b of
            (r, b') \<Rightarrow> Inr (Some r, b')))
      else Inr (nr_properties (tn_base_node d), b))"

function (sequential) buildNode ::
    "stdlib \<Rightarrow> repository \<Rightarrow> string \<Rightarrow> revnum \<Rightarrow> commit_node \<Rightarrow> commit_builder \<Rightarrow> fs_error + commit_builder"
  and build_children ::
    "stdlib \<Rightarrow> repository \<Rightarrow> string \<Rightarrow> revnum \<Rightarrow> (string \<times> commit_node) list \<Rightarrow> commit_builder \<Rightarrow> fs_error + commit_builder" where
  "buildNode lib repo name revision (CommitNode None d cs) b = Inr b"
| "buildNode lib repo name revision (CommitNode (Some i) d cs) b =
     and_then
       (if tn_kind d \<noteq> NodeDir then Inr ([], b)
        else case cs of
            Some kids \<Rightarrow> and_then (build_children lib repo name revision kids b) (\<lambda>b'. Inr (child_entries kids, b'))
          | None \<Rightarrow> and_then (loadChildren lib repo (TxnNode d None)) (\<lambda>loaded.
              Inr (child_entries (map (\<lambda>(name, child). (name, unassigned child)) loaded), b))) (\<lambda>(entries, b1).
     and_then (build_text lib repo name revision d entries b1) (\<lambda>(content, b2).
     and_then (build_properties lib repo name revision d b2) (\<lambda>(properties, b3).
     Inr (b3\<lparr>b_items := b_items b3 @
            [\<lparr>item_number = id_item i, item_kind = 5, item_bytes = nodeRecord revision i d content properties\<rparr>]\<rparr>))))"
| "build_children lib repo name revision [] b = Inr b"
| "build_children lib repo name revision ((child_name, child) # children) b =
     and_then (if tn_dirty (cn_data child) then buildNode lib repo name revision child b else Inr b) (\<lambda>b'.
     build_children lib repo name revision children b')"
  by pat_completeness auto
termination
  by (relation "measure (\<lambda>x. case x of Inl (_, _, _, _, c, _) \<Rightarrow> size c
        | Inr (_, _, _, _, kids, _) \<Rightarrow> size_list (size_prod (\<lambda>_. 0) size) kids)")
    simp_all

section \<open>Changed paths\<close>

text \<open>The identifier under a path of the tree, if there is a node.\<close>

fun commit_id_below :: "stdlib \<Rightarrow> repository \<Rightarrow> string list \<Rightarrow> commit_node \<Rightarrow> node_id option" where
  "commit_id_below lib repo [] c = Some (commit_id c)"
| "commit_id_below lib repo (name # names) c =
     (if tn_kind (cn_data c) \<noteq> NodeDir then None
      else case cn_children c of
          Some kids \<Rightarrow> (case map_of kids name of None \<Rightarrow> None | Some kid \<Rightarrow> commit_id_below lib repo names kid)
        | None \<Rightarrow>
            (case txn_lookup lib repo (name # names) (TxnNode (cn_data c) None) of
               Inr (Some n) \<Rightarrow> Some (nr_id (tn_base_node (data_of_node n)))
             | _ \<Rightarrow> None))"

definition change_id :: "stdlib \<Rightarrow> repository \<Rightarrow> commit_node \<Rightarrow> string \<Rightarrow> node_id" where
  "change_id lib repo tree nodePath =
     (case cleanPath nodePath of
        Inl e \<Rightarrow> \<lparr>id_node = ''0'', id_copy = ''0'', id_revision = 0, id_item = 2\<rparr>
      | Inr cleaned \<Rightarrow>
          (case commit_id_below lib repo (path_names cleaned) tree of
             None \<Rightarrow> \<lparr>id_node = ''0'', id_copy = ''0'', id_revision = 0, id_item = 2\<rparr>
           | Some i \<Rightarrow> i))"

definition buildChanges :: "stdlib \<Rightarrow> repository \<Rightarrow> commit_node \<Rightarrow> (string, path_change) fmap \<Rightarrow> bytes" where
  "buildChanges lib repo tree changes =
     bytes_of_text (text_of_lines
       (concat (map (\<lambda>(nodePath, change). change_lines (ID_String (change_id lib repo tree nodePath)) change) (sorted_entries changes)) @ [[]]))"

section \<open>Committing\<close>

text \<open>The bytes of the revision file that a transaction becomes.\<close>

definition build_items ::
    "stdlib \<Rightarrow> repository \<Rightarrow> string \<Rightarrow> revnum \<Rightarrow> (string, path_change) fmap \<Rightarrow> txn_node \<Rightarrow> fs_error + revision_item list" where
  "build_items lib repo name revision changes root =
     (case assignNodes revision True 3 root of
        (tree, next_item) \<Rightarrow>
          and_then (buildNode lib repo name revision tree \<lparr>b_next = next_item, b_items = []\<rparr>) (\<lambda>b.
          Inr (b_items b @ [\<lparr>item_number = 1, item_kind = 6, item_bytes = buildChanges lib repo tree changes\<rparr>])))"

definition lock_violation :: "(string \<Rightarrow> string option) \<Rightarrow> (string, string) fmap \<Rightarrow> string \<Rightarrow> bool" where
  "lock_violation locks tokens nodePath =
     (case locks nodePath of None \<Rightarrow> False | Some token \<Rightarrow> (case fmlookup tokens nodePath of None \<Rightarrow> [] | Some t \<Rightarrow> t) \<noteq> token)"

definition Commit ::
    "stdlib \<Rightarrow> string \<Rightarrow> (string \<Rightarrow> string option) \<Rightarrow> (string, string) fmap \<Rightarrow> repository \<Rightarrow> transaction \<Rightarrow>
       fs_error + revnum \<times> repository" where
  "Commit lib date locks tokens repo tx =
     (let youngest = repo_youngest repo in
      and_then (if youngest \<noteq> tx_base tx then mergeYoungest lib repo youngest tx else Inr tx) (\<lambda>merged.
      case filter (lock_violation locks tokens) (map fst (sorted_entries (tx_changes merged))) of
        nodePath # _ \<Rightarrow> Inl (BadLockToken nodePath)
      | [] \<Rightarrow>
          let revision = youngest + 1 in
          and_then (build_items lib repo (tx_name merged) revision (tx_changes merged) (tx_root merged)) (\<lambda>items.
          and_then (logicalRevision (std_md5 lib) revision items) (\<lambda>contents.
          and_then (Properties merged) (\<lambda>values.
          and_then (write_hash (fmupd ''svn:date'' date values)) (\<lambda>revprops.
          Inr (revision, repo\<lparr>repo_youngest := revision, repo_files := fmupd revision contents (repo_files repo),
                 repo_revprops := fmupd revision revprops (repo_revprops repo)\<rparr>)))))))"

text \<open>A repository that has just been created.\<close>

definition initialRevision :: "stdlib \<Rightarrow> fs_error + bytes" where
  "initialRevision lib =
     (let contents = bytes_of_text (''END'' @ [CHR 0x0A]);
          r = \<lparr>rep_revision = 0, rep_item = 3, rep_length = int (length contents), rep_expanded = int (length contents),
               rep_md5 = hex_encode (std_md5 lib contents), rep_sha1 = [], rep_uniquifier = []\<rparr>;
          record = text_of_lines [''id: 0.0.r0/2'', ''type: dir'', ''count: 0'', ''text: '' @ formatRepresentation r, ''cpath: /'', []] in
      logicalRevision (std_md5 lib) 0
        [\<lparr>item_number = 3, item_kind = 2, item_bytes = plain_representation contents\<rparr>,
         \<lparr>item_number = 2, item_kind = 5, item_bytes = bytes_of_text record\<rparr>,
         \<lparr>item_number = 1, item_kind = 6, item_bytes = [0x0A]\<rparr>])"

definition create_repository :: "stdlib \<Rightarrow> string \<Rightarrow> fs_error + repository" where
  "create_repository lib date =
     and_then (initialRevision lib) (\<lambda>contents.
     and_then (write_hash (fmupd ''svn:date'' date fmempty)) (\<lambda>revprops.
     Inr \<lparr>repo_youngest = 0, repo_files = fmupd 0 contents fmempty, repo_revprops = fmupd 0 revprops fmempty,
          repo_sequence = 0\<rparr>))"

end
