(* ===== verification/Fsfs_Record.thy ===== *)
theory Fsfs_Record
  imports Fsfs_Commit
begin

text \<open>
  Reading what a commit has written: in a repository whose revision file holds given items
  (\<open>stores\<close>), a representation item reads as its contents (\<open>writeRepresentation_stored\<close>), a record
  item is found under its number (\<open>recordData_stored\<close>), and the record that \<open>nodeRecord\<close> writes
  parses to the node revision it stands for (\<open>parse_record\<close>). Whatever the parser accepts is well
  typed (\<open>parseNodeRevision_ok\<close>).
\<close>

section \<open>Items are found in a stored revision\<close>

text \<open>A repository in which a revision file holds the given items.\<close>

definition stores :: "stdlib \<Rightarrow> repository \<Rightarrow> revnum \<Rightarrow> revision_item list \<Rightarrow> bool" where
  "stores lib repo revision items \<longleftrightarrow>
     (\<exists>f rest. openRevision lib repo revision = Inr f \<and> rf_contents f = data_of items @ rest \<and>
        rf_data_end f = int (length (data_of items)) \<and> length (data_of items) < 2 ^ 40 \<and>
        (\<forall>a i b. items = a @ i # b \<longrightarrow> itemOffset f revision (item_number i) = Inr (int (length (data_of a)))) \<and>
        (\<forall>i\<in>set items. itemData f revision (item_number i) = Inr (item_bytes i)))"

lemma item_stored:
  assumes "stores lib repo revision items" "i \<in> set items"
  obtains f before after where "openRevision lib repo revision = Inr f"
    "itemOffset f revision (item_number i) = Inr (int (length before))"
    "rf_contents f = before @ item_bytes i @ after" "length before + length (item_bytes i) \<le> length (data_of items)"
    "rf_data_end f = int (length (data_of items))" "length (data_of items) < 2 ^ 40" "length (data_of items) \<le> length (rf_contents f)"
proof -
  obtain f rest where f: "openRevision lib repo revision = Inr f" "rf_contents f = data_of items @ rest"
    "rf_data_end f = int (length (data_of items))" "length (data_of items) < 2 ^ 40"
    "\<forall>a i b. items = a @ i # b \<longrightarrow> itemOffset f revision (item_number i) = Inr (int (length (data_of a)))"
    using assms(1) by (auto simp: stores_def)
  obtain a b where ab: "items = a @ i # b" using split_list [OF assms(2)] by blast
  show thesis
    by (rule that [of f "data_of a" "data_of b @ rest"]) (use f ab in simp_all)
qed

lemma plain_header: "bytes_of_text (''PLAIN'' @ [CHR 0x0A]) = [0x50, 0x4C, 0x41, 0x49, 0x4E, 0x0A]"
  "bytes_of_text (''ENDREP'' @ [CHR 0x0A]) = [0x45, 0x4E, 0x44, 0x52, 0x45, 0x50, 0x0A]"
  "text_of_bytes [0x50, 0x4C, 0x41, 0x49, 0x4E] = ''PLAIN''"
  using text_of_bytes_of_text [of "''PLAIN''"] by (simp_all add: bytes_of_text_def)

lemma plain_PLAIN: "Fields ''PLAIN'' = [''PLAIN'']"
  by (rule Fields_word) (code_simp, simp)

lemma parse_plain_header: "parseRepresentationHeader (text_of_bytes [0x50, 0x4C, 0x41, 0x49, 0x4E]) = Inr (True, None)"
  unfolding plain_header(3) by (simp add: parseRepresentationHeader_def plain_PLAIN)

lemma writeRepresentation_stored:
  assumes "stores lib repo revision items"
    "\<lparr>item_number = rep_item r, item_kind = kind, item_bytes = plain_representation contents\<rparr> \<in> set items"
    "rep_revision r = revision" "rep_length r = int (length contents)" "rep_expanded r = int (length contents)"
    "check_digest (std_md5 lib) (rep_md5 r) contents" "check_digest (std_sha1 lib) (rep_sha1 r) contents"
  shows "writeRepresentation lib repo (Some r) = Inr contents"
proof -
  obtain f before after where f: "openRevision lib repo revision = Inr f"
    "itemOffset f revision (rep_item r) = Inr (int (length before))"
    "rf_contents f = before @ plain_representation contents @ after"
    by (rule item_stored [OF assms(1,2)]) (simp only: revision_item.simps)
  define tail where "tail = bytes_of_text (''ENDREP'' @ [CHR 0x0A]) @ after"
  have buffered: "drop (length before) (rf_contents f) = [0x50, 0x4C, 0x41, 0x49, 0x4E] @ 0x0A # contents @ tail"
    by (simp add: f(3) plain_representation_def plain_header tail_def)
  have size: "length (rf_contents f) = length before + 6 + length contents + length tail"
    by (simp add: f(3) plain_representation_def plain_header tail_def)
  have line: "takeWhile (\<lambda>b. b \<noteq> 0x0A) ([0x50, 0x4C, 0x41, 0x49, 0x4E] @ 0x0A # contents @ tail) = [0x50, 0x4C, 0x41, 0x49, 0x4E :: byte]"
    by simp
  have "readRepresentation lib repo r = Inr \<lparr>rh_plain = True, rh_base = None, rh_payload = contents, rh_after = tail\<rparr>"
    unfolding readRepresentation_def assms(3) f(1,2) and_then_simps Let_def nat_int buffered line
    using assms(4) size by (simp add: parse_plain_header nat_add_distrib del: text_of_bytes_simps)
  moreover have "take 7 tail = bytes_of_text (''ENDREP'' @ [CHR 0x0A])" by (simp add: tail_def plain_header)
  moreover have "write_representation (Suc 1024) lib repo (Some r) = writeRepresentation lib repo (Some r)"
    by (simp add: writeRepresentation_def)
  ultimately show ?thesis using assms(5-7) by (simp del: write_representation.simps add: write_representation.simps(3) [of 1024, simplified])
qed

section \<open>Records are found in a stored revision\<close>

lemma record_end_skip: "0x0A \<notin> set l \<Longrightarrow> record_end (l @ s) = map_option ((+) (length l)) (record_end s)"
proof (induction l)
  case Nil
  show ?case by (cases "record_end s") simp_all
next
  case (Cons a l)
  then have IH: "record_end (l @ s) = map_option ((+) (length l)) (record_end s)" and a: "a \<noteq> 0x0A" by auto
  have "record_end (a # l @ s) = map_option Suc (record_end (l @ s))"
    using a by (cases "l @ s") simp_all
  then show ?case by (simp add: IH option.map_comp comp_def)
qed

lemma newline_byte: "(of_nat (of_char c) :: byte) = 0x0A \<longleftrightarrow> c = CHR 0x0A"
proof
  assume "(of_nat (of_char c) :: byte) = 0x0A"
  then have "unat (of_nat (of_char c) :: byte) = unat (0x0A :: byte)" by simp
  then have "of_char c = (of_char (CHR 0x0A) :: nat)" by simp
  then show "c = CHR 0x0A" by (simp only: of_char_eq_iff)
qed simp

lemma newline_in_bytes: "0x0A \<in> set (bytes_of_text s) \<longleftrightarrow> CHR 0x0A \<in> set s"
  by (auto simp: bytes_of_text_def image_iff newline_byte)

lemma bytes_of_text_append: "bytes_of_text (a @ b) = bytes_of_text a @ bytes_of_text b"
  by (simp add: bytes_of_text_def)

lemma bytes_of_text_length [simp]: "length (bytes_of_text s) = length s"
  by (simp add: bytes_of_text_def)

definition full_line :: "string \<Rightarrow> bool" where
  "full_line line \<longleftrightarrow> line_ok line \<and> line \<noteq> []"

lemma record_end_lines:
  "lines \<noteq> [] \<Longrightarrow> list_all full_line lines \<Longrightarrow>
     record_end (bytes_of_text (text_of_lines (lines @ [[]])) @ tail) = Some (length (text_of_lines lines) - 1)"
proof (induction lines)
  case (Cons line lines)
  have nl: "0x0A \<notin> set (bytes_of_text line)" using Cons.prems by (simp add: full_line_def line_ok_def newline_in_bytes)
  show ?case
  proof (cases lines)
    case Nil
    then show ?thesis using nl by (simp add: bytes_of_text_append record_end_skip)
  next
    case (Cons line' lines')
    then obtain c s where c: "line' = c # s" "c \<noteq> CHR 0x0A"
      using Cons.prems by (cases line') (auto simp: full_line_def line_ok_def)
    have IH: "record_end (bytes_of_text (text_of_lines (lines @ [[]])) @ tail) = Some (length (text_of_lines lines) - 1)"
      using Cons.IH Cons.prems Cons by simp
    have "record_end (0x0A # bytes_of_text (text_of_lines (lines @ [[]])) @ tail) =
        map_option Suc (record_end (bytes_of_text (text_of_lines (lines @ [[]])) @ tail))"
      using c by (simp add: Cons newline_byte)
    then have "record_end (0x0A # bytes_of_text (text_of_lines (lines @ [[]])) @ tail) = Some (length (text_of_lines lines))"
      unfolding IH by (simp add: Cons)
    then show ?thesis using nl by (simp add: bytes_of_text_append record_end_skip)
  qed
qed simp

lemma text_of_lines_full: "lines \<noteq> [] \<Longrightarrow> list_all full_line lines \<Longrightarrow> 2 \<le> length (text_of_lines lines)"
  by (cases lines; cases "hd lines") (auto simp: full_line_def)

lemma recordData_stored:
  assumes "stores lib repo revision items"
    "\<lparr>item_number = number, item_kind = kind, item_bytes = bytes_of_text (text_of_lines (lines @ [[]]))\<rparr> \<in> set items"
    "lines \<noteq> []" "list_all full_line lines" "length (text_of_lines lines) < 16 * 1024 * 1024"
  obtains f offset where "openRevision lib repo revision = Inr f" "itemOffset f revision number = Inr offset"
    "0 \<le> offset" "offset < int (length (rf_contents f))"
    "recordData f offset = Inr (bytes_of_text (text_of_lines (lines @ [[]])))"
proof -
  let ?text = "bytes_of_text (text_of_lines (lines @ [[]]))"
  obtain f before after where f: "openRevision lib repo revision = Inr f"
    "itemOffset f revision number = Inr (int (length before))"
    "rf_contents f = before @ ?text @ after" "length before + length ?text \<le> length (data_of items)"
    "rf_data_end f = int (length (data_of items))" "length (data_of items) < 2 ^ 40" "length (data_of items) \<le> length (rf_contents f)"
    by (rule item_stored [OF assms(1,2)]) (simp only: revision_item.simps)
  have two: "2 \<le> length (text_of_lines lines)" by (rule text_of_lines_full [OF assms(3,4)])
  have len: "length ?text = length (text_of_lines lines) + 1" by simp
  define stop where "stop = min (int (length (data_of items))) (int (length before) + 16 * 1024 * 1024)"
  have stop: "stop \<noteq> 0" "int (length before) + int (length ?text) \<le> stop" "stop \<le> int (length (rf_contents f))" "stop < 2 ^ 41"
    using f(4,6,7) len two assms(5) by (simp_all add: stop_def)
  have r: "readRange f (int (length before)) stop = Inr (read_at (rf_contents f) (int (length before)) (stop - int (length before)))"
    using stop by (simp add: readRange_def)
  obtain tail where tail: "read_at (rf_contents f) (int (length before)) (stop - int (length before)) = ?text @ tail"
  proof -
    define n where "n = nat (stop - int (length before))"
    have "read_at (rf_contents f) (int (length before)) (stop - int (length before)) = take n (?text @ after)"
      by (simp only: read_at_def f(3) nat_int n_def) simp
    moreover have "length ?text \<le> n" using stop(2) unfolding n_def by linarith
    ultimately show thesis by (intro that [of "take (n - length ?text) after"]) (simp only: take_append take_all)
  qed
  obtain m where m: "length (text_of_lines lines) = Suc (Suc m)" using two by (metis add_2_eq_Suc le_iff_add)
  have "recordData f (int (length before)) = Inr ?text"
    using record_end_lines [OF assms(3,4), of tail] two stop(1)
    unfolding recordData_def f(5) Let_def stop_def [symmetric] by (simp add: r tail m)
  then show thesis
    using f two by (intro that [of f "int (length before)"]) simp_all
qed

section \<open>Records are parsed back\<close>

definition text_ok :: "string \<Rightarrow> bool" where
  "text_ok s \<longleftrightarrow> CHR 0x0A \<notin> set s \<and> CHR 0x0D \<notin> set s \<and> length s \<le> 65536"

definition value_ok :: "string \<Rightarrow> bool" where
  "value_ok v \<longleftrightarrow> CHR 0x0A \<notin> set v \<and> CHR 0x0D \<notin> set v \<and> length v \<le> 4 * 65536"

lemma present_fields_simps [simp]: "present_fields [] = []"
  "present_fields ((name, present, v) # table) = (if present then (name, v) # present_fields table else present_fields table)"
  by (simp_all add: present_fields_def)

lemma present_fields_names: "set (map fst (present_fields table)) \<subseteq> set (map fst table)"
proof (induction table)
  case (Cons row table)
  obtain n p v where "row = (n, p, v)" by (cases row)
  with Cons show ?case by (cases p) (simp_all, blast+)
qed simp

lemma present_fields_distinct: "distinct (map fst table) \<Longrightarrow> distinct (map fst (present_fields table))"
proof (induction table)
  case (Cons row table)
  then show ?case using present_fields_names [of table] by (cases row) auto
qed simp

lemma present_fields_lookup:
  "distinct (map fst table) \<Longrightarrow> map_of (present_fields table) name =
     (case map_of table name of None \<Rightarrow> None | Some (present, v) \<Rightarrow> if present then Some v else None)"
proof (induction table)
  case (Cons row table)
  obtain n p v where row: "row = (n, p, v)" by (cases row)
  then have "n \<notin> set (map fst (present_fields table))" using Cons.prems present_fields_names [of table] by auto
  then have "map_of (present_fields table) n = None" by (simp add: map_of_eq_None_iff)
  with Cons row show ?case by auto
qed simp

lemma plain_text: "plain s \<Longrightarrow> CHR 0x0A \<notin> set s \<and> CHR 0x0D \<notin> set s"
proof -
  have "starts_space (CHR 0x0A)" "starts_space (CHR 0x0D)" by code_simp+
  then show "plain s \<Longrightarrow> ?thesis" by (auto simp: plain_def list_all_iff)
qed

lemma hex_decode_length: "hex_decode s = Some b \<Longrightarrow> length s = 2 * length b"
  by (induction s arbitrary: b rule: hex_decode.induct) (auto split: option.splits)

lemma validHexDigest_length: "validHexDigest s n \<Longrightarrow> length s = 2 * n"
  by (auto simp: validHexDigest_def hex_decode_length split: option.splits)

lemma itoa_length: "nonneg64 n \<Longrightarrow> length (utoa (nat n)) \<le> 19"
  using utoa_length [of "nat n" 19] by (simp add: nonneg64_def nat_less_iff)

lemma itoa_text [simp]: "CHR 0x0A \<notin> set (utoa m)" "CHR 0x0D \<notin> set (utoa m)"
  by (simp_all add: utoa_no is_digit_def)

lemma base36_digits: "set (base36 n) \<subseteq> set ''0123456789abcdefghijklmnopqrstuvwxyz''"
proof (induction n rule: base36.induct)
  case (1 n)
  define ds where "ds = ''0123456789abcdefghijklmnopqrstuvwxyz''"
  have "length ds = 36" by (simp add: ds_def)
  then have d: "ds ! k \<in> set ds" if "k < 36" for k using that by simp
  show ?case
  proof (cases "n < 36")
    case True
    then have "base36 n = [ds ! n]" unfolding ds_def by (subst base36.simps) (simp only: if_True)
    then show ?thesis using d [OF True] by (simp only: ds_def [symmetric] list.set insert_subset empty_subsetI simp_thms)
  next
    case False
    then have "base36 n = base36 (n div 36) @ [ds ! (n mod 36)]" unfolding ds_def by (subst base36.simps) (simp only: if_False)
    then show ?thesis using d [of "n mod 36"] "1.IH" [OF False] by (simp only: ds_def [symmetric] set_append list.set) simp
  qed
qed

lemma base36_length: "n < 36 ^ k \<Longrightarrow> 0 < k \<Longrightarrow> length (base36 n) \<le> k"
proof (induction n arbitrary: k rule: base36.induct)
  case (1 n)
  show ?case
  proof (cases "n < 36")
    case True
    then show ?thesis using "1.prems"(2) by (subst base36.simps) simp
  next
    case False
    then have "k \<noteq> 1" using "1.prems"(1) by auto
    then obtain j where j: "k = Suc j" "0 < j" using "1.prems"(2) by (cases k) auto
    have "n div 36 < 36 ^ j" using "1.prems"(1) j by (simp add: less_mult_imp_div_less mult.commute)
    from "1.IH" [OF False this j(2)] show ?thesis using False j by (subst base36.simps) simp
  qed
qed

lemma base36_plain: "plain (base36 n)"
proof -
  have "\<forall>c\<in>set ''0123456789abcdefghijklmnopqrstuvwxyz''. \<not> starts_space c" by code_simp
  then show ?thesis using base36_digits [of n] by (auto simp: plain_def list_all_iff)
qed

lemma base36_text [simp]: "CHR 0x0A \<notin> set (base36 n)" "CHR 0x0D \<notin> set (base36 n)" "CHR ''.'' \<notin> set (base36 n)"
  using base36_digits [of n] by auto

lemma base36_short: "n < 2 ^ 63 \<Longrightarrow> length (base36 n) \<le> 13"
  by (rule base36_length) simp_all

definition id_text_ok :: "node_id \<Rightarrow> bool" where
  "id_text_ok i \<longleftrightarrow> id_ok i \<and> text_ok (id_node i) \<and> text_ok (id_copy i)"

definition rep_text_ok :: "representation \<Rightarrow> bool" where
  "rep_text_ok r \<longleftrightarrow> rep_ok r \<and> length (rep_uniquifier r) \<le> 65536"

lemma value_ok_id: "id_text_ok i \<Longrightarrow> value_ok (ID_String i) \<and> ID_String i \<noteq> []"
  using itoa_length [of "id_revision i"] itoa_length [of "id_item i"]
  by (auto simp: id_text_ok_def id_ok_def value_ok_def text_ok_def ID_String_def)

lemma value_ok_representation: "rep_text_ok r \<Longrightarrow> value_ok (formatRepresentation r) \<and> formatRepresentation r \<noteq> []"
proof -
  assume "rep_text_ok r"
  then have ok: "rep_ok r" "length (rep_uniquifier r) \<le> 65536" by (simp_all add: rep_text_ok_def)
  note r = ok(1) [unfolded rep_ok_def]
  have "plain (rep_md5 r)" "plain (rep_sha1 r)" using r validHexDigest_plain(1) by auto
  then have nl: "CHR 0x0A \<notin> set (rep_md5 r) \<and> CHR 0x0D \<notin> set (rep_md5 r)" "CHR 0x0A \<notin> set (rep_sha1 r) \<and> CHR 0x0D \<notin> set (rep_sha1 r)"
    "CHR 0x0A \<notin> set (rep_uniquifier r) \<and> CHR 0x0D \<notin> set (rep_uniquifier r)"
    using r plain_text by blast+
  have "length (rep_md5 r) \<le> 40" "length (rep_sha1 r) \<le> 40" using r validHexDigest_length by fastforce+
  moreover have "length (utoa (nat (rep_revision r))) \<le> 19" "length (utoa (nat (rep_item r))) \<le> 19"
    "length (utoa (nat (rep_length r))) \<le> 19" "length (utoa (nat (rep_expanded r))) \<le> 19"
    using r itoa_length by blast+
  ultimately have "length (formatRepresentation r) \<le> 4 * 65536"
    using ok(2) r by (simp add: formatRepresentation_def Let_def)
  then show ?thesis using nl r by (simp add: value_ok_def formatRepresentation_def Let_def)
qed

text \<open>What a record must satisfy to be read back: its paths, identifiers and representations are printable and short.\<close>

definition path_ok :: "string \<Rightarrow> bool" where
  "path_ok p \<longleftrightarrow> canonicalAbsolutePath p \<and> text_ok p"

definition record_ok :: "revnum \<Rightarrow> txn_data \<Rightarrow> bool" where
  "record_ok revision d \<longleftrightarrow>
     (tn_kind d = NodeFile \<or> tn_kind d = NodeDir) \<and> path_ok (tn_created_path d) \<and>
     (\<not> tn_new d \<longrightarrow> id_text_ok (nr_id (tn_base_node d)) \<and> nonneg64 (nr_count (tn_base_node d) + 1)) \<and>
     (IsValid (fst (copyroot_of revision d)) \<and> snd (copyroot_of revision d) \<noteq> [] \<longrightarrow>
        nonneg64 (fst (copyroot_of revision d)) \<and> path_ok (snd (copyroot_of revision d))) \<and>
     (IsValid (tn_copyfrom_rev d) \<longrightarrow> nonneg64 (tn_copyfrom_rev d) \<and> path_ok (tn_copyfrom_path d)) \<and>
     (nr_has_mergeinfo_count (tn_base_node d) \<longrightarrow> nonneg64 (nr_mergeinfo_count (tn_base_node d)))"

text \<open>The node revision that is read back.\<close>

definition committed_revision ::
    "revnum \<Rightarrow> node_id \<Rightarrow> txn_data \<Rightarrow> representation option \<Rightarrow> representation option \<Rightarrow> node_revision" where
  "committed_revision revision i d content properties =
     (let base = tn_base_node d; (copyrootRev, copyrootPath) = copyroot_of revision d;
          rooted = (IsValid copyrootRev \<and> copyrootPath \<noteq> []) in
      \<lparr>nr_id = i, nr_kind = tn_kind d, nr_predecessor = (if tn_new d then None else Some (nr_id base)),
       nr_count = (if tn_new d then 0 else nr_count base + 1), nr_text = content, nr_properties = properties,
       nr_created_path = tn_created_path d,
       nr_copyroot_path = (if rooted then copyrootPath else []),
       nr_copyroot_rev = (if rooted then copyrootRev else InvalidRevnum),
       nr_copyfrom_path = (if IsValid (tn_copyfrom_rev d) then tn_copyfrom_path d else []),
       nr_copyfrom_rev = (if IsValid (tn_copyfrom_rev d) then tn_copyfrom_rev d else InvalidRevnum),
       nr_mergeinfo_count = (if nr_has_mergeinfo_count base then nr_mergeinfo_count base else 0),
       nr_mergeinfo_here = nr_mergeinfo_here base, nr_has_mergeinfo_count = nr_has_mergeinfo_count base\<rparr>)"

definition field_table ::
    "revnum \<Rightarrow> node_id \<Rightarrow> txn_data \<Rightarrow> representation option \<Rightarrow> representation option \<Rightarrow> (string \<times> bool \<times> string) list" where
  "field_table revision i d content properties =
     (let base = tn_base_node d; (copyrootRev, copyrootPath) = copyroot_of revision d in
       [(''id'', True, ID_String i),
        (''type'', True, NodeKind_String (tn_kind d)),
        (''pred'', \<not> tn_new d, ID_String (nr_id base)),
        (''count'', True, if tn_new d then ''0'' else itoa (nr_count base + 1)),
        (''text'', content \<noteq> None, formatRepresentation (the content)),
        (''props'', properties \<noteq> None, formatRepresentation (the properties)),
        (''cpath'', True, tn_created_path d),
        (''copyroot'', IsValid copyrootRev \<and> copyrootPath \<noteq> [], itoa copyrootRev @ '' '' @ copyrootPath),
        (''copyfrom'', IsValid (tn_copyfrom_rev d), itoa (tn_copyfrom_rev d) @ '' '' @ tn_copyfrom_path d),
        (''minfo-cnt'', nr_has_mergeinfo_count base, itoa (nr_mergeinfo_count base)),
        (''minfo-here'', nr_mergeinfo_here base, ''true'')])"

lemma node_fields_table: "node_fields revision i d content properties = present_fields (field_table revision i d content properties)"
  by (simp add: node_fields_def field_table_def Let_def split_beta)

lemma field_table_names: "map fst (field_table revision i d content properties) =
    [''id'', ''type'', ''pred'', ''count'', ''text'', ''props'', ''cpath'', ''copyroot'', ''copyfrom'', ''minfo-cnt'', ''minfo-here'']"
  by (simp add: field_table_def Let_def split_beta)

lemma field_table_distinct: "distinct (map fst (field_table revision i d content properties))"
  unfolding field_table_names by code_simp

lemma value_ok_append: "CHR 0x0A \<notin> set (a @ b) \<and> CHR 0x0D \<notin> set (a @ b) \<longleftrightarrow>
    (CHR 0x0A \<notin> set a \<and> CHR 0x0D \<notin> set a) \<and> (CHR 0x0A \<notin> set b \<and> CHR 0x0D \<notin> set b)"
  by auto

lemma value_ok_number: "nonneg64 n \<Longrightarrow> value_ok (itoa n)"
  using itoa_length [of n] by (simp add: value_ok_def)

lemma value_ok_revision_path: "nonneg64 n \<Longrightarrow> text_ok p \<Longrightarrow> value_ok (itoa n @ '' '' @ p)"
  using itoa_length [of n] by (simp add: value_ok_def text_ok_def)

lemma value_ok_words: "value_ok ''0''" "value_ok ''true''" "value_ok ''file''" "value_ok ''dir''"
  by (simp_all add: value_ok_def)

lemma present_fields_member: "(name, v) \<in> set (present_fields table) \<Longrightarrow> (name, True, v) \<in> set table"
  by (auto simp: present_fields_def)

lemma row_name: "(name, present, v) \<in> set table \<Longrightarrow> name \<in> set (map fst table)"
  by force

lemma list_all_row: "list_all P table \<Longrightarrow> row \<in> set table \<Longrightarrow> P row"
  by (simp add: list_all_iff)

text \<open>Eleven rows, with their names as variables: names are never compared.\<close>

lemma eleven_rows:
  assumes "p1 \<Longrightarrow> P v1" "p2 \<Longrightarrow> P v2" "p3 \<Longrightarrow> P v3" "p4 \<Longrightarrow> P v4" "p5 \<Longrightarrow> P v5" "p6 \<Longrightarrow> P v6" "p7 \<Longrightarrow> P v7"
    "p8 \<Longrightarrow> P v8" "p9 \<Longrightarrow> P v9" "p10 \<Longrightarrow> P v10" "p11 \<Longrightarrow> P v11"
  shows "list_all (\<lambda>row. fst (snd row) \<longrightarrow> P (snd (snd row)))
    [(n1, p1, v1), (n2, p2, v2), (n3, p3, v3), (n4, p4, v4), (n5, p5, v5), (n6, p6, v6), (n7, p7, v7), (n8, p8, v8),
     (n9, p9, v9), (n10, p10, v10), (n11, p11, v11)]"
  using assms by simp

lemma field_table_values:
  assumes "record_ok revision d" "id_text_ok i" "\<forall>r. content = Some r \<longrightarrow> rep_text_ok r" "\<forall>r. properties = Some r \<longrightarrow> rep_text_ok r"
  shows "list_all (\<lambda>row. fst (snd row) \<longrightarrow> value_ok (snd (snd row))) (field_table revision i d content properties)"
proof -
  note d = assms(1) [unfolded record_ok_def]
  have kind: "value_ok (NodeKind_String (tn_kind d))" using d by (auto simp: value_ok_words)
  have pred: "\<not> tn_new d \<Longrightarrow> value_ok (ID_String (nr_id (tn_base_node d)))" using d value_ok_id by blast
  have count: "value_ok (if tn_new d then ''0'' else itoa (nr_count (tn_base_node d) + 1))"
    using d value_ok_words(1) value_ok_number by (cases "tn_new d") (simp_all only: if_True if_False simp_thms)
  have reps: "content \<noteq> None \<Longrightarrow> value_ok (formatRepresentation (the content))"
    "properties \<noteq> None \<Longrightarrow> value_ok (formatRepresentation (the properties))"
    using assms(3,4) value_ok_representation by auto
  have path: "value_ok (tn_created_path d)" using d by (simp add: path_ok_def text_ok_def value_ok_def)
  have roots: "IsValid (fst (copyroot_of revision d)) \<and> snd (copyroot_of revision d) \<noteq> [] \<Longrightarrow>
      value_ok (itoa (fst (copyroot_of revision d)) @ '' '' @ snd (copyroot_of revision d))"
    "IsValid (tn_copyfrom_rev d) \<Longrightarrow> value_ok (itoa (tn_copyfrom_rev d) @ '' '' @ tn_copyfrom_path d)"
    using d value_ok_revision_path unfolding path_ok_def by blast+
  have info: "nr_has_mergeinfo_count (tn_base_node d) \<Longrightarrow> value_ok (itoa (nr_mergeinfo_count (tn_base_node d)))"
    using d value_ok_number by blast
  have i: "value_ok (ID_String i)" using assms(2) value_ok_id by blast
  show ?thesis unfolding field_table_def Let_def split_beta
    by (rule eleven_rows) (rule i, rule kind, erule pred, rule count, erule reps(1), erule reps(2), rule path,
      erule roots(1), erule roots(2), erule info, rule value_ok_words(2))
qed

lemma field_line_ok:
  assumes "CHR 0x0A \<notin> set name" "length name \<le> 10" "value_ok v"
  shows "full_line (field_line (name, v)) \<and> length (field_line (name, v)) \<le> 300000"
proof -
  have "v \<noteq> [] \<Longrightarrow> last v \<noteq> CHR 0x0D" using assms(3) last_in_set [of v] unfolding value_ok_def by metis
  then show ?thesis using assms by (simp add: full_line_def line_ok_def field_line_def value_ok_def)
qed

lemma field_names_ok:
  "\<forall>name\<in>set (map fst (field_table revision i d content properties)).
     CHR '':'' \<notin> set name \<and> CHR 0x0A \<notin> set name \<and> length name \<le> 10"
  unfolding field_table_names by simp

lemma fields_ok:
  assumes "record_ok revision d" "id_text_ok i" "\<forall>r. content = Some r \<longrightarrow> rep_text_ok r" "\<forall>r. properties = Some r \<longrightarrow> rep_text_ok r"
    and m: "(name, v) \<in> set (node_fields revision i d content properties)"
  shows "CHR '':'' \<notin> set name \<and> full_line (field_line (name, v)) \<and> length (field_line (name, v)) \<le> 300000"
proof -
  have t: "(name, True, v) \<in> set (field_table revision i d content properties)"
    by (rule present_fields_member) (fact m [unfolded node_fields_table])
  have "name \<in> set (map fst (field_table revision i d content properties))" by (rule row_name) (fact t)
  then have n: "CHR '':'' \<notin> set name" "CHR 0x0A \<notin> set name" "length name \<le> 10" by (rule field_names_ok [rule_format, THEN conjunct1]
    field_names_ok [rule_format, THEN conjunct2, THEN conjunct1] field_names_ok [rule_format, THEN conjunct2, THEN conjunct2])+
  have "value_ok v" using list_all_row [OF field_table_values [OF assms(1-4)] t] by simp
  from field_line_ok [OF n(2,3) this] n(1) show ?thesis by blast
qed

lemma node_fields_distinct: "distinct (map fst (node_fields revision i d content properties))"
  unfolding node_fields_table by (rule present_fields_distinct) (rule field_table_distinct)

lemma node_fields_length: "length (node_fields revision i d content properties) \<le> 11"
proof -
  have "length (present_fields table) \<le> length table" for table
  proof (induction table)
    case (Cons row table)
    then show ?case by (cases row) simp
  qed simp
  then have "length (node_fields revision i d content properties) \<le> length (map fst (field_table revision i d content properties))"
    by (simp add: node_fields_table)
  then show ?thesis unfolding field_table_names by simp
qed

lemma record_text_length:
  "(\<forall>line\<in>set lines. length line \<le> 300000) \<Longrightarrow> length (text_of_lines lines) \<le> length lines * 300001"
  by (induction lines) auto

lemma field_of_table:
  assumes "(name, present, v) \<in> set (field_table revision i d content properties)"
  shows "field (fold (\<lambda>(name, v). fmupd name v) (node_fields revision i d content properties) fmempty) name = (if present then v else [])"
    "fmlookup (fold (\<lambda>(name, v). fmupd name v) (node_fields revision i d content properties) fmempty) name = (if present then Some v else None)"
proof -
  have "map_of (field_table revision i d content properties) name = Some (present, v)"
    using assms field_table_distinct by (rule map_of_is_SomeI [rotated])
  then have m: "map_of (node_fields revision i d content properties) name = (if present then Some v else None)"
    by (simp add: node_fields_table present_fields_lookup field_table_distinct)
  show "field (fold (\<lambda>(name, v). fmupd name v) (node_fields revision i d content properties) fmempty) name = (if present then v else [])"
    by (simp add: field_of_pairs node_fields_distinct m)
  show "fmlookup (fold (\<lambda>(name, v). fmupd name v) (node_fields revision i d content properties) fmempty) name = (if present then Some v else None)"
    by (simp add: fold_fmupd_lookup node_fields_distinct m)
qed

lemma field_rows:
  "(''id'', True, ID_String i) \<in> set (field_table revision i d content properties)"
  "(''type'', True, NodeKind_String (tn_kind d)) \<in> set (field_table revision i d content properties)"
  "(''pred'', \<not> tn_new d, ID_String (nr_id (tn_base_node d))) \<in> set (field_table revision i d content properties)"
  "(''count'', True, if tn_new d then ''0'' else itoa (nr_count (tn_base_node d) + 1)) \<in> set (field_table revision i d content properties)"
  "(''text'', content \<noteq> None, formatRepresentation (the content)) \<in> set (field_table revision i d content properties)"
  "(''props'', properties \<noteq> None, formatRepresentation (the properties)) \<in> set (field_table revision i d content properties)"
  "(''cpath'', True, tn_created_path d) \<in> set (field_table revision i d content properties)"
  "(''copyroot'', IsValid (fst (copyroot_of revision d)) \<and> snd (copyroot_of revision d) \<noteq> [],
     itoa (fst (copyroot_of revision d)) @ '' '' @ snd (copyroot_of revision d)) \<in> set (field_table revision i d content properties)"
  "(''copyfrom'', IsValid (tn_copyfrom_rev d), itoa (tn_copyfrom_rev d) @ '' '' @ tn_copyfrom_path d)
     \<in> set (field_table revision i d content properties)"
  "(''minfo-cnt'', nr_has_mergeinfo_count (tn_base_node d), itoa (nr_mergeinfo_count (tn_base_node d)))
     \<in> set (field_table revision i d content properties)"
  "(''minfo-here'', nr_mergeinfo_here (tn_base_node d), ''true'') \<in> set (field_table revision i d content properties)"
  unfolding field_table_def Let_def split_beta
  by (rule list.set_intros(1) | rule list.set_intros(2))+

lemma optional_absent: "v = (if present then x else []) \<Longrightarrow> (present \<Longrightarrow> x \<noteq> [] \<and> parser x = Inr y) \<Longrightarrow>
    optional v parser = Inr (if present then Some y else None)"
  by (simp add: optional_def)

lemma parse_count_itoa: "nonneg64 n \<Longrightarrow> itoa n \<noteq> [] \<and> parse_count message (itoa n) = Inr n"
  by (auto simp: parse_count_def nonneg64_def)

lemma parse_count_zero: "''0'' \<noteq> [] \<and> parse_count message ''0'' = Inr 0"
proof -
  have "utoa 0 = ''0''" by code_simp
  then show ?thesis using parse_count_itoa [of 0 message] by (simp add: nonneg64_def)
qed

lemma parse_record:
  assumes ok: "record_ok revision d" "id_text_ok i" "\<forall>r. content = Some r \<longrightarrow> rep_text_ok r" "\<forall>r. properties = Some r \<longrightarrow> rep_text_ok r"
  shows "parseNodeRevision (text_of_lines (map field_line (node_fields revision i d content properties) @ [[]])) =
    Inr (committed_revision revision i d content properties)"
proof -
  define pairs where "pairs = node_fields revision i d content properties"
  define fs where "fs = fold (\<lambda>(name, v). fmupd name v) pairs fmempty"
  have p: "CHR '':'' \<notin> set name \<and> full_line (field_line (name, v)) \<and> length (field_line (name, v)) \<le> 300000"
    if "(name, v) \<in> set pairs" for name v
    using fields_ok [OF ok] that unfolding pairs_def by blast
  have "list_all line_ok (map field_line pairs @ [[]])"
    using p by (auto simp: list_all_iff full_line_def) (simp add: line_ok_def)
  then have scan: "scan_lines (text_of_lines (map field_line pairs @ [[]])) = (map field_line pairs @ [[]], False)"
    by (rule scan_text_of_lines)
  have read: "read_fields fmempty False (map field_line pairs @ [[]]) = Inr fs"
    unfolding fs_def by (rule read_fields_lines) (use p node_fields_distinct in \<open>auto simp: pairs_def field_def\<close>)
  let ?base = "tn_base_node d" and ?root = "copyroot_of revision d"
  note look = field_rows [where i = i and d = d and revision = revision and content = content and properties = properties,
    THEN field_of_table(1), folded pairs_def, folded fs_def]
  have here: "fmlookup fs ''minfo-here'' = (if nr_mergeinfo_here ?base then Some ''true'' else None)"
    unfolding fs_def pairs_def by (rule field_of_table(2)) (rule field_rows(11))
  note d = ok(1) [unfolded record_ok_def]
  have identity: "ParseID (field fs ''id'') = Inr i"
    unfolding look(1) if_True using ok(2) by (simp add: id_text_ok_def)
  have path: "field fs ''cpath'' = tn_created_path d" by (rule trans [OF look(7)]) simp
  have path_ok: "\<not> (tn_created_path d = [] \<or> \<not> canonicalAbsolutePath (tn_created_path d))"
    using d by (auto simp: path_ok_def canonicalAbsolutePath_def HasPrefix_def)
  have kind: "field fs ''type'' = NodeKind_String (tn_kind d)" by (rule trans [OF look(2)]) simp
  have kind_ok: "\<not> (NodeKind_String (tn_kind d) \<noteq> ''file'' \<and> NodeKind_String (tn_kind d) \<noteq> ''dir'')"
    "(if NodeKind_String (tn_kind d) = ''file'' then NodeFile else NodeDir) = tn_kind d"
    using d by auto
  have pred: "optional (field fs ''pred'') ParseID = Inr (if \<not> tn_new d then Some (nr_id ?base) else None)"
    by (rule optional_absent [OF look(3)]) (use d value_ok_id in \<open>auto simp: id_text_ok_def\<close>)
  have count: "optional (field fs ''count'') (parse_count message) = Inr (if True then Some (if tn_new d then 0 else nr_count ?base + 1) else None)" for message
    by (rule optional_absent [OF look(4)]) (use d parse_count_zero parse_count_itoa in \<open>cases "tn_new d"; simp only: if_True if_False simp_thms\<close>)
  have content: "optional (field fs ''text'') parseRepresentation = Inr (if content \<noteq> None then Some (the content) else None)"
    by (rule optional_absent [OF look(5)]) (use ok(3) value_ok_representation in \<open>auto simp: rep_text_ok_def\<close>)
  have properties: "optional (field fs ''props'') parseRepresentation = Inr (if properties \<noteq> None then Some (the properties) else None)"
    by (rule optional_absent [OF look(6)]) (use ok(4) value_ok_representation in \<open>auto simp: rep_text_ok_def\<close>)
  have root: "optional (field fs ''copyroot'') parseRevisionPath = Inr (if IsValid (fst ?root) \<and> snd ?root \<noteq> [] then Some ?root else None)"
    by (rule optional_absent [OF look(8)]) (use d in \<open>simp add: path_ok_def\<close>)
  have copied: "optional (field fs ''copyfrom'') parseRevisionPath =
      Inr (if IsValid (tn_copyfrom_rev d) then Some (tn_copyfrom_rev d, tn_copyfrom_path d) else None)"
    by (rule optional_absent [OF look(9)]) (use d in \<open>simp add: path_ok_def\<close>)
  have info: "optional (field fs ''minfo-cnt'') (parse_count message) =
      Inr (if nr_has_mergeinfo_count ?base then Some (nr_mergeinfo_count ?base) else None)" for message
    by (rule optional_absent [OF look(10)]) (use d parse_count_itoa in blast)
  show ?thesis
    unfolding parseNodeRevision_def pairs_def [symmetric] scan Let_def prod.case read and_then_simps identity path kind if_not_P [OF path_ok] if_not_P [OF kind_ok(1)]
      pred count content properties root copied info here kind_ok(2)
    by (auto simp: committed_revision_def Let_def split_beta)
qed

section \<open>Parsed records are well formed\<close>

lemma ParseID_ok: "ParseID s = Inr i \<Longrightarrow> id_ok i"
proof -
  assume p: "ParseID s = Inr i"
  let ?parts = "split CHR ''.'' s"
  have "length ?parts = 3" using p by (auto simp: ParseID_def Let_def split: if_splits)
  then have "?parts ! 0 \<in> set ?parts" "?parts ! 1 \<in> set ?parts" by simp_all
  then have dots: "CHR ''.'' \<notin> set (?parts ! 0)" "CHR ''.'' \<notin> set (?parts ! 1)" by (blast dest: split_parts)+
  show ?thesis
    using p dots by (auto simp: ParseID_def Let_def id_ok_def nonneg64_def split: if_splits option.splits dest: parse_int_bounds)
qed

lemma rep_numbers_ok: "rep_numbers fs = Some numbers \<Longrightarrow> list_all nonneg64 numbers \<and> length numbers = length fs"
  by (induction fs arbitrary: numbers) (auto simp: nonneg64_def split: option.splits if_splits dest: parse_int_bounds)

definition digests_ok :: "representation \<Rightarrow> bool" where
  "digests_ok r \<longleftrightarrow>
     nonneg64 (rep_revision r) \<and> nonneg64 (rep_item r) \<and> nonneg64 (rep_length r) \<and> nonneg64 (rep_expanded r) \<and>
     validHexDigest (rep_md5 r) 16 \<and> (rep_sha1 r = [] \<or> validHexDigest (rep_sha1 r) 20)"

lemma parseRepresentation_ok:
  "parseRepresentation s = Inr r \<Longrightarrow>
     digests_ok r"
proof -
  assume p: "parseRepresentation s = Inr r"
  have len: "5 \<le> length (Fields s)" using p by (auto simp: parseRepresentation_def Let_def not_less split: if_splits)
  obtain numbers where n: "rep_numbers (take 4 (Fields s)) = Some numbers"
    using p by (auto simp: parseRepresentation_def Let_def split: if_splits option.splits)
  have "list_all nonneg64 numbers" "length numbers = 4" using rep_numbers_ok [OF n] len by simp_all
  then have "nonneg64 (numbers ! 0) \<and> nonneg64 (numbers ! 1) \<and> nonneg64 (numbers ! 2) \<and> nonneg64 (numbers ! 3)"
    by (simp add: list_all_length)
  then show ?thesis using p len by (auto simp: parseRepresentation_def Let_def n digests_ok_def split: if_splits)
qed

lemma parseRevisionPath_ok: "parseRevisionPath s = Inr x \<Longrightarrow> (case x of (r, p) \<Rightarrow> nonneg64 r \<and> canonicalAbsolutePath p)"
  by (auto simp: parseRevisionPath_def nonneg64_def split: prod.splits if_splits option.splits dest: parse_int_bounds)

lemma parse_count_ok: "parse_count message s = Inr n \<Longrightarrow> nonneg64 n"
  by (auto simp: parse_count_def nonneg64_def split: option.splits if_splits dest: parse_int_bounds)

lemma optional_Inr: "optional v parser = Inr x \<longleftrightarrow> (if v = [] then x = None else \<exists>y. parser v = Inr y \<and> x = Some y)"
  by (auto simp: optional_def and_then_Inr)

definition well_typed :: "node_revision \<Rightarrow> bool" where
  "well_typed node \<longleftrightarrow>
     id_ok (nr_id node) \<and> (nr_kind node = NodeFile \<or> nr_kind node = NodeDir) \<and>
     (\<forall>p. nr_predecessor node = Some p \<longrightarrow> id_ok p) \<and> nonneg64 (nr_count node) \<and> nonneg64 (nr_mergeinfo_count node) \<and>
     (\<forall>r. nr_text node = Some r \<or> nr_properties node = Some r \<longrightarrow> digests_ok r) \<and>
     canonicalAbsolutePath (nr_created_path node) \<and>
     (nr_copyroot_rev node = InvalidRevnum \<and> nr_copyroot_path node = [] \<or>
        nonneg64 (nr_copyroot_rev node) \<and> canonicalAbsolutePath (nr_copyroot_path node)) \<and>
     (nr_copyfrom_rev node = InvalidRevnum \<and> nr_copyfrom_path node = [] \<or>
        nonneg64 (nr_copyfrom_rev node) \<and> canonicalAbsolutePath (nr_copyfrom_path node))"

lemma optional_cases:
  assumes "optional v parser = Inr x" "\<And>y. parser v = Inr y \<Longrightarrow> P y"
  shows "case x of None \<Rightarrow> True | Some y \<Rightarrow> P y"
  using assms by (auto simp: optional_Inr split: if_splits)

lemma and_thenE:
  assumes "and_then r f = Inr z"
  obtains x where "r = Inr x" "f x = Inr z"
  using assms by (auto simp: and_then_Inr)

lemma guardE:
  assumes "(if c then Inl e else r) = Inr z"
  obtains "\<not> c" "r = Inr z"
  using assms by (auto split: if_splits)

lemma parseNodeRevision_ok:
  assumes "parseNodeRevision data = Inr node"
  shows "well_typed node"
proof -
  obtain lines failed where l: "scan_lines data = (lines, failed)" by fastforce
  obtain fs i predecessor count content properties copyroot copyfrom mergeinfo where
    "ParseID (field fs ''id'') = Inr i" and path: "\<not> (field fs ''cpath'' = [] \<or> \<not> canonicalAbsolutePath (field fs ''cpath''))"
    and o: "optional (field fs ''pred'') ParseID = Inr predecessor"
      "optional (field fs ''count'') (parse_count ''invalid predecessor count'') = Inr count"
      "optional (field fs ''text'') parseRepresentation = Inr content"
      "optional (field fs ''props'') parseRepresentation = Inr properties"
      "optional (field fs ''copyroot'') parseRevisionPath = Inr copyroot"
      "optional (field fs ''copyfrom'') parseRevisionPath = Inr copyfrom"
      "optional (field fs ''minfo-cnt'') (parse_count ''invalid mergeinfo count'') = Inr mergeinfo"
    and node: "\<lparr>nr_id = i, nr_kind = (if field fs ''type'' = ''file'' then NodeFile else NodeDir),
           nr_predecessor = predecessor, nr_count = (case count of None \<Rightarrow> 0 | Some n \<Rightarrow> n),
           nr_text = content, nr_properties = properties, nr_created_path = field fs ''cpath'',
           nr_copyroot_path = (case copyroot of None \<Rightarrow> [] | Some (r, p) \<Rightarrow> p),
           nr_copyroot_rev = (case copyroot of None \<Rightarrow> InvalidRevnum | Some (r, p) \<Rightarrow> r),
           nr_copyfrom_path = (case copyfrom of None \<Rightarrow> [] | Some (r, p) \<Rightarrow> p),
           nr_copyfrom_rev = (case copyfrom of None \<Rightarrow> InvalidRevnum | Some (r, p) \<Rightarrow> r),
           nr_mergeinfo_count = (case mergeinfo of None \<Rightarrow> 0 | Some n \<Rightarrow> n),
           nr_mergeinfo_here = (fmlookup fs ''minfo-here'' \<noteq> None),
           nr_has_mergeinfo_count = (mergeinfo \<noteq> None)\<rparr> = node"
    using assms unfolding parseNodeRevision_def l Let_def prod.case
    by (elim and_thenE guardE) (drule sum.inject(2) [THEN iffD1], rule that, assumption+)
  have c: "id_ok i" "case predecessor of None \<Rightarrow> True | Some p \<Rightarrow> id_ok p"
    "case count of None \<Rightarrow> True | Some n \<Rightarrow> nonneg64 n" "case mergeinfo of None \<Rightarrow> True | Some n \<Rightarrow> nonneg64 n"
    "case copyroot of None \<Rightarrow> True | Some (r, p) \<Rightarrow> nonneg64 r \<and> canonicalAbsolutePath p"
    "case copyfrom of None \<Rightarrow> True | Some (r, p) \<Rightarrow> nonneg64 r \<and> canonicalAbsolutePath p"
    subgoal by (rule ParseID_ok) fact
    subgoal using optional_cases [OF o(1) ParseID_ok] .
    subgoal using optional_cases [OF o(2) parse_count_ok] .
    subgoal using optional_cases [OF o(7) parse_count_ok] .
    subgoal using optional_cases [OF o(5) parseRevisionPath_ok] .
    subgoal using optional_cases [OF o(6) parseRevisionPath_ok] .
    done
  have r: "case content of None \<Rightarrow> True | Some r \<Rightarrow> digests_ok r"
    by (rule optional_cases [OF o(3)]) (rule parseRepresentation_ok)
  have r': "case properties of None \<Rightarrow> True | Some r \<Rightarrow> digests_ok r"
    by (rule optional_cases [OF o(4)]) (rule parseRepresentation_ok)
  have zero: "nonneg64 0" by (simp add: nonneg64_def)
  show ?thesis unfolding well_typed_def node [symmetric] node_revision.select_convs
    by (intro conjI) (use c r r' path zero in \<open>auto split: option.splits\<close>)
qed

lemma readNode_typed: "readNode lib repo i = Inr node \<Longrightarrow> well_typed node"
  by (auto simp: readNode_def and_then_Inr dest: parseNodeRevision_ok split: if_splits)

end
