(* ===== verification/Fsfs_Build.thy ===== *)
theory Fsfs_Build
  imports Fsfs_Record
begin

text \<open>
  What a commit writes. The numbers it gives to nodes and representations are consecutive
  (\<open>assign_numbers\<close>, \<open>appended\<close>), so the items of a revision have the numbers from one on, each once
  (\<open>build_items_written\<close>); among them are, for every node that changed, its record and its
  representations (\<open>node_written\<close>), and the repository that is left stores them
  (\<open>written_items_stored\<close>). Revisions that were there read as before (\<open>extends_files\<close>).
\<close>

section \<open>Revisions that are there stay as they are\<close>

definition extends_files :: "repository \<Rightarrow> repository \<Rightarrow> bool" where
  "extends_files repo repo' \<longleftrightarrow>
     (\<forall>r c. fmlookup (repo_files repo) r = Some c \<longrightarrow> fmlookup (repo_files repo') r = Some c)"

lemma openRevision_extends: "extends_files repo repo' \<Longrightarrow> openRevision lib repo r = Inr f \<Longrightarrow> openRevision lib repo' r = Inr f"
  by (auto simp: extends_files_def openRevision_def split: if_splits option.splits)

lemma readRepresentation_extends:
  "extends_files repo repo' \<Longrightarrow> readRepresentation lib repo r = Inr h \<Longrightarrow> readRepresentation lib repo' r = Inr h"
  unfolding readRepresentation_def and_then_Inr by (meson openRevision_extends)

lemma write_representation_extends:
  "extends_files repo repo' \<Longrightarrow> write_representation n lib repo r = Inr contents \<Longrightarrow> write_representation n lib repo' r = Inr contents"
proof (induction n arbitrary: r contents)
  case 0
  then show ?case by (cases r) simp_all
next
  case (Suc n)
  show ?case
  proof (cases r)
    case None
    then show ?thesis using Suc.prems by simp
  next
    case (Some q)
    with Suc.prems obtain h where h: "readRepresentation lib repo q = Inr h" by (auto simp: and_then_Inr)
    then have h': "readRepresentation lib repo' q = Inr h" using Suc.prems(1) readRepresentation_extends by blast
    have "rh_plain h \<or> (\<exists>base. write_representation n lib repo (rh_base h) = Inr base)"
      using Suc.prems(2) by (auto simp: Some h and_then_Inr split: if_splits)
    then have "rh_plain h \<or> write_representation n lib repo' (rh_base h) = write_representation n lib repo (rh_base h)"
      using Suc.IH [OF Suc.prems(1)] by auto
    then show ?thesis using Suc.prems(2) by (auto simp: Some h h')
  qed
qed

lemma writeRepresentation_extends:
  "extends_files repo repo' \<Longrightarrow> writeRepresentation lib repo r = Inr contents \<Longrightarrow> writeRepresentation lib repo' r = Inr contents"
  unfolding writeRepresentation_def by (rule write_representation_extends)

lemma readNode_extends: "extends_files repo repo' \<Longrightarrow> readNode lib repo i = Inr node \<Longrightarrow> readNode lib repo' i = Inr node"
  unfolding readNode_def and_then_Inr by (meson openRevision_extends)

lemma directoryEntries_extends:
  "extends_files repo repo' \<Longrightarrow> directoryEntries lib repo node = Inr entries \<Longrightarrow> directoryEntries lib repo' node = Inr entries"
  by (auto simp: directoryEntries_def and_then_Inr writeRepresentation_extends split: if_splits)

lemma find_below_extends:
  "extends_files repo repo' \<Longrightarrow> find_below lib repo p node names = Inr found \<Longrightarrow> find_below lib repo' p node names = Inr found"
proof (induction names arbitrary: node)
  case (Cons name names)
  have k: "nr_kind node = NodeDir" using Cons.prems(2) by (auto split: if_splits)
  obtain entries where e: "directoryEntries lib repo node = Inr entries"
    using Cons.prems(2) by (auto simp: k and_then_Inr)
  note e' = directoryEntries_extends [OF Cons.prems(1) e]
  show ?case
  proof (cases "fmlookup entries name")
    case None
    then show ?thesis using Cons.prems(2) by (simp add: k e e')
  next
    case (Some entry)
    then obtain child where c: "readNode lib repo (de_id entry) = Inr child" "find_below lib repo p child names = Inr found"
      using Cons.prems(2) by (auto simp: k e and_then_Inr)
    then show ?thesis using readNode_extends [OF Cons.prems(1) c(1)] Cons.IH [OF Cons.prems(1) c(2)] by (simp add: k e' Some)
  qed
qed simp

lemma readNode_id: "readNode lib repo i = Inr node \<Longrightarrow> nr_id node = i"
  by (auto simp: readNode_def and_then_Inr split: if_splits)

section \<open>The numbers of a commit\<close>

fun node_numbers :: "commit_node \<Rightarrow> int list" where
  "node_numbers (CommitNode None d cs) = []"
| "node_numbers (CommitNode (Some i) d cs) =
     (if tn_kind d \<noteq> NodeDir then []
      else case cs of
          None \<Rightarrow> []
        | Some kids \<Rightarrow> concat (map (\<lambda>(name, kid). if tn_dirty (cn_data kid) then node_numbers kid else []) kids)) @ [id_item i]"

definition kid_numbers :: "(string \<times> commit_node) list \<Rightarrow> int list" where
  "kid_numbers kids = concat (map (\<lambda>(name, kid). if tn_dirty (cn_data kid) then node_numbers kid else []) kids)"

lemma kid_numbers_simps [simp]: "kid_numbers [] = []"
  "kid_numbers ((name, kid) # kids) = (if tn_dirty (cn_data kid) then node_numbers kid else []) @ kid_numbers kids"
  by (simp_all add: kid_numbers_def)

lemma node_numbers_simps: "node_numbers (CommitNode (Some i) d None) = [id_item i]"
  "node_numbers (CommitNode (Some i) d (Some kids)) = (if tn_kind d = NodeDir then kid_numbers kids else []) @ [id_item i]"
  by (simp_all add: kid_numbers_def)

lemma cn_data_unassigned [simp]: "cn_data (unassigned t) = data_of_node t"
  by (cases t) simp

lemma cn_data_assigned: "assignNodes revision is_root n t = (c, n') \<Longrightarrow> cn_data c = data_of_node t"
  by (cases t) (auto simp: Let_def split: if_splits option.splits prod.splits)

lemma permanent_id_fields [simp]: "id_item (permanent_id revision d item) = item" "id_revision (permanent_id revision d item) = revision"
  by (simp_all add: permanent_id_def)

lemma node_numbers_unassigned [simp]: "node_numbers (unassigned t) = []"
  by (cases t) simp

lemma assign_numbers:
  "assignNodes revision is_root n t = (c, n') \<Longrightarrow>
     n \<le> n' \<and> (tn_dirty (data_of_node t) \<or> is_root \<longrightarrow> mset (node_numbers c) = mset ((if is_root then [2] else []) @ [n..n' - 1])) \<and>
     (\<not> (tn_dirty (data_of_node t) \<or> is_root) \<longrightarrow> n' = n \<and> c = unassigned t)"
  "assign_children revision n cs = (kids, n') \<Longrightarrow>
     n \<le> n' \<and> mset (kid_numbers kids) = mset [n..n' - 1]"
proof (induction revision is_root n t and revision n cs arbitrary: c n' and kids n' rule: assignNodes_assign_children.induct)
  case (1 revision is_root next_item d cs)
  show ?case
  proof (cases "tn_dirty d \<or> is_root")
    case False
    then show ?thesis using "1.prems" by auto
  next
    case True
    define next' where "next' = (if is_root then next_item else next_item + 1)"
    define item where "item = (if is_root then 2 else next_item)"
    show ?thesis
    proof (cases "if tn_kind d = NodeDir then cs else None")
      case None
      then have "c = CommitNode (Some (permanent_id revision d item)) d None" "n' = next'"
        using "1.prems" True by (simp_all add: item_def next'_def Let_def split: if_splits)
      then show ?thesis using True by (cases is_root) (simp_all add: item_def next'_def node_numbers_simps del: node_numbers.simps)
    next
      case (Some children)
      obtain kids n'' where k: "assign_children revision next' (sort_key fst children) = (kids, n'')" by fastforce
      have c: "c = CommitNode (Some (permanent_id revision d item)) d (Some kids)" "n' = n''"
        using "1.prems" True Some k by (simp_all add: item_def next'_def Let_def split: if_splits)
      have "next' \<le> n'' \<and> mset (kid_numbers kids) = mset [next'..n'' - 1]"
        using "1.IH" [OF _ item_def next'_def refl Some k] True by blast
      moreover have "[next_item..n'' - 1] = next_item # [next_item + 1..n'' - 1]" if "\<not> is_root" "next' \<le> n''"
        using that by (simp add: next'_def upto_rec1)
      moreover have "tn_kind d = NodeDir" using Some by (simp split: if_splits)
      ultimately show ?thesis using True by (cases is_root) (simp_all add: c item_def next'_def node_numbers_simps del: node_numbers.simps)
    qed
  qed
next
  case (3 revision next_item name child children)
  obtain kid m where a: "assignNodes revision False next_item child = (kid, m)" by fastforce
  obtain rest m' where b: "assign_children revision m children = (rest, m')" by fastforce
  have eq: "kids = (name, kid) # rest" "n' = m'" using "3.prems" a b by simp_all
  have A: "next_item \<le> m \<and> mset (if tn_dirty (cn_data kid) then node_numbers kid else []) = mset [next_item..m - 1]"
    using "3.IH"(1) [OF a] cn_data_assigned [OF a] by (cases "tn_dirty (data_of_node child)") auto
  have B: "m \<le> m' \<and> mset (kid_numbers rest) = mset [m..m' - 1]"
    using "3.IH"(2) [OF a [symmetric] b] by blast
  have "[next_item..m' - 1] = [next_item..m - 1] @ [m..m' - 1]"
    using A B upto_split2 [of next_item "m - 1" "m' - 1"] by (cases "next_item = m") auto
  then show ?case using A B by (simp add: eq)
qed simp_all

section \<open>What a commit writes\<close>

text \<open>A representation of the given contents among the items.\<close>

definition rep_written ::
    "stdlib \<Rightarrow> string \<Rightarrow> revnum \<Rightarrow> revision_item set \<Rightarrow> representation \<Rightarrow> bytes \<Rightarrow> bool" where
  "rep_written lib name revision items r contents \<longleftrightarrow>
     r = \<lparr>rep_revision = revision, rep_item = rep_item r, rep_length = int (length contents),
        rep_expanded = int (length contents), rep_md5 = hex_encode (std_md5 lib contents),
        rep_sha1 = hex_encode (std_sha1 lib contents), rep_uniquifier = name @ ''/_'' @ base36 (nat (rep_item r))\<rparr> \<and>
     (\<exists>kind. \<lparr>item_number = rep_item r, item_kind = kind, item_bytes = plain_representation contents\<rparr> \<in> items)"

definition text_written ::
    "stdlib \<Rightarrow> repository \<Rightarrow> string \<Rightarrow> revnum \<Rightarrow> revision_item set \<Rightarrow> txn_data \<Rightarrow> (string \<times> NodeKind \<times> node_id) list \<Rightarrow>
       representation option \<Rightarrow> bool" where
  "text_written lib repo name revision items d entries content \<longleftrightarrow>
     (if tn_kind d = NodeDir then
        (\<exists>r data. write_hash (directory_values entries) = Inr data \<and> content = Some r \<and> rep_written lib name revision items r data)
      else if tn_text_modified d \<or> tn_new d then
        (\<exists>r data. loadContent lib repo d = Inr data \<and> content = Some r \<and> rep_written lib name revision items r data)
      else content = nr_text (tn_base_node d))"

definition props_written ::
    "stdlib \<Rightarrow> repository \<Rightarrow> string \<Rightarrow> revnum \<Rightarrow> revision_item set \<Rightarrow> txn_data \<Rightarrow> representation option \<Rightarrow> bool" where
  "props_written lib repo name revision items d properties \<longleftrightarrow>
     (if tn_props_modified d \<or> tn_new d then
        (\<exists>values. loadProperties lib repo d = Inr values \<and>
           (if values = fmempty then properties = None
            else \<exists>r data. write_hash values = Inr data \<and> properties = Some r \<and> rep_written lib name revision items r data))
      else properties = nr_properties (tn_base_node d))"

definition node_entries ::
    "stdlib \<Rightarrow> repository \<Rightarrow> txn_data \<Rightarrow> (string \<times> commit_node) list option \<Rightarrow> fs_error + (string \<times> NodeKind \<times> node_id) list" where
  "node_entries lib repo d cs =
     (if tn_kind d \<noteq> NodeDir then Inr []
      else case cs of
          Some kids \<Rightarrow> Inr (child_entries kids)
        | None \<Rightarrow> and_then (loadChildren lib repo (TxnNode d None)) (\<lambda>loaded.
            Inr (child_entries (map (\<lambda>(name, child). (name, unassigned child)) loaded))))"

definition record_written ::
    "stdlib \<Rightarrow> repository \<Rightarrow> string \<Rightarrow> revnum \<Rightarrow> revision_item set \<Rightarrow> node_id \<Rightarrow> txn_data \<Rightarrow>
       (string \<times> commit_node) list option \<Rightarrow> bool" where
  "record_written lib repo name revision items i d cs \<longleftrightarrow>
     (\<exists>content properties entries. node_entries lib repo d cs = Inr entries \<and>
        text_written lib repo name revision items d entries content \<and>
        props_written lib repo name revision items d properties \<and>
        \<lparr>item_number = id_item i, item_kind = 5, item_bytes = nodeRecord revision i d content properties\<rparr> \<in> items)"

fun node_written :: "stdlib \<Rightarrow> repository \<Rightarrow> string \<Rightarrow> revnum \<Rightarrow> revision_item set \<Rightarrow> commit_node \<Rightarrow> bool" where
  "node_written lib repo name revision items (CommitNode i d cs) \<longleftrightarrow>
     (\<forall>j. i = Some j \<longrightarrow> record_written lib repo name revision items j d cs) \<and>
     (i \<noteq> None \<and> tn_kind d = NodeDir \<longrightarrow>
        (case cs of None \<Rightarrow> True
         | Some kids \<Rightarrow> \<forall>kid\<in>set kids. tn_dirty (cn_data (snd kid)) \<longrightarrow> node_written lib repo name revision items (snd kid)))"

lemma rep_written_mono: "rep_written lib name revision a r contents \<Longrightarrow> a \<subseteq> b \<Longrightarrow> rep_written lib name revision b r contents"
  unfolding rep_written_def by blast

lemma text_written_mono:
  "text_written lib repo name revision a d entries content \<Longrightarrow> a \<subseteq> b \<Longrightarrow> text_written lib repo name revision b d entries content"
  using rep_written_mono unfolding text_written_def by (auto split: if_splits)

lemma props_written_mono:
  assumes "props_written lib repo name revision a d properties" "a \<subseteq> b"
  shows "props_written lib repo name revision b d properties"
proof (cases "tn_props_modified d \<or> tn_new d")
  case True
  then obtain vs where "loadProperties lib repo d = Inr vs"
    "if vs = fmempty then properties = None
     else \<exists>r data. write_hash vs = Inr data \<and> properties = Some r \<and> rep_written lib name revision a r data"
    using assms(1) by (auto simp: props_written_def)
  with True show ?thesis using rep_written_mono [OF _ assms(2)] by (cases "vs = fmempty") (auto simp: props_written_def)
next
  case False
  then show ?thesis using assms(1) by (simp add: props_written_def)
qed

lemma record_written_mono:
  "record_written lib repo name revision a i d cs \<Longrightarrow> a \<subseteq> b \<Longrightarrow> record_written lib repo name revision b i d cs"
  unfolding record_written_def using text_written_mono props_written_mono by (meson subsetD)

lemma node_written_mono: "node_written lib repo name revision a c \<Longrightarrow> a \<subseteq> b \<Longrightarrow> node_written lib repo name revision b c"
proof (induction lib repo name revision a c rule: node_written.induct)
  case (1 lib repo name revision items i d cs)
  have "node_written lib repo name revision b (snd kid)" if "i \<noteq> None" "tn_kind d = NodeDir" "cs = Some kids" "kid \<in> set kids" "tn_dirty (cn_data (snd kid))" for kids kid
    using 1 that by simp
  moreover have "record_written lib repo name revision b j d cs" if "i = Some j" for j
    using 1(2) that record_written_mono [OF _ 1(3)] by simp
  ultimately show ?case by (simp split: option.split)
qed

lemma addRepresentation_written:
  assumes "addRepresentation lib name revision contents kind b = (r, b')"
  shows "rep_written lib name revision (set (b_items b')) r contents" "b_next b' = b_next b + 1"
    "\<exists>item. b_items b' = b_items b @ [item] \<and> item_number item = b_next b \<and> item_bytes item \<noteq> [] \<and> item_kind item = kind"
  using assms by (auto simp: addRepresentation_def Let_def rep_written_def plain_representation_def bytes_of_text_def)

text \<open>A step of the builder appends items under consecutive numbers, apart from those of the nodes.\<close>

definition appended :: "commit_builder \<Rightarrow> commit_builder \<Rightarrow> int list \<Rightarrow> bool" where
  "appended b b' numbers \<longleftrightarrow>
     (\<exists>more. b_items b' = b_items b @ more \<and> b_next b \<le> b_next b' \<and>
        mset (map item_number more) = mset numbers + mset [b_next b..b_next b' - 1] \<and>
        (\<forall>i\<in>set more. item_bytes i \<noteq> [] \<and> 1 \<le> item_kind i \<and> item_kind i \<le> 6))"

lemma appended_refl [simp]: "appended b b []"
  by (simp add: appended_def)

lemma appended_trans: "appended a b m \<Longrightarrow> appended b c n \<Longrightarrow> appended a c (m @ n)"
proof -
  assume "appended a b m" "appended b c n"
  then obtain x y where x: "b_items b = b_items a @ x" "b_next a \<le> b_next b"
      "mset (map item_number x) = mset m + mset [b_next a..b_next b - 1]" "\<forall>i\<in>set x. item_bytes i \<noteq> [] \<and> 1 \<le> item_kind i \<and> item_kind i \<le> 6"
    and y: "b_items c = b_items b @ y" "b_next b \<le> b_next c"
      "mset (map item_number y) = mset n + mset [b_next b..b_next c - 1]" "\<forall>i\<in>set y. item_bytes i \<noteq> [] \<and> 1 \<le> item_kind i \<and> item_kind i \<le> 6"
    unfolding appended_def by blast
  have "[b_next a..b_next c - 1] = [b_next a..b_next b - 1] @ [b_next b..b_next c - 1]"
    using x(2) y(2) upto_split2 [of "b_next a" "b_next b - 1" "b_next c - 1"] by (cases "b_next a = b_next b") auto
  then show ?thesis using x y unfolding appended_def by (intro exI [of _ "x @ y"]) auto
qed

lemma appended_items: "appended b b' n \<Longrightarrow> set (b_items b) \<subseteq> set (b_items b')"
  by (auto simp: appended_def)

lemma addRepresentation_appended:
  "addRepresentation lib name revision contents kind b = (r, b') \<Longrightarrow> 1 \<le> kind \<Longrightarrow> kind \<le> 6 \<Longrightarrow> appended b b' []"
  using addRepresentation_written(2,3) unfolding appended_def by fastforce

lemma stored_representation:
  assumes "and_then R (\<lambda>data. case addRepresentation lib name revision data kind b of (r, b') \<Rightarrow> Inr (Some r, b')) = Inr (content, b')"
    "1 \<le> kind" "kind \<le> 6"
  shows "(\<exists>r data. R = Inr data \<and> content = Some r \<and> rep_written lib name revision (set (b_items b')) r data) \<and> appended b b' []"
proof -
  obtain data where d: "R = Inr data" using assms(1) by (auto simp: and_then_Inr)
  obtain r c where r: "addRepresentation lib name revision data kind b = (r, c)" by fastforce
  have "content = Some r" "c = b'" using assms(1) by (simp_all add: d r)
  then show ?thesis using addRepresentation_written(1) [OF r] addRepresentation_appended [OF r assms(2,3)] d by blast
qed

lemma build_text_written:
  assumes "build_text lib repo name revision d entries b = Inr (content, b')"
  shows "text_written lib repo name revision (set (b_items b')) d entries content \<and> appended b b' []"
proof (cases "tn_kind d = NodeDir")
  case True
  then show ?thesis using assms stored_representation [of "write_hash (directory_values entries)" lib name revision 2 b content b']
    by (simp add: build_text_def text_written_def)
next
  case False
  then show ?thesis using assms stored_representation [of "loadContent lib repo d" lib name revision 1 b content b']
    by (cases "tn_text_modified d \<or> tn_new d") (simp_all add: build_text_def text_written_def)
qed

lemma build_properties_written:
  assumes "build_properties lib repo name revision d b = Inr (properties, b')"
  shows "props_written lib repo name revision (set (b_items b')) d properties \<and> appended b b' []"
proof (cases "tn_props_modified d \<or> tn_new d")
  case True
  then obtain vs where v: "loadProperties lib repo d = Inr vs"
    using assms by (auto simp: build_properties_def and_then_Inr)
  let ?kind = "if tn_kind d = NodeDir then 4 else 3"
  show ?thesis
  proof (cases "vs = fmempty")
    case True
    with \<open>tn_props_modified d \<or> tn_new d\<close> v assms show ?thesis by (simp add: build_properties_def props_written_def)
  next
    case False
    with \<open>tn_props_modified d \<or> tn_new d\<close> v assms
    have "and_then (write_hash vs) (\<lambda>data. case addRepresentation lib name revision data ?kind b of (r, b') \<Rightarrow> Inr (Some r, b')) = Inr (properties, b')"
      by (simp add: build_properties_def cong: if_cong)
    from stored_representation [OF this] False \<open>tn_props_modified d \<or> tn_new d\<close> v show ?thesis by (auto simp: props_written_def)
  qed
next
  case False
  then show ?thesis using assms by (simp add: build_properties_def props_written_def)
qed

lemma and_then_pairE:
  assumes "and_then r (\<lambda>(x, y). f x y) = Inr z"
  obtains x y where "r = Inr (x, y)" "f x y = Inr z"
  using assms by (auto simp: and_then_Inr)

lemma buildNode_written:
  "buildNode lib repo name revision c b = Inr b' \<Longrightarrow>
     node_written lib repo name revision (set (b_items b')) c \<and> appended b b' (node_numbers c)"
  "build_children lib repo name revision kids b = Inr b' \<Longrightarrow>
     (\<forall>kid\<in>set kids. tn_dirty (cn_data (snd kid)) \<longrightarrow> node_written lib repo name revision (set (b_items b')) (snd kid)) \<and>
     appended b b' (kid_numbers kids)"
proof (induction lib repo name revision c b and lib repo name revision kids b arbitrary: b' and b' rule: buildNode_build_children.induct)
  case (2 lib repo name revision i d cs b)
  let ?kids = "if tn_kind d \<noteq> NodeDir then [] else case cs of None \<Rightarrow> [] | Some kids \<Rightarrow> kids"
  obtain entries b1 content b2 properties b3 where
    e: "(if tn_kind d \<noteq> NodeDir then Inr ([], b)
        else case cs of
            Some kids \<Rightarrow> and_then (build_children lib repo name revision kids b) (\<lambda>b'. Inr (child_entries kids, b'))
          | None \<Rightarrow> and_then (loadChildren lib repo (TxnNode d None)) (\<lambda>loaded.
              Inr (child_entries (map (\<lambda>(name, child). (name, unassigned child)) loaded), b))) = Inr (entries, b1)"
    and t: "build_text lib repo name revision d entries b1 = Inr (content, b2)"
    and p: "build_properties lib repo name revision d b2 = Inr (properties, b3)"
    and b': "b' = b3\<lparr>b_items := b_items b3 @
            [\<lparr>item_number = id_item i, item_kind = 5, item_bytes = nodeRecord revision i d content properties\<rparr>]\<rparr>"
    using "2.prems" unfolding buildNode.simps(2)
    by (elim and_then_pairE) (simp only: sum.inject)
  have entries: "node_entries lib repo d cs = Inr entries"
    using e by (auto simp: node_entries_def and_then_Inr split: if_splits option.splits)
  have kids: "(\<forall>kid\<in>set ?kids. tn_dirty (cn_data (snd kid)) \<longrightarrow> node_written lib repo name revision (set (b_items b1)) (snd kid)) \<and>
      appended b b1 (kid_numbers ?kids)"
  proof (cases "tn_kind d = NodeDir \<and> cs \<noteq> None")
    case True
    then obtain ks where ks: "cs = Some ks" "tn_kind d = NodeDir" by auto
    then have "build_children lib repo name revision ks b = Inr b1" using e by (auto simp: and_then_Inr)
    from "2.IH" [OF _ ks(1) this] ks show ?thesis by simp
  next
    case False
    then have "?kids = []" "b1 = b" using e by (auto simp: and_then_Inr split: if_splits option.splits)
    then show ?thesis by simp
  qed
  note T = build_text_written [OF t] and P = build_properties_written [OF p]
  have last: "appended b3 b' [id_item i]"
    unfolding appended_def b' by (intro exI [of _ "[\<lparr>item_number = id_item i, item_kind = 5, item_bytes = nodeRecord revision i d content properties\<rparr>]"])
      (simp add: nodeRecord_def bytes_of_text_def)
  have all: "appended b b' (kid_numbers ?kids @ [id_item i])"
    using appended_trans [OF conjunct2 [OF kids] appended_trans [OF conjunct2 [OF T] appended_trans [OF conjunct2 [OF P] last]]] by simp
  have sub: "set (b_items b1) \<subseteq> set (b_items b')" "set (b_items b2) \<subseteq> set (b_items b')" "set (b_items b3) \<subseteq> set (b_items b')"
    using T P last appended_items by blast+
  have numbers: "node_numbers (CommitNode (Some i) d cs) = kid_numbers ?kids @ [id_item i]"
    by (auto simp: kid_numbers_def split: option.split)
  have item: "\<lparr>item_number = id_item i, item_kind = 5, item_bytes = nodeRecord revision i d content properties\<rparr> \<in> set (b_items b')"
    by (simp add: b')
  have kids': "\<forall>kid\<in>set ks. tn_dirty (cn_data (snd kid)) \<longrightarrow> node_written lib repo name revision (set (b_items b')) (snd kid)"
    if "cs = Some ks" "tn_kind d = NodeDir" for ks
    using kids that node_written_mono sub(1) by fastforce
  have "text_written lib repo name revision (set (b_items b')) d entries content"
    "props_written lib repo name revision (set (b_items b')) d properties"
    using text_written_mono [OF conjunct1 [OF T] sub(2)] props_written_mono [OF conjunct1 [OF P] sub(3)] by blast+
  then have "record_written lib repo name revision (set (b_items b')) i d cs"
    unfolding record_written_def using entries item by blast
  then have "node_written lib repo name revision (set (b_items b')) (CommitNode (Some i) d cs)"
    using kids' by (simp split: option.split)
  then show ?case using all numbers by simp
next
  case (4 lib repo name revision child_name child children b)
  obtain b1 where b1: "(if tn_dirty (cn_data child) then buildNode lib repo name revision child b else Inr b) = Inr b1"
    "build_children lib repo name revision children b1 = Inr b'"
    using "4.prems" by (auto simp: and_then_Inr)
  have A: "(tn_dirty (cn_data child) \<longrightarrow> node_written lib repo name revision (set (b_items b1)) child) \<and>
      appended b b1 (if tn_dirty (cn_data child) then node_numbers child else [])"
    using "4.IH"(1) b1(1) by (cases "tn_dirty (cn_data child)") auto
  note B = "4.IH"(2) [OF b1(2)]
  have "appended b b' (kid_numbers ((child_name, child) # children))"
    using appended_trans [OF conjunct2 [OF A] conjunct2 [OF B]] by simp
  moreover have "tn_dirty (cn_data child) \<longrightarrow> node_written lib repo name revision (set (b_items b')) child"
    using A B node_written_mono appended_items by blast
  ultimately show ?case using B by simp
qed (simp_all split: option.split)

section \<open>The items of a commit\<close>

lemma data_of_length: "\<forall>i\<in>set items. item_bytes i \<noteq> [] \<Longrightarrow> length items \<le> length (data_of items)"
proof (induction items)
  case (Cons i items)
  then have "length items \<le> length (data_of items)" by simp
  moreover have "1 \<le> length (item_bytes i)" using Cons.prems by (cases "item_bytes i") simp_all
  ultimately show ?case unfolding data_of_def by simp
qed simp

lemma buildChanges_not_empty [simp]: "buildChanges lib repo tree changes \<noteq> []"
  by (simp add: buildChanges_def bytes_of_text_def)

lemma build_items_written:
  assumes "build_items lib repo name revision changes root = Inr items"
  obtains tree n where "assignNodes revision True 3 root = (tree, n)"
    "node_written lib repo name revision (set items) tree" "items \<noteq> []" "distinct (map item_number items)"
    "\<forall>i\<in>set items. item_bytes i \<noteq> [] \<and> 1 \<le> item_kind i \<and> item_kind i \<le> 6 \<and> 1 \<le> item_number i \<and>
       item_number i \<le> int (length items)"
    "\<lparr>item_number = 1, item_kind = 6, item_bytes = buildChanges lib repo tree changes\<rparr> \<in> set items"
proof -
  obtain tree n where a: "assignNodes revision True 3 root = (tree, n)" by fastforce
  then obtain b where b: "buildNode lib repo name revision tree \<lparr>b_next = n, b_items = []\<rparr> = Inr b"
    and items: "items = b_items b @ [\<lparr>item_number = 1, item_kind = 6, item_bytes = buildChanges lib repo tree changes\<rparr>]"
    using assms by (auto simp: build_items_def and_then_Inr)
  have w: "node_written lib repo name revision (set (b_items b)) tree"
    "appended \<lparr>b_next = n, b_items = []\<rparr> b (node_numbers tree)"
    using buildNode_written(1) [OF b] by blast+
  have "3 \<le> n" "mset (node_numbers tree) = mset ([2] @ [3..n - 1])"
    using assign_numbers(1) [OF a] by simp_all
  moreover have "n \<le> b_next b" "mset (map item_number (b_items b)) = mset (node_numbers tree) + mset [n..b_next b - 1]"
    "\<forall>i\<in>set (b_items b). item_bytes i \<noteq> [] \<and> 1 \<le> item_kind i \<and> item_kind i \<le> 6"
    using w(2) by (auto simp: appended_def)
  moreover have "[3..n - 1] @ [n..b_next b - 1] = [3..b_next b - 1]" if "3 \<le> n" "n \<le> b_next b"
    using that upto_split2 [of 3 "n - 1" "b_next b - 1"] by (cases "n = 3") auto
  ultimately have f: "3 \<le> b_next b" "mset (map item_number (b_items b)) = mset (2 # [3..b_next b - 1])"
    "\<forall>i\<in>set (b_items b). item_bytes i \<noteq> [] \<and> 1 \<le> item_kind i \<and> item_kind i \<le> 6"
    by (auto simp flip: mset_append)
  have "[1..b_next b - 1] = 1 # 2 # [3..b_next b - 1]"
    using f(1) by (simp add: upto_rec1 [of 1] upto_rec1 [of 2])
  then have m: "mset (map item_number items) = mset [1..b_next b - 1]"
    using f(2) by (simp add: items)
  then have "length (map item_number items) = length [1..b_next b - 1]" by (metis size_mset)
  then have len: "int (length items) = b_next b - 1" using f(1) by simp
  have numbers: "item_number ` set items = {1..b_next b - 1}" using m by (metis list.set_map set_mset_mset set_upto)
  have bounds: "\<forall>i\<in>set items. 1 \<le> item_number i \<and> item_number i \<le> int (length items)"
  proof
    fix i assume "i \<in> set items"
    then have "item_number i \<in> {1..b_next b - 1}" using numbers by blast
    then show "1 \<le> item_number i \<and> item_number i \<le> int (length items)" using len by simp
  qed
  show thesis
  proof (rule that [OF a])
    show "node_written lib repo name revision (set items) tree"
      by (rule node_written_mono [OF w(1)]) (auto simp: items)
    show "distinct (map item_number items)" using m mset_eq_imp_distinct_iff [of "map item_number items" "[1..b_next b - 1]"] by simp
    show "\<forall>i\<in>set items. item_bytes i \<noteq> [] \<and> 1 \<le> item_kind i \<and> item_kind i \<le> 6 \<and> 1 \<le> item_number i \<and> item_number i \<le> int (length items)"
      using bounds f(3) by (auto simp: items)
  qed (simp_all add: items)
qed

lemma items_fit:
  assumes "\<forall>i\<in>set items. item_bytes i \<noteq> [] \<and> 1 \<le> item_kind i \<and> item_kind i \<le> 6 \<and> 1 \<le> item_number i \<and> item_number i \<le> int (length items)"
    and "length (data_of items) < 2 ^ 40"
  shows "list_all item_fits items"
proof -
  have "length items < 2 ^ 40" using data_of_length [of items] assms by fastforce
  then have "int (length items) < 2 ^ 40" by simp
  then show ?thesis unfolding list_all_iff item_fits_def using assms(1) by force
qed

text \<open>A commit of small enough items is stored in the repository it leaves.\<close>

lemma written_items_stored:
  assumes md5: "\<forall>x. length (std_md5 lib x) = 16" and rev: "0 \<le> revision" "revision < 2 ^ 63"
    and items: "items \<noteq> []" "distinct (map item_number items)"
      "\<forall>i\<in>set items. item_bytes i \<noteq> [] \<and> 1 \<le> item_kind i \<and> item_kind i \<le> 6 \<and> 1 \<le> item_number i \<and> item_number i \<le> int (length items)"
    and size: "length (data_of items) < 2 ^ 40" "\<nexists>k. 20 \<le> k \<and> length (data_of items) = 2 ^ k"
    and written: "logicalRevision (std_md5 lib) revision items = Inr contents" "fmlookup (repo_files repo) revision = Some contents"
  shows "stores lib repo revision items"
proof -
  have fits: "list_all item_fits items" by (rule items_fit [OF items(3) size(1)])
  obtain contents' f rest where w: "logicalRevision (std_md5 lib) revision items = Inr contents'" "open_logical (std_md5 lib) contents' = Inr f"
    "rf_contents f = data_of items @ rest" "rf_data_end f = int (length (data_of items))"
    "\<And>a i b. items = a @ i # b \<Longrightarrow> itemOffset f revision (item_number i) = Inr (int (length (data_of a)))"
    "\<And>i. i \<in> set items \<Longrightarrow> itemData f revision (item_number i) = Inr (item_bytes i)"
    by (rule written_revision [OF md5 items(1) fits items(2) size rev]) blast
  then have "openRevision lib repo revision = Inr f" using written rev(1) by (simp add: openRevision_def)
  then show ?thesis unfolding stores_def using w(3-6) size(1) by blast
qed

section \<open>Reading the items of a commit\<close>

definition lib_ok :: "stdlib \<Rightarrow> bool" where
  "lib_ok lib \<longleftrightarrow> (\<forall>x. length (std_md5 lib x) = 16) \<and> (\<forall>x. length (std_sha1 lib x) = 20)"

definition name_ok :: "string \<Rightarrow> bool" where
  "name_ok name \<longleftrightarrow> plain name \<and> length name \<le> 65000"

lemma equal_hex_refl [simp]: "equal_hex a a"
  by (simp add: equal_hex_def)

lemma rep_written_read:
  assumes "stores lib repo revision items" "rep_written lib name revision (set items) r contents"
  shows "writeRepresentation lib repo (Some r) = Inr contents"
proof -
  from assms(2) obtain kind where k: "\<lparr>item_number = rep_item r, item_kind = kind, item_bytes = plain_representation contents\<rparr> \<in> set items"
    and r: "r = \<lparr>rep_revision = revision, rep_item = rep_item r, rep_length = int (length contents),
        rep_expanded = int (length contents), rep_md5 = hex_encode (std_md5 lib contents),
        rep_sha1 = hex_encode (std_sha1 lib contents), rep_uniquifier = name @ ''/_'' @ base36 (nat (rep_item r))\<rparr>"
    by (auto simp: rep_written_def)
  have "rep_revision r = revision" "rep_length r = int (length contents)" "rep_expanded r = int (length contents)"
    "rep_md5 r = hex_encode (std_md5 lib contents)" "rep_sha1 r = hex_encode (std_sha1 lib contents)"
    by (subst r, simp)+
  then show ?thesis by (intro writeRepresentation_stored [OF assms(1) k]) (simp_all add: check_digest_def)
qed

lemma plain_rep_item_bytes: "length contents \<le> length (plain_representation contents)"
  by (simp add: plain_representation_def)

lemma item_bytes_length: "i \<in> set items \<Longrightarrow> length (item_bytes i) \<le> length (data_of items)"
  by (induction items) auto

lemma rep_written_text_ok:
  assumes "lib_ok lib" "name_ok name" "0 \<le> revision" "revision < 2 ^ 63" "rep_written lib name revision (set items) r contents"
    "\<forall>i\<in>set items. 0 \<le> item_number i \<and> item_number i < 2 ^ 40" "length (data_of items) < 2 ^ 40"
  shows "rep_text_ok r"
proof -
  obtain kind where k: "\<lparr>item_number = rep_item r, item_kind = kind, item_bytes = plain_representation contents\<rparr> \<in> set items"
    and r: "r = \<lparr>rep_revision = revision, rep_item = rep_item r, rep_length = int (length contents),
        rep_expanded = int (length contents), rep_md5 = hex_encode (std_md5 lib contents),
        rep_sha1 = hex_encode (std_sha1 lib contents), rep_uniquifier = name @ ''/_'' @ base36 (nat (rep_item r))\<rparr>"
    using assms(5) by (auto simp: rep_written_def)
  have item: "0 \<le> rep_item r" "rep_item r < 2 ^ 40" using k assms(6) by force+
  have "length contents < 2 ^ 40"
    using plain_rep_item_bytes [of contents] item_bytes_length [OF k] assms(7) by simp
  then have len: "nonneg64 (int (length contents))" by (simp add: nonneg64_def)
  have "nat (rep_item r) < 2 ^ 63" using item by simp
  then have short: "length (base36 (nat (rep_item r))) \<le> 13" by (rule base36_short)
  have mark: "plain ''/_''" by code_simp
  have uni: "plain (name @ ''/_'' @ base36 (nat (rep_item r)))"
    using assms(2) base36_plain mark by (auto simp: name_ok_def plain_def list_all_iff)
  have "rep_ok \<lparr>rep_revision = revision, rep_item = rep_item r, rep_length = int (length contents),
        rep_expanded = int (length contents), rep_md5 = hex_encode (std_md5 lib contents),
        rep_sha1 = hex_encode (std_sha1 lib contents), rep_uniquifier = name @ ''/_'' @ base36 (nat (rep_item r))\<rparr>"
    unfolding rep_ok_def using assms(1,3,4) item len uni
    by (auto simp: nonneg64_def validHexDigest_def lib_ok_def Cons_eq_append_conv append_eq_Cons_conv)
  then have ok: "rep_ok r" using r by simp
  have "rep_uniquifier r = name @ ''/_'' @ base36 (nat (rep_item r))" by (subst r) simp
  then show ?thesis using ok short assms(2) by (simp add: rep_text_ok_def name_ok_def)
qed

end
