(* ===== verification/Fsfs_Committed.thy ===== *)
theory Fsfs_Committed
  imports Fsfs_Build
begin

text \<open>
  A commit, read back. A node of the transaction that changed becomes a node of the new revision
  (\<open>represents\<close>), one that did not stays the node of an earlier revision (\<open>becomes\<close>); one step down
  the tree of the transaction is one step down the committed tree (\<open>becomes_step\<close>), and so a path
  leads to the same place in both (\<open>walk\<close>). The transaction has to satisfy \<open>changed\<close>: what it
  loaded is what its base shows, names are not repeated, and identifiers and paths can be written to
  the lines of a record. A small transaction at the end shows that this is possible.
\<close>

section \<open>Directories are read back\<close>

lemma parse_entry_written:
  "kind = NodeFile \<or> kind = NodeDir \<Longrightarrow> id_ok i \<Longrightarrow>
     parse_entry (NodeKind_String kind @ '' '' @ ID_String i) = Inr \<lparr>de_kind = kind, de_id = i\<rparr>"
proof -
  assume kind: "kind = NodeFile \<or> kind = NodeDir" and i: "id_ok i"
  have "CHR '' '' \<notin> set (NodeKind_String kind)" "ParseNodeKind (NodeKind_String kind) = Some kind"
    using kind by (auto simp: ParseNodeKind_def)
  moreover from this(1) have "cut CHR '' '' (NodeKind_String kind @ '' '' @ ID_String i) = (NodeKind_String kind, ID_String i, True)"
    by (simp add: cut_at)
  ultimately show ?thesis using kind i by (auto simp: parse_entry_def)
qed

lemma parse_entries_values:
  assumes "\<And>n v. (n, v) \<in> set vs \<Longrightarrow> parse_entry v = Inr (e n)"
  shows "\<exists>m. parse_entries vs = Inr m \<and> (\<forall>n. fmlookup m n = (if n \<in> fst ` set vs then Some (e n) else None))"
  using assms
proof (induction vs)
  case (Cons w vs)
  obtain n v where w: "w = (n, v)" by (cases w)
  obtain m where "parse_entries vs = Inr m" "\<forall>n. fmlookup m n = (if n \<in> fst ` set vs then Some (e n) else None)"
    using Cons by fastforce
  then show ?case using Cons.prems by (fastforce simp: w)
qed simp

lemma directory_values_lookup:
  assumes "distinct (map fst entries)"
  shows "fmlookup (directory_values entries) name =
    (case map_of entries name of None \<Rightarrow> None | Some (kind, i) \<Rightarrow> Some (NodeKind_String kind @ '' '' @ ID_String i))"
proof -
  have "directory_values entries = fold (\<lambda>(n, v). fmupd n v) (map (\<lambda>(n, kind, i). (n, NodeKind_String kind @ '' '' @ ID_String i)) entries) fmempty"
    unfolding directory_values_def fold_map by (rule arg_cong [of _ _ "\<lambda>f. fold f entries fmempty"]) (simp add: fun_eq_iff split_beta)
  moreover have "map fst (map (\<lambda>(n, kind, i). (n, NodeKind_String kind @ '' '' @ ID_String i)) entries) = map fst entries"
    by (simp add: split_beta comp_def)
  moreover have "map_of (map (\<lambda>(n, kind, i). (n, NodeKind_String kind @ '' '' @ ID_String i)) entries) name =
      (case map_of entries name of None \<Rightarrow> None | Some (kind, i) \<Rightarrow> Some (NodeKind_String kind @ '' '' @ ID_String i))"
    by (induction entries) auto
  ultimately show ?thesis using assms by (simp only: fold_fmupd_lookup fmempty_lookup) (simp split: option.split)
qed

lemma directory_written:
  assumes "distinct (map fst entries)" "\<forall>(name, kind, i)\<in>set entries. (kind = NodeFile \<or> kind = NodeDir) \<and> id_ok i"
    "write_hash (directory_values entries) = Inr data"
  shows "\<exists>m. parseDirectoryEntries (text_of_bytes data) = Inr m \<and>
    (\<forall>name. fmlookup m name = (case map_of entries name of None \<Rightarrow> None | Some (kind, i) \<Rightarrow> Some \<lparr>de_kind = kind, de_id = i\<rparr>))"
proof -
  let ?vs = "sorted_entries (directory_values entries)"
  define e where "e n = (case map_of entries n of None \<Rightarrow> undefined | Some (kind, i) \<Rightarrow> \<lparr>de_kind = kind, de_id = i\<rparr>)" for n
  obtain s where t: "Write (directory_values entries) = Inr s" "data = bytes_of_text s"
    using assms(3) by (auto simp: write_hash_def split: sum.splits)
  have read: "ReadHash (text_of_bytes data) = Inr (directory_values entries)"
    using ReadHash_Write [OF t(1), of "[]"] by (simp add: t(2))
  have "parse_entry v = Inr (e n)" if "(n, v) \<in> set ?vs" for n v
  proof -
    have "fmlookup (directory_values entries) n = Some v" using that by (simp add: sorted_entries_iff)
    then obtain kind i where k: "map_of entries n = Some (kind, i)" "v = NodeKind_String kind @ '' '' @ ID_String i"
      by (auto simp: directory_values_lookup [OF assms(1)] split: option.splits)
    then have "(n, kind, i) \<in> set entries" by (simp add: map_of_SomeD)
    then have "(kind = NodeFile \<or> kind = NodeDir) \<and> id_ok i" using assms(2) by blast
    then show ?thesis using parse_entry_written k by (simp add: e_def)
  qed
  then obtain m where m: "parse_entries ?vs = Inr m" "\<forall>n. fmlookup m n = (if n \<in> fst ` set ?vs then Some (e n) else None)"
    using parse_entries_values by blast
  have "n \<in> fst ` set ?vs \<longleftrightarrow> map_of entries n \<noteq> None" for n
  proof -
    have "n \<in> fst ` set ?vs \<longleftrightarrow> fmlookup (directory_values entries) n \<noteq> None"
      by (simp only: list.set_map [symmetric] sorted_entries_keys sorted_keys fmlookup_dom_iff) auto
    then show ?thesis by (simp add: directory_values_lookup [OF assms(1)] split: option.splits)
  qed
  with m show ?thesis by (auto simp: parseDirectoryEntries_def read e_def split: option.splits)
qed

section \<open>Transactions that can be committed\<close>

text \<open>A node without changes, and what has been loaded below it, is what its base shows.\<close>

definition child_of_base :: "stdlib \<Rightarrow> repository \<Rightarrow> (string, directory_entry) fmap \<Rightarrow> string \<times> txn_node \<Rightarrow> bool" where
  "child_of_base lib repo entries c \<longleftrightarrow>
     (\<exists>e. fmlookup entries (fst c) = Some e \<and> readNode lib repo (de_id e) = Inr (tn_base_node (data_of_node (snd c))))"

definition unchanged :: "txn_data \<Rightarrow> bool" where
  "unchanged d \<longleftrightarrow> \<not> tn_dirty d \<and> \<not> tn_new d \<and> \<not> tn_text_modified d \<and> \<not> tn_props_modified d \<and>
     tn_base d \<noteq> None \<and> tn_kind d = nr_kind (tn_base_node d)"

fun clean :: "stdlib \<Rightarrow> repository \<Rightarrow> txn_node \<Rightarrow> bool" where
  "clean lib repo (TxnNode d cs) \<longleftrightarrow>
     unchanged d \<and>
     (case cs of None \<Rightarrow> True
      | Some children \<Rightarrow>
          distinct (map fst children) \<and>
          (\<exists>entries. directoryEntries lib repo (tn_base_node d) = Inr entries \<and> fst ` set children = fset (fmdom entries) \<and>
             list_all (child_of_base lib repo entries) children) \<and>
          (\<forall>c\<in>set children. clean lib repo (snd c)))"

text \<open>
  A node to be committed: its texts can be written to a record, and its children are to be committed
  or are nodes of earlier revisions.
\<close>

definition committable :: "revnum \<Rightarrow> txn_data \<Rightarrow> bool" where
  "committable revision d \<longleftrightarrow>
     record_ok revision d \<and> text_ok (tn_temporary_id d) \<and> length (tn_temporary_id d) \<le> 60000 \<and>
     CHR ''.'' \<notin> set (tn_temporary_id d) \<and>
     (if tn_new d then tn_base_node d = no_revision
      else (\<forall>r. nr_text (tn_base_node d) = Some r \<or> nr_properties (tn_base_node d) = Some r \<longrightarrow> rep_text_ok r))"

definition kept :: "stdlib \<Rightarrow> repository \<Rightarrow> txn_node \<Rightarrow> bool" where
  "kept lib repo t \<longleftrightarrow>
     clean lib repo t \<and> (\<exists>i. readNode lib repo i = Inr (tn_base_node (data_of_node t)))"

fun changed :: "stdlib \<Rightarrow> repository \<Rightarrow> revnum \<Rightarrow> txn_node \<Rightarrow> bool" where
  "changed lib repo revision (TxnNode d cs) \<longleftrightarrow>
     committable revision d \<and>
     (case cs of None \<Rightarrow> True
      | Some children \<Rightarrow>
          distinct (map fst children) \<and>
          (\<forall>c\<in>set children. if tn_dirty (data_of_node (snd c)) then changed lib repo revision (snd c) else kept lib repo (snd c)))"

lemma load_entries_children:
  "load_entries lib repo base d vs = Inr cs \<Longrightarrow>
     map fst cs = map fst vs \<and>
     (\<forall>c\<in>set cs. \<exists>e. (fst c, e) \<in> set vs \<and> readNode lib repo (de_id e) = Inr (tn_base_node (data_of_node (snd c))) \<and>
        unchanged (data_of_node (snd c)) \<and> children_of_node (snd c) = None)"
proof (induction vs arbitrary: cs)
  case (Cons v vs)
  obtain name entry where v: "v = (name, entry)" by (cases v)
  obtain child rest where c: "readNode lib repo (de_id entry) = Inr child" "load_entries lib repo base d vs = Inr rest"
    "cs = (name, TxnNode ((newTxnNode base (path_Join [tn_base_path d, name]) child)
        \<lparr>tn_created_path := path_Join [tn_created_path d, name]\<rparr>) None) # rest"
    using Cons.prems by (auto simp: v and_then_Inr)
  have "unchanged ((newTxnNode base (path_Join [tn_base_path d, name]) child) \<lparr>tn_created_path := path_Join [tn_created_path d, name]\<rparr>)"
    by (simp add: unchanged_def newTxnNode_def)
  then show ?case using Cons.IH [OF c(2)] c by (auto simp: v newTxnNode_def)
qed simp

lemma clean_leaf: "unchanged (data_of_node t) \<Longrightarrow> children_of_node t = None \<Longrightarrow> clean lib repo t"
  by (cases t) simp

text \<open>The children of a node that is loaded now are the entries of its base.\<close>

lemma loadChildren_base:
  assumes "children_of_node t = None" "loadChildren lib repo t = Inr cs"
  shows "distinct (map fst cs) \<and>
    (\<exists>entries. directoryEntries lib repo (tn_base_node (data_of_node t)) = Inr entries \<and> fst ` set cs = fset (fmdom entries) \<and>
       list_all (child_of_base lib repo entries) cs) \<and>
    (\<forall>c\<in>set cs. clean lib repo (snd c) \<and> children_of_node (snd c) = None)"
proof -
  obtain base entries where e: "directoryEntries lib repo (tn_base_node (data_of_node t)) = Inr entries"
    "load_entries lib repo base (data_of_node t) (sorted_entries entries) = Inr cs"
    using assms by (auto simp: loadChildren_def Let_def and_then_Inr split: if_splits option.splits)
  note l = load_entries_children [OF e(2)]
  then have names: "map fst cs = sorted_list_of_fset (fmdom entries)" by (simp add: sorted_entries_keys)
  then have "distinct (map fst cs)" by (simp only: sorted_keys)
  moreover have "fst ` set cs = fset (fmdom entries)" using names by (metis list.set_map sorted_keys(2))
  moreover have "list_all (child_of_base lib repo entries) cs"
    using l by (fastforce simp: list_all_iff child_of_base_def sorted_entries_iff)
  moreover have "\<forall>c\<in>set cs. clean lib repo (snd c) \<and> children_of_node (snd c) = None" using l clean_leaf by blast
  ultimately show ?thesis using e(1) by blast
qed

text \<open>One step down an unchanged tree.\<close>

lemma clean_step:
  assumes "clean lib repo t" "node_kind t = NodeDir" "loadChildren lib repo t = Inr cs"
  obtains entries where "directoryEntries lib repo (tn_base_node (data_of_node t)) = Inr entries"
    "\<And>name. map_of cs name = None \<Longrightarrow> fmlookup entries name = None"
    "\<And>name child. map_of cs name = Some child \<Longrightarrow> clean lib repo child \<and> child_of_base lib repo entries (name, child)"
proof -
  obtain d stored where t: "t = TxnNode d stored" by (cases t)
  have "distinct (map fst cs) \<and>
    (\<exists>entries. directoryEntries lib repo (tn_base_node (data_of_node t)) = Inr entries \<and> fst ` set cs = fset (fmdom entries) \<and>
       list_all (child_of_base lib repo entries) cs) \<and> (\<forall>c\<in>set cs. clean lib repo (snd c))"
  proof (cases stored)
    case None
    then show ?thesis using loadChildren_base [of t lib repo cs] assms(3) by (simp add: t)
  next
    case (Some children)
    then have "cs = children" using assms(3) by (simp add: t loadChildren_def)
    then show ?thesis using assms(1) by (simp add: t Some)
  qed
  then obtain entries where e: "directoryEntries lib repo (tn_base_node (data_of_node t)) = Inr entries"
    "fst ` set cs = fset (fmdom entries)" "list_all (child_of_base lib repo entries) cs" "\<forall>c\<in>set cs. clean lib repo (snd c)"
    by blast
  show thesis
  proof (rule that [OF e(1)])
    fix name assume "map_of cs name = None"
    then have "name \<notin> fset (fmdom entries)" using e(2) by (simp add: map_of_eq_None_iff)
    then show "fmlookup entries name = None" by (simp add: fmdom_notD)
  next
    fix name child assume "map_of cs name = Some child"
    then have "(name, child) \<in> set cs" by (rule map_of_SomeD)
    then show "clean lib repo child \<and> child_of_base lib repo entries (name, child)" using e(3,4) by (fastforce simp: list_all_iff)
  qed
qed

section \<open>Committed nodes are read back\<close>

definition committed_items ::
    "stdlib \<Rightarrow> repository \<Rightarrow> repository \<Rightarrow> string \<Rightarrow> revnum \<Rightarrow> revision_item list \<Rightarrow> bool" where
  "committed_items lib repo repo' name revision items \<longleftrightarrow>
     extends_files repo repo' \<and> stores lib repo' revision items \<and> lib_ok lib \<and> name_ok name \<and> 0 \<le> revision \<and> revision < 2 ^ 63 \<and>
     (\<forall>i\<in>set items. 0 \<le> item_number i \<and> item_number i < 2 ^ 40) \<and> length (data_of items) < 2 ^ 40"

lemma permanentIDPart_ok:
  assumes "text_ok s" "length s \<le> 60000" "CHR ''.'' \<notin> set s" "0 \<le> revision" "revision < 2 ^ 63"
  shows "text_ok (permanentIDPart s revision) \<and> CHR ''.'' \<notin> set (permanentIDPart s revision)"
proof -
  let ?counter = "TrimPrefix s ''_''"
  have "set ?counter \<subseteq> set s" "length ?counter \<le> length s" by (auto simp: TrimPrefix_def dest: in_set_dropD)
  moreover have "length (base36 (nat revision)) \<le> 13" using assms(4,5) by (intro base36_short) simp
  ultimately show ?thesis using assms by (auto simp: permanentIDPart_def Let_def text_ok_def)
qed

lemma permanent_id_ok:
  assumes "committable revision d" "0 \<le> revision" "revision < 2 ^ 63" "0 \<le> n" "n < 2 ^ 40"
  shows "id_text_ok (permanent_id revision d n)"
proof -
  have part: "text_ok (permanentIDPart (tn_temporary_id d) revision) \<and> CHR ''.'' \<notin> set (permanentIDPart (tn_temporary_id d) revision)"
    using assms by (intro permanentIDPart_ok) (simp_all add: committable_def)
  have zero: "text_ok ''0''" by (simp add: text_ok_def)
  have base: "\<not> tn_new d \<Longrightarrow> id_text_ok (nr_id (tn_base_node d))"
    using assms(1) by (simp add: committable_def record_ok_def)
  show ?thesis using part zero base assms(2-5)
    by (auto simp: id_text_ok_def id_ok_def permanent_id_def nonneg64_def)
qed

lemma node_fields_not_empty: "node_fields revision i d content properties \<noteq> []"
  unfolding node_fields_table field_table_def Let_def split_beta by simp

lemma record_read:
  assumes C: "committed_items lib repo repo' name revision items" and d: "committable revision d"
    and i: "i = permanent_id revision d n" "0 \<le> n" "n < 2 ^ 40"
    and w: "record_written lib repo name revision (set items) i d cs"
  obtains content properties entries f offset data where "node_entries lib repo d cs = Inr entries"
    "text_written lib repo name revision (set items) d entries content"
    "props_written lib repo name revision (set items) d properties"
    "openRevision lib repo' revision = Inr f" "itemOffset f revision n = Inr offset" "0 \<le> offset" "offset < int (length (rf_contents f))"
    "recordData f offset = Inr data" "parseNodeRevision (text_of_bytes data) = Inr (committed_revision revision i d content properties)"
proof -
  note c = C [unfolded committed_items_def]
  obtain content properties entries where e: "node_entries lib repo d cs = Inr entries"
    "text_written lib repo name revision (set items) d entries content"
    "props_written lib repo name revision (set items) d properties"
    "\<lparr>item_number = id_item i, item_kind = 5, item_bytes = nodeRecord revision i d content properties\<rparr> \<in> set items"
    using w by (auto simp: record_written_def)
  have rep: "rep_text_ok r" if "rep_written lib name revision (set items) r contents" for r contents
    using rep_written_text_ok [OF _ _ _ _ that] c by blast
  have base: "\<not> tn_new d \<Longrightarrow> \<forall>r. nr_text (tn_base_node d) = Some r \<or> nr_properties (tn_base_node d) = Some r \<longrightarrow> rep_text_ok r"
    using d by (simp add: committable_def)
  have content: "\<forall>r. content = Some r \<longrightarrow> rep_text_ok r"
    using e(2) rep base unfolding text_written_def by (auto split: if_splits)
  have properties: "\<forall>r. properties = Some r \<longrightarrow> rep_text_ok r"
    using e(3) rep base unfolding props_written_def by (auto split: if_splits)
  have id_ok: "id_text_ok i" unfolding i(1) using c i(2,3) by (intro permanent_id_ok [OF d]) blast+
  have rec_ok: "record_ok revision d" using d by (simp add: committable_def)
  let ?lines = "map field_line (node_fields revision i d content properties)"
  note ok = fields_ok [OF rec_ok id_ok content properties]
  have full: "list_all full_line ?lines" using ok by (auto simp: list_all_iff)
  have "length (text_of_lines ?lines) \<le> length ?lines * 300001"
    by (rule record_text_length) (use ok in auto)
  then have short: "length (text_of_lines ?lines) < 16 * 1024 * 1024"
    using node_fields_length [of revision i d content properties] by simp
  have stored: "stores lib repo' revision items" using c by blast
  have item: "\<lparr>item_number = n, item_kind = 5, item_bytes = bytes_of_text (text_of_lines (?lines @ [[]]))\<rparr> \<in> set items"
    using e(4) by (simp add: i(1) nodeRecord_def)
  obtain f offset where f: "openRevision lib repo' revision = Inr f" "itemOffset f revision n = Inr offset"
    "0 \<le> offset" "offset < int (length (rf_contents f))" "recordData f offset = Inr (bytes_of_text (text_of_lines (?lines @ [[]])))"
    by (rule recordData_stored [OF stored item _ full short]) (simp_all add: node_fields_not_empty)
  show thesis
    by (rule that [OF e(1-3) f]) (simp only: text_of_bytes_of_text parse_record [OF rec_ok id_ok content properties])
qed

text \<open>What a node revision of the new repository must show of a node of the transaction.\<close>

definition txn_text :: "stdlib \<Rightarrow> repository \<Rightarrow> txn_data \<Rightarrow> fs_error + bytes" where
  "txn_text lib repo d =
     (if tn_text_modified d \<or> tn_new d then loadContent lib repo d else writeRepresentation lib repo (nr_text (tn_base_node d)))"

definition txn_props :: "stdlib \<Rightarrow> repository \<Rightarrow> txn_data \<Rightarrow> fs_error + props" where
  "txn_props lib repo d =
     (if tn_props_modified d \<or> tn_new d then loadProperties lib repo d else read_props lib repo (nr_properties (tn_base_node d)))"

definition shows_node :: "stdlib \<Rightarrow> repository \<Rightarrow> repository \<Rightarrow> txn_data \<Rightarrow> node_revision \<Rightarrow> bool" where
  "shows_node lib repo repo' d node \<longleftrightarrow>
     nr_kind node = tn_kind d \<and>
     (\<forall>contents. tn_kind d = NodeFile \<and> txn_text lib repo d = Inr contents \<longrightarrow>
        writeRepresentation lib repo' (nr_text node) = Inr contents) \<and>
     (\<forall>vs. txn_props lib repo d = Inr vs \<longrightarrow> read_props lib repo' (nr_properties node) = Inr vs)"

lemma read_props_extends: "extends_files repo repo' \<Longrightarrow> read_props lib repo r = Inr vs \<Longrightarrow> read_props lib repo' r = Inr vs"
  by (auto simp: read_props_def and_then_Inr writeRepresentation_extends split: if_splits)

lemma unchanged_shown: "extends_files repo repo' \<Longrightarrow> unchanged d \<Longrightarrow> shows_node lib repo repo' d (tn_base_node d)"
  by (auto simp: shows_node_def txn_text_def txn_props_def unchanged_def writeRepresentation_extends read_props_extends)

lemma committed_revision_fields [simp]:
  "nr_id (committed_revision revision i d content properties) = i"
  "nr_kind (committed_revision revision i d content properties) = tn_kind d"
  "nr_text (committed_revision revision i d content properties) = content"
  "nr_properties (committed_revision revision i d content properties) = properties"
  by (simp_all add: committed_revision_def Let_def split_beta)

lemma written_hash_read: "write_hash vs = Inr data \<Longrightarrow> ReadHash (text_of_bytes data) = Inr vs"
  using ReadHash_Write [of vs _ "[]"] by (auto simp: write_hash_def split: sum.splits)

lemma written_shown:
  assumes C: "committed_items lib repo repo' name revision items"
    and "text_written lib repo name revision (set items) d entries content"
    and "props_written lib repo name revision (set items) d properties"
  shows "shows_node lib repo repo' d (committed_revision revision i d content properties)"
proof -
  note c = C [unfolded committed_items_def]
  have ext: "extends_files repo repo'" and stored: "stores lib repo' revision items" using c by blast+
  have "writeRepresentation lib repo' content = Inr contents" if "tn_kind d = NodeFile" "txn_text lib repo d = Inr contents" for contents
    using assms(2) that rep_written_read [OF stored] writeRepresentation_extends [OF ext]
    by (auto simp: text_written_def txn_text_def split: if_splits)
  moreover have "read_props lib repo' properties = Inr vs" if t: "txn_props lib repo d = Inr vs" for vs
  proof (cases "tn_props_modified d \<or> tn_new d")
    case True
    then have v: "loadProperties lib repo d = Inr vs" using t by (simp add: txn_props_def)
    show ?thesis
    proof (cases "vs = fmempty")
      case True
      with v \<open>tn_props_modified d \<or> tn_new d\<close> assms(3) have "properties = None" by (simp add: props_written_def)
      with True show ?thesis by (simp add: read_props_def)
    next
      case False
      with v \<open>tn_props_modified d \<or> tn_new d\<close> assms(3) obtain r data where
        "write_hash vs = Inr data" "properties = Some r" "rep_written lib name revision (set items) r data"
        by (auto simp: props_written_def)
      then show ?thesis using rep_written_read [OF stored] written_hash_read by (simp add: read_props_def)
    qed
  next
    case False
    then show ?thesis using t assms(3) read_props_extends [OF ext] by (simp add: txn_props_def props_written_def)
  qed
  ultimately show ?thesis by (simp add: shows_node_def)
qed

section \<open>The new revision shows the tree of the transaction\<close>

definition assigned_kids :: "revnum \<Rightarrow> txn_data \<Rightarrow> txn_children option \<Rightarrow> (string \<times> commit_node) list option \<Rightarrow> bool" where
  "assigned_kids revision d stored kids \<longleftrightarrow>
     (case (if tn_kind d = NodeDir then stored else None) of
        None \<Rightarrow> kids = None
      | Some children \<Rightarrow> \<exists>m m' ks. assign_children revision m (sort_key fst children) = (ks, m') \<and> kids = Some ks)"

definition represents ::
    "stdlib \<Rightarrow> repository \<Rightarrow> string \<Rightarrow> revnum \<Rightarrow> revision_item set \<Rightarrow> txn_node \<Rightarrow> node_revision \<Rightarrow> bool" where
  "represents lib repo name revision items t node \<longleftrightarrow>
     changed lib repo revision t \<and>
     (\<exists>n kids content properties entries.
        assigned_kids revision (data_of_node t) (children_of_node t) kids \<and>
        node_entries lib repo (data_of_node t) kids = Inr entries \<and>
        text_written lib repo name revision items (data_of_node t) entries content \<and>
        props_written lib repo name revision items (data_of_node t) properties \<and>
        (tn_kind (data_of_node t) = NodeDir \<longrightarrow>
          (\<forall>ks. kids = Some ks \<longrightarrow> (\<forall>kid\<in>set ks. tn_dirty (cn_data (snd kid)) \<longrightarrow> node_written lib repo name revision items (snd kid)))) \<and>
        node = committed_revision revision (permanent_id revision (data_of_node t) n) (data_of_node t) content properties)"

lemma changed_committable: "changed lib repo revision t \<Longrightarrow> committable revision (data_of_node t)"
  by (cases t) simp

lemma assigned_read:
  assumes C: "committed_items lib repo repo' name revision items"
    and a: "assignNodes revision is_root m t = (c, m')" "tn_dirty (data_of_node t) \<or> is_root"
    and ok: "changed lib repo revision t" and w: "node_written lib repo name revision (set items) c"
  obtains node f offset data where
    "commit_id c = permanent_id revision (data_of_node t) (if is_root then 2 else m)"
    "openRevision lib repo' revision = Inr f" "itemOffset f revision (if is_root then 2 else m) = Inr offset"
    "0 \<le> offset" "offset < int (length (rf_contents f))" "recordData f offset = Inr data"
    "parseNodeRevision (text_of_bytes data) = Inr node" "nr_id node = commit_id c" "nr_kind node = node_kind t"
    "represents lib repo name revision (set items) t node" "id_ok (commit_id c)"
proof -
  obtain d stored where t: "t = TxnNode d stored" by (cases t)
  let ?n = "if is_root then 2 else m"
  let ?i = "permanent_id revision d ?n"
  obtain kids where c: "c = CommitNode (Some ?i) d kids" and k: "assigned_kids revision d stored kids"
  proof (cases "if tn_kind d = NodeDir then stored else None")
    case None
    then have "c = CommitNode (Some ?i) d None" "assigned_kids revision d stored None"
      using a by (auto simp: t Let_def assigned_kids_def split: if_splits)
    then show thesis by (rule that)
  next
    case (Some children)
    obtain ks m'' where ks: "assign_children revision (if is_root then m else m + 1) (sort_key fst children) = (ks, m'')" by fastforce
    then have "c = CommitNode (Some ?i) d (Some ks)"
      using a Some by (auto simp: t Let_def split: if_splits)
    moreover have "assigned_kids revision d stored (Some ks)" using ks Some by (auto simp: assigned_kids_def)
    ultimately show thesis by (rule that)
  qed
  have w': "record_written lib repo name revision (set items) ?i d kids"
    "tn_kind d = NodeDir \<longrightarrow> (\<forall>ks. kids = Some ks \<longrightarrow>
       (\<forall>kid\<in>set ks. tn_dirty (cn_data (snd kid)) \<longrightarrow> node_written lib repo name revision (set items) (snd kid)))"
    using w by (simp_all add: c split: option.splits)
  then have n: "0 \<le> ?n" "?n < 2 ^ 40"
    using C by (auto simp: record_written_def committed_items_def)
  have d: "committable revision d" using changed_committable [OF ok] by (simp add: t)
  obtain content properties entries f offset data where r: "node_entries lib repo d kids = Inr entries"
    "text_written lib repo name revision (set items) d entries content"
    "props_written lib repo name revision (set items) d properties"
    "openRevision lib repo' revision = Inr f" "itemOffset f revision ?n = Inr offset" "0 \<le> offset" "offset < int (length (rf_contents f))"
    "recordData f offset = Inr data" "parseNodeRevision (text_of_bytes data) = Inr (committed_revision revision ?i d content properties)"
    by (rule record_read [OF C d refl n w'(1)]) blast
  have "represents lib repo name revision (set items) t (committed_revision revision ?i d content properties)"
    unfolding represents_def t txn_node.sel
    by (rule conjI, rule ok [unfolded t], rule exI [of _ ?n], rule exI [of _ kids], rule exI [of _ content],
      rule exI [of _ properties], rule exI [of _ entries], intro conjI)
      (rule k, rule r(1), rule r(2), rule r(3), rule w'(2), rule refl)
  moreover have "id_ok ?i" using permanent_id_ok [OF d _ _ n] C by (simp add: committed_items_def id_text_ok_def)
  ultimately show thesis
    using r(4-9) by (intro that) (auto simp: c t commit_id_def)
qed

lemma assigned_readNode:
  assumes "committed_items lib repo repo' name revision items" "assignNodes revision False m t = (c, m')" "tn_dirty (data_of_node t)"
    "changed lib repo revision t" "node_written lib repo name revision (set items) c"
  obtains node where "readNode lib repo' (commit_id c) = Inr node" "nr_kind node = node_kind t"
    "represents lib repo name revision (set items) t node" "id_ok (commit_id c)"
proof -
  obtain node f offset data where r: "commit_id c = permanent_id revision (data_of_node t) (if False then 2 else m)"
    "openRevision lib repo' revision = Inr f" "itemOffset f revision (if False then 2 else m) = Inr offset"
    "0 \<le> offset" "offset < int (length (rf_contents f))" "recordData f offset = Inr data"
    "parseNodeRevision (text_of_bytes data) = Inr node" "nr_id node = commit_id c" "nr_kind node = node_kind t"
    "represents lib repo name revision (set items) t node" "id_ok (commit_id c)"
    by (rule assigned_read [OF assms(1,2) _ assms(4,5)]) (use assms(3) in auto)
  have "id_revision (commit_id c) = revision" "id_item (commit_id c) = m" by (simp_all add: r(1))
  then have "readNode lib repo' (commit_id c) = Inr node" using r(2-8) by (simp add: readNode_def)
  then show thesis using r by (intro that) auto
qed

lemma assign_children_kids:
  "assign_children revision m cs = (ks, m') \<Longrightarrow>
     list_all2 (\<lambda>c k. fst c = fst k \<and> (\<exists>n n'. assignNodes revision False n (snd c) = (snd k, n'))) cs ks"
proof (induction cs arbitrary: m ks m')
  case (Cons c cs)
  obtain name child where c: "c = (name, child)" by (cases c)
  obtain kid n where a: "assignNodes revision False m child = (kid, n)" by fastforce
  obtain rest n' where b: "assign_children revision n cs = (rest, n')" by fastforce
  have "\<exists>n n'. assignNodes revision False n child = (kid, n')" using a by blast
  moreover have "ks = (name, kid) # rest" using Cons.prems a b by (simp add: c)
  ultimately show ?case using Cons.IH [OF b] by (simp only: c list.rel_inject fst_conv snd_conv simp_thms)
qed simp

lemma list_all2_member: "list_all2 P xs ys \<Longrightarrow> x \<in> set xs \<Longrightarrow> \<exists>y\<in>set ys. P x y"
  by (induction rule: list_all2_induct) auto

lemma list_all2_names: "list_all2 (\<lambda>c k. fst c = fst k \<and> P c k) xs ys \<Longrightarrow> map fst xs = map fst ys"
  by (induction rule: list_all2_induct) auto

lemma commit_id_unassigned [simp]: "commit_id (unassigned t) = nr_id (tn_base_node (data_of_node t))"
  by (cases t) (simp add: commit_id_def)

lemma dirty_not_clean: "clean lib repo t \<Longrightarrow> \<not> tn_dirty (data_of_node t)"
  by (cases t) (simp add: unchanged_def)

lemma clean_unchanged: "clean lib repo t \<Longrightarrow> unchanged (data_of_node t)"
  by (cases t) simp

text \<open>
  What becomes of the child of a committed directory: a node of this revision, or the node of an
  earlier revision.
\<close>

definition becomes :: "stdlib \<Rightarrow> repository \<Rightarrow> repository \<Rightarrow> string \<Rightarrow> revnum \<Rightarrow> revision_item set \<Rightarrow> txn_node \<Rightarrow> node_revision \<Rightarrow> bool" where
  "becomes lib repo repo' name revision items t node \<longleftrightarrow>
     represents lib repo name revision items t node \<or>
     clean lib repo t \<and> node = tn_base_node (data_of_node t)"

definition committed_child ::
    "stdlib \<Rightarrow> repository \<Rightarrow> repository \<Rightarrow> string \<Rightarrow> revnum \<Rightarrow> revision_item set \<Rightarrow> commit_node \<Rightarrow> txn_node \<Rightarrow> bool" where
  "committed_child lib repo repo' name revision items kid child \<longleftrightarrow>
     cn_data kid = data_of_node child \<and> (node_kind child = NodeFile \<or> node_kind child = NodeDir) \<and> id_ok (commit_id kid) \<and>
     (\<exists>node. readNode lib repo' (commit_id kid) = Inr node \<and> becomes lib repo repo' name revision items child node)"

lemma kept_child:
  assumes "extends_files repo repo'" "clean lib repo child" "readNode lib repo i = Inr (tn_base_node (data_of_node child))"
  shows "committed_child lib repo repo' name revision items (unassigned child) child"
proof -
  have i: "i = nr_id (tn_base_node (data_of_node child))" using readNode_id [OF assms(3)] by simp
  have "well_typed (tn_base_node (data_of_node child))" by (rule readNode_typed [OF assms(3)])
  then show ?thesis
    using clean_unchanged [OF assms(2)] readNode_extends [OF assms(1,3)] assms(2)
    by (simp add: committed_child_def becomes_def well_typed_def unchanged_def i)
qed

lemma changed_child:
  assumes C: "committed_items lib repo repo' name revision items"
    and a: "assignNodes revision False n child = (kid, n')"
    and ok: "if tn_dirty (data_of_node child) then changed lib repo revision child else kept lib repo child"
    and w: "tn_dirty (data_of_node child) \<longrightarrow> node_written lib repo name revision (set items) kid"
  shows "committed_child lib repo repo' name revision (set items) kid child"
proof (cases "tn_dirty (data_of_node child)")
  case True
  then have ch: "changed lib repo revision child" "node_written lib repo name revision (set items) kid" using ok w by simp_all
  obtain node where "readNode lib repo' (commit_id kid) = Inr node"
    "represents lib repo name revision (set items) child node" "id_ok (commit_id kid)"
    by (rule assigned_readNode [OF C a True ch]) blast
  moreover have "node_kind child = NodeFile \<or> node_kind child = NodeDir"
    using changed_committable [OF ch(1)] by (simp add: committable_def record_ok_def)
  ultimately show ?thesis using cn_data_assigned [OF a] by (auto simp: committed_child_def becomes_def)
next
  case False
  then have k: "kid = unassigned child" using assign_numbers(1) [OF a] by simp
  obtain i where "clean lib repo child" "readNode lib repo i = Inr (tn_base_node (data_of_node child))"
    using ok False by (auto simp: kept_def)
  then show ?thesis unfolding k using C by (intro kept_child) (simp_all add: committed_items_def)
qed

lemma changed_step:
  assumes C: "committed_items lib repo repo' name revision items"
    and r: "represents lib repo name revision (set items) t node"
    and dir: "node_kind t = NodeDir" and load: "loadChildren lib repo t = Inr cs"
  obtains m where "directoryEntries lib repo' node = Inr m"
    "\<And>name. map_of cs name = None \<Longrightarrow> fmlookup m name = None"
    "\<And>p child. map_of cs p = Some child \<Longrightarrow>
       \<exists>e node'. fmlookup m p = Some e \<and> readNode lib repo' (de_id e) = Inr node' \<and>
         becomes lib repo repo' name revision (set items) child node'"
proof -
  obtain d stored where t: "t = TxnNode d stored" by (cases t)
  obtain n kids content properties entries where r': "changed lib repo revision t"
    "assigned_kids revision d stored kids" "node_entries lib repo d kids = Inr entries"
    "text_written lib repo name revision (set items) d entries content"
    "\<forall>ks. kids = Some ks \<longrightarrow> (\<forall>kid\<in>set ks. tn_dirty (cn_data (snd kid)) \<longrightarrow> node_written lib repo name revision (set items) (snd kid))"
    "node = committed_revision revision (permanent_id revision d n) d content properties"
    using r dir by (auto simp: represents_def t)
  have ext: "extends_files repo repo'" and stored': "stores lib repo' revision items" using C by (simp_all add: committed_items_def)
  obtain ks where ks: "entries = child_entries ks" "map fst ks = map fst cs \<or> map fst ks = map fst (sort_key fst cs)" "distinct (map fst cs)"
    "\<And>c. c \<in> set cs \<Longrightarrow> \<exists>k\<in>set ks. fst k = fst c \<and> committed_child lib repo repo' name revision (set items) (snd k) (snd c)"
  proof (cases stored)
    case None
    then have kids: "kids = None" using r'(2) by (simp add: assigned_kids_def split: if_splits)
    have base: "distinct (map fst cs)"
      "\<exists>entries. directoryEntries lib repo (tn_base_node (data_of_node t)) = Inr entries \<and> fst ` set cs = fset (fmdom entries) \<and>
         list_all (child_of_base lib repo entries) cs" "\<forall>c\<in>set cs. clean lib repo (snd c)"
      using loadChildren_base [OF _ load] None by (auto simp: t)
    let ?ks = "map (\<lambda>(name, child). (name, unassigned child)) cs"
    show thesis
    proof (rule that [of ?ks])
      show "entries = child_entries ?ks" using r'(3) load dir by (simp add: node_entries_def kids None t)
      show "map fst ?ks = map fst cs \<or> map fst ?ks = map fst (sort_key fst cs)" by (simp add: comp_def split_beta)
      show "\<exists>k\<in>set ?ks. fst k = fst c \<and> committed_child lib repo repo' name revision (set items) (snd k) (snd c)" if c: "c \<in> set cs" for c
      proof -
        obtain i where "readNode lib repo i = Inr (tn_base_node (data_of_node (snd c)))"
          using base(2) c by (auto simp: list_all_iff child_of_base_def)
        then have "committed_child lib repo repo' name revision (set items) (unassigned (snd c)) (snd c)"
          using base(3) c by (intro kept_child [OF ext]) auto
        then show ?thesis using c by (intro bexI [of _ "(fst c, unassigned (snd c))"]) (auto simp: split_beta)
      qed
    qed (rule base(1))
  next
    case (Some children)
    then have cs: "cs = children" using load by (simp add: t loadChildren_def)
    obtain m m' ks where k: "assign_children revision m (sort_key fst cs) = (ks, m')" "kids = Some ks"
      using r'(2) dir by (auto simp: assigned_kids_def Some cs t)
    note all = assign_children_kids [OF k(1)]
    have ok: "distinct (map fst cs)" "\<And>c. c \<in> set cs \<Longrightarrow>
        if tn_dirty (data_of_node (snd c)) then changed lib repo revision (snd c) else kept lib repo (snd c)"
      using r'(1) by (simp_all add: t Some cs)
    show thesis
    proof (rule that [of ks])
      show "entries = child_entries ks" using r'(3) dir by (simp add: node_entries_def k(2) t)
      show "map fst ks = map fst cs \<or> map fst ks = map fst (sort_key fst cs)" using list_all2_names [OF all] by simp
      show "\<exists>kid\<in>set ks. fst kid = fst c \<and> committed_child lib repo repo' name revision (set items) (snd kid) (snd c)" if c: "c \<in> set cs" for c
      proof -
        obtain kid n n' where kid: "kid \<in> set ks" "fst c = fst kid" "assignNodes revision False n (snd c) = (snd kid, n')"
          using list_all2_member [OF all, of c] c by auto
        have "tn_dirty (data_of_node (snd c)) \<longrightarrow> node_written lib repo name revision (set items) (snd kid)"
          using r'(5) k(2) kid cn_data_assigned [OF kid(3)] by auto
        from changed_child [OF C kid(3) ok(2) [OF c] this] kid show ?thesis by auto
      qed
    qed (rule ok(1))
  qed
  have names: "fst ` set ks = fst ` set cs" using ks(2) by (metis list.set_map set_sort)
  have dist: "distinct (map fst ks)" using ks(2,3) by (metis distinct_map distinct_sort inj_on_def set_sort)
  have entry_names: "map fst entries = map fst ks" by (simp add: ks(1) child_entries_def split_beta comp_def)
  have look: "map_of entries p = map_option (\<lambda>kid. (tn_kind (cn_data kid), commit_id kid)) (map_of ks p)" for p
    unfolding ks(1) child_entries_def by (induction ks) auto
  have child: "\<exists>c\<in>set cs. fst c = fst k \<and> committed_child lib repo repo' name revision (set items) (snd k) (snd c)" if k: "k \<in> set ks" for k
  proof -
    obtain c where c: "c \<in> set cs" "fst c = fst k" using names k by (metis image_iff)
    obtain k' where k': "k' \<in> set ks" "fst k' = fst c" "committed_child lib repo repo' name revision (set items) (snd k') (snd c)"
      using ks(4) [OF c(1)] by blast
    have "k' = k" using dist k k'(1,2) c(2) by (metis distinct_map inj_onD)
    then show ?thesis using c k' by auto
  qed
  have good: "\<forall>(p, kind, i)\<in>set entries. (kind = NodeFile \<or> kind = NodeDir) \<and> id_ok i"
    using child by (fastforce simp: ks(1) child_entries_def committed_child_def)
  obtain root data where dirtext: "write_hash (directory_values entries) = Inr data" "content = Some root"
    "rep_written lib name revision (set items) root data"
    using r'(4) dir by (auto simp: text_written_def t)
  obtain m where m: "parseDirectoryEntries (text_of_bytes data) = Inr m"
    "\<And>p. fmlookup m p = (case map_of entries p of None \<Rightarrow> None | Some (kind, i) \<Rightarrow> Some \<lparr>de_kind = kind, de_id = i\<rparr>)"
    using directory_written [OF _ good dirtext(1)] dist entry_names by auto
  have dirs: "directoryEntries lib repo' node = Inr m"
    using dir rep_written_read [OF stored' dirtext(3)] m(1) by (simp add: directoryEntries_def r'(6) t dirtext(2))
  show thesis
  proof (rule that [OF dirs])
    fix p assume "map_of cs p = None"
    then have "p \<notin> fst ` set ks" by (simp add: map_of_eq_None_iff names)
    then have "map_of ks p = None" by (simp add: map_of_eq_None_iff)
    then show "fmlookup m p = None" by (simp add: m(2) look)
  next
    fix p t' assume "map_of cs p = Some t'"
    then have "(p, t') \<in> set cs" by (rule map_of_SomeD)
    then obtain kid where kid: "(p, kid) \<in> set ks" "committed_child lib repo repo' name revision (set items) kid t'"
      using ks(4) by fastforce
    then have "map_of ks p = Some kid" using dist by simp
    then show "\<exists>e node'. fmlookup m p = Some e \<and> readNode lib repo' (de_id e) = Inr node' \<and>
         becomes lib repo repo' name revision (set items) t' node'"
      using kid(2) by (auto simp: m(2) look committed_child_def)
  qed
qed

lemma becomes_shown:
  assumes "committed_items lib repo repo' name revision items" "becomes lib repo repo' name revision (set items) t node"
  shows "shows_node lib repo repo' (data_of_node t) node"
proof (cases "represents lib repo name revision (set items) t node")
  case True
  then show ?thesis using written_shown [OF assms(1)] by (auto simp: represents_def)
next
  case False
  then show ?thesis using assms unchanged_shown clean_unchanged by (auto simp: becomes_def committed_items_def)
qed

lemma becomes_step:
  assumes C: "committed_items lib repo repo' name revision items" and b: "becomes lib repo repo' name revision (set items) t node"
    and dir: "node_kind t = NodeDir" and load: "loadChildren lib repo t = Inr cs"
  obtains m where "directoryEntries lib repo' node = Inr m"
    "\<And>name. map_of cs name = None \<Longrightarrow> fmlookup m name = None"
    "\<And>p child. map_of cs p = Some child \<Longrightarrow>
       \<exists>e node'. fmlookup m p = Some e \<and> readNode lib repo' (de_id e) = Inr node' \<and>
         becomes lib repo repo' name revision (set items) child node'"
proof (cases "represents lib repo name revision (set items) t node")
  case True
  obtain m where "directoryEntries lib repo' node = Inr m"
    "\<And>name. map_of cs name = None \<Longrightarrow> fmlookup m name = None"
    "\<And>p child. map_of cs p = Some child \<Longrightarrow>
       \<exists>e node'. fmlookup m p = Some e \<and> readNode lib repo' (de_id e) = Inr node' \<and>
         becomes lib repo repo' name revision (set items) child node'"
    by (rule changed_step [OF C True dir load]) blast
  then show thesis by (rule that)
next
  case False
  then have c: "clean lib repo t" "node = tn_base_node (data_of_node t)" using b by (simp_all add: becomes_def)
  have ext: "extends_files repo repo'" using C by (simp add: committed_items_def)
  obtain entries where e: "directoryEntries lib repo (tn_base_node (data_of_node t)) = Inr entries"
    "\<And>name. map_of cs name = None \<Longrightarrow> fmlookup entries name = None"
    "\<And>name child. map_of cs name = Some child \<Longrightarrow> clean lib repo child \<and> child_of_base lib repo entries (name, child)"
    by (rule clean_step [OF c(1) dir load]) blast
  show thesis
  proof (rule that)
    show "directoryEntries lib repo' node = Inr entries" using directoryEntries_extends [OF ext e(1)] c(2) by simp
    show "map_of cs p = None \<Longrightarrow> fmlookup entries p = None" for p by (rule e(2))
    show "\<exists>e node'. fmlookup entries p = Some e \<and> readNode lib repo' (de_id e) = Inr node' \<and>
         becomes lib repo repo' name revision (set items) child node'" if m: "map_of cs p = Some child" for p child
      using e(3) [OF m] readNode_extends [OF ext] by (fastforce simp: child_of_base_def becomes_def)
  qed
qed

lemma walk:
  assumes C: "committed_items lib repo repo' name revision items"
  shows "becomes lib repo repo' name revision (set items) t node \<Longrightarrow>
    (\<forall>n. txn_lookup lib repo names t = Inr (Some n) \<longrightarrow>
       (\<exists>node'. find_below lib repo' p node names = Inr (Some node') \<and> shows_node lib repo repo' (data_of_node n) node')) \<and>
    (txn_lookup lib repo names t = Inr None \<longrightarrow> find_below lib repo' p node names = Inr None)"
proof (induction names arbitrary: t node)
  case Nil
  then show ?case using becomes_shown [OF C] by simp
next
  case (Cons part names)
  show ?case
  proof (cases "node_kind t = NodeDir \<and> (\<exists>cs. loadChildren lib repo t = Inr cs)")
    case False
    then have "\<exists>e. txn_lookup lib repo (part # names) t = Inl e"
      by (cases "loadChildren lib repo t") auto
    then show ?thesis by auto
  next
    case True
    then obtain cs where dir: "node_kind t = NodeDir" and cs: "loadChildren lib repo t = Inr cs" by blast
    have kind: "nr_kind node = NodeDir" using becomes_shown [OF C Cons.prems] dir by (simp add: shows_node_def)
    obtain m where m: "directoryEntries lib repo' node = Inr m"
      "\<And>p. map_of cs p = None \<Longrightarrow> fmlookup m p = None"
      "\<And>p child. map_of cs p = Some child \<Longrightarrow>
         \<exists>e node'. fmlookup m p = Some e \<and> readNode lib repo' (de_id e) = Inr node' \<and>
           becomes lib repo repo' name revision (set items) child node'"
      by (rule becomes_step [OF C Cons.prems dir cs]) blast
    show ?thesis
    proof (cases "map_of cs part")
      case None
      then show ?thesis using m(2) by (simp add: dir cs kind m(1))
    next
      case (Some child)
      obtain e node' where "fmlookup m part = Some e" "readNode lib repo' (de_id e) = Inr node'"
        "becomes lib repo repo' name revision (set items) child node'"
        using m(3) [OF Some] by blast
      then show ?thesis using Cons.IH by (simp add: dir cs kind m(1) Some)
    qed
  qed
qed

text \<open>What a path of a revision shows, compared with a node of a transaction.\<close>

definition shows_path :: "stdlib \<Rightarrow> repository \<Rightarrow> repository \<Rightarrow> revision_root \<Rightarrow> string \<Rightarrow> txn_data \<Rightarrow> bool" where
  "shows_path lib repo repo' root p d \<longleftrightarrow>
     CheckPath lib repo' root p = Inr (tn_kind d) \<and>
     (\<forall>contents. tn_kind d = NodeFile \<and> txn_text lib repo d = Inr contents \<longrightarrow> FileContents lib repo' root p = Inr contents) \<and>
     (\<forall>vs. txn_props lib repo d = Inr vs \<longrightarrow> NodeProps lib repo' root p = Inr vs)"

lemma shows_path_found:
  "findNode lib repo' root p = Inr (Some node) \<Longrightarrow> shows_node lib repo repo' d node \<Longrightarrow> shows_path lib repo repo' root p d"
  by (simp add: shows_path_def shows_node_def CheckPath_def FileContents_def NodeProps_def nodeAt_def ok_or_def)

lemma Commit_built:
  assumes "Commit lib date locks tokens repo tx = Inr (revision, repo')" "tx_base tx = repo_youngest repo"
  obtains items contents where "revision = repo_youngest repo + 1" "build_items lib repo (tx_name tx) revision (tx_changes tx) (tx_root tx) = Inr items"
    "logicalRevision (std_md5 lib) revision items = Inr contents" "repo_files repo' = fmupd revision contents (repo_files repo)"
    "repo_youngest repo' = revision"
  using assms by (auto simp: Commit_def Let_def and_then_Inr split: list.splits)

definition fits_file :: "revision_item list \<Rightarrow> bool" where
  "fits_file items \<longleftrightarrow> length (data_of items) < 2 ^ 40 \<and> (\<nexists>k. 20 \<le> k \<and> length (data_of items) = 2 ^ k)"

lemma fits_small: "length (data_of items) < 2 ^ 20 \<Longrightarrow> fits_file items"
proof -
  assume s: "length (data_of items) < 2 ^ 20"
  have "length (data_of items) \<noteq> 2 ^ k" if "20 \<le> k" for k
  proof -
    have "(2 :: nat) ^ 20 \<le> 2 ^ k" by (rule power_increasing [OF that]) simp
    with s show ?thesis by linarith
  qed
  with s show ?thesis unfolding fits_file_def by auto
qed

lemma Commit_returns:
  assumes "lib_ok lib" "0 \<le> repo_youngest repo" "repo_youngest repo + 1 < 2 ^ 63" "tx_base tx = repo_youngest repo"
    "build_items lib repo (tx_name tx) (repo_youngest repo + 1) (tx_changes tx) (tx_root tx) = Inr items" "fits_file items"
    "filter (lock_violation locks tokens) (map fst (sorted_entries (tx_changes tx))) = []"
    "Properties tx = Inr vs" "write_hash (fmupd ''svn:date'' date vs) = Inr data"
  shows "\<exists>repo'. Commit lib date locks tokens repo tx = Inr (repo_youngest repo + 1, repo')"
proof -
  obtain tree n where t: "items \<noteq> []" "distinct (map item_number items)"
    "\<forall>i\<in>set items. item_bytes i \<noteq> [] \<and> 1 \<le> item_kind i \<and> item_kind i \<le> 6 \<and> 1 \<le> item_number i \<and> item_number i \<le> int (length items)"
    by (rule build_items_written [OF assms(5)]) blast
  have fits: "list_all item_fits items" by (rule items_fit [OF t(3)]) (use assms(6) in \<open>simp add: fits_file_def\<close>)
  have md5: "\<forall>x. length (std_md5 lib x) = 16" using assms(1) by (simp add: lib_ok_def)
  have size: "length (data_of items) < 2 ^ 40" "\<nexists>k. 20 \<le> k \<and> length (data_of items) = 2 ^ k"
    using assms(6) by (simp_all add: fits_file_def)
  have "0 \<le> repo_youngest repo + 1" using assms(2) by simp
  then obtain contents where "logicalRevision (std_md5 lib) (repo_youngest repo + 1) items = Inr contents"
    by (rule written_revision [OF md5 t(1) fits t(2) size _ assms(3)])
  then show ?thesis using assms(4,5,7-9) by (simp add: Commit_def Let_def)
qed

text \<open>The new revision has a root, and its tree is what the tree of the transaction becomes.\<close>

lemma commit_read:
  assumes lib: "lib_ok lib" "name_ok (tx_name tx)"
    and rev: "0 \<le> repo_youngest repo" "repo_youngest repo + 1 < 2 ^ 63" "fmlookup (repo_files repo) (repo_youngest repo + 1) = None"
    and root: "changed lib repo (repo_youngest repo + 1) (tx_root tx)" "node_kind (tx_root tx) = NodeDir"
    and commit: "tx_base tx = repo_youngest repo" "Commit lib date locks tokens repo tx = Inr (revision, repo')"
    and size: "\<And>items. build_items lib repo (tx_name tx) revision (tx_changes tx) (tx_root tx) = Inr items \<Longrightarrow> fits_file items"
  obtains node items where "RevisionRoot lib repo' revision = Inr \<lparr>root_revision = revision, root_node = node\<rparr>"
    "committed_items lib repo repo' (tx_name tx) revision items"
    "becomes lib repo repo' (tx_name tx) revision (set items) (tx_root tx) node"
proof -
  obtain items contents where c: "revision = repo_youngest repo + 1"
    "build_items lib repo (tx_name tx) revision (tx_changes tx) (tx_root tx) = Inr items"
    "logicalRevision (std_md5 lib) revision items = Inr contents" "repo_files repo' = fmupd revision contents (repo_files repo)"
    "repo_youngest repo' = revision"
    by (rule Commit_built [OF commit(2,1)]) blast
  note fits = size [OF c(2), unfolded fits_file_def]
  obtain tree n where t: "assignNodes revision True 3 (tx_root tx) = (tree, n)"
    "node_written lib repo (tx_name tx) revision (set items) tree" "items \<noteq> []" "distinct (map item_number items)"
    "\<forall>i\<in>set items. item_bytes i \<noteq> [] \<and> 1 \<le> item_kind i \<and> item_kind i \<le> 6 \<and> 1 \<le> item_number i \<and>
       item_number i \<le> int (length items)"
    by (rule build_items_written [OF c(2)]) blast
  have stored: "stores lib repo' revision items"
    by (rule written_items_stored [OF _ _ _ t(3-5) _ _ c(3)]) (use lib rev(1,2) c(1,4) fits in \<open>simp_all add: lib_ok_def\<close>)
  have "length items < 2 ^ 40" using data_of_length [of items] t(5) fits by fastforce
  then have "int (length items) < 2 ^ 40" by simp
  then have numbers: "\<forall>i\<in>set items. 0 \<le> item_number i \<and> item_number i < 2 ^ 40" using t(5) by fastforce
  have ext: "extends_files repo repo'" using rev(3) by (auto simp: extends_files_def c(1,4))
  have C: "committed_items lib repo repo' (tx_name tx) revision items"
    using ext stored lib rev(1,2) c(1) numbers fits by (simp add: committed_items_def)
  have ok: "changed lib repo revision (tx_root tx)" using root(1) c(1) by simp
  obtain node f offset data where r: "commit_id tree = permanent_id revision (data_of_node (tx_root tx)) (if True then 2 else 3)"
    "openRevision lib repo' revision = Inr f" "itemOffset f revision (if True then 2 else 3) = Inr offset"
    "0 \<le> offset" "offset < int (length (rf_contents f))" "recordData f offset = Inr data"
    "parseNodeRevision (text_of_bytes data) = Inr node" "nr_id node = commit_id tree" "nr_kind node = node_kind (tx_root tx)"
    "represents lib repo (tx_name tx) revision (set items) (tx_root tx) node"
    by (rule assigned_read [OF C t(1) _ ok t(2)]) auto
  show thesis
  proof (rule that [OF _ C])
    show "RevisionRoot lib repo' revision = Inr \<lparr>root_revision = revision, root_node = node\<rparr>"
      using r rev(1) c(1,5) root(2) by (simp add: RevisionRoot_def)
    show "becomes lib repo repo' (tx_name tx) revision (set items) (tx_root tx) node" using r(10) by (simp add: becomes_def)
  qed
qed

text \<open>Every path of the new revision shows what the transaction has there.\<close>

lemma becomes_paths:
  assumes C: "committed_items lib repo repo' name revision items"
    and b: "becomes lib repo repo' name revision (set items) t (root_node root)" and p: "cleanPath p = Inr cleaned"
  shows "case txn_lookup lib repo (path_names cleaned) t of
          Inr (Some n) \<Rightarrow> shows_path lib repo repo' root p (data_of_node n)
        | Inr None \<Rightarrow> CheckPath lib repo' root p = Inr NodeNone
        | Inl _ \<Rightarrow> True"
proof -
  have find: "findNode lib repo' root p = find_below lib repo' p (root_node root) (path_names cleaned)"
    by (simp add: findNode_def p path_names_def)
  have found: "shows_path lib repo repo' root p d"
    if "find_below lib repo' p (root_node root) (path_names cleaned) = Inr (Some node')" "shows_node lib repo repo' d node'" for d node'
    using that by (intro shows_path_found [of lib repo' root p node']) (simp_all add: find)
  from walk [OF C b, of "path_names cleaned" p] show ?thesis
    by (auto simp: find CheckPath_def found split: sum.splits option.splits)
qed

section \<open>A small transaction\<close>

definition example_lib :: stdlib where "example_lib = \<lparr>std_md5 = \<lambda>_. replicate 16 0, std_sha1 = \<lambda>_. replicate 20 0, std_inflate = (\<lambda>_. undefined)\<rparr>"
definition example_repo :: repository where "example_repo = \<lparr>repo_youngest = 0, repo_files = fmempty, repo_revprops = fmempty, repo_sequence = 0\<rparr>"
definition example_base :: node_revision where
  "example_base = no_revision\<lparr>nr_id := \<lparr>id_node = ''0'', id_copy = ''0'', id_revision = 0, id_item = 2\<rparr>, nr_kind := NodeDir, nr_created_path := ''/'',
     nr_copyroot_rev := InvalidRevnum, nr_copyfrom_rev := InvalidRevnum\<rparr>"
definition example_dir :: txn_data where
  "example_dir = (newTxnNode \<lparr>root_revision = 0, root_node = example_base\<rparr> ''/'' example_base)\<lparr>tn_dirty := True\<rparr>"
definition example_file :: txn_data where "example_file = data_of_node (set_content [0x68] (new_node ''/f'' NodeFile ''_0''))"
definition example_root :: txn_node where "example_root = TxnNode example_dir (Some [(''f'', TxnNode example_file None)])"

lemma example_dir_fields [simp]: "tn_dirty example_dir" "tn_kind example_dir = NodeDir" "\<not> tn_new example_dir" "\<not> tn_props_modified example_dir" "tn_copyfrom_rev example_dir = InvalidRevnum"
  "tn_base_node example_dir = example_base" "tn_created_path example_dir = ''/''" "tn_temporary_id example_dir = []"
  by (simp_all add: example_dir_def newTxnNode_def example_base_def)

lemma example_base_fields [simp]: "nr_id example_base = \<lparr>id_node = ''0'', id_copy = ''0'', id_revision = 0, id_item = 2\<rparr>" "nr_properties example_base = None" "nr_count example_base = 0"
   "nr_copyroot_rev example_base = InvalidRevnum" "\<not> nr_has_mergeinfo_count example_base" "\<not> nr_mergeinfo_here example_base" "nr_text example_base = None"
  by (simp_all add: example_base_def no_revision_def)

lemma example_file_fields [simp]: "tn_dirty example_file" "tn_kind example_file = NodeFile" "tn_new example_file" "tn_copyfrom_rev example_file = InvalidRevnum"
  "tn_created_path example_file = ''/f''" "tn_temporary_id example_file = ''_0''" "tn_content example_file = Some [0x68]" "tn_properties example_file = Some fmempty"
  "tn_base_node example_file = no_revision"
  by (simp_all add: example_file_def set_content_def new_node_def)

lemma sorted_single: "sorted_entries (fmupd k v fmempty) = [(k, v)]"
  by (simp add: sorted_entries_def sorted_list_of_fset.rep_eq)

lemma hex_encode_Nil: "hex_encode b = [] \<longleftrightarrow> b = []"
  using hex_encode_length [of b] by (cases b) (auto simp del: hex_encode_length)

lemma itoa_small: "itoa 0 = ''0''" "itoa 1 = ''1''" "itoa 2 = ''2''" "itoa 3 = ''3''"
  by code_simp+

lemma base36_small: "base36 4 = ''4''" "base36 5 = ''5''" "base36 (Suc 0) = ''1''"
  by code_simp+

lemma example_ids: "ID_String (permanent_id 1 example_file 3) = ''0-1.0.r1/3''" "ID_String (permanent_id 1 example_dir 2) = ''0.0.r1/2''" "ID_String (nr_id example_base) = ''0.0.r0/2''"
  by (simp_all add: ID_String_def permanent_id_def permanentIDPart_def Let_def TrimPrefix_def HasPrefix_def itoa_small base36_small IsValid_def InvalidRevnum_def)

lemma example_lengths: "length (writeRecord CHR ''V'' ''file 0-1.0.r1/3'') = 21" "length (writeRecord CHR ''K'' ''f'') = 6"
  "writeRecord CHR ''K'' ''f'' \<noteq> []" "ID_String \<lparr>id_node = ''0'', id_copy = ''0'', id_revision = 0, id_item = 2\<rparr> = ''0.0.r0/2''"
  "itoa 4 = ''4''" "itoa 5 = ''5''" "itoa 31 = ''31''" "\<not> nr_has_mergeinfo_count no_revision" "\<not> nr_mergeinfo_here no_revision"
  by code_simp+

lemma example_items: "\<exists>items. build_items example_lib example_repo ''0-0'' 1 fmempty example_root = Inr items \<and> length (data_of items) < 2000"
  unfolding build_items_def example_root_def
  by (simp add: Let_def addRepresentation_def build_text_def build_properties_def loadContent_def loadProperties_def
     child_entries_def directory_values_def write_hash_def Write_def sorted_single commit_id_def IsValid_def InvalidRevnum_def example_ids maxRecordSize_def)
    (simp add: nodeRecord_def node_fields_def copyroot_of_def field_line_def formatRepresentation_def example_ids itoa_small base36_small
    hex_encode_Nil example_lib_def IsValid_def InvalidRevnum_def buildChanges_def sorted_entries_def sorted_list_of_fset.rep_eq example_lengths
    plain_representation_def)

definition example_tx :: transaction where
  "example_tx = \<lparr>tx_name = ''0-0'', tx_base = 0, tx_root = example_root, tx_changes = fmempty, tx_next = 1,
     tx_files = fmupd ''props'' (bytes_of_text (''END'' @ [CHR 0x0A])) fmempty, tx_protorev = []\<rparr>"

lemma example_lib: "lib_ok example_lib" by (simp add: lib_ok_def example_lib_def)

lemma example_name: "name_ok ''0-0''"
proof -
  have "plain ''0-0''" by code_simp
  then show ?thesis by (simp add: name_ok_def)
qed

lemma example_components: "list_all path_component []" "list_all path_component [''f'']" "list_all path_component [''g'']"
  "abs_path [] = ''/''" "abs_path [''f''] = ''/f''" "abs_path [''g''] = ''/g''"
  by (simp_all add: path_component_def abs_path_def)

lemma example_paths: "path_ok ''/''" "path_ok ''/f''"
  using abs_path_canonical [OF example_components(1)] abs_path_canonical [OF example_components(2)]
  by (simp_all add: example_components path_ok_def text_ok_def)

lemma example_changed: "changed example_lib example_repo 1 example_root"
  by (simp add: example_root_def committable_def record_ok_def example_paths copyroot_of_def IsValid_def InvalidRevnum_def id_text_ok_def id_ok_def text_ok_def nonneg64_def example_lengths)

lemma example_props: "Properties example_tx = Inr fmempty" "write_hash (fmupd ''svn:date'' [] fmempty) \<noteq> Inl e"
proof -
  have "Write fmempty = Inr (''END'' @ [CHR 0x0A])" by (simp add: Write_def sorted_entries_def sorted_list_of_fset.rep_eq)
  from ReadHash_Write [OF this, of "[]"] have "ReadHash (text_of_bytes (bytes_of_text (''END'' @ [CHR 0x0A]))) = Inr fmempty"
    by (simp only: text_of_bytes_of_text append_Nil2)
  moreover have "fmlookup (tx_files example_tx) ''props'' = Some (bytes_of_text (''END'' @ [CHR 0x0A]))"
    by (simp only: example_tx_def transaction.select_convs fmupd_lookup simp_thms if_True)
  ultimately show "Properties example_tx = Inr fmempty" by (simp only: Properties_def read_hash_def option.case sum.case)
  show "write_hash (fmupd ''svn:date'' [] fmempty) \<noteq> Inl e" by (simp add: write_hash_def Write_def sorted_single maxRecordSize_def)
qed

section \<open>The committed tree\<close>

text \<open>C2: a revision that is committed shows the tree of the transaction: under every path the node the transaction has
  there, with its kind, its contents and its properties, and nothing where the transaction has nothing.\<close>

theorem commit_shows_tree:
  assumes lib: "lib_ok lib" "name_ok (tx_name tx)"
    and rev: "0 \<le> repo_youngest repo" "repo_youngest repo + 1 < 2 ^ 63" "fmlookup (repo_files repo) (repo_youngest repo + 1) = None"
    and root: "changed lib repo (repo_youngest repo + 1) (tx_root tx)" "node_kind (tx_root tx) = NodeDir"
    and commit: "tx_base tx = repo_youngest repo" "Commit lib date locks tokens repo tx = Inr (revision, repo')"
    and size: "\<And>items. build_items lib repo (tx_name tx) revision (tx_changes tx) (tx_root tx) = Inr items \<Longrightarrow> fits_file items"
  shows "\<exists>root. RevisionRoot lib repo' revision = Inr root \<and>
    (\<forall>p cleaned. cleanPath p = Inr cleaned \<longrightarrow>
       (case txn_lookup lib repo (path_names cleaned) (tx_root tx) of
          Inr (Some n) \<Rightarrow> shows_path lib repo repo' root p (data_of_node n)
        | Inr None \<Rightarrow> CheckPath lib repo' root p = Inr NodeNone
        | Inl _ \<Rightarrow> True))"
proof -
  obtain node items where root: "RevisionRoot lib repo' revision = Inr \<lparr>root_revision = revision, root_node = node\<rparr>"
    and C: "committed_items lib repo repo' (tx_name tx) revision items"
    and b: "becomes lib repo repo' (tx_name tx) revision (set items) (tx_root tx) node"
    by (rule commit_read [OF assms])
  show ?thesis using root b by (intro exI [of _ "\<lparr>root_revision = revision, root_node = node\<rparr>"] conjI allI impI)
      (simp_all add: becomes_paths [OF C])
qed

theorem commit_shows_tree_witness:
  "\<exists>repo' root. Commit example_lib [] (\<lambda>_. None) fmempty example_repo example_tx = Inr (1, repo') \<and> RevisionRoot example_lib repo' 1 = Inr root \<and>
     FileContents example_lib repo' root ''/f'' = Inr [0x68] \<and> CheckPath example_lib repo' root ''/g'' = Inr NodeNone"
proof -
  obtain items where items: "build_items example_lib example_repo ''0-0'' 1 fmempty example_root = Inr items" "length (data_of items) < 2000"
    using example_items by blast
  then have fits: "fits_file items" by (intro fits_small) simp
  obtain data where data: "write_hash (fmupd ''svn:date'' [] fmempty) = Inr data" using example_props(2) by (cases "write_hash (fmupd ''svn:date'' [] fmempty)") auto
  have locks: "filter (lock_violation (\<lambda>_. None) fmempty) (map fst (sorted_entries (tx_changes example_tx))) = []"
    by (simp add: example_tx_def sorted_entries_def sorted_list_of_fset.rep_eq)
  obtain repo' where c: "Commit example_lib [] (\<lambda>_. None) fmempty example_repo example_tx = Inr (1, repo')"
    using Commit_returns [OF example_lib, of example_repo example_tx items "\<lambda>_. None" fmempty fmempty "[]" data] items(1) fits locks example_props(1) data
    by (auto simp: example_repo_def example_tx_def)
  have "\<exists>root. RevisionRoot example_lib repo' 1 = Inr root \<and>
    (\<forall>p cleaned. cleanPath p = Inr cleaned \<longrightarrow>
       (case txn_lookup example_lib example_repo (path_names cleaned) (tx_root example_tx) of
          Inr (Some n) \<Rightarrow> shows_path example_lib example_repo repo' root p (data_of_node n)
        | Inr None \<Rightarrow> CheckPath example_lib repo' root p = Inr NodeNone
        | Inl _ \<Rightarrow> True))"
    by (rule commit_shows_tree [OF example_lib _ _ _ _ _ _ _ c]) (use example_name example_changed items fits in \<open>auto simp: example_tx_def example_repo_def example_root_def\<close>)
  then obtain root where root: "RevisionRoot example_lib repo' 1 = Inr root"
    "\<And>p cleaned. cleanPath p = Inr cleaned \<Longrightarrow>
       (case txn_lookup example_lib example_repo (path_names cleaned) (tx_root example_tx) of
          Inr (Some n) \<Rightarrow> shows_path example_lib example_repo repo' root p (data_of_node n)
        | Inr None \<Rightarrow> CheckPath example_lib repo' root p = Inr NodeNone
        | Inl _ \<Rightarrow> True)"
    by blast
  have paths: "cleanPath ''/f'' = Inr ''/f''" "cleanPath ''/g'' = Inr ''/g''" "path_names ''/f'' = [''f'']" "path_names ''/g'' = [''g'']"
    using path_Clean_abs [OF example_components(2)] path_Clean_abs [OF example_components(3)]
    by (simp_all add: example_components cleanPath_def path_names_def TrimPrefix_def Let_def split_no_sep)
  have "FileContents example_lib repo' root ''/f'' = Inr [0x68]"
    using root(2) [OF paths(1)] by (simp add: paths(3) example_tx_def example_root_def loadChildren_def shows_path_def txn_text_def loadContent_def)
  moreover have "CheckPath example_lib repo' root ''/g'' = Inr NodeNone"
    using root(2) [OF paths(2)] by (simp add: paths(4) example_tx_def example_root_def loadChildren_def)
  ultimately show ?thesis using c root(1) by blast
qed

end
