(* ===== verification/Fsfs_Edits.thy ===== *)
theory Fsfs_Edits
  imports Fsfs_Committed
begin

text \<open>
  The operations on a transaction keep it committable: in a transaction that starts from a revision,
  every node records the path it is at, a node that is not dirty is as in its base, and a dirty node
  has what its record needs (\<open>tidy\<close>). Every operation of \<^verbatim>\<open>fs/fsfs/txnroot.go\<close> keeps this, whether it
  succeeds or fails (\<open>edit_step_tidy\<close>), and a tidy tree can be committed (\<open>tidy_changed\<close>).
\<close>

section \<open>What the repository must look like\<close>

definition printable :: "node_revision \<Rightarrow> bool" where
  "printable node \<longleftrightarrow>
     well_typed node \<and> id_text_ok (nr_id node) \<and> nonneg64 (nr_count node + 1) \<and>
     (\<forall>r. nr_text node = Some r \<or> nr_properties node = Some r \<longrightarrow> rep_text_ok r) \<and>
     text_ok (nr_created_path node) \<and> text_ok (nr_copyroot_path node)"

text \<open>The nodes of the trees of a repository.\<close>

inductive node_in :: "stdlib \<Rightarrow> repository \<Rightarrow> node_revision \<Rightarrow> bool" for lib repo where
  root_in: "RevisionRoot lib repo r = Inr root \<Longrightarrow> node_in lib repo (root_node root)"
| child_in: "node_in lib repo node \<Longrightarrow> directoryEntries lib repo node = Inr entries \<Longrightarrow> fmlookup entries name = Some e \<Longrightarrow>
    readNode lib repo (de_id e) = Inr child \<Longrightarrow> node_in lib repo child"

definition printable_repo :: "stdlib \<Rightarrow> repository \<Rightarrow> bool" where
  "printable_repo lib repo \<longleftrightarrow>
     repo_youngest repo < 2 ^ 63 \<and>
     (\<forall>node. node_in lib repo node \<longrightarrow> printable node \<and>
        (\<forall>entries. directoryEntries lib repo node = Inr entries \<longrightarrow> (\<forall>name. fmlookup entries name \<noteq> None \<longrightarrow> path_component name)))"

section \<open>Nodes below a path\<close>

lemma path_names_abs: "list_all path_component parts \<Longrightarrow> path_names (abs_path parts) = parts"
proof (cases "parts = []")
  case False
  assume parts: "list_all path_component parts"
  have ne: "abs_path parts \<noteq> ''/''" using abs_path_inj [OF parts, of "[]"] False by (auto simp: abs_path_def)
  have "split CHR ''/'' (join ''/'' parts) = parts"
    using split_join [of parts "CHR ''/''"] parts False by (auto simp: path_component_def list_all_iff)
  then show ?thesis using ne by (simp add: path_names_def) (simp add: abs_path_def TrimPrefix_def)
qed (simp add: path_names_def abs_path_def)

lemma cleanPath_abs: "list_all path_component parts \<Longrightarrow> cleanPath (abs_path parts) = Inr cleaned \<Longrightarrow> cleaned = abs_path parts"
proof -
  assume parts: "list_all path_component parts" and c: "cleanPath (abs_path parts) = Inr cleaned"
  have "''/'' @ TrimPrefix (abs_path parts) ''/'' = abs_path parts" by (simp add: abs_path_def TrimPrefix_def)
  then show ?thesis using c path_Clean_abs [OF parts] by (auto simp: cleanPath_def Let_def split: if_splits)
qed

lemma abs_path_below_root:
  assumes "list_all path_component parts"
  shows "abs_path parts \<noteq> ''/..''" "\<not> HasPrefix (abs_path parts) ''/../''"
proof -
  have up: "''..'' \<notin> set parts" using assms by (auto simp: list_all_iff path_component_def)
  have split: "split CHR ''/'' (abs_path parts) = (if parts = [] then [[], []] else [] # parts)"
    by (rule split_abs_path [OF assms])
  have dots: "CHR ''/'' \<notin> set ''..''" by simp
  have no: "abs_path parts \<noteq> s" if "split CHR ''/'' s = [] # ''..'' # rest" for s rest
  proof
    assume "abs_path parts = s"
    then have "(if parts = [] then [[], []] else [] # parts) = [] # ''..'' # rest" using split that by metis
    then have "parts = ''..'' # rest" by (cases "parts = []") simp_all
    then show False using up by simp
  qed
  show "abs_path parts \<noteq> ''/..''"
    by (rule no [where rest = "[]"]) simp
  show "\<not> HasPrefix (abs_path parts) ''/../''"
  proof
    assume "HasPrefix (abs_path parts) ''/../''"
    then obtain t where t: "abs_path parts = ''/../'' @ t" unfolding HasPrefix_iff by blast
    have "split CHR ''/'' (''/../'' @ t) = [] # ''..'' # split CHR ''/'' t"
      using split_append_sep [OF dots, of t] by (simp only: split.simps append.simps simp_thms if_True)
    from no [OF this] t show False by blast
  qed
qed

lemma cleanPath_parts_iff:
  assumes "list_all path_component parts"
  shows "cleanPath (abs_path parts) =
    (if CHR 0x00 \<in> set (abs_path parts) \<or> CHR 0x5C \<in> set (abs_path parts) then Inl (PathSyntax (abs_path parts))
     else Inr (abs_path parts))"
proof -
  have self: "''/'' @ TrimPrefix (abs_path parts) ''/'' = abs_path parts"
    by (simp add: abs_path_def TrimPrefix_def)
  show ?thesis unfolding cleanPath_def self path_Clean_abs [OF assms] Let_def
    by (simp add: abs_path_below_root [OF assms])
qed

lemma cleanPath_prefix:
  assumes "list_all path_component parts" "path_component name" "cleanPath (abs_path (parts @ [name])) = Inr cleaned"
  shows "cleanPath (abs_path parts) = Inr (abs_path parts)"
proof -
  have all: "list_all path_component (parts @ [name])" using assms(1,2) by simp
  obtain s where s: "abs_path (parts @ [name]) = abs_path parts @ s"
    by (cases "parts = []") (auto simp: abs_path_def join_append)
  then have "set (abs_path parts) \<subseteq> set (abs_path (parts @ [name]))" by simp
  then show ?thesis
    using assms(3) cleanPath_parts_iff [OF assms(1)] cleanPath_parts_iff [OF all] by (auto split: if_splits)
qed

lemma find_below_snoc:
  "find_below lib repo q n (names @ [name]) = Inr (Some y) \<Longrightarrow>
     \<exists>m entries x. find_below lib repo q' n names = Inr (Some m) \<and> directoryEntries lib repo m = Inr entries \<and>
       fmlookup entries name = Some x \<and> readNode lib repo (de_id x) = Inr y"
proof (induction names arbitrary: n)
  case (Cons first names)
  then show ?case by (fastforce simp: and_then_Inr split: if_splits option.splits)
qed (auto simp: and_then_Inr split: if_splits option.splits)

lemma nodeAt_abs:
  assumes "list_all path_component parts" "cleanPath (abs_path parts) = Inr (abs_path parts)"
  shows "nodeAt lib repo root (abs_path parts) = Inr y \<longleftrightarrow>
    find_below lib repo (abs_path parts) (root_node root) parts = Inr (Some y)"
proof -
  have "findNode lib repo root (abs_path parts) = find_below lib repo (abs_path parts) (root_node root) parts"
    using path_names_abs [OF assms(1)] by (auto simp: findNode_def assms(2) path_names_def)
  then show ?thesis by (auto simp: nodeAt_def and_then_Inr ok_or_Inr)
qed

lemma nodeAt_child:
  assumes parts: "list_all path_component parts" "path_component name"
    and node: "\<And>m. nodeAt lib repo base (abs_path parts) = Inr m \<Longrightarrow> m = node"
    and entry: "directoryEntries lib repo node = Inr entries" "fmlookup entries name = Some x" "readNode lib repo (de_id x) = Inr child"
    and found: "nodeAt lib repo base (abs_path (parts @ [name])) = Inr y"
  shows "y = child"
proof -
  have all: "list_all path_component (parts @ [name])" using parts by simp
  obtain cleaned where c: "cleanPath (abs_path (parts @ [name])) = Inr cleaned"
    using found by (auto simp: nodeAt_def findNode_def and_then_Inr)
  then have c': "cleanPath (abs_path (parts @ [name])) = Inr (abs_path (parts @ [name]))"
    using cleanPath_abs [OF all c] by simp
  obtain m entries' x' where m: "find_below lib repo (abs_path parts) (root_node base) parts = Inr (Some m)"
      "directoryEntries lib repo m = Inr entries'" "fmlookup entries' name = Some x'" "readNode lib repo (de_id x') = Inr y"
    using found find_below_snoc unfolding nodeAt_abs [OF all c'] by blast
  then have "nodeAt lib repo base (abs_path parts) = Inr m"
    using nodeAt_abs [OF parts(1) cleanPath_prefix [OF parts c]] by blast
  then show ?thesis using node m entry by simp
qed

section \<open>Tidy trees\<close>

text \<open>
  The invariant of a transaction: a node records the path it is at, a node that is not dirty is as in
  its base, a dirty one can be committed.
\<close>

definition settled :: "txn_data \<Rightarrow> bool" where
  "settled d \<longleftrightarrow> unchanged d \<and> tn_copyfrom_rev d = InvalidRevnum \<and> tn_temporary_id d = [] \<and> printable (tn_base_node d)"

definition from_base :: "stdlib \<Rightarrow> repository \<Rightarrow> txn_data \<Rightarrow> txn_children \<Rightarrow> bool" where
  "from_base lib repo d children \<longleftrightarrow>
     (\<exists>entries. directoryEntries lib repo (tn_base_node d) = Inr entries \<and> fst ` set children = fset (fmdom entries) \<and>
        list_all (child_of_base lib repo entries) children) \<and>
     list_all (\<lambda>c. \<not> tn_dirty (data_of_node (snd c))) children"

definition readable_base :: "stdlib \<Rightarrow> repository \<Rightarrow> txn_node \<Rightarrow> bool" where
  "readable_base lib repo t \<longleftrightarrow> tn_dirty (data_of_node t) \<or> (\<exists>i. readNode lib repo i = Inr (tn_base_node (data_of_node t)))"

text \<open>
  What a node has loaded and not changed is what its base has. The base is found again under the path
  the node remembers for it, or under that path nothing is found; the children, properties and
  contents that are not loaded yet will be read from there.
\<close>

definition faithful :: "stdlib \<Rightarrow> repository \<Rightarrow> txn_data \<Rightarrow> bool" where
  "faithful lib repo d \<longleftrightarrow>
     (case tn_base d of
        None \<Rightarrow> tn_new d
      | Some base \<Rightarrow>
          (\<exists>parts. list_all path_component parts \<and> tn_base_path d = abs_path parts) \<and>
          (\<forall>node. nodeAt lib repo base (tn_base_path d) = Inr node \<longrightarrow> node = tn_base_node d) \<and>
          (\<not> tn_text_modified d \<longrightarrow>
             (\<forall>c. tn_content d = Some c \<longrightarrow> writeRepresentation lib repo (nr_text (tn_base_node d)) = Inr c)) \<and>
          (\<not> tn_props_modified d \<longrightarrow>
             (\<forall>vs. tn_properties d = Some vs \<longrightarrow> read_props lib repo (nr_properties (tn_base_node d)) = Inr vs)))"

definition located :: "stdlib \<Rightarrow> repository \<Rightarrow> string list \<Rightarrow> txn_data \<Rightarrow> bool" where
  "located lib repo parts d \<longleftrightarrow>
     tn_created_path d = abs_path parts \<and> (tn_base d = None \<or> node_in lib repo (tn_base_node d)) \<and> faithful lib repo d"

text \<open>What is loaded is faithful, and is what a commit writes.\<close>

lemma faithful_edits [simp]:
  "faithful lib repo (d\<lparr>tn_dirty := b\<rparr>) = faithful lib repo d"
  "faithful lib repo d \<Longrightarrow> faithful lib repo (d\<lparr>tn_content := Some c, tn_text_modified := True\<rparr>)"
  "faithful lib repo d \<Longrightarrow> faithful lib repo (d\<lparr>tn_properties := Some vs, tn_props_modified := True\<rparr>)"
  by (auto simp: faithful_def split: option.splits)

lemma loaded_content:
  assumes "faithful lib repo d" "loadContent lib repo d = Inr c"
  shows "faithful lib repo (d\<lparr>tn_content := Some c\<rparr>)" "txn_text lib repo d = Inr c"
proof -
  have base: "writeRepresentation lib repo (nr_text (tn_base_node d)) = Inr c" if "\<not> tn_text_modified d" "tn_base d = Some base" for base
    using assms that by (auto simp: faithful_def loadContent_def FileContents_def and_then_Inr split: option.splits if_splits)
  show "faithful lib repo (d\<lparr>tn_content := Some c\<rparr>)"
    using assms base by (auto simp: faithful_def split: option.splits)
  show "txn_text lib repo d = Inr c"
    using assms base by (cases "tn_base d") (auto simp: faithful_def txn_text_def)
qed

lemma loaded_properties:
  assumes "faithful lib repo d" "loadProperties lib repo d = Inr vs"
  shows "faithful lib repo (d\<lparr>tn_properties := Some vs\<rparr>)" "txn_props lib repo d = Inr vs"
proof -
  have base: "read_props lib repo (nr_properties (tn_base_node d)) = Inr vs" if "\<not> tn_props_modified d" "tn_base d = Some base" for base
    using assms that by (auto simp: faithful_def loadProperties_def NodeProps_def and_then_Inr split: option.splits if_splits)
  show "faithful lib repo (d\<lparr>tn_properties := Some vs\<rparr>)"
    using assms base by (auto simp: faithful_def split: option.splits)
  show "txn_props lib repo d = Inr vs"
    using assms base by (cases "tn_base d") (auto simp: faithful_def txn_props_def)
qed

fun tidy :: "stdlib \<Rightarrow> repository \<Rightarrow> revnum \<Rightarrow> string list \<Rightarrow> txn_node \<Rightarrow> bool" where
  "tidy lib repo revision parts (TxnNode d cs) \<longleftrightarrow>
     located lib repo parts d \<and>
     (if tn_dirty d then committable revision d
      else settled d \<and> (case cs of None \<Rightarrow> True | Some children \<Rightarrow> from_base lib repo d children)) \<and>
     (case cs of None \<Rightarrow> True
      | Some children \<Rightarrow>
          distinct (map fst children) \<and>
          (\<forall>c\<in>set children. path_component (fst c) \<and> readable_base lib repo (snd c) \<and>
             tidy lib repo revision (parts @ [fst c]) (snd c)))"

definition tidy_children :: "stdlib \<Rightarrow> repository \<Rightarrow> revnum \<Rightarrow> string list \<Rightarrow> txn_children \<Rightarrow> bool" where
  "tidy_children lib repo revision parts children \<longleftrightarrow>
     distinct (map fst children) \<and>
     (\<forall>c\<in>set children. path_component (fst c) \<and> readable_base lib repo (snd c) \<and>
        tidy lib repo revision (parts @ [fst c]) (snd c))"

lemma tidy_loaded: "tidy lib repo revision parts (TxnNode d (Some cs)) \<longleftrightarrow>
    located lib repo parts d \<and> (if tn_dirty d then committable revision d else settled d \<and> from_base lib repo d cs) \<and>
    tidy_children lib repo revision parts cs"
  by (simp add: tidy_children_def)

lemma tidy_leaf: "tidy lib repo revision parts (TxnNode d None) \<longleftrightarrow>
    located lib repo parts d \<and> (if tn_dirty d then committable revision d else settled d)"
  by simp

declare tidy.simps [simp del]

text \<open>A node that is as in its base can be committed.\<close>

lemma settled_committable:
  assumes "settled d" "path_ok (tn_created_path d)"
  shows "committable revision d" "committable revision (d\<lparr>tn_dirty := True\<rparr>)"
proof -
  let ?base = "tn_base_node d"
  have d: "\<not> tn_new d" "tn_kind d = nr_kind ?base" "tn_copyfrom_rev d = InvalidRevnum" "tn_temporary_id d = []" "printable ?base"
    using assms(1) by (simp_all add: settled_def unchanged_def)
  note p = d(5) [unfolded printable_def well_typed_def]
  have roots: "copyroot_of revision (d\<lparr>tn_dirty := True\<rparr>) = (nr_copyroot_rev ?base, nr_copyroot_path ?base)"
    "copyroot_of revision d = (nr_copyroot_rev ?base, nr_copyroot_path ?base)"
    using d by (simp_all add: copyroot_of_def IsValid_def InvalidRevnum_def)
  have "path_ok (nr_copyroot_path ?base)" "nonneg64 (nr_copyroot_rev ?base)" if "nr_copyroot_path ?base \<noteq> []"
    using p that by (auto simp: path_ok_def)
  then show "committable revision d" "committable revision (d\<lparr>tn_dirty := True\<rparr>)" using d p roots assms(2)
    by (auto simp: committable_def record_ok_def text_ok_def IsValid_def InvalidRevnum_def)
qed

lemma tidy_clean: "tidy lib repo revision parts t \<Longrightarrow> \<not> tn_dirty (data_of_node t) \<Longrightarrow> clean lib repo t"
proof (induction lib repo revision parts t rule: tidy.induct)
  case (1 lib repo revision parts d cs)
  show ?case
  proof (cases cs)
    case None
    then show ?thesis using 1 by (simp add: tidy_leaf settled_def)
  next
    case (Some children)
    have s: "settled d" "from_base lib repo d children" "tidy_children lib repo revision parts children"
      using 1(2,3) by (simp_all add: Some tidy_loaded)
    then have "\<forall>c\<in>set children. clean lib repo (snd c)"
      using 1(1) [OF Some] by (auto simp: from_base_def tidy_children_def list_all_iff)
    then show ?thesis using s by (simp add: Some settled_def from_base_def tidy_children_def)
  qed
qed

lemma tidy_changed:
  "tidy lib repo revision parts t \<Longrightarrow> path_ok (abs_path parts) \<or> tn_dirty (data_of_node t) \<Longrightarrow> changed lib repo revision t"
proof (induction lib repo revision parts t rule: tidy.induct)
  case (1 lib repo revision parts d cs)
  have d: "committable revision d"
  proof (cases "tn_dirty d")
    case False
    then have "settled d" "tn_created_path d = abs_path parts" using 1(2) by (simp_all add: tidy.simps located_def)
    then show ?thesis using settled_committable(1) 1(3) False by simp
  qed (use 1(2) in \<open>simp add: tidy.simps\<close>)
  show ?case
  proof (cases cs)
    case (Some children)
    have t: "tidy_children lib repo revision parts children" using 1(2) by (simp add: Some tidy_loaded)
    have "if tn_dirty (data_of_node (snd c)) then changed lib repo revision (snd c) else kept lib repo (snd c)" if c: "c \<in> set children" for c
      using 1(1) [OF Some c] t c tidy_clean by (auto simp: tidy_children_def kept_def readable_base_def)
    then show ?thesis using d t by (simp add: Some tidy_children_def)
  qed (use d in simp)
qed

text \<open>Loading leaves_tidy a tree tidy.\<close>

lemma load_entries_shape:
  "load_entries lib repo base d vs = Inr cs \<Longrightarrow> (name, t) \<in> set cs \<Longrightarrow>
     \<exists>e. t = TxnNode ((newTxnNode base (path_Join [tn_base_path d, name]) e)\<lparr>tn_created_path := path_Join [tn_created_path d, name]\<rparr>) None"
proof (induction vs arbitrary: cs)
  case (Cons v vs)
  obtain n e where v: "v = (n, e)" by (cases v)
  obtain child rest where c: "load_entries lib repo base d vs = Inr rest"
    "cs = (n, TxnNode ((newTxnNode base (path_Join [tn_base_path d, n]) child)
        \<lparr>tn_created_path := path_Join [tn_created_path d, n]\<rparr>) None) # rest"
    using Cons.prems(1) by (auto simp: v and_then_Inr)
  show ?case
  proof (cases "(name, t) \<in> set rest")
    case True
    then show ?thesis by (rule Cons.IH [OF c(1)])
  next
    case False
    then show ?thesis using Cons.prems(2) c(2) by simp blast
  qed
qed simp

lemma load_tidy:
  assumes repo: "printable_repo lib repo" and t: "tidy lib repo revision parts t" and load: "loadChildren lib repo t = Inr cs"
    and parts: "list_all path_component parts"
  shows "tidy lib repo revision parts (TxnNode (data_of_node t) (Some cs))"
proof -
  obtain d stored where t': "t = TxnNode d stored" by (cases t)
  show ?thesis
  proof (cases stored)
    case (Some children)
    then have "cs = children" using load by (simp add: t' loadChildren_def)
    then show ?thesis using t by (simp add: t' Some)
  next
    case None
    note base = loadChildren_base [OF _ load, unfolded t' txn_node.sel, OF None]
    then obtain entries where e: "directoryEntries lib repo (tn_base_node d) = Inr entries" "fst ` set cs = fset (fmdom entries)"
      "list_all (child_of_base lib repo entries) cs" by blast
    obtain b entries' where l: "load_entries lib repo b d (sorted_entries entries') = Inr cs" and b: "tn_base d = Some b"
      using load None by (auto simp: t' loadChildren_def Let_def and_then_Inr split: if_splits option.splits)
    have "tn_base d \<noteq> None" using load None by (auto simp: t' loadChildren_def Let_def split: if_splits option.splits)
    then have d: "located lib repo parts d" "tn_created_path d = abs_path parts" "node_in lib repo (tn_base_node d)"
      "if tn_dirty d then committable revision d else settled d" "faithful lib repo d"
      using t by (auto simp: t' None tidy_leaf located_def)
    obtain bparts where bparts: "list_all path_component bparts" "tn_base_path d = abs_path bparts"
      "\<And>m. nodeAt lib repo b (abs_path bparts) = Inr m \<Longrightarrow> m = tn_base_node d"
      using d(5) by (auto simp: faithful_def b)
    have child: "path_component (fst c) \<and> readable_base lib repo (snd c) \<and> tidy lib repo revision (parts @ [fst c]) (snd c) \<and>
        \<not> tn_dirty (data_of_node (snd c))" if c: "c \<in> set cs" for c
    proof -
      obtain name n where n: "c = (name, n)" by (cases c)
      obtain e where e': "n = TxnNode ((newTxnNode b (path_Join [tn_base_path d, name]) e)\<lparr>tn_created_path := path_Join [tn_created_path d, name]\<rparr>) None"
        using load_entries_shape [OF l, of name n] c by (auto simp: n)
      have base: "tn_base_node (data_of_node n) = e" by (simp add: e' newTxnNode_def)
      obtain x where i: "fmlookup entries name = Some x" "readNode lib repo (de_id x) = Inr e"
        using e(3) c by (auto simp: list_all_iff child_of_base_def n base)
      have comp: "path_component name" using repo e(1) i(1) d(3) by (auto simp: printable_repo_def)
      have inside: "node_in lib repo e" using child_in [OF d(3) e(1)] i by blast
      then have "printable e" using repo by (auto simp: printable_repo_def)
      moreover have "faithful lib repo ((newTxnNode b (path_Join [tn_base_path d, name]) e)\<lparr>tn_created_path := path_Join [tn_created_path d, name]\<rparr>)"
        using nodeAt_child [OF bparts(1) comp bparts(3) e(1) i] bparts(1) comp
        by (auto simp: faithful_def newTxnNode_def bparts(2) path_Join_abs intro: exI [of _ "bparts @ [name]"])
      ultimately have "tidy lib repo revision (parts @ [name]) n"
        using d(2) inside parts comp by (simp add: e' tidy_leaf located_def settled_def unchanged_def newTxnNode_def path_Join_abs)
      then show ?thesis using comp i(2) by (auto simp: n readable_base_def base e' newTxnNode_def)
    qed
    then have "tidy_children lib repo revision parts cs" using base by (auto simp: tidy_children_def)
    moreover have "from_base lib repo d cs" unfolding from_base_def using e child by (auto simp: list_all_iff)
    ultimately show ?thesis using d(1,4) by (simp add: t' tidy_loaded)
  qed
qed



section \<open>Walking leaves_tidy a tree tidy\<close>

definition same_node :: "txn_node \<Rightarrow> txn_node \<Rightarrow> bool" where
  "same_node n n' \<longleftrightarrow> tn_dirty (data_of_node n') = tn_dirty (data_of_node n) \<and> tn_base_node (data_of_node n') = tn_base_node (data_of_node n)"

lemma put_child_set: "c \<in> set (put_child name t cs) \<longleftrightarrow> c = (name, t) \<or> c \<in> set cs \<and> fst c \<noteq> name"
  by (cases c) (auto simp: put_child_def)

lemma put_child_distinct: "distinct (map fst cs) \<Longrightarrow> distinct (map fst (put_child name t cs))"
proof -
  assume d: "distinct (map fst cs)"
  have "map fst (filter (\<lambda>(n, c). n \<noteq> name) cs) = filter (\<lambda>n. n \<noteq> name) (map fst cs)"
    by (induction cs) auto
  with d show ?thesis by (simp add: put_child_def)
qed

lemma drop_child_set: "c \<in> set (drop_child name cs) \<longleftrightarrow> c \<in> set cs \<and> fst c \<noteq> name"
  by (cases c) (auto simp: drop_child_def)

lemma drop_child_distinct: "distinct (map fst cs) \<Longrightarrow> distinct (map fst (drop_child name cs))"
  by (induction cs) (auto simp: drop_child_def)

lemma put_child_tidy:
  assumes "tidy_children lib repo revision parts cs" "path_component name" "readable_base lib repo t"
    "tidy lib repo revision (parts @ [name]) t"
  shows "tidy_children lib repo revision parts (put_child name t cs)"
  using assms by (auto simp: tidy_children_def put_child_set put_child_distinct)

lemma drop_child_tidy:
  "tidy_children lib repo revision parts cs \<Longrightarrow> tidy_children lib repo revision parts (drop_child name cs)"
  by (auto simp: tidy_children_def drop_child_set drop_child_distinct)

lemma put_child_from_base:
  assumes "from_base lib repo d cs" "(name, t) \<in> set cs" "same_node t t'"
  shows "from_base lib repo d (put_child name t' cs)"
proof -
  obtain entries where e: "directoryEntries lib repo (tn_base_node d) = Inr entries" "fst ` set cs = fset (fmdom entries)"
    "list_all (child_of_base lib repo entries) cs" "list_all (\<lambda>c. \<not> tn_dirty (data_of_node (snd c))) cs"
    using assms(1) by (auto simp: from_base_def)
  have "fst ` set (put_child name t' cs) = fst ` set cs"
  proof (rule set_eqI)
    fix x
    show "x \<in> fst ` set (put_child name t' cs) \<longleftrightarrow> x \<in> fst ` set cs"
    proof (cases "x = name")
      case True
      have "(name, t') \<in> set (put_child name t' cs)" by (simp add: put_child_set)
      with assms(2) True show ?thesis by force
    next
      case False
      then have "c \<in> set (put_child name t' cs) \<longleftrightarrow> c \<in> set cs" if "fst c = x" for c
        using that by (auto simp: put_child_set)
      then show ?thesis by blast
    qed
  qed
  moreover have "list_all (child_of_base lib repo entries) (put_child name t' cs)"
    using e(3) assms(2,3) by (fastforce simp: list_all_iff put_child_set child_of_base_def same_node_def)
  moreover have "list_all (\<lambda>c. \<not> tn_dirty (data_of_node (snd c))) (put_child name t' cs)"
    using e(4) assms(2,3) by (fastforce simp: list_all_iff put_child_set same_node_def)
  ultimately show ?thesis using e by (auto simp: from_base_def)
qed

lemma join_prefix: "\<exists>s. join sep (a @ b) = join sep a @ s"
  by (cases "a = [] \<or> b = []") (auto simp: join_append)

lemma text_ok_prefix: "text_ok (abs_path (a @ b)) \<Longrightarrow> text_ok (abs_path a)"
proof -
  obtain s where "join ''/'' (a @ b) = join ''/'' a @ s" using join_prefix by blast
  then show "text_ok (abs_path (a @ b)) \<Longrightarrow> ?thesis" by (auto simp: text_ok_def abs_path_def)
qed

lemma committable_dirty: "committable revision (d\<lparr>tn_dirty := b\<rparr>) = committable revision d"
  by (simp add: committable_def record_ok_def copyroot_of_def)

text \<open>A directory whose children are tidy is tidy once it is marked.\<close>

lemma mark_tidy:
  assumes "located lib repo parts d" "tn_dirty d \<and> committable revision d \<or> settled d" "list_all path_component parts"
    "text_ok (abs_path parts)" "case cs of None \<Rightarrow> True | Some children \<Rightarrow> tidy_children lib repo revision parts children"
  shows "tidy lib repo revision parts (mark_dirty (TxnNode d cs))"
proof -
  have "path_ok (tn_created_path d)" using assms(1,3,4) by (simp add: path_ok_def located_def)
  then have "committable revision d" using assms(2) settled_committable by blast
  then show ?thesis using assms(1,5) by (simp add: mark_dirty_def tidy.simps tidy_children_def committable_dirty located_def split: option.splits)
qed

lemma at_path_tidy:
  assumes repo: "printable_repo lib repo"
    and work: "\<And>n r n'. tidy lib repo revision (parts @ names) n \<Longrightarrow> work n = (r, n') \<Longrightarrow>
      (if marks \<and> (\<exists>x. r = Inr x) then tidy lib repo revision (parts @ names) (mark_dirty n')
       else tidy lib repo revision (parts @ names) n' \<and> same_node n n')"
    and names: "list_all path_component (parts @ names)" "text_ok (abs_path (parts @ names))"
    and t: "tidy lib repo revision parts t" and result: "at_path lib repo marks missing work names t = (r, t')"
  shows "tidy lib repo revision parts t' \<and> (same_node t t' \<or> marks \<and> (\<exists>x. r = Inr x) \<and> tn_dirty (data_of_node t'))"
  using work names t result
proof (induction names arbitrary: parts t r t')
  case Nil
  obtain r0 n' where w: "work t = (r0, n')" by (cases "work t")
  from Nil.prems(1) [OF _ w] Nil.prems(4,5) w show ?case
    by (cases r0; cases marks) (auto simp: mark_dirty_def)
next
  case (Cons name names)
  have comps: "list_all path_component parts" "path_component name" using Cons.prems(2) by simp_all
  have short: "text_ok (abs_path parts)" by (rule text_ok_prefix) (rule Cons.prems(3))
  show ?case
  proof (cases "node_kind t = NodeDir \<and> (\<exists>cs. loadChildren lib repo t = Inr cs)")
    case False
    then have "t' = t" using Cons.prems(5) by (auto split: if_splits sum.splits)
    then show ?thesis using Cons.prems(4) by (simp add: same_node_def)
  next
    case True
    then obtain cs where dir: "node_kind t = NodeDir" and cs: "loadChildren lib repo t = Inr cs" by blast
    let ?d = "data_of_node t"
    have loaded: "tidy lib repo revision parts (TxnNode ?d (Some cs))" by (rule load_tidy [OF repo Cons.prems(4) cs comps(1)])
    then have d: "located lib repo parts ?d" "if tn_dirty ?d then committable revision ?d else settled ?d \<and> from_base lib repo ?d cs"
      and kids: "tidy_children lib repo revision parts cs" by (simp_all add: tidy_loaded)
    show ?thesis
    proof (cases "map_of cs name")
      case None
      then have "t' = TxnNode ?d (Some cs)" using Cons.prems(5) by (simp add: dir cs)
      then show ?thesis using loaded by (simp add: same_node_def)
    next
      case (Some child)
      then have m: "(name, child) \<in> set cs" by (rule map_of_SomeD)
      then have child: "tidy lib repo revision (parts @ [name]) child" "readable_base lib repo child"
        using kids by (auto simp: tidy_children_def)
      obtain r0 child' where a: "at_path lib repo marks missing work names child = (r0, child')" by fastforce
      have IH: "tidy lib repo revision (parts @ [name]) child' \<and>
          (same_node child child' \<or> marks \<and> (\<exists>x. r0 = Inr x) \<and> tn_dirty (data_of_node child'))"
        by (rule Cons.IH [OF _ _ _ child(1) a]) (use Cons.prems(1-3) in simp_all)
      then have kids': "tidy_children lib repo revision parts (put_child name child' cs)"
        using child(2) by (intro put_child_tidy [OF kids comps(2)]) (auto simp: readable_base_def same_node_def)
      show ?thesis
      proof (cases "marks \<and> (\<exists>x. r0 = Inr x)")
        case True
        then obtain x where x: "r0 = Inr x" by blast
        then have t': "t' = mark_dirty (TxnNode ?d (Some (put_child name child' cs)))" "r = Inr x"
          using Cons.prems(5) True a by (simp_all add: dir cs Some Let_def)
        have "tidy lib repo revision parts t'" unfolding t'
          by (rule mark_tidy) (use d comps(1) short kids' in \<open>auto split: if_splits\<close>)
        then show ?thesis using t' True by (simp add: mark_dirty_def)
      next
        case False
        then have t': "t' = TxnNode ?d (Some (put_child name child' cs))"
          using Cons.prems(5) by (auto simp: dir cs Some a Let_def split: sum.splits)
        have same: "same_node child child'" using IH False by blast
        have "tidy lib repo revision parts t'"
          using d kids' put_child_from_base [OF _ m same] by (auto simp: t' tidy_loaded split: if_splits)
        then show ?thesis by (simp add: t' same_node_def)
      qed
    qed
  qed
qed



section \<open>Operations keep a transaction tidy\<close>

definition short_path :: "string \<Rightarrow> bool" where
  "short_path p \<longleftrightarrow> (\<forall>cleaned. cleanPath p = Inr cleaned \<longrightarrow> text_ok cleaned)"

text \<open>Work that may be done at a node: what it leaves is tidy, marked if it is to be marked.\<close>

definition leaves_tidy ::
    "stdlib \<Rightarrow> repository \<Rightarrow> revnum \<Rightarrow> bool \<Rightarrow> string \<Rightarrow> (txn_node \<Rightarrow> (fs_error + 'a) \<times> txn_node) \<Rightarrow> bool" where
  "leaves_tidy lib repo revision marks p work \<longleftrightarrow>
     (\<forall>parts n r n'. list_all path_component parts \<and> text_ok (abs_path parts) \<and> cleanPath p = Inr (abs_path parts) \<and>
        tidy lib repo revision parts n \<and> work n = (r, n') \<longrightarrow>
        (if marks \<and> (\<exists>x. r = Inr x) then tidy lib repo revision parts (mark_dirty n')
         else tidy lib repo revision parts n' \<and> same_node n n'))"

lemma on_path_tidy:
  assumes repo: "printable_repo lib repo" and p: "short_path p" and work: "leaves_tidy lib repo revision marks p work"
    and tx: "tidy lib repo revision [] (tx_root tx)"
  shows "tidy lib repo revision [] (tx_root (snd (on_path lib repo marks missing p work tx)))"
proof (cases "cleanPath p")
  case (Inl e)
  then show ?thesis using tx by (simp add: on_path_def)
next
  case (Inr cleaned)
  obtain parts where parts: "list_all path_component parts" "cleaned = abs_path parts" using cleanPath_parts [OF Inr] by blast
  have short: "text_ok (abs_path parts)" using p Inr parts(2) by (simp add: short_path_def)
  obtain r t where a: "at_path lib repo marks missing work parts (tx_root tx) = (r, t)" by fastforce
  have "tidy lib repo revision [] t"
    using at_path_tidy [OF repo _ _ _ tx a] work parts short Inr by (simp add: leaves_tidy_def)
  then show ?thesis using a by (simp add: on_path_def Inr parts path_names_abs)
qed

lemma persist_root [simp]: "tx_root (snd (persist lib repo tx)) = tx_root tx"
  by (auto simp: persist_def Let_def split: prod.split sum.split)

lemma recorded_root [simp]: "tx_root (snd (recorded lib repo change ids result)) = tx_root (snd result)"
  by (cases result) (auto simp: recorded_def split: sum.split)

text \<open>A change of the data of a node that leaves what a record needs as it is.\<close>

lemma edit_tidy:
  assumes t: "tidy lib repo revision parts (TxnNode d cs)" and parts: "list_all path_component parts" "text_ok (abs_path parts)"
    and d': "tn_created_path d' = tn_created_path d \<and> tn_base d' = tn_base d \<and> tn_base_node d' = tn_base_node d" "committable revision d \<Longrightarrow> committable revision d'"
      "faithful lib repo d \<Longrightarrow> faithful lib repo d'"
  shows "tidy lib repo revision parts (mark_dirty (TxnNode d' cs))"
proof -
  have "path_ok (abs_path parts)" using parts by (simp add: path_ok_def)
  then have "committable revision d"
    using t settled_committable(1) by (auto simp: tidy.simps located_def split: if_splits)
  then have "committable revision d'" by (rule d'(2))
  then show ?thesis using t d'(1,3)
    by (auto simp: mark_dirty_def tidy.simps committable_dirty located_def split: option.splits)
qed

lemma in_directory_keeps:
  assumes repo: "printable_repo lib repo"
    and work: "\<And>parts cs x cs'. list_all path_component parts \<Longrightarrow> text_ok (abs_path parts) \<Longrightarrow> cleanPath p = Inr (abs_path parts) \<Longrightarrow>
      tidy_children lib repo revision parts cs \<Longrightarrow> f cs = Inr (x, cs') \<Longrightarrow> tidy_children lib repo revision parts cs'"
  shows "leaves_tidy lib repo revision True p (in_directory lib repo q f)"
  unfolding leaves_tidy_def
proof (intro allI impI)
  fix parts n r n'
  assume a: "list_all path_component parts \<and> text_ok (abs_path parts) \<and> cleanPath p = Inr (abs_path parts) \<and>
        tidy lib repo revision parts n \<and> in_directory lib repo q f n = (r, n')"
  show "if True \<and> (\<exists>x. r = Inr x) then tidy lib repo revision parts (mark_dirty n')
         else tidy lib repo revision parts n' \<and> same_node n n'"
  proof (cases "node_kind n = NodeDir \<and> (\<exists>cs. loadChildren lib repo n = Inr cs)")
    case False
    then have "n' = n \<and> (\<exists>e. r = Inl e)" using a by (auto simp: in_directory_def split: if_splits sum.splits)
    then show ?thesis using a by (auto simp: same_node_def)
  next
    case True
    then obtain cs where cs: "node_kind n = NodeDir" "loadChildren lib repo n = Inr cs" by blast
    have loaded: "tidy lib repo revision parts (TxnNode (data_of_node n) (Some cs))" using a cs(2) load_tidy [OF repo] by blast
    show ?thesis
    proof (cases "f cs")
      case (Inl e)
      then have "n' = TxnNode (data_of_node n) (Some cs) \<and> r = Inl e" using a cs by (simp add: in_directory_def)
      then show ?thesis using loaded by (simp add: same_node_def)
    next
      case (Inr y)
      obtain x cs' where y: "y = (x, cs')" by (cases y)
      have n': "n' = TxnNode (data_of_node n) (Some cs')" "r = Inr x" using a cs Inr y by (simp_all add: in_directory_def)
      have "tidy_children lib repo revision parts cs'"
        using work [of parts cs x cs'] a loaded Inr y by (simp add: tidy_loaded)
      then have "tidy lib repo revision parts (mark_dirty n')"
        unfolding n' by (intro mark_tidy) (use a loaded in \<open>auto simp: tidy_loaded split: if_splits\<close>)
      then show ?thesis using n'(2) by simp
    qed
  qed
qed

text \<open>The path of a new node and the path of its directory.\<close>

lemma splitTxnPath_parts:
  assumes "splitTxnPath v = Inr (cleaned, parent, name)"
  obtains parts where "list_all path_component parts" "path_component name" "cleaned = abs_path (parts @ [name])"
    "parent = abs_path parts" "cleanPath v = Inr cleaned"
proof -
  have c: "cleanPath v = Inr cleaned" "cleaned \<noteq> ''/''" "parent = path_Dir cleaned" "name = path_Base cleaned"
    using assms by (auto simp: splitTxnPath_def and_then_Inr split: if_splits)
  obtain all where all: "list_all path_component all" "cleaned = abs_path all" using cleanPath_parts [OF c(1)] by blast
  have "all \<noteq> []" using c(2) all(2) by (auto simp: abs_path_def)
  then obtain parts n where p: "all = parts @ [n]" by (cases all rule: rev_cases) auto
  then have "path_component n" "list_all path_component parts" using all(1) by simp_all
  then show thesis
    using c all p path_Dir_abs path_Base_abs by (intro that [of parts]) simp_all
qed

lemma temporary_id_ok: "tx_next tx < 2 ^ 63 \<Longrightarrow> text_ok (temporary_id tx) \<and> length (temporary_id tx) \<le> 60000 \<and> CHR ''.'' \<notin> set (temporary_id tx)"
  using base36_short [of "tx_next tx"] by (simp add: temporary_id_def text_ok_def)

lemma root_path_ok: "path_ok ''/''"
  using abs_path_canonical [of "[]"] by (simp add: path_ok_def text_ok_def abs_path_def)

lemma new_node_tidy:
  assumes "list_all path_component (parts @ [name])" "text_ok (abs_path (parts @ [name]))" "kind = NodeFile \<or> kind = NodeDir"
    "text_ok temporary \<and> length temporary \<le> 60000 \<and> CHR ''.'' \<notin> set temporary"
  shows "tidy lib repo revision (parts @ [name]) (new_node (abs_path (parts @ [name])) kind temporary)"
proof -
  have "path_ok (abs_path (parts @ [name]))" using assms(1,2) by (simp add: path_ok_def del: list_all_append)
  moreover have "\<not> nr_has_mergeinfo_count no_revision" by (simp add: no_revision_def)
  ultimately show ?thesis using assms(3,4) root_path_ok
    by (auto simp: new_node_def tidy.simps located_def faithful_def committable_def record_ok_def copyroot_of_def IsValid_def InvalidRevnum_def nonneg64_def)
qed

lemma makeNode_tidy:
  assumes "printable_repo lib repo" "short_path p" "kind = NodeFile \<or> kind = NodeDir" "tx_next tx < 2 ^ 63"
    "tidy lib repo revision [] (tx_root tx)"
  shows "tidy lib repo revision [] (tx_root (snd (makeNode lib repo p kind tx)))"
proof (cases "splitTxnPath p")
  case (Inl e)
  then show ?thesis using assms(5) by (simp add: makeNode_def)
next
  case (Inr y)
  obtain cleaned parent name where y: "y = (cleaned, parent, name)" by (cases y)
  obtain parts where parts: "list_all path_component parts" "path_component name" "cleaned = abs_path (parts @ [name])"
    "parent = abs_path parts" "cleanPath p = Inr cleaned"
    by (rule splitTxnPath_parts [OF Inr [unfolded y]])
  have short: "text_ok (abs_path (parts @ [name]))" using assms(2) parts by (simp add: short_path_def)
  have node: "tidy lib repo revision (parts @ [name]) (new_node cleaned kind (temporary_id tx))"
    unfolding parts(3) by (rule new_node_tidy) (use parts short assms(3,4) temporary_id_ok in simp_all)
  have read: "readable_base lib repo (new_node cleaned kind (temporary_id tx))"
    by (simp add: readable_base_def new_node_def)
  have "leaves_tidy lib repo revision True parent (in_directory lib repo parent (\<lambda>cs.
                 if map_of cs name \<noteq> None then Inl (AlreadyExists cleaned)
                 else Inr ((), put_child name (new_node cleaned kind (temporary_id tx)) cs)))"
  proof (rule in_directory_keeps [OF assms(1)])
    fix parts' cs x cs'
    assume a: "list_all path_component parts'" "cleanPath parent = Inr (abs_path parts')" "tidy_children lib repo revision parts' cs"
      "(if map_of cs name \<noteq> None then Inl (AlreadyExists cleaned)
        else Inr ((), put_child name (new_node cleaned kind (temporary_id tx)) cs)) = Inr (x, cs')"
    have "parts' = parts" using a(1,2) parts(1,4) cleanPath_abs abs_path_inj by metis
    then show "tidy_children lib repo revision parts' cs'"
      using a(3,4) put_child_tidy [OF _ parts(2) read] node by (auto split: if_splits)
  qed
  moreover have "short_path parent"
    using parts(1,4) short text_ok_prefix cleanPath_abs by (auto simp: short_path_def)
  ultimately show ?thesis
    using on_path_tidy [OF assms(1)] assms(5) by (simp add: makeNode_def Inr y)
qed

lemma txn_Delete_tidy:
  assumes "printable_repo lib repo" "short_path p" "tidy lib repo revision [] (tx_root tx)"
  shows "tidy lib repo revision [] (tx_root (snd (txn_Delete lib repo p tx)))"
proof (cases "splitTxnPath p")
  case (Inl e)
  then show ?thesis using assms(3) by (simp add: txn_Delete_def)
next
  case (Inr y)
  obtain cleaned parent name where y: "y = (cleaned, parent, name)" by (cases y)
  obtain parts where parts: "list_all path_component parts" "path_component name" "cleaned = abs_path (parts @ [name])"
    "parent = abs_path parts" "cleanPath p = Inr cleaned"
    by (rule splitTxnPath_parts [OF Inr [unfolded y]])
  have short: "text_ok (abs_path (parts @ [name]))" using assms(2) parts by (simp add: short_path_def)
  have "leaves_tidy lib repo revision True parent (in_directory lib repo parent (\<lambda>cs.
                 case map_of cs name of None \<Rightarrow> Inl (NotFound cleaned) | Some child \<Rightarrow> Inr (node_kind child, drop_child name cs)))"
    by (rule in_directory_keeps [OF assms(1)]) (auto split: option.splits intro: drop_child_tidy)
  moreover have "short_path parent"
    using parts(1,4) short text_ok_prefix cleanPath_abs by (auto simp: short_path_def)
  ultimately show ?thesis
    using on_path_tidy [OF assms(1)] assms(3) by (simp add: txn_Delete_def Inr y)
qed



lemma printable_found:
  assumes "printable_repo lib repo" "RevisionRoot lib repo r = Inr root" "nodeAt lib repo root p = Inr node"
  shows "node_in lib repo node" "printable node"
proof -
  have root: "node_in lib repo (root_node root)" using assms(2) by (rule root_in)
  have below: "find_below lib repo q n names = Inr (Some node) \<Longrightarrow> node_in lib repo n \<Longrightarrow> node_in lib repo node" for q n names
  proof (induction names arbitrary: n)
    case (Cons name names)
    then obtain entries e child where "directoryEntries lib repo n = Inr entries" "fmlookup entries name = Some e"
      "readNode lib repo (de_id e) = Inr child" "find_below lib repo q child names = Inr (Some node)"
      by (auto simp: and_then_Inr split: if_splits option.splits)
    then show ?case using child_in [OF Cons.prems(2)] Cons.IH by blast
  qed simp
  have "findNode lib repo root p = Inr (Some node)"
    using assms(3) by (auto simp: nodeAt_def and_then_Inr ok_or_def split: option.splits)
  then show "node_in lib repo node" using root below by (auto simp: findNode_def and_then_Inr split: if_splits)
  then show "printable node" using assms(1) by (simp add: printable_repo_def)
qed

lemma canonical_abs: "canonicalAbsolutePath p \<Longrightarrow> \<exists>parts. list_all path_component parts \<and> p = abs_path parts"
proof -
  assume c: "canonicalAbsolutePath p"
  then obtain s where "p = CHR ''/'' # s" by (cases p) (auto simp: canonicalAbsolutePath_def HasPrefix_def)
  then have "p = abs_path (rooted_parts p)" using c path_Clean_rooted [of s] by (simp add: canonicalAbsolutePath_def)
  then show ?thesis using rooted_parts_valid by blast
qed

text \<open>
  \<open>Copy\<close> remembers its source under the path the source was created at, and the source must be found
  there, if anything is. It need not: a node that came with the copy of a directory above it keeps the
  created path it had before.
\<close>

definition sound_source :: "stdlib \<Rightarrow> repository \<Rightarrow> revnum \<Rightarrow> string \<Rightarrow> bool" where
  "sound_source lib repo revision p \<longleftrightarrow>
     (\<forall>root source x. RevisionRoot lib repo revision = Inr root \<and> nodeAt lib repo root p = Inr source \<and>
        nodeAt lib repo root (nr_created_path source) = Inr x \<longrightarrow> x = source)"

lemma copied_node_tidy:
  assumes "printable source" "node_in lib repo source" "list_all path_component (parts @ [name])" "text_ok (abs_path (parts @ [name]))"
    "text_ok temporary \<and> length temporary \<le> 60000 \<and> CHR ''.'' \<notin> set temporary" "nonneg64 revision" "nonneg64 from"
    and found: "q = nr_created_path source" "\<And>x. nodeAt lib repo sourceRoot q = Inr x \<Longrightarrow> x = source"
  shows "tidy lib repo revision (parts @ [name])
    (TxnNode ((newTxnNode sourceRoot q source)\<lparr>tn_created_path := abs_path (parts @ [name]), tn_copyfrom_path := nr_created_path source,
       tn_copyfrom_rev := from, tn_temporary_id := temporary, tn_dirty := True\<rparr>) None)"
proof -
  let ?d = "(newTxnNode sourceRoot q source)\<lparr>tn_created_path := abs_path (parts @ [name]), tn_copyfrom_path := nr_created_path source,
       tn_copyfrom_rev := from, tn_temporary_id := temporary, tn_dirty := True\<rparr>"
  have d: "tn_created_path ?d = abs_path (parts @ [name])" "tn_kind ?d = nr_kind source" "tn_new ?d = False" "tn_base_node ?d = source"
    "tn_copyfrom_path ?d = nr_created_path source" "tn_copyfrom_rev ?d = from" "tn_temporary_id ?d = temporary" "tn_dirty ?d = True" "tn_base ?d = Some sourceRoot"
    by (simp_all add: newTxnNode_def)
  have p: "path_ok (abs_path (parts @ [name]))" using assms(3,4) by (simp add: path_ok_def del: list_all_append)
  have c: "copyroot_of revision ?d = (revision, abs_path (parts @ [name]))"
    using assms(7) by (simp add: copyroot_of_def d IsValid_def nonneg64_def)
  have "path_ok (nr_created_path source)" "nr_kind source = NodeFile \<or> nr_kind source = NodeDir" "nonneg64 (nr_mergeinfo_count source)"
    "id_text_ok (nr_id source)" "nonneg64 (nr_count source + 1)" "\<forall>r. nr_text source = Some r \<or> nr_properties source = Some r \<longrightarrow> rep_text_ok r"
    using assms(1) by (simp_all add: printable_def well_typed_def path_ok_def)
  then have "committable revision ?d"
    unfolding committable_def record_ok_def c d fst_conv snd_conv using assms(5-7) p by simp
  moreover have "faithful lib repo ?d"
    using canonical_abs [of q] found \<open>path_ok (nr_created_path source)\<close>
    by (auto simp: faithful_def newTxnNode_def path_ok_def)
  ultimately show ?thesis unfolding tidy_leaf located_def d using assms(2) by simp
qed

lemma txn_Copy_tidy:
  assumes repo: "printable_repo lib repo" and p: "short_path p" "tx_next tx < 2 ^ 63" "nonneg64 revision"
    and sound: "sound_source lib repo source_revision source_path"
    and tx: "tidy lib repo revision [] (tx_root tx)"
  shows "tidy lib repo revision [] (tx_root (snd (txn_Copy lib repo source_revision source_path p tx)))"
proof (cases "splitTxnPath p")
  case (Inl e)
  then show ?thesis using tx by (simp add: txn_Copy_def)
next
  case (Inr y)
  obtain cleaned parent name where y: "y = (cleaned, parent, name)" by (cases y)
  obtain parts where parts: "list_all path_component parts" "path_component name" "cleaned = abs_path (parts @ [name])"
    "parent = abs_path parts" "cleanPath p = Inr cleaned"
    by (rule splitTxnPath_parts [OF Inr [unfolded y]])
  have short: "text_ok (abs_path (parts @ [name]))" using p(1) parts by (simp add: short_path_def)
  let ?node = "\<lambda>root source. TxnNode ((newTxnNode root (nr_created_path source) source)
      \<lparr>tn_created_path := cleaned, tn_copyfrom_path := nr_created_path source,
       tn_copyfrom_rev := source_revision, tn_temporary_id := temporary_id tx, tn_dirty := True\<rparr>) None"
  let ?work = "\<lambda>cs. if map_of cs name \<noteq> None then Inl (AlreadyExists cleaned)
      else and_then (RevisionRoot lib repo source_revision) (\<lambda>root.
        and_then (nodeAt lib repo root source_path) (\<lambda>source. Inr (source, put_child name (?node root source) cs)))"
  have "leaves_tidy lib repo revision True parent (in_directory lib repo parent ?work)"
  proof (rule in_directory_keeps [OF repo])
    fix parts' cs x cs'
    assume a: "list_all path_component parts'" "cleanPath parent = Inr (abs_path parts')" "tidy_children lib repo revision parts' cs"
      "?work cs = Inr (x, cs')"
    have "parts' = parts" using a(1,2) parts(1,4) cleanPath_abs abs_path_inj by metis
    have "map_of cs name = None" using a(4) by (cases "map_of cs name") simp_all
    then have "and_then (RevisionRoot lib repo source_revision) (\<lambda>root.
        and_then (nodeAt lib repo root source_path) (\<lambda>source. Inr (source, put_child name (?node root source) cs))) = Inr (x, cs')"
      using a(4) by simp
    then obtain root where root: "RevisionRoot lib repo source_revision = Inr root" "nodeAt lib repo root source_path = Inr x"
      "cs' = put_child name (?node root x) cs"
      by (auto simp: and_then_Inr)
    have "0 \<le> source_revision" "source_revision \<le> repo_youngest repo" using root(1) by (auto simp: RevisionRoot_def split: if_splits)
    then have "nonneg64 source_revision" using repo by (simp add: printable_repo_def nonneg64_def)
    then have "tidy lib repo revision (parts @ [name]) (?node root x)" unfolding parts(3)
      using sound root(1,2)
      by (intro copied_node_tidy [OF printable_found(2,1) [OF repo root(1,2)] _ short temporary_id_ok [OF p(2)] p(3)])
        (auto simp: parts(1,2) sound_source_def)
    then show "tidy_children lib repo revision parts' cs'" unfolding root(3) \<open>parts' = parts\<close>
      by (intro put_child_tidy parts(2)) (use a(3) \<open>parts' = parts\<close> in \<open>simp_all add: readable_base_def\<close>)
  qed
  moreover have "short_path parent"
    using parts(1,4) short text_ok_prefix cleanPath_abs by (auto simp: short_path_def)
  ultimately show ?thesis
    using on_path_tidy [OF repo] tx by (simp add: txn_Copy_def Inr y)
qed

text \<open>Work that changes only the properties and the contents of a node.\<close>

definition same_record :: "txn_data \<Rightarrow> txn_data \<Rightarrow> bool" where
  "same_record d d' \<longleftrightarrow>
     tn_created_path d' = tn_created_path d \<and> tn_base_node d' = tn_base_node d \<and> tn_kind d' = tn_kind d \<and> tn_dirty d' = tn_dirty d \<and>
     tn_new d' = tn_new d \<and> tn_copyfrom_rev d' = tn_copyfrom_rev d \<and> tn_copyfrom_path d' = tn_copyfrom_path d \<and>
     tn_temporary_id d' = tn_temporary_id d \<and> tn_base d' = tn_base d"

lemma same_record_committable: "same_record d d' \<Longrightarrow> committable revision d' = committable revision d"
proof -
  assume s: "same_record d d'"
  then have "copyroot_of revision d' = copyroot_of revision d" by (simp add: same_record_def copyroot_of_def)
  with s show ?thesis by (simp add: same_record_def committable_def record_ok_def split del: if_split cong: if_cong)
qed

lemma edits_keep:
  assumes "\<And>n r n'. work n = (r, n') \<Longrightarrow>
     n' = n \<and> (\<exists>e. r = Inl e) \<or> same_record (data_of_node n) (data_of_node n') \<and> children_of_node n' = children_of_node n \<and>
       ((\<exists>x. r = Inr x) \<and> marks \<or>
        tn_text_modified (data_of_node n') = tn_text_modified (data_of_node n) \<and>
        tn_props_modified (data_of_node n') = tn_props_modified (data_of_node n)) \<and>
       (faithful lib repo (data_of_node n) \<longrightarrow> faithful lib repo (data_of_node n'))"
  shows "leaves_tidy lib repo revision marks p work"
  unfolding leaves_tidy_def
proof (intro allI impI)
  fix parts n r n'
  assume a: "list_all path_component parts \<and> text_ok (abs_path parts) \<and> cleanPath p = Inr (abs_path parts) \<and>
        tidy lib repo revision parts n \<and> work n = (r, n')"
  obtain d cs where n: "n = TxnNode d cs" by (cases n)
  obtain d' cs' where n': "n' = TxnNode d' cs'" by (cases n')
  have t: "tidy lib repo revision parts (TxnNode d cs)" using a n by simp
  show "if marks \<and> (\<exists>x. r = Inr x) then tidy lib repo revision parts (mark_dirty n')
         else tidy lib repo revision parts n' \<and> same_node n n'"
  proof (cases "n' = n \<and> (\<exists>e. r = Inl e)")
    case True
    then obtain e where "n' = n" "r = Inl e" by blast
    then show ?thesis using a by (simp add: same_node_def)
  next
    case False
    have "work n = (r, n')" using a by blast
    from assms [OF this] False have s: "same_record d d'" "cs' = cs"
      "(\<exists>x. r = Inr x) \<and> marks \<or> tn_text_modified d' = tn_text_modified d \<and> tn_props_modified d' = tn_props_modified d"
      "faithful lib repo d \<longrightarrow> faithful lib repo d'"
      unfolding n n' txn_node.sel by blast+
    show ?thesis
    proof (cases "marks \<and> (\<exists>x. r = Inr x)")
      case True
      have "tidy lib repo revision parts (mark_dirty (TxnNode d' cs))"
      proof (rule edit_tidy [OF t])
        show "tn_created_path d' = tn_created_path d \<and> tn_base d' = tn_base d \<and> tn_base_node d' = tn_base_node d"
          using s(1) by (simp add: same_record_def)
        show "committable revision d \<Longrightarrow> committable revision d'" using same_record_committable [OF s(1)] by simp
        show "faithful lib repo d \<Longrightarrow> faithful lib repo d'" using s(4) by blast
      qed (use a in blast)+
      then show ?thesis using True by (simp add: n' s(2))
    next
      case False
      then have m: "tn_text_modified d' = tn_text_modified d" "tn_props_modified d' = tn_props_modified d" using s(3) by blast+
      note eqs = s(1) [unfolded same_record_def]
      have "settled d' = settled d" by (simp add: settled_def unchanged_def eqs m)
      moreover have "from_base lib repo d' = from_base lib repo d" by (simp add: fun_eq_iff from_base_def eqs)
      moreover have "faithful lib repo d'" using t s(4) by (simp add: tidy.simps located_def)
      ultimately have "tidy lib repo revision parts n'" using t
        by (simp only: n' s(2) tidy.simps located_def same_record_committable [OF s(1)] eqs simp_thms) blast
      moreover have "same_node n n'" by (simp add: n n' same_node_def eqs)
      ultimately show ?thesis by (simp only: if_not_P [OF False] simp_thms)
    qed
  qed
qed

lemma ChangeNodeProp_tidy:
  assumes "printable_repo lib repo" "short_path p" "tidy lib repo revision [] (tx_root tx)"
  shows "tidy lib repo revision [] (tx_root (snd (ChangeNodeProp lib repo p name v tx)))"
proof (cases "name = []")
  case True
  then show ?thesis using assms(3) by (simp add: ChangeNodeProp_def)
next
  case False
  show ?thesis unfolding ChangeNodeProp_def if_not_P [OF False] recorded_root
    by (rule on_path_tidy [OF assms(1,2) _ assms(3)], rule edits_keep)
      (auto simp: Let_def same_record_def split: sum.splits)
qed

lemma ApplyText_tidy:
  assumes "printable_repo lib repo" "short_path p" "tidy lib repo revision [] (tx_root tx)"
  shows "tidy lib repo revision [] (tx_root (snd (ApplyText lib repo p contents tx)))"
  unfolding ApplyText_def recorded_root
  by (rule on_path_tidy [OF assms(1,2) _ assms(3)], rule edits_keep)
    (auto simp: same_record_def set_content_def split: if_splits)

lemma ApplyTextDelta_tidy:
  assumes "printable_repo lib repo" "short_path p" "tidy lib repo revision [] (tx_root tx)"
  shows "tidy lib repo revision [] (tx_root (snd (ApplyTextDelta lib repo p checksum windows tx)))"
  unfolding ApplyTextDelta_def recorded_root
  by (rule on_path_tidy [OF assms(1,2) _ assms(3)], rule edits_keep)
    (auto simp: same_record_def set_content_def Let_def loaded_content split: if_splits sum.splits)

lemma txn_queries_tidy:
  assumes "printable_repo lib repo" "short_path p" "tidy lib repo revision [] (tx_root tx)"
  shows "tidy lib repo revision [] (tx_root (snd (txn_CheckPath lib repo p tx)))"
    "tidy lib repo revision [] (tx_root (snd (txn_NodeProps lib repo p tx)))"
    "tidy lib repo revision [] (tx_root (snd (txn_FileContents lib repo p tx)))"
  unfolding txn_CheckPath_def txn_NodeProps_def txn_FileContents_def
  by (rule on_path_tidy [OF assms(1,2) _ assms(3)], rule edits_keep;
      auto simp: same_record_def loaded_content loaded_properties split: if_splits sum.splits)+

lemma txn_DirEntries_tidy:
  assumes "printable_repo lib repo" "short_path p" "tidy lib repo revision [] (tx_root tx)"
  shows "tidy lib repo revision [] (tx_root (snd (txn_DirEntries lib repo p tx)))"
  unfolding txn_DirEntries_def
proof (rule on_path_tidy [OF assms(1,2) _ assms(3)])
  show "leaves_tidy lib repo revision False p (\<lambda>n. if node_kind n \<noteq> NodeDir then (Inl (NotDirectory p), n)
       else case loadChildren lib repo n of
           Inl e \<Rightarrow> (Inl e, n)
         | Inr cs \<Rightarrow> (Inr (sort_key fst (map (\<lambda>(name, child). (name, node_kind child)) cs)), TxnNode (data_of_node n) (Some cs)))"
    unfolding leaves_tidy_def
  proof (intro allI impI, elim conjE)
    fix parts n r n'
    assume parts: "list_all path_component parts" and t: "tidy lib repo revision parts n"
      and w: "(if node_kind n \<noteq> NodeDir then (Inl (NotDirectory p), n)
       else case loadChildren lib repo n of
           Inl e \<Rightarrow> (Inl e, n)
         | Inr cs \<Rightarrow> (Inr (sort_key fst (map (\<lambda>(name, child). (name, node_kind child)) cs)), TxnNode (data_of_node n) (Some cs))) = (r, n')"
    have "tidy lib repo revision parts n' \<and> same_node n n'"
    proof (cases "node_kind n = NodeDir \<and> (\<exists>cs. loadChildren lib repo n = Inr cs)")
      case False
      then have "n' = n" using w by (auto split: if_splits sum.splits)
      then show ?thesis using t by (simp add: same_node_def)
    next
      case True
      then obtain cs where cs: "loadChildren lib repo n = Inr cs" by blast
      then have "n' = TxnNode (data_of_node n) (Some cs)" using w True by auto
      then show ?thesis using load_tidy [OF assms(1) t cs parts] by (simp add: same_node_def)
    qed
    then show "if False \<and> (\<exists>x. r = Inr x) then tidy lib repo revision parts (mark_dirty n')
         else tidy lib repo revision parts n' \<and> same_node n n'" by simp
  qed
qed

section \<open>Sequences of operations\<close>

text \<open>What every operation leaves as it is.\<close>

definition same_txn :: "transaction \<Rightarrow> transaction \<Rightarrow> bool" where
  "same_txn tx tx' \<longleftrightarrow> tx_name tx' = tx_name tx \<and> tx_base tx' = tx_base tx \<and> node_kind (tx_root tx') = node_kind (tx_root tx)"

lemma at_path_kind:
  assumes "\<And>n r n'. work n = (r, n') \<Longrightarrow> node_kind n' = node_kind n"
  shows "at_path lib repo marks missing work names t = (r, t') \<Longrightarrow> node_kind t' = node_kind t"
proof (cases names)
  case Nil
  assume "at_path lib repo marks missing work names t = (r, t')"
  then show ?thesis using assms [of t] unfolding Nil by (cases "work t") (auto simp: mark_dirty_def split: sum.splits)
next
  case (Cons name rest)
  assume "at_path lib repo marks missing work names t = (r, t')"
  then show ?thesis unfolding Cons
    by (auto simp: mark_dirty_def Let_def split: if_splits sum.splits option.splits prod.splits)
qed

lemma on_path_same:
  assumes "\<And>n r n'. work n = (r, n') \<Longrightarrow> node_kind n' = node_kind n"
  shows "same_txn tx (snd (on_path lib repo marks missing p work tx))"
  by (auto simp: on_path_def same_txn_def split: sum.split prod.split intro: at_path_kind assms)

lemma persist_same: "same_txn tx (snd (persist lib repo tx))"
  by (auto simp: persist_def same_txn_def Let_def split: prod.split sum.split)

lemma recorded_same: "same_txn tx (snd result) \<Longrightarrow> same_txn tx (snd (recorded lib repo change ids result))"
proof (cases result)
  case (Pair r tx')
  assume s: "same_txn tx (snd result)"
  have "same_txn tx (snd (persist lib repo (tx'\<lparr>tx_changes := c, tx_next := n\<rparr>)))" for c n
    using s persist_same [of "tx'\<lparr>tx_changes := c, tx_next := n\<rparr>" lib repo] by (simp add: Pair same_txn_def)
  with s show ?thesis by (simp add: Pair recorded_def split: sum.split)
qed

lemma in_directory_kind: "in_directory lib repo q f n = (r, n') \<Longrightarrow> node_kind n' = node_kind n"
  by (auto simp: in_directory_def split: if_splits sum.splits)

lemma same_txn_refl: "same_txn tx tx" by (simp add: same_txn_def)

text \<open>The operations of the editor of a transaction, in any order, whether they succeed or fail.\<close>

inductive edit_step :: "stdlib \<Rightarrow> repository \<Rightarrow> transaction \<Rightarrow> transaction \<Rightarrow> bool" for lib repo where
  make_dir: "short_path p \<Longrightarrow> tx_next tx < 2 ^ 63 \<Longrightarrow> edit_step lib repo tx (snd (MakeDir lib repo p tx))"
| make_file: "short_path p \<Longrightarrow> tx_next tx < 2 ^ 63 \<Longrightarrow> edit_step lib repo tx (snd (MakeFile lib repo p tx))"
| delete: "short_path p \<Longrightarrow> edit_step lib repo tx (snd (txn_Delete lib repo p tx))"
| copy: "short_path p \<Longrightarrow> tx_next tx < 2 ^ 63 \<Longrightarrow> sound_source lib repo r q \<Longrightarrow> edit_step lib repo tx (snd (txn_Copy lib repo r q p tx))"
| change_prop: "short_path p \<Longrightarrow> edit_step lib repo tx (snd (ChangeNodeProp lib repo p name v tx))"
| apply_text: "short_path p \<Longrightarrow> edit_step lib repo tx (snd (ApplyText lib repo p contents tx))"
| apply_delta: "short_path p \<Longrightarrow> edit_step lib repo tx (snd (ApplyTextDelta lib repo p checksum windows tx))"
| check_path: "short_path p \<Longrightarrow> edit_step lib repo tx (snd (txn_CheckPath lib repo p tx))"
| node_props: "short_path p \<Longrightarrow> edit_step lib repo tx (snd (txn_NodeProps lib repo p tx))"
| dir_entries: "short_path p \<Longrightarrow> edit_step lib repo tx (snd (txn_DirEntries lib repo p tx))"
| file_contents: "short_path p \<Longrightarrow> edit_step lib repo tx (snd (txn_FileContents lib repo p tx))"
| revision_prop: "ChangeProperty name v tx = Inr tx' \<Longrightarrow> edit_step lib repo tx tx'"

lemma edit_step_same:
  assumes "edit_step lib repo tx tx'" shows "same_txn tx tx'"
  using assms
proof cases
  case (make_dir p)
  then show ?thesis unfolding MakeDir_def makeNode_def
    by (auto simp: same_txn_refl split: sum.split prod.split intro!: recorded_same on_path_same dest: in_directory_kind)
next
  case (make_file p)
  then show ?thesis unfolding MakeFile_def makeNode_def
    by (auto simp: same_txn_refl split: sum.split prod.split intro!: recorded_same on_path_same dest: in_directory_kind)
next
  case (delete p)
  then show ?thesis unfolding txn_Delete_def
    by (auto simp: same_txn_refl split: sum.split prod.split intro!: recorded_same on_path_same dest: in_directory_kind)
next
  case (copy p r q)
  then show ?thesis unfolding txn_Copy_def
    by (auto simp: same_txn_refl split: sum.split prod.split intro!: recorded_same on_path_same dest: in_directory_kind)
next
  case (change_prop p name v)
  then show ?thesis unfolding ChangeNodeProp_def
    by (auto simp: same_txn_refl Let_def split: if_split sum.splits intro!: recorded_same on_path_same)
next
  case (apply_text p contents)
  show ?thesis unfolding apply_text ApplyText_def
    by (rule recorded_same, rule on_path_same) (auto simp: set_content_def split: if_splits)
next
  case (apply_delta p checksum windows)
  show ?thesis unfolding apply_delta ApplyTextDelta_def
    by (rule recorded_same, rule on_path_same) (auto simp: set_content_def Let_def split: if_splits sum.splits)
next
  case (check_path p)
  show ?thesis unfolding check_path txn_CheckPath_def by (rule on_path_same) auto
next
  case (node_props p)
  show ?thesis unfolding node_props txn_NodeProps_def by (rule on_path_same) (auto split: sum.splits)
next
  case (dir_entries p)
  show ?thesis unfolding dir_entries txn_DirEntries_def by (rule on_path_same) (auto split: if_splits sum.splits)
next
  case (file_contents p)
  show ?thesis unfolding file_contents txn_FileContents_def by (rule on_path_same) (auto split: if_splits sum.splits)
next
  case (revision_prop name v)
  then show ?thesis by (auto simp: ChangeProperty_def same_txn_def and_then_Inr split: if_splits)
qed

lemma edit_step_tidy:
  assumes "edit_step lib repo tx tx'" "printable_repo lib repo" "nonneg64 revision" "tidy lib repo revision [] (tx_root tx)"
  shows "tidy lib repo revision [] (tx_root tx')"
  using assms
proof cases
  case (revision_prop name v)
  then have "tx_root tx' = tx_root tx" by (auto simp: ChangeProperty_def and_then_Inr split: if_splits)
  then show ?thesis using assms(4) by simp
qed (auto simp: MakeDir_def MakeFile_def makeNode_tidy txn_Delete_tidy txn_Copy_tidy ChangeNodeProp_tidy ApplyText_tidy
   ApplyTextDelta_tidy txn_queries_tidy txn_DirEntries_tidy)

lemma edits_tidy:
  assumes "(edit_step lib repo)\<^sup>*\<^sup>* tx tx'" "printable_repo lib repo" "nonneg64 revision" "tidy lib repo revision [] (tx_root tx)"
  shows "tidy lib repo revision [] (tx_root tx') \<and> same_txn tx tx'"
  using assms(1)
proof (induction rule: rtranclp_induct)
  case (step y z)
  then show ?case using edit_step_tidy [OF step(2) assms(2,3)] edit_step_same [OF step(2)] by (simp add: same_txn_def)
qed (use assms(4) in \<open>simp add: same_txn_refl\<close>)

section \<open>A transaction that has begun\<close>

lemma begun_repository:
  "openRevision lib (repo\<lparr>repo_sequence := n\<rparr>) r = openRevision lib repo r"
  "RevisionRoot lib (repo\<lparr>repo_sequence := n\<rparr>) r = RevisionRoot lib repo r"
  by (simp_all add: openRevision_def RevisionRoot_def)

lemma begun_tidy:
  assumes "BeginTxn lib date base repo = Inr (tx, repo')" "printable_repo lib repo'"
  shows "tidy lib repo' revision [] (tx_root tx)" "node_kind (tx_root tx) = NodeDir" "tx_base tx = base"
    "tx_name tx = itoa base @ ''-'' @ base36 (repo_sequence repo)" "repo_files repo' = repo_files repo" "repo_youngest repo' = repo_youngest repo"
    "0 \<le> base"
proof -
  obtain root where root: "RevisionRoot lib repo base = Inr root" "0 \<le> base" "repo' = repo\<lparr>repo_sequence := Suc (repo_sequence repo)\<rparr>"
    "tx_root tx = TxnNode (newTxnNode root ''/'' (root_node root)) None" "tx_base tx = base"
    "tx_name tx = itoa base @ ''-'' @ base36 (repo_sequence repo)"
    using assms(1) by (auto simp: BeginTxn_def and_then_Inr split: if_splits)
  have root': "RevisionRoot lib repo' base = Inr root" using root(1,3) by (simp add: begun_repository)
  have "node_in lib repo' (root_node root)" using root' by (rule root_in)
  then have p: "printable (root_node root)" "node_in lib repo' (root_node root)" using assms(2) by (auto simp: printable_repo_def)
  have "nodeAt lib repo' root ''/'' = Inr m \<Longrightarrow> m = root_node root" for m
    using path_Clean_abs [of "[]"] by (simp add: nodeAt_def findNode_def cleanPath_def TrimPrefix_def abs_path_def ok_or_def Let_def)
  then have base: "faithful lib repo' (newTxnNode root ''/'' (root_node root))"
    by (auto simp: faithful_def newTxnNode_def abs_path_def intro!: exI [of _ "[]"])
  have "nr_kind (root_node root) = NodeDir" using root(1) by (auto simp: RevisionRoot_def and_then_Inr split: if_splits)
  then show "tidy lib repo' revision [] (tx_root tx)" "node_kind (tx_root tx) = NodeDir" "tx_base tx = base"
    "tx_name tx = itoa base @ ''-'' @ base36 (repo_sequence repo)" "repo_files repo' = repo_files repo" "repo_youngest repo' = repo_youngest repo"
    "0 \<le> base"
    using p root base by (simp_all add: tidy_leaf located_def settled_def unchanged_def newTxnNode_def abs_path_def)
qed

lemma begun_name:
  assumes "nonneg64 base" "sequence < 2 ^ 63"
  shows "name_ok (itoa base @ ''-'' @ base36 sequence)"
proof -
  have "plain (itoa base)" using assms(1) by (simp add: plain_digits)
  moreover have "plain (base36 sequence)" by (rule base36_plain)
  moreover have "plain ''-''" by code_simp
  ultimately have "plain (itoa base @ ''-'' @ base36 sequence)" by simp
  moreover have "length (itoa base) \<le> 19" using itoa_length [OF assms(1)] assms(1) by simp
  moreover have "length (base36 sequence) \<le> 60000" using base36_short [OF assms(2)] by simp
  ultimately show ?thesis by (simp add: name_ok_def)
qed

section \<open>Queries\<close>

text \<open>A query answers from the node that \<open>lookup\<close> finds.\<close>

lemma at_path_query:
  "fst (at_path lib repo False missing work names t) =
     (case txn_lookup lib repo names t of Inl e \<Rightarrow> Inl e | Inr None \<Rightarrow> missing | Inr (Some n) \<Rightarrow> fst (work n))"
proof (induction names arbitrary: t)
  case Nil
  then show ?case by (cases "work t") (simp split: sum.split)
next
  case (Cons name names)
  show ?case
  proof (cases "loadChildren lib repo t")
    case (Inr cs)
    show ?thesis
    proof (cases "map_of cs name")
      case (Some child)
      then show ?thesis
        using Cons.IH [of child] Inr
        by (cases "at_path lib repo False missing work names child") (auto split: sum.splits)
    qed (simp add: Inr)
  qed simp
qed

lemma on_path_query:
  "cleanPath p = Inr cleaned \<Longrightarrow>
     fst (on_path lib repo False missing p work tx) =
       (case txn_lookup lib repo (path_names cleaned) (tx_root tx) of
          Inl e \<Rightarrow> Inl e | Inr None \<Rightarrow> missing | Inr (Some n) \<Rightarrow> fst (work n))"
  using at_path_query [of lib repo missing work "path_names cleaned" "tx_root tx"]
  by (simp add: on_path_def split_beta)

lemma on_path_cleaned: "fst (on_path lib repo marks missing p work tx) = Inr x \<Longrightarrow> \<exists>cleaned. cleanPath p = Inr cleaned"
  by (auto simp: on_path_def split: sum.splits)

text \<open>What a query finds in a tidy tree is tidy.\<close>

lemma lookup_tidy:
  assumes "printable_repo lib repo"
  shows "tidy lib repo revision parts t \<Longrightarrow> list_all path_component (parts @ names) \<Longrightarrow>
     txn_lookup lib repo names t = Inr (Some n) \<Longrightarrow> tidy lib repo revision (parts @ names) n"
proof (induction names arbitrary: parts t)
  case (Cons name names)
  obtain cs child where c: "loadChildren lib repo t = Inr cs" "map_of cs name = Some child"
      "txn_lookup lib repo names child = Inr (Some n)"
    using Cons.prems(3) by (auto simp: and_then_Inr split: if_splits option.splits)
  have "tidy lib repo revision parts (TxnNode (data_of_node t) (Some cs))"
    using load_tidy [OF assms Cons.prems(1) c(1)] Cons.prems(2) by simp
  then have "tidy lib repo revision (parts @ [name]) child"
    using map_of_SomeD [OF c(2)] by (auto simp: tidy_loaded tidy_children_def)
  from Cons.IH [OF this _ c(3)] Cons.prems(2) show ?case by simp
qed simp

lemma lookup_faithful:
  assumes "printable_repo lib repo" "tidy lib repo revision [] (tx_root tx)" "cleanPath p = Inr cleaned"
    "txn_lookup lib repo (path_names cleaned) (tx_root tx) = Inr (Some n)"
  shows "faithful lib repo (data_of_node n)"
proof -
  obtain parts where parts: "list_all path_component parts" "cleaned = abs_path parts"
    using cleanPath_parts [OF assms(3)] by blast
  have "tidy lib repo revision ([] @ parts) n"
    using lookup_tidy [OF assms(1,2), of parts n] assms(4) parts by (simp add: path_names_abs)
  then show ?thesis by (cases n) (simp add: tidy.simps located_def)
qed

text \<open>So what a query answers is what a commit writes, and it answers what the revision will show.\<close>

lemma queries_answer:
  assumes repo: "printable_repo lib repo" "tidy lib repo revision [] (tx_root tx)"
    and agree: "\<And>p cleaned. cleanPath p = Inr cleaned \<Longrightarrow>
       (case txn_lookup lib repo (path_names cleaned) (tx_root tx) of
          Inr (Some n) \<Rightarrow> shows_path lib repo repo' root p (data_of_node n)
        | Inr None \<Rightarrow> CheckPath lib repo' root p = Inr NodeNone
        | Inl _ \<Rightarrow> True)"
  shows "fst (txn_CheckPath lib repo p tx) = Inr kind \<Longrightarrow> CheckPath lib repo' root p = Inr kind"
    and "fst (txn_FileContents lib repo p tx) = Inr contents \<Longrightarrow> FileContents lib repo' root p = Inr contents"
    and "fst (txn_NodeProps lib repo p tx) = Inr vs \<Longrightarrow> NodeProps lib repo' root p = Inr vs"
proof -
  {
    assume q: "fst (txn_CheckPath lib repo p tx) = Inr kind"
    then obtain cleaned where c: "cleanPath p = Inr cleaned" using on_path_cleaned [OF q [unfolded txn_CheckPath_def]] by blast
    show "CheckPath lib repo' root p = Inr kind"
      using q agree [OF c] unfolding txn_CheckPath_def on_path_query [OF c]
      by (auto simp: shows_path_def split: sum.splits option.splits)
  next
    assume q: "fst (txn_FileContents lib repo p tx) = Inr contents"
    then obtain cleaned where c: "cleanPath p = Inr cleaned" using on_path_cleaned [OF q [unfolded txn_FileContents_def]] by blast
    obtain n where n: "txn_lookup lib repo (path_names cleaned) (tx_root tx) = Inr (Some n)" "node_kind n = NodeFile"
        "loadContent lib repo (data_of_node n) = Inr contents"
      using q unfolding txn_FileContents_def on_path_query [OF c] by (auto split: sum.splits option.splits if_splits)
    show "FileContents lib repo' root p = Inr contents"
      using agree [OF c] n loaded_content(2) [OF lookup_faithful [OF repo c n(1)] n(3)] by (simp add: shows_path_def)
  next
    assume q: "fst (txn_NodeProps lib repo p tx) = Inr vs"
    then obtain cleaned where c: "cleanPath p = Inr cleaned" using on_path_cleaned [OF q [unfolded txn_NodeProps_def]] by blast
    obtain n where n: "txn_lookup lib repo (path_names cleaned) (tx_root tx) = Inr (Some n)"
        "loadProperties lib repo (data_of_node n) = Inr vs"
      using q unfolding txn_NodeProps_def on_path_query [OF c] by (auto split: sum.splits option.splits if_splits)
    show "NodeProps lib repo' root p = Inr vs"
      using agree [OF c] n loaded_properties(2) [OF lookup_faithful [OF repo c n(1)] n(2)] by (simp add: shows_path_def)
  }
qed

section \<open>Effects\<close>

text \<open>An operation that succeeds is seen by the queries: the walk leaves the work at its path.\<close>

lemma at_path_effect:
  "at_path lib repo True (Inl e) work names t = (Inr x, t') \<Longrightarrow>
     \<exists>n n'. txn_lookup lib repo names t = Inr (Some n) \<and> work n = (Inr x, n') \<and>
       txn_lookup lib repo names t' = Inr (Some (mark_dirty n'))"
proof (induction names arbitrary: t t')
  case Nil
  then show ?case by (cases "work t") (auto split: sum.splits)
next
  case (Cons name names)
  obtain cs child child' where c: "node_kind t = NodeDir" "loadChildren lib repo t = Inr cs" "map_of cs name = Some child"
      "at_path lib repo True (Inl e) work names child = (Inr x, child')"
      "t' = mark_dirty (TxnNode (data_of_node t) (Some (put_child name child' cs)))"
    using Cons.prems by (auto simp: Let_def split: if_splits sum.splits option.splits prod.splits)
  have "loadChildren lib repo t' = Inr (put_child name child' cs)" "node_kind t' = NodeDir"
    using c(1) by (simp_all add: c(5) mark_dirty_def loadChildren_def)
  moreover have "map_of (put_child name child' cs) name = Some child'" by (simp add: put_child_def)
  ultimately show ?case using Cons.IH [OF c(4)] c(1-3) by simp
qed

lemma on_path_effect:
  assumes "on_path lib repo True (Inl e) p work tx = (Inr x, tx')"
  obtains cleaned n n' where "cleanPath p = Inr cleaned" "work n = (Inr x, n')"
    "txn_lookup lib repo (path_names cleaned) (tx_root tx') = Inr (Some (mark_dirty n'))"
    "txn_lookup lib repo (path_names cleaned) (tx_root tx) = Inr (Some n)"
  using assms at_path_effect [of lib repo e work] by (fastforce simp: on_path_def split: sum.splits prod.splits)

lemma recorded_effect:
  assumes "recorded lib repo change ids result = (Inr (), tx')"
  obtains x tx where "result = (Inr x, tx)" "tx_root tx' = tx_root tx"
proof (cases result)
  case (Pair r tx)
  then show thesis using assms that recorded_root [of lib repo change ids result]
    by (cases r) (auto simp: recorded_def)
qed

lemma ApplyText_effect:
  assumes "ApplyText lib repo p contents tx = (Inr (), tx')"
  shows "fst (txn_FileContents lib repo p tx') = Inr contents"
proof -
  obtain d t where r: "on_path lib repo True (Inl (NotFound p)) p (\<lambda>n.
          if node_kind n \<noteq> NodeFile then (Inl (NotFile p), n)
          else (Inr (data_of_node n), set_content contents n)) tx = (Inr d, t)" "tx_root tx' = tx_root t"
    by (rule recorded_effect [OF assms [unfolded ApplyText_def]])
  obtain cleaned n n' where c: "cleanPath p = Inr cleaned"
      "(if node_kind n \<noteq> NodeFile then (Inl (NotFile p), n) else (Inr (data_of_node n), set_content contents n)) = (Inr d, n')"
      "txn_lookup lib repo (path_names cleaned) (tx_root t) = Inr (Some (mark_dirty n'))"
    by (rule on_path_effect [OF r(1)])
  have "n' = set_content contents n" "node_kind n = NodeFile" using c(2) by (auto split: if_splits)
  then show ?thesis using c(3) r(2)
    by (simp add: txn_FileContents_def on_path_query [OF c(1)] mark_dirty_def set_content_def loadContent_def)
qed

lemma ApplyTextDelta_effect:
  assumes "ApplyTextDelta lib repo p checksum windows tx = (Inr (), tx')"
  shows "\<exists>base target. fst (txn_FileContents lib repo p tx) = Inr base \<and> handler_windows base [] windows = Inr target \<and>
    fst (txn_FileContents lib repo p tx') = Inr target"
proof -
  let ?work = "\<lambda>n. if node_kind n \<noteq> NodeFile then (Inl (NotFile p), n)
          else case loadContent lib repo (data_of_node n) of
              Inl e \<Rightarrow> (Inl e, n)
            | Inr base \<Rightarrow>
                let loaded = TxnNode (data_of_node n\<lparr>tn_content := Some base\<rparr>) (children_of_node n) in
                if (case checksum of None \<Rightarrow> False
                    | Some c \<Rightarrow> \<not> Equal (Sum (std_md5 lib) (std_sha1 lib) (checksum_kind c) base) c)
                then (Inl BadChecksum, loaded)
                else case handler_windows base [] windows of
                    Inl e \<Rightarrow> (Inl e, loaded)
                  | Inr target \<Rightarrow> (Inr (data_of_node n), set_content target loaded)"
  obtain d t where r: "on_path lib repo True (Inl (NotFound p)) p ?work tx = (Inr d, t)" "tx_root tx' = tx_root t"
    by (rule recorded_effect [OF assms [unfolded ApplyTextDelta_def]])
  obtain cleaned n n' where c: "cleanPath p = Inr cleaned" "?work n = (Inr d, n')"
      "txn_lookup lib repo (path_names cleaned) (tx_root t) = Inr (Some (mark_dirty n'))"
      "txn_lookup lib repo (path_names cleaned) (tx_root tx) = Inr (Some n)"
    by (rule on_path_effect [OF r(1)])
  obtain base target where w: "node_kind n = NodeFile" "loadContent lib repo (data_of_node n) = Inr base"
      "handler_windows base [] windows = Inr target"
      "n' = set_content target (TxnNode (data_of_node n\<lparr>tn_content := Some base\<rparr>) (children_of_node n))"
    using c(2) by (auto simp: Let_def split: if_splits sum.splits)
  then show ?thesis using c(3,4) r(2)
    by (simp add: txn_FileContents_def on_path_query [OF c(1)] mark_dirty_def set_content_def loadContent_def)
qed

lemma ChangeNodeProp_effect:
  assumes "ChangeNodeProp lib repo p name v tx = (Inr (), tx')"
  shows "\<exists>vs. fst (txn_NodeProps lib repo p tx') = Inr vs \<and> fmlookup vs name = v"
proof -
  have named: "name \<noteq> []" using assms by (auto simp: ChangeNodeProp_def)
  let ?work = "\<lambda>n. let d = data_of_node n in
             case loadProperties lib repo d of
               Inl e \<Rightarrow> (Inl e, n)
             | Inr vs \<Rightarrow>
                 (Inr d, TxnNode (d\<lparr>tn_properties := Some (set_prop name v vs), tn_props_modified := True\<rparr>) (children_of_node n))"
  obtain d t where r: "on_path lib repo True (Inl (NotFound p)) p ?work tx = (Inr d, t)" "tx_root tx' = tx_root t"
    by (rule recorded_effect [OF assms [unfolded ChangeNodeProp_def if_not_P [OF named]]])
  obtain cleaned n n' where c: "cleanPath p = Inr cleaned" "?work n = (Inr d, n')"
      "txn_lookup lib repo (path_names cleaned) (tx_root t) = Inr (Some (mark_dirty n'))"
    by (rule on_path_effect [OF r(1)])
  obtain vs where "n' = TxnNode ((data_of_node n)\<lparr>tn_properties := Some (set_prop name v vs), tn_props_modified := True\<rparr>) (children_of_node n)"
    using c(2) by (auto simp: Let_def split: sum.splits)
  then have "fst (txn_NodeProps lib repo p tx') = Inr (set_prop name v vs)" using c(3) r(2)
    by (simp add: txn_NodeProps_def on_path_query [OF c(1)] mark_dirty_def loadProperties_def)
  then show ?thesis by (auto simp: set_prop_def split: option.splits)
qed

text \<open>Operations on an entry of a directory.\<close>

lemma lookup_snoc:
  "txn_lookup lib repo names t = Inr (Some (TxnNode d (Some cs))) \<Longrightarrow> tn_kind d = NodeDir \<Longrightarrow>
     txn_lookup lib repo (names @ [name]) t = Inr (map_of cs name)"
proof (induction names arbitrary: t)
  case Nil
  then show ?case by (auto simp: loadChildren_def split: option.splits)
next
  case (Cons first names)
  then show ?case by (auto simp: and_then_Inr split: if_splits option.splits)
qed

lemma entry_effect:
  assumes "splitTxnPath p = Inr (cleaned, parent, name)"
    and "on_path lib repo True (Inl e) parent (in_directory lib repo parent f) tx = (Inr x, tx')"
  obtains cs cs' where "f cs = Inr (x, cs')" "cleanPath p = Inr cleaned"
    "txn_lookup lib repo (path_names cleaned) (tx_root tx') = Inr (map_of cs' name)"
proof -
  obtain parts where parts: "list_all path_component parts" "path_component name" "cleaned = abs_path (parts @ [name])"
    "parent = abs_path parts" "cleanPath p = Inr cleaned"
    by (rule splitTxnPath_parts [OF assms(1)])
  obtain cleaned' n n' where c: "cleanPath parent = Inr cleaned'" "in_directory lib repo parent f n = (Inr x, n')"
      "txn_lookup lib repo (path_names cleaned') (tx_root tx') = Inr (Some (mark_dirty n'))"
    by (rule on_path_effect [OF assms(2)])
  have names: "path_names cleaned' = parts" using c(1) cleanPath_abs [OF parts(1)] path_names_abs [OF parts(1)] parts(4) by simp
  obtain cs cs' where w: "node_kind n = NodeDir" "f cs = Inr (x, cs')" "n' = TxnNode (data_of_node n) (Some cs')"
    using c(2) by (auto simp: in_directory_def split: if_splits sum.splits)
  have "txn_lookup lib repo (parts @ [name]) (tx_root tx') = Inr (map_of cs' name)"
    using c(3) w(1) by (intro lookup_snoc [where d = "(data_of_node n)\<lparr>tn_dirty := True\<rparr>"]) (simp_all add: names w(3) mark_dirty_def)
  moreover have "path_names cleaned = parts @ [name]"
    unfolding parts(3) by (rule path_names_abs) (simp add: parts(1,2))
  ultimately show thesis using that w(2) parts(5) by simp
qed

lemma makeNode_effect:
  assumes "makeNode lib repo p kind tx = (Inr (), tx')"
  shows "fst (txn_CheckPath lib repo p tx') = Inr kind"
proof -
  obtain cleaned parent name where y: "splitTxnPath p = Inr (cleaned, parent, name)"
    using assms by (auto simp: makeNode_def split: sum.splits prod.splits)
  let ?f = "\<lambda>cs. if map_of cs name \<noteq> None then Inl (AlreadyExists cleaned)
                 else Inr ((), put_child name (new_node cleaned kind (temporary_id tx)) cs)"
  have run: "recorded lib repo (\<lambda>_. change_at cleaned ChangeAdd kind True False) 1
      (on_path lib repo True (Inl (NotFound parent)) parent (in_directory lib repo parent ?f) tx) = (Inr (), tx')"
    using assms unfolding makeNode_def y by simp
  obtain x t where r: "on_path lib repo True (Inl (NotFound parent)) parent (in_directory lib repo parent ?f) tx = (Inr x, t)"
      "tx_root tx' = tx_root t"
    by (rule recorded_effect [OF run])
  obtain cs cs' where c: "?f cs = Inr (x, cs')" "cleanPath p = Inr cleaned"
      "txn_lookup lib repo (path_names cleaned) (tx_root t) = Inr (map_of cs' name)"
    by (rule entry_effect [OF y r(1)])
  have "map_of cs' name = Some (new_node cleaned kind (temporary_id tx))" using c(1) by (auto simp: put_child_def split: if_splits)
  then show ?thesis using c(3) r(2) by (simp add: txn_CheckPath_def on_path_query [OF c(2)] new_node_def)
qed

lemma txn_Delete_effect:
  assumes "txn_Delete lib repo p tx = (Inr (), tx')"
  shows "fst (txn_CheckPath lib repo p tx') = Inr NodeNone"
proof -
  obtain cleaned parent name where y: "splitTxnPath p = Inr (cleaned, parent, name)"
    using assms by (auto simp: txn_Delete_def split: sum.splits prod.splits)
  let ?f = "\<lambda>cs. case map_of cs name of None \<Rightarrow> Inl (NotFound cleaned) | Some child \<Rightarrow> Inr (node_kind child, drop_child name cs)"
  have run: "recorded lib repo (\<lambda>kind. change_at cleaned ChangeDelete kind False False) 0
      (on_path lib repo True (Inl (NotFound parent)) parent (in_directory lib repo parent ?f) tx) = (Inr (), tx')"
    using assms unfolding txn_Delete_def y by simp
  obtain x t where r: "on_path lib repo True (Inl (NotFound parent)) parent (in_directory lib repo parent ?f) tx = (Inr x, t)"
      "tx_root tx' = tx_root t"
    by (rule recorded_effect [OF run])
  obtain cs cs' where c: "?f cs = Inr (x, cs')" "cleanPath p = Inr cleaned"
      "txn_lookup lib repo (path_names cleaned) (tx_root t) = Inr (map_of cs' name)"
    by (rule entry_effect [OF y r(1)])
  have "map_of cs' name = None" using c(1) by (auto simp: drop_child_def map_of_eq_None_iff split: option.splits)
  then show ?thesis using c(3) r(2) by (simp add: txn_CheckPath_def on_path_query [OF c(2)])
qed

lemma txn_Copy_effect:
  assumes "txn_Copy lib repo r q p tx = (Inr (), tx')"
  shows "\<exists>root source. RevisionRoot lib repo r = Inr root \<and> nodeAt lib repo root q = Inr source \<and>
    fst (txn_CheckPath lib repo p tx') = Inr (nr_kind source)"
proof -
  obtain cleaned parent name where y: "splitTxnPath p = Inr (cleaned, parent, name)"
    using assms by (auto simp: txn_Copy_def split: sum.splits prod.splits)
  let ?node = "\<lambda>root source. TxnNode ((newTxnNode root (nr_created_path source) source)
      \<lparr>tn_created_path := cleaned, tn_copyfrom_path := nr_created_path source,
       tn_copyfrom_rev := r, tn_temporary_id := temporary_id tx, tn_dirty := True\<rparr>) None"
  let ?f = "\<lambda>cs. if map_of cs name \<noteq> None then Inl (AlreadyExists cleaned)
      else and_then (RevisionRoot lib repo r) (\<lambda>root.
        and_then (nodeAt lib repo root q) (\<lambda>source. Inr (source, put_child name (?node root source) cs)))"
  let ?change = "\<lambda>source. (change_at cleaned ChangeAdd (nr_kind source) False False)
      \<lparr>pc_copyfrom_path := nr_created_path source, pc_copyfrom_rev := r\<rparr>"
  have run: "recorded lib repo ?change 1
      (on_path lib repo True (Inl (NotFound parent)) parent (in_directory lib repo parent ?f) tx) = (Inr (), tx')"
    using assms unfolding txn_Copy_def y by simp
  obtain source t where o: "on_path lib repo True (Inl (NotFound parent)) parent (in_directory lib repo parent ?f) tx = (Inr source, t)"
      "tx_root tx' = tx_root t"
    by (rule recorded_effect [OF run])
  obtain cs cs' where c: "?f cs = Inr (source, cs')" "cleanPath p = Inr cleaned"
      "txn_lookup lib repo (path_names cleaned) (tx_root t) = Inr (map_of cs' name)"
    by (rule entry_effect [OF y o(1)])
  have "map_of cs name = None" using c(1) by (cases "map_of cs name") simp_all
  then obtain root where root: "RevisionRoot lib repo r = Inr root" "nodeAt lib repo root q = Inr source"
      "cs' = put_child name (?node root source) cs"
    using c(1) by (auto simp: and_then_Inr)
  have "fst (txn_CheckPath lib repo p tx') = Inr (nr_kind source)"
    using c(3) o(2) by (simp add: txn_CheckPath_def on_path_query [OF c(2)] root(3) put_child_def newTxnNode_def)
  with root(1,2) show ?thesis by blast
qed

end
