(* ===== verification/Fsfs_Life.thy ===== *)
theory Fsfs_Life
  imports Fsfs_Edits
begin

text \<open>
  The life of a repository: what \<open>create_repository\<close> writes is read back as an empty directory
  (\<open>created_root\<close>), the operations on a transaction followed by a commit give a revision that answers
  as the transaction did (\<open>edits_committed\<close>), and every node a revision shows is well typed
  (\<open>nodes_well_typed\<close>).
\<close>

section \<open>A repository that has just been created\<close>

abbreviation empty_listing :: bytes where "empty_listing \<equiv> bytes_of_text (''END'' @ [CHR 0x0A])"

definition first_rep :: "stdlib \<Rightarrow> representation" where
  "first_rep lib = \<lparr>rep_revision = 0, rep_item = 3, rep_length = int (length empty_listing), rep_expanded = int (length empty_listing),
     rep_md5 = hex_encode (std_md5 lib empty_listing), rep_sha1 = [], rep_uniquifier = []\<rparr>"

definition first_fields :: "stdlib \<Rightarrow> (string \<times> string) list" where
  "first_fields lib = [(''id'', ''0.0.r0/2''), (''type'', ''dir''), (''count'', ''0''), (''text'', formatRepresentation (first_rep lib)), (''cpath'', ''/'')]"

definition first_items :: "stdlib \<Rightarrow> revision_item list" where
  "first_items lib =
     [\<lparr>item_number = 3, item_kind = 2, item_bytes = plain_representation empty_listing\<rparr>,
      \<lparr>item_number = 2, item_kind = 5, item_bytes = bytes_of_text (text_of_lines (map field_line (first_fields lib) @ [[]]))\<rparr>,
      \<lparr>item_number = 1, item_kind = 6, item_bytes = [0x0A]\<rparr>]"

definition first_node :: "stdlib \<Rightarrow> node_revision" where
  "first_node lib =
     \<lparr>nr_id = \<lparr>id_node = ''0'', id_copy = ''0'', id_revision = 0, id_item = 2\<rparr>, nr_kind = NodeDir, nr_predecessor = None,
      nr_count = 0, nr_text = Some (first_rep lib), nr_properties = None, nr_created_path = ''/'', nr_copyroot_path = [],
      nr_copyroot_rev = InvalidRevnum, nr_copyfrom_path = [], nr_copyfrom_rev = InvalidRevnum, nr_mergeinfo_count = 0,
      nr_mergeinfo_here = False, nr_has_mergeinfo_count = False\<rparr>"

lemma initialRevision_items: "initialRevision lib = logicalRevision (std_md5 lib) 0 (first_items lib)"
  by (simp add: initialRevision_def first_items_def first_fields_def field_line_def first_rep_def Let_def)

lemma first_rep_ok: "lib_ok lib \<Longrightarrow> rep_text_ok (first_rep lib)"
  by (simp add: lib_ok_def rep_text_ok_def rep_ok_def first_rep_def nonneg64_def validHexDigest_def plain_def)

lemma first_rep_length: "lib_ok lib \<Longrightarrow> length (formatRepresentation (first_rep lib)) \<le> 100"
proof -
  assume lib: "lib_ok lib"
  have "length (itoa 0) = 1" "length (itoa 3) = 1" "length (itoa 4) = 1" by code_simp+
  then show ?thesis using lib by (simp add: formatRepresentation_def first_rep_def lib_ok_def Let_def)
qed

lemma first_names: "distinct (map fst (first_fields lib))" "\<forall>name\<in>set (map fst (first_fields lib)). CHR '':'' \<notin> set name \<and> CHR 0x0A \<notin> set name \<and> length name \<le> 10"
  by (simp_all add: first_fields_def)

lemma first_lines:
  assumes "lib_ok lib" "l \<in> set (map field_line (first_fields lib))"
  shows "full_line l \<and> length l \<le> 300000"
proof -
  obtain name v where f: "(name, v) \<in> set (first_fields lib)" "l = field_line (name, v)" using assms(2) by auto
  then have n: "CHR 0x0A \<notin> set name" "length name \<le> 10" using first_names(2) [of lib] by force+
  have "value_ok (formatRepresentation (first_rep lib))" using value_ok_representation first_rep_ok [OF assms(1)] by blast
  moreover have "value_ok ''0.0.r0/2''" "value_ok ''dir''" "value_ok ''0''" "value_ok ''/''" by (simp_all add: value_ok_def)
  ultimately have "value_ok v" using f(1) unfolding first_fields_def by auto
  then show ?thesis using field_line_ok [OF n] f(2) by blast
qed

lemma parse_first:
  assumes lib: "lib_ok lib"
  shows "parseNodeRevision (text_of_lines (map field_line (first_fields lib) @ [[]])) = Inr (first_node lib)"
proof -
  define fs where "fs = fold (\<lambda>(name, v). fmupd name v) (first_fields lib) fmempty"
  have "list_all line_ok (map field_line (first_fields lib) @ [[]])"
  proof -
    have "list_all line_ok (map field_line (first_fields lib))" unfolding list_all_iff using first_lines [OF lib] unfolding full_line_def by blast
    moreover have "line_ok []" by (simp add: line_ok_def)
    ultimately show ?thesis by (simp only: list_all_append list.pred_inject simp_thms)
  qed
  then have scan: "scan_lines (text_of_lines (map field_line (first_fields lib) @ [[]])) = (map field_line (first_fields lib) @ [[]], False)"
    by (rule scan_text_of_lines)
  have read: "read_fields fmempty False (map field_line (first_fields lib) @ [[]]) = Inr fs"
    unfolding fs_def by (rule read_fields_lines) (simp_all add: first_fields_def field_def)
  have look: "field fs ''id'' = ''0.0.r0/2''" "field fs ''type'' = ''dir''" "field fs ''count'' = ''0''" "field fs ''cpath'' = ''/''"
    "field fs ''text'' = formatRepresentation (first_rep lib)" "field fs ''pred'' = []" "field fs ''props'' = []" "field fs ''copyroot'' = []"
    "field fs ''copyfrom'' = []" "field fs ''minfo-cnt'' = []" "fmlookup fs ''minfo-here'' = None"
    by (simp_all add: fs_def first_fields_def field_def)
  have identity: "ParseID ''0.0.r0/2'' = Inr \<lparr>id_node = ''0'', id_copy = ''0'', id_revision = 0, id_item = 2\<rparr>"
    using ParseID_String [of "\<lparr>id_node = ''0'', id_copy = ''0'', id_revision = 0, id_item = 2\<rparr>"] by (simp add: id_ok_def nonneg64_def example_lengths)
  have path: "canonicalAbsolutePath ''/''" using root_path_ok by (simp add: path_ok_def)
  have content: "optional (formatRepresentation (first_rep lib)) parseRepresentation = Inr (Some (first_rep lib))"
    using first_rep_ok [OF lib] value_ok_representation [of "first_rep lib"] by (simp add: optional_def rep_text_ok_def)
  have count: "optional ''0'' (parse_count message) = Inr (Some 0)" for message
    using parse_count_zero [of message] by (simp add: optional_def)
  have none: "optional [] p = Inr None" for p :: "string \<Rightarrow> fs_error + 'a" by (simp add: optional_def)
  show ?thesis
    unfolding parseNodeRevision_def scan Let_def prod.case read and_then_simps look identity content count none
    by (simp add: path first_node_def)
qed

lemma first_items_ok:
  assumes lib: "lib_ok lib"
  shows "fits_file (first_items lib)" "first_items lib \<noteq> []" "distinct (map item_number (first_items lib))"
    "\<forall>i\<in>set (first_items lib). item_bytes i \<noteq> [] \<and> 1 \<le> item_kind i \<and> item_kind i \<le> 6 \<and> 1 \<le> item_number i \<and> item_number i \<le> int (length (first_items lib))"
    "length (text_of_lines (map field_line (first_fields lib))) < 16 * 1024 * 1024"
proof -
  have len: "length (text_of_lines (map field_line (first_fields lib) @ [[]])) \<le> 200"
    using first_rep_length [OF lib] by (simp add: first_fields_def field_line_def)
  then have "length (data_of (first_items lib)) < 2 ^ 20" by (simp add: first_items_def plain_representation_def)
  then show "fits_file (first_items lib)" by (rule fits_small)
  show "length (text_of_lines (map field_line (first_fields lib))) < 16 * 1024 * 1024" using len by simp
qed (simp_all add: first_items_def plain_representation_def)

lemma first_written:
  assumes lib: "lib_ok lib"
  shows "\<exists>contents. logicalRevision (std_md5 lib) 0 (first_items lib) = Inr contents"
proof -
  note ok = first_items_ok [OF lib]
  have size: "length (data_of (first_items lib)) < 2 ^ 40" "\<nexists>k. 20 \<le> k \<and> length (data_of (first_items lib)) = 2 ^ k"
    using ok(1) by (simp_all add: fits_file_def)
  have md5: "\<forall>x. length (std_md5 lib x) = 16" using lib by (simp add: lib_ok_def)
  obtain contents where "logicalRevision (std_md5 lib) 0 (first_items lib) = Inr contents"
    by (rule written_revision [OF md5 ok(2) items_fit [OF ok(4) size(1)] ok(3) size, of 0]) simp_all
  then show ?thesis by blast
qed

text \<open>A repository with the first revision only.\<close>

definition first_repo :: "stdlib \<Rightarrow> repository \<Rightarrow> bool" where
  "first_repo lib repo \<longleftrightarrow>
     repo_youngest repo = 0 \<and>
     (\<exists>contents. logicalRevision (std_md5 lib) 0 (first_items lib) = Inr contents \<and> repo_files repo = fmupd 0 contents fmempty)"

lemma create_first: "create_repository lib date = Inr repo \<Longrightarrow> first_repo lib repo \<and> repo_sequence repo = 0"
  by (auto simp: create_repository_def and_then_Inr first_repo_def initialRevision_items)

lemma begin_first: "BeginTxn lib date base repo = Inr (tx, repo') \<Longrightarrow> first_repo lib repo \<Longrightarrow> first_repo lib repo'"
  by (auto simp: BeginTxn_def and_then_Inr first_repo_def split: if_splits)

lemma created_root:
  assumes lib: "lib_ok lib" and repo: "first_repo lib repo"
  shows "RevisionRoot lib repo 0 = Inr \<lparr>root_revision = 0, root_node = first_node lib\<rparr>"
    "directoryEntries lib repo (first_node lib) = Inr fmempty"
proof -
  obtain contents where c: "logicalRevision (std_md5 lib) 0 (first_items lib) = Inr contents" "fmlookup (repo_files repo) 0 = Some contents"
    "repo_youngest repo = 0"
    using repo by (auto simp: first_repo_def)
  have stored: "stores lib repo 0 (first_items lib)"
    by (rule written_items_stored [OF _ _ _ _ _ _ _ _ c(1,2)])
      (use lib first_items_ok [OF lib] in \<open>auto simp: lib_ok_def fits_file_def\<close>)
  have item: "\<lparr>item_number = 2, item_kind = 5, item_bytes = bytes_of_text (text_of_lines (map field_line (first_fields lib) @ [[]]))\<rparr> \<in> set (first_items lib)"
    by (simp add: first_items_def)
  obtain f offset where f: "openRevision lib repo 0 = Inr f" "itemOffset f 0 2 = Inr offset" "0 \<le> offset" "offset < int (length (rf_contents f))"
    "recordData f offset = Inr (bytes_of_text (text_of_lines (map field_line (first_fields lib) @ [[]])))"
    by (rule recordData_stored [OF stored item _ _ first_items_ok(5) [OF lib]]) (use first_lines [OF lib] in \<open>auto simp: first_fields_def list_all_iff\<close>)
  show "RevisionRoot lib repo 0 = Inr \<lparr>root_revision = 0, root_node = first_node lib\<rparr>"
    unfolding RevisionRoot_def f(1,2,5) and_then_simps text_of_bytes_of_text parse_first [OF lib]
    using f(3,4) by (simp add: c(3)) (simp add: first_node_def)
  have "writeRepresentation lib repo (Some (first_rep lib)) = Inr empty_listing"
    by (rule writeRepresentation_stored [OF stored, where kind = 2]) (simp_all add: first_items_def first_rep_def check_digest_def)
  moreover have "Write fmempty = Inr (''END'' @ [CHR 0x0A])" by (simp add: Write_def sorted_entries_def sorted_list_of_fset.rep_eq)
  then have "ReadHash (text_of_bytes empty_listing) = Inr fmempty"
    using ReadHash_Write [of fmempty "''END'' @ [CHR 0x0A]" "[]"] by (simp only: text_of_bytes_of_text append_Nil2)
  ultimately show "directoryEntries lib repo (first_node lib) = Inr fmempty"
    by (simp add: directoryEntries_def first_node_def parseDirectoryEntries_def sorted_entries_def sorted_list_of_fset.rep_eq del: text_of_bytes_simps bytes_of_text_simps)
qed

lemma created_nodes:
  assumes "lib_ok lib" "first_repo lib repo"
  shows "node_in lib repo node \<Longrightarrow> node = first_node lib"
proof (induction rule: node_in.induct)
  case (root_in r root)
  then have "r = 0" using assms(2) by (auto simp: RevisionRoot_def first_repo_def split: if_splits)
  then show ?case using root_in(1) created_root(1) [OF assms] by auto
next
  case (child_in node entries name e child)
  then show ?case using created_root(2) [OF assms] by simp
qed

lemma created_printable:
  assumes "lib_ok lib" "first_repo lib repo"
  shows "printable_repo lib repo"
proof -
  have "canonicalAbsolutePath ''/''" using root_path_ok by (simp add: path_ok_def)
  then have "printable (first_node lib)" using first_rep_ok [OF assms(1)]
    by (auto simp: printable_def first_node_def well_typed_def id_ok_def id_text_ok_def nonneg64_def text_ok_def digests_ok_def rep_text_ok_def rep_ok_def)
  moreover have "repo_youngest repo < 2 ^ 63" using assms(2) by (simp add: first_repo_def)
  ultimately show ?thesis unfolding printable_repo_def
    using created_root(2) [OF assms] created_nodes [OF assms] by fastforce
qed

section \<open>A file is added to a new repository\<close>

lemma persist_kept [simp]:
  "tx_changes (snd (persist lib repo tx)) = tx_changes tx" "tx_name (snd (persist lib repo tx)) = tx_name tx"
  by (auto simp: persist_def Let_def split: prod.split sum.split)

text \<open>No file that is written has the name of the file of the properties.\<close>

definition keeps_props :: "(string, bytes) fmap \<Rightarrow> (string, bytes) fmap \<Rightarrow> bool" where
  "keeps_props files files' \<longleftrightarrow> fmlookup files' ''props'' = fmlookup files ''props''"

lemma keeps_props_simps: "keeps_props files files" "keeps_props files files' \<Longrightarrow> name \<noteq> ''props'' \<Longrightarrow> keeps_props files (fmupd name data files')"
  by (simp_all add: keeps_props_def)

lemma node_file_name: "txn_nodePath name d @ s \<noteq> ''props''" "txn_nodePath name d \<noteq> ''props''"
  by (simp_all add: txn_nodePath_def Let_def)

lemma persist_nodes_props: "persist_nodes lib repo name base ns ps = (r, ps') \<Longrightarrow> keeps_props (ps_files ps) (ps_files ps')"
proof (induction ns arbitrary: ps r)
  case (Cons n ns)
  have content: "keeps_props (ps_files ps) (ps_files ps1)" if "persist_text lib repo name (data_of_node n) ps = (x, ps1)" for x ps1
    using that by (auto simp: persist_text_def keeps_props_simps Let_def split: if_splits sum.splits)
  have children: "keeps_props (ps_files ps1) (ps_files ps2)" if "persist_children name n ps1 = (x, ps2)" for x ps1 ps2
    using that by (auto simp: persist_children_def write_txn_hash_def keeps_props_simps node_file_name split: option.splits if_splits sum.splits)
  have properties: "keeps_props (ps_files ps2) (ps_files ps3)" if "persist_properties lib repo name (data_of_node n) ps2 = (x, ps3)" for x ps2 ps3
    using that by (auto simp: persist_properties_def write_txn_hash_def then_state_def keeps_props_simps node_file_name split: if_splits sum.splits prod.splits)
  obtain r1 ps1 where 1: "persist_text lib repo name (data_of_node n) ps = (r1, ps1)" by fastforce
  obtain r2 ps2 where 2: "persist_children name n ps1 = (r2, ps2)" by fastforce
  obtain r3 ps3 where 3: "persist_properties lib repo name (data_of_node n) ps2 = (r3, ps3)" by fastforce
  note steps = content [OF 1] children [OF 2] properties [OF 3]
  have IH: "persist_nodes lib repo name base ns (ps3\<lparr>ps_files := fmupd (txn_nodePath name (data_of_node n)) data (ps_files ps3)\<rparr>) = (r, ps') \<Longrightarrow>
      keeps_props (ps_files ps3) (ps_files ps')" for data
    using Cons.IH [of "ps3\<lparr>ps_files := fmupd (txn_nodePath name (data_of_node n)) data (ps_files ps3)\<rparr>" r]
    by (auto simp: keeps_props_def node_file_name)
  show ?case using Cons.prems steps IH
    by (cases r1; cases r2; cases r3) (auto simp: Let_def 1 2 3 then_state_def keeps_props_def)
qed (simp add: keeps_props_simps)

lemma persist_props: "fmlookup (tx_files (snd (persist lib repo tx))) ''props'' = fmlookup (tx_files tx) ''props''"
proof -
  obtain r ps where p: "persist_nodes lib repo (tx_name tx) (tx_base tx) (collectTxnNodes (tx_root tx))
             \<lparr>ps_next = tx_next tx, ps_protorev = [], ps_items = [], ps_files = tx_files tx\<rparr> = (r, ps)" by fastforce
  then have "fmlookup (ps_files ps) ''props'' = fmlookup (tx_files tx) ''props''" using persist_nodes_props [OF p] by (simp add: keeps_props_def)
  then show ?thesis by (cases r) (simp_all add: persist_def p Let_def split_beta)
qed

text \<open>The transaction after \<open>MakeFile\<close> of a file in the root directory, and after \<open>ApplyText\<close> on it.\<close>

lemma file_path: "cleanPath ''/f'' = Inr ''/f''" "path_names ''/f'' = [''f'']" "splitTxnPath ''/f'' = Inr (''/f'', ''/'', ''f'')" "cleanPath ''/'' = Inr ''/''" "path_names ''/'' = []"
proof -
  show f: "cleanPath ''/f'' = Inr ''/f''" "path_names ''/f'' = [''f'']"
    using path_Clean_abs [OF example_components(2)]
    by (simp_all add: example_components cleanPath_def path_names_def TrimPrefix_def Let_def split_no_sep)
  have "path_Dir (abs_path ([] @ [''f''])) = abs_path []" "path_Base (abs_path ([] @ [''f''])) = ''f''"
    using path_Dir_abs [where parts = "[]" and name = "''f''"] path_Base_abs [where parts = "[]" and name = "''f''"] example_components(2) by simp_all
  then have "path_Dir ''/f'' = ''/''" "path_Base ''/f'' = ''f''" by (simp_all add: example_components del: append_Nil) (simp_all add: example_components)
  then show "splitTxnPath ''/f'' = Inr (''/f'', ''/'', ''f'')" by (simp add: splitTxnPath_def f)
  show "cleanPath ''/'' = Inr ''/''" "path_names ''/'' = []"
    using path_Clean_abs [OF example_components(1)]
    by (simp_all add: example_components cleanPath_def path_names_def TrimPrefix_def Let_def)
qed

lemma added_file:
  assumes "tx_root tx = TxnNode (newTxnNode root ''/'' node) None" "nr_kind node = NodeDir" "directoryEntries lib repo node = Inr fmempty"
    "tx_next tx = 0"
  shows "tx_root (snd (MakeFile lib repo ''/f'' tx)) =
      TxnNode ((newTxnNode root ''/'' node)\<lparr>tn_dirty := True\<rparr>) (Some [(''f'', new_node ''/f'' NodeFile ''_0'')])"
    "tx_changes (snd (MakeFile lib repo ''/f'' tx)) = recordChange (change_at ''/f'' ChangeAdd NodeFile True False) (tx_changes tx)"
    "fmlookup (tx_files (snd (MakeFile lib repo ''/f'' tx))) ''props'' = fmlookup (tx_files tx) ''props''"
proof -
  have k: "tn_kind (newTxnNode root ''/'' node) = NodeDir" "tn_base (newTxnNode root ''/'' node) = Some root" "tn_base_node (newTxnNode root ''/'' node) = node"
    using assms(2) by (simp_all add: newTxnNode_def)
  have load: "loadChildren lib repo (TxnNode (newTxnNode root ''/'' node) None) = Inr []"
    by (simp add: loadChildren_def Let_def k assms(3) sorted_entries_def sorted_list_of_fset.rep_eq)
  have "base36 0 = ''0''" by code_simp
  then have t: "temporary_id tx = ''_0''" by (simp add: temporary_id_def assms(4))
  note run = MakeFile_def makeNode_def file_path on_path_def at_path.simps in_directory_def assms(1) load k t put_child_def mark_dirty_def recorded_def
  show "tx_root (snd (MakeFile lib repo ''/f'' tx)) =
      TxnNode ((newTxnNode root ''/'' node)\<lparr>tn_dirty := True\<rparr>) (Some [(''f'', new_node ''/f'' NodeFile ''_0'')])"
    "tx_changes (snd (MakeFile lib repo ''/f'' tx)) = recordChange (change_at ''/f'' ChangeAdd NodeFile True False) (tx_changes tx)"
    "fmlookup (tx_files (snd (MakeFile lib repo ''/f'' tx))) ''props'' = fmlookup (tx_files tx) ''props''"
    by (simp_all add: run persist_props)
qed

lemma file_written:
  assumes "tx_root tx = TxnNode d (Some [(''f'', n)])" "tn_kind d = NodeDir" "node_kind n = NodeFile"
  shows "tx_root (snd (ApplyText lib repo ''/f'' contents tx)) = TxnNode (d\<lparr>tn_dirty := True\<rparr>) (Some [(''f'', mark_dirty (set_content contents n))])"
    "tx_changes (snd (ApplyText lib repo ''/f'' contents tx)) =
       recordChange (change_at (tn_created_path (data_of_node n)) ChangeModify NodeFile True False) (tx_changes tx)"
    "fmlookup (tx_files (snd (ApplyText lib repo ''/f'' contents tx))) ''props'' = fmlookup (tx_files tx) ''props''"
proof -
  have load: "loadChildren lib repo (TxnNode d (Some [(''f'', n)])) = Inr [(''f'', n)]" by (simp add: loadChildren_def)
  note run = ApplyText_def file_path on_path_def at_path.simps assms load put_child_def mark_dirty_def recorded_def
  show "tx_root (snd (ApplyText lib repo ''/f'' contents tx)) = TxnNode (d\<lparr>tn_dirty := True\<rparr>) (Some [(''f'', mark_dirty (set_content contents n))])"
    "tx_changes (snd (ApplyText lib repo ''/f'' contents tx)) =
       recordChange (change_at (tn_created_path (data_of_node n)) ChangeModify NodeFile True False) (tx_changes tx)"
    "fmlookup (tx_files (snd (ApplyText lib repo ''/f'' contents tx))) ''props'' = fmlookup (tx_files tx) ''props''"
    by (simp_all add: run persist_props)
qed

section \<open>Commits of edited transactions\<close>

text \<open>C1: whatever sequence of operations is applied to a new transaction of a repository, a commit that succeeds gives a
  revision that answers as the transaction did: under every path for which the transaction gave a kind, contents or
  properties, the revision gives the same. So what the last operation did can be read from the revision: the contents that
  were applied, the contents rebuilt from a delta, the property that was set or removed, the node that was made, copied or
  deleted. A copy must find its source under the path the source was created at, if it finds anything there.\<close>

theorem edits_committed:
  assumes lib: "lib_ok lib"
    and repo: "repo_youngest repo + 1 < 2 ^ 63" "repo_sequence repo < 2 ^ 63" "fmlookup (repo_files repo) (repo_youngest repo + 1) = None"
    and begun: "BeginTxn lib date (repo_youngest repo) repo = Inr (tx0, begun)" "printable_repo lib begun"
    and edits: "(edit_step lib begun)\<^sup>*\<^sup>* tx0 tx"
    and commit: "Commit lib date' locks tokens begun tx = Inr (revision, repo')"
    and size: "\<And>items. build_items lib begun (tx_name tx) revision (tx_changes tx) (tx_root tx) = Inr items \<Longrightarrow> fits_file items"
  shows "\<exists>root. RevisionRoot lib repo' revision = Inr root \<and>
    (\<forall>p.
       (\<forall>kind. fst (txn_CheckPath lib begun p tx) = Inr kind \<longrightarrow> CheckPath lib repo' root p = Inr kind) \<and>
       (\<forall>contents. fst (txn_FileContents lib begun p tx) = Inr contents \<longrightarrow> FileContents lib repo' root p = Inr contents) \<and>
       (\<forall>vs. fst (txn_NodeProps lib begun p tx) = Inr vs \<longrightarrow> NodeProps lib repo' root p = Inr vs)) \<and>
    (\<forall>p before.
       (\<forall>contents. ApplyText lib begun p contents before = (Inr (), tx) \<longrightarrow> FileContents lib repo' root p = Inr contents) \<and>
       (\<forall>checksum windows. ApplyTextDelta lib begun p checksum windows before = (Inr (), tx) \<longrightarrow>
          (\<exists>base target. fst (txn_FileContents lib begun p before) = Inr base \<and>
             handler_windows base [] windows = Inr target \<and> FileContents lib repo' root p = Inr target)) \<and>
       (\<forall>name v. ChangeNodeProp lib begun p name v before = (Inr (), tx) \<longrightarrow>
          (\<exists>vs. NodeProps lib repo' root p = Inr vs \<and> fmlookup vs name = v)) \<and>
       (MakeDir lib begun p before = (Inr (), tx) \<longrightarrow> CheckPath lib repo' root p = Inr NodeDir) \<and>
       (MakeFile lib begun p before = (Inr (), tx) \<longrightarrow> CheckPath lib repo' root p = Inr NodeFile) \<and>
       (\<forall>r q. txn_Copy lib begun r q p before = (Inr (), tx) \<longrightarrow>
          (\<exists>from source. RevisionRoot lib begun r = Inr from \<and> nodeAt lib begun from q = Inr source \<and>
             CheckPath lib repo' root p = Inr (nr_kind source))) \<and>
       (txn_Delete lib begun p before = (Inr (), tx) \<longrightarrow> CheckPath lib repo' root p = Inr NodeNone))"
proof -
  note b = begun_tidy [OF begun]
  have n: "nonneg64 (repo_youngest repo + 1)" "nonneg64 (repo_youngest repo)" using repo(1) b(7) by (simp_all add: nonneg64_def)
  have e: "tidy lib begun (repo_youngest repo + 1) [] (tx_root tx)" "same_txn tx0 tx"
    using edits_tidy [OF edits begun(2) n(1) b(1)] by blast+
  then have same: "tx_name tx = tx_name tx0" "tx_base tx = tx_base tx0" "node_kind (tx_root tx) = NodeDir" using b(2) by (simp_all add: same_txn_def)
  have root: "changed lib begun (repo_youngest begun + 1) (tx_root tx)"
    using tidy_changed [OF e(1)] root_path_ok b(6) by (simp add: abs_path_def)
  have name: "name_ok (tx_name tx)" unfolding same(1) b(4) by (rule begun_name [OF n(2) repo(2)])
  obtain node items where r: "RevisionRoot lib repo' revision = Inr \<lparr>root_revision = revision, root_node = node\<rparr>"
    and C: "committed_items lib begun repo' (tx_name tx) revision items"
    and t: "becomes lib begun repo' (tx_name tx) revision (set items) (tx_root tx) node"
    by (rule commit_read [OF lib name _ _ _ root same(3) _ commit size]) (use repo b same in \<open>simp_all add: same_txn_def\<close>)
  let ?root = "\<lparr>root_revision = revision, root_node = node\<rparr>"
  have agree: "case txn_lookup lib begun (path_names cleaned) (tx_root tx) of
          Inr (Some n) \<Rightarrow> shows_path lib begun repo' ?root p (data_of_node n)
        | Inr None \<Rightarrow> CheckPath lib repo' ?root p = Inr NodeNone
        | Inl _ \<Rightarrow> True" if "cleanPath p = Inr cleaned" for p cleaned
    by (rule becomes_paths [OF C _ that]) (simp add: t)
  have answers: "fst (txn_CheckPath lib begun p tx) = Inr kind \<Longrightarrow> CheckPath lib repo' ?root p = Inr kind"
    "fst (txn_FileContents lib begun p tx) = Inr contents \<Longrightarrow> FileContents lib repo' ?root p = Inr contents"
    "fst (txn_NodeProps lib begun p tx) = Inr vs \<Longrightarrow> NodeProps lib repo' ?root p = Inr vs" for p kind contents vs
    by (erule queries_answer [OF begun(2) e(1), rotated], erule agree)+
  have applied: "FileContents lib repo' ?root p = Inr contents" if "ApplyText lib begun p contents before = (Inr (), tx)" for p contents before
    by (rule answers(2)) (rule ApplyText_effect [OF that])
  have delta: "\<exists>base target. fst (txn_FileContents lib begun p before) = Inr base \<and> handler_windows base [] windows = Inr target \<and>
      FileContents lib repo' ?root p = Inr target"
    if "ApplyTextDelta lib begun p checksum windows before = (Inr (), tx)" for p checksum windows before
    using ApplyTextDelta_effect [OF that] answers(2) by blast
  have property: "\<exists>vs. NodeProps lib repo' ?root p = Inr vs \<and> fmlookup vs name = v"
    if "ChangeNodeProp lib begun p name v before = (Inr (), tx)" for p name v before
    using ChangeNodeProp_effect [OF that] answers(3) by blast
  have made: "CheckPath lib repo' ?root p = Inr kind" if "makeNode lib begun p kind before = (Inr (), tx)" for p kind before
    by (rule answers(1)) (rule makeNode_effect [OF that])
  have copied: "\<exists>from source. RevisionRoot lib begun r = Inr from \<and> nodeAt lib begun from q = Inr source \<and>
      CheckPath lib repo' ?root p = Inr (nr_kind source)"
    if "txn_Copy lib begun r q p before = (Inr (), tx)" for p r q before
    using txn_Copy_effect [OF that] answers(1) by blast
  have deleted: "CheckPath lib repo' ?root p = Inr NodeNone" if "txn_Delete lib begun p before = (Inr (), tx)" for p before
    by (rule answers(1)) (rule txn_Delete_effect [OF that])
  show ?thesis unfolding MakeDir_def MakeFile_def
    by (rule exI [of _ ?root], intro conjI allI impI)
      ((rule r | erule answers | erule applied | erule delta | erule property | erule made | erule copied | erule deleted)+)
qed

abbreviation life_root :: revision_root where "life_root \<equiv> \<lparr>root_revision = 0, root_node = first_node example_lib\<rparr>"
definition life_dir :: txn_data where "life_dir = (newTxnNode life_root ''/'' (first_node example_lib))\<lparr>tn_dirty := True\<rparr>"
definition life_changes :: "(string, path_change) fmap" where
  "life_changes = recordChange (change_at ''/f'' ChangeModify NodeFile True False) (recordChange (change_at ''/f'' ChangeAdd NodeFile True False) fmempty)"

lemma life_dir_fields [simp]: "tn_dirty life_dir" "tn_kind life_dir = NodeDir" "\<not> tn_new life_dir" "\<not> tn_props_modified life_dir" "tn_copyfrom_rev life_dir = InvalidRevnum"
  "tn_base_node life_dir = first_node example_lib" "tn_created_path life_dir = ''/''" "tn_temporary_id life_dir = []"
  by (simp_all add: life_dir_def newTxnNode_def first_node_def)

lemma first_node_fields [simp]: "nr_id (first_node lib) = \<lparr>id_node = ''0'', id_copy = ''0'', id_revision = 0, id_item = 2\<rparr>" "nr_properties (first_node lib) = None" "nr_count (first_node lib) = 0"
   "nr_copyroot_rev (first_node lib) = InvalidRevnum" "\<not> nr_has_mergeinfo_count (first_node lib)" "\<not> nr_mergeinfo_here (first_node lib)"
   "nr_kind (first_node lib) = NodeDir"
  by (simp_all add: first_node_def)

lemma life_ids: "ID_String (permanent_id 1 life_dir 2) = ''0.0.r1/2''"
  by (simp add: ID_String_def permanent_id_def itoa_small IsValid_def InvalidRevnum_def)

definition life_change :: path_change where
  "life_change = (change_at ''/f'' ChangeAdd NodeFile True False)"

lemma life_changes: "life_changes = fmupd ''/f'' life_change fmempty" "pc_path life_change = ''/f''" "pc_kind life_change = ChangeAdd"
  "pc_node_kind life_change = NodeFile" "pc_copyfrom_path life_change = []" "pc_text life_change" "\<not> pc_props life_change"
  by (simp_all add: life_changes_def recordChange_def change_at_def life_change_def Let_def)

lemma life_items: "\<exists>items. build_items example_lib repo ''0-0'' 1 life_changes (TxnNode life_dir (Some [(''f'', TxnNode example_file None)])) = Inr items \<and>
    length (data_of items) < 2000"
proof -
  note c = life_changes
  show ?thesis
    unfolding build_items_def c(1)
    apply (simp add: Let_def addRepresentation_def build_text_def build_properties_def loadContent_def loadProperties_def
       child_entries_def directory_values_def write_hash_def Write_def sorted_single commit_id_def IsValid_def InvalidRevnum_def example_ids life_ids maxRecordSize_def)
    apply (simp add: nodeRecord_def node_fields_def copyroot_of_def field_line_def formatRepresentation_def example_ids life_ids itoa_small base36_small
      hex_encode_Nil example_lib_def IsValid_def InvalidRevnum_def buildChanges_def sorted_single example_lengths
      plain_representation_def change_id_def file_path commit_id_def change_lines_def c bool_text_def)
    done
qed

text \<open>A repository is created, a transaction begun, a file made and written, and the transaction committed.\<close>

lemma life_begun:
  obtains repo begun tx0 where "create_repository example_lib [] = Inr repo" "BeginTxn example_lib [] 0 repo = Inr (tx0, begun)"
    "first_repo example_lib begun" "first_repo example_lib repo" "repo_sequence repo = 0" "tx_name tx0 = ''0-0''" "tx_changes tx0 = fmempty"
    "tx_root tx0 = TxnNode (newTxnNode life_root ''/'' (first_node example_lib)) None" "tx_base tx0 = 0" "tx_next tx0 = 0"
    "Properties tx0 = Inr (fmupd ''svn:date'' [] fmempty)"
proof -
  obtain data where data: "write_hash (fmupd ''svn:date'' [] fmempty) = Inr data"
    using example_props(2) by (cases "write_hash (fmupd ''svn:date'' [] fmempty)") auto
  obtain contents where contents: "logicalRevision (std_md5 example_lib) 0 (first_items example_lib) = Inr contents"
    using first_written [OF example_lib] by blast
  have name: "itoa 0 @ CHR ''-'' # base36 0 = ''0-0''" by code_simp
  define repo where "repo = \<lparr>repo_youngest = 0, repo_files = fmupd 0 contents fmempty, repo_revprops = fmupd 0 data fmempty, repo_sequence = 0\<rparr>"
  have repo: "create_repository example_lib [] = Inr repo"
    by (simp add: create_repository_def initialRevision_items contents data repo_def)
  have first: "first_repo example_lib repo" using create_first [OF repo] by blast
  obtain tx0 begun where begun: "BeginTxn example_lib [] 0 repo = Inr (tx0, begun)" "tx_files tx0 = fmupd ''props'' data (fmupd ''changes'' []
       (fmupd ''next-ids'' (bytes_of_text (''0 0'' @ [CHR 0x0A, CHR 0x00])) fmempty))"
    "tx_name tx0 = ''0-0''" "tx_changes tx0 = fmempty"
    "tx_root tx0 = TxnNode (newTxnNode life_root ''/'' (first_node example_lib)) None" "tx_base tx0 = 0" "tx_next tx0 = 0"
    using created_root(1) [OF example_lib first]
    by (simp add: BeginTxn_def create_files_def data repo_def name)
  have "ReadHash (text_of_bytes data) = Inr (fmupd ''svn:date'' [] fmempty)" using data by (rule written_hash_read)
  then have "Properties tx0 = Inr (fmupd ''svn:date'' [] fmempty)" by (simp add: Properties_def begun(2) read_hash_def)
  moreover have "repo_sequence repo = 0" by (simp add: repo_def)
  ultimately show thesis using that repo first begun begin_first [OF begun(1) first] by blast
qed

text \<open>The numbers of the example are small enough for a revision file.\<close>

lemma life_fits: "build_items example_lib repo ''0-0'' 1 life_changes (TxnNode life_dir (Some [(''f'', TxnNode example_file None)])) = Inr items \<Longrightarrow> fits_file items"
  using life_items [of repo] by (auto intro: fits_small)

lemma life_committed:
  obtains repo begun tx0 tx repo' where "create_repository example_lib [] = Inr repo" "BeginTxn example_lib [] 0 repo = Inr (tx0, begun)"
    "first_repo example_lib repo" "first_repo example_lib begun" "repo_sequence repo = 0"
    "tx = snd (ApplyText example_lib begun ''/f'' [0x68] (snd (MakeFile example_lib begun ''/f'' tx0)))"
    "(edit_step example_lib begun)\<^sup>*\<^sup>* tx0 tx" "Commit example_lib [] (\<lambda>_. None) fmempty begun tx = Inr (1, repo')"
    "tx_root tx = TxnNode life_dir (Some [(''f'', TxnNode example_file None)])" "tx_changes tx = life_changes" "tx_name tx = ''0-0''" "tx_base tx = 0"
proof -
  obtain repo begun tx0 where life: "create_repository example_lib [] = Inr repo" "BeginTxn example_lib [] 0 repo = Inr (tx0, begun)"
    "first_repo example_lib begun" "first_repo example_lib repo" "repo_sequence repo = 0" "tx_name tx0 = ''0-0''" "tx_changes tx0 = fmempty"
    "tx_root tx0 = TxnNode (newTxnNode life_root ''/'' (first_node example_lib)) None" "tx_base tx0 = 0" "tx_next tx0 = 0"
    "Properties tx0 = Inr (fmupd ''svn:date'' [] fmempty)"
    by (rule life_begun)
  define made where "made = snd (MakeFile example_lib begun ''/f'' tx0)"
  define tx where "tx = snd (ApplyText example_lib begun ''/f'' [0x68] made)"
  note m = added_file [OF life(8) _ created_root(2) [OF example_lib life(3)] life(10), simplified, folded made_def]
  have e1: "edit_step example_lib begun tx0 made" unfolding made_def by (rule make_file) (simp_all add: short_path_def file_path life(10) text_ok_def)
  have e2: "edit_step example_lib begun made tx" unfolding tx_def by (rule apply_text) (simp add: short_path_def file_path text_ok_def)
  note w = file_written [OF m(1), of example_lib begun "[0x68]", folded tx_def]
  have root: "tx_root tx = TxnNode life_dir (Some [(''f'', TxnNode example_file None)])"
    using w(1) by (simp add: newTxnNode_def new_node_def life_dir_def example_file_def set_content_def mark_dirty_def)
  have changes: "tx_changes tx = life_changes" using w(2) m(2) by (simp add: life_changes_def life(7) newTxnNode_def new_node_def)
  have same: "tx_name tx = ''0-0''" "tx_base tx = 0"
    using edit_step_same [OF e1] edit_step_same [OF e2] life(6,9) by (simp_all add: same_txn_def)
  have props: "Properties tx = Inr (fmupd ''svn:date'' [] fmempty)" using w(3) m(3) life(11) by (simp add: newTxnNode_def new_node_def Properties_def)
  obtain items where items: "build_items example_lib begun ''0-0'' 1 life_changes (TxnNode life_dir (Some [(''f'', TxnNode example_file None)])) = Inr items"
    "length (data_of items) < 2000"
    using life_items by blast
  then have fits: "fits_file items" by (intro fits_small) simp
  obtain data where data: "write_hash (fmupd ''svn:date'' [] fmempty) = Inr data"
    using example_props(2) by (cases "write_hash (fmupd ''svn:date'' [] fmempty)") auto
  have young: "repo_youngest begun = 0" "repo_youngest repo = 0" "fmlookup (repo_files repo) 1 = None"
    using life(3,4) by (auto simp: first_repo_def)
  obtain repo' where c: "Commit example_lib [] (\<lambda>_. None) fmempty begun tx = Inr (1, repo')"
    using Commit_returns [OF example_lib, of begun tx items "\<lambda>_. None" fmempty _ "[]" data] items fits props data
    by (auto simp: young same root changes lock_violation_def)
  have "(edit_step example_lib begun)\<^sup>*\<^sup>* tx0 tx" using e1 e2 by (meson rtranclp.simps)
  then show thesis using that life c root changes same unfolding tx_def made_def by blast
qed

theorem edits_committed_witness:
  "\<exists>repo begun tx0 tx repo' root. create_repository example_lib [] = Inr repo \<and> BeginTxn example_lib [] 0 repo = Inr (tx0, begun) \<and>
     tx = snd (ApplyText example_lib begun ''/f'' [0x68] (snd (MakeFile example_lib begun ''/f'' tx0))) \<and>
     Commit example_lib [] (\<lambda>_. None) fmempty begun tx = Inr (1, repo') \<and> RevisionRoot example_lib repo' 1 = Inr root \<and>
     FileContents example_lib repo' root ''/f'' = Inr [0x68]"
proof -
  obtain repo begun tx0 tx repo' where life: "create_repository example_lib [] = Inr repo" "BeginTxn example_lib [] 0 repo = Inr (tx0, begun)"
    "first_repo example_lib repo" "first_repo example_lib begun" "repo_sequence repo = 0"
    "tx = snd (ApplyText example_lib begun ''/f'' [0x68] (snd (MakeFile example_lib begun ''/f'' tx0)))"
    "(edit_step example_lib begun)\<^sup>*\<^sup>* tx0 tx" and c: "Commit example_lib [] (\<lambda>_. None) fmempty begun tx = Inr (1, repo')"
    and tx: "tx_root tx = TxnNode life_dir (Some [(''f'', TxnNode example_file None)])" "tx_changes tx = life_changes" "tx_name tx = ''0-0''"
    by (rule life_committed)
  have young: "repo_youngest repo = 0" "fmlookup (repo_files repo) 1 = None" using life(3) by (auto simp: first_repo_def)
  have "\<exists>root. RevisionRoot example_lib repo' 1 = Inr root \<and>
     (\<forall>p contents. fst (txn_FileContents example_lib begun p tx) = Inr contents \<longrightarrow> FileContents example_lib repo' root p = Inr contents)"
    using edits_committed [OF example_lib _ _ _ life(2) [folded young(1)] created_printable [OF example_lib life(4)] life(7) c] young life(5) life_fits
    by (auto simp: tx)
  then obtain r where r: "RevisionRoot example_lib repo' 1 = Inr r"
    "\<And>p contents. fst (txn_FileContents example_lib begun p tx) = Inr contents \<Longrightarrow> FileContents example_lib repo' r p = Inr contents"
    by blast
  have "fst (txn_FileContents example_lib begun ''/f'' tx) = Inr [0x68]"
    by (simp add: txn_FileContents_def on_path_query [OF file_path(1)] file_path(2) tx(1) loadChildren_def loadContent_def)
  then have "FileContents example_lib repo' r ''/f'' = Inr [0x68]" by (rule r(2))
  then show ?thesis using life(1,2,6) c r(1) by blast
qed

lemma find_typed: "find_below lib repo q node names = Inr (Some found) \<Longrightarrow> well_typed node \<Longrightarrow> well_typed found"
proof (induction names arbitrary: node)
  case (Cons name names)
  show ?case using Cons.prems Cons.IH readNode_typed by (auto simp: and_then_Inr split: if_splits option.splits)
qed simp

text \<open>C7: every node that a revision shows is well typed: it is a file or a directory, its numbers are not negative and fit 64 bits, its
  digests have the lengths of MD5 and SHA-1, its paths are canonical.\<close>

theorem nodes_well_typed:
  assumes "RevisionRoot lib repo revision = Inr root" "nodeAt lib repo root p = Inr node"
  shows "well_typed node"
proof -
  have "well_typed (root_node root)"
    using assms(1) by (auto simp: RevisionRoot_def and_then_Inr split: if_splits dest: parseNodeRevision_ok)
  moreover have "findNode lib repo root p = Inr (Some node)"
    using assms(2) by (auto simp: nodeAt_def and_then_Inr ok_or_def split: option.splits)
  ultimately show ?thesis using find_typed by (auto simp: findNode_def and_then_Inr split: if_splits)
qed

theorem nodes_well_typed_witness:
  "\<exists>repo root. create_repository example_lib [] = Inr repo \<and> RevisionRoot example_lib repo 0 = Inr root \<and>
     nodeAt example_lib repo root ''/'' = Inr (first_node example_lib) \<and> well_typed (first_node example_lib)"
proof -
  obtain repo begun tx0 where life: "create_repository example_lib [] = Inr repo" "first_repo example_lib repo"
    by (rule life_begun)
  note root = created_root(1) [OF example_lib life(2)]
  have "nodeAt example_lib repo life_root ''/'' = Inr (first_node example_lib)"
    by (simp add: nodeAt_def findNode_def file_path ok_or_def)
  then show ?thesis using life(1) root nodes_well_typed [OF root] by blast
qed

end
