(* ===== verification/Fsfs_Merge.thy ===== *)
theory Fsfs_Merge
  imports Fsfs_Life
begin

text \<open>
  What the merge of a transaction with a later revision leaves in a directory
  (\<open>mergeTxnDirectory\<close>, \<^verbatim>\<open>fs/fsfs/merge.go\<close>).
\<close>

section \<open>Merged directories\<close>

text \<open>A name of a merged directory is as in the later revision.\<close>

definition from_latest ::
    "stdlib \<Rightarrow> repository \<Rightarrow> revision_root \<Rightarrow> string \<Rightarrow> (string, directory_entry) fmap \<Rightarrow> txn_children \<Rightarrow> string \<Rightarrow> bool" where
  "from_latest lib repo latest p entries cs name \<longleftrightarrow>
     (case fmlookup entries name of
        None \<Rightarrow> map_of cs name = None
      | Some e \<Rightarrow> \<exists>node. readNode lib repo (de_id e) = Inr node \<and>
          map_of cs name = Some (TxnNode (newTxnNode latest (path_Join [p, name]) node) None))"

definition takes :: "(string \<times> node_revision) list \<Rightarrow> string \<Rightarrow> txn_node \<Rightarrow> fs_error + txn_node \<Rightarrow> txn_node \<Rightarrow> bool" where
  "takes latestChildren name child merged child' \<longleftrightarrow>
     (if map_of latestChildren name \<noteq> None \<and> \<not> tn_new (data_of_node child) then merged = Inr child' else child' = child)"

lemma read_entries_map_of:
  "read_entries lib repo vs = Inr nodes \<Longrightarrow>
     (case map_of vs name of None \<Rightarrow> map_of nodes name = None
      | Some e \<Rightarrow> \<exists>node. readNode lib repo (de_id e) = Inr node \<and> map_of nodes name = Some node)"
proof (induction vs arbitrary: nodes)
  case (Cons v vs)
  obtain n e where v: "v = (n, e)" by (cases v)
  obtain child rest where c: "readNode lib repo (de_id e) = Inr child" "read_entries lib repo vs = Inr rest" "nodes = (n, child) # rest"
    using Cons.prems by (auto simp: v and_then_Inr)
  show ?case using Cons.IH [OF c(2)] by (auto simp: v c(1,3) split: option.splits)
qed simp

lemma merge_children_map_of:
  "merge_children candidates latestChildren = Inr mine \<Longrightarrow> distinct (map fst candidates) \<Longrightarrow>
     (case map_of candidates name of
        None \<Rightarrow> map_of mine name = None
      | Some (child, merged) \<Rightarrow>
          if tn_dirty (data_of_node child) then \<exists>child'. map_of mine name = Some child' \<and> takes latestChildren name child merged child'
          else map_of mine name = None)"
proof (induction candidates latestChildren arbitrary: mine rule: merge_children.induct)
  case (2 n child merged candidates latestChildren)
  have away: "map_of candidates n = None" using "2.prems"(2) by (simp add: map_of_eq_None_iff)
  show ?case
  proof (cases "tn_dirty (data_of_node child)")
    case False
    then have "merge_children candidates latestChildren = Inr mine" using "2.prems"(1) by simp
    from "2.IH"(1) [OF False this] show ?thesis using "2.prems"(2) False away by (auto split: option.splits)
  next
    case True
    obtain child' rest where c: "takes latestChildren n child merged child'" "merge_children candidates latestChildren = Inr rest" "mine = (n, child') # rest"
      using "2.prems"(1) True by (auto simp: and_then_Inr takes_def split: if_splits)
    have "\<not> \<not> tn_dirty (data_of_node child)" using True by simp
    note IH = "2.IH"(2) [OF this c(2)]
    show ?thesis
    proof (cases "name = n")
      case False
      then have "map_of ((n, child, merged) # candidates) name = map_of candidates name" "map_of mine name = map_of rest name" by (simp_all add: c(3))
      moreover have "distinct (map fst candidates)" using "2.prems"(2) by simp
      ultimately show ?thesis using IH by (simp only:)
    qed (use True c(1,3) in simp)
  qed
qed simp

lemma take_latest_map_of:
  "map_of (take_latest latest p latestChildren mine) name =
     (case map_of mine name of Some child \<Rightarrow> Some child
      | None \<Rightarrow> map_option (\<lambda>node. TxnNode (newTxnNode latest (path_Join [p, name]) node) None) (map_of latestChildren name))"
proof -
  have "map_of (map (\<lambda>(name, child). (name, TxnNode (newTxnNode latest (path_Join [p, name]) child) None))
      (filter (\<lambda>(name, child). P name) latestChildren)) name =
      (if P name then map_option (\<lambda>node. TxnNode (newTxnNode latest (path_Join [p, name]) node) None) (map_of latestChildren name) else None)" for P
    by (induction latestChildren) auto
  then show ?thesis by (simp add: take_latest_def map_add_def split: option.split)
qed

text \<open>C4: the merge of a directory of a transaction with a later revision has every child the transaction changed, merged with the later
  revision if it has the name and the child is not new; under every other name it has what the later revision has. A name that the
  transaction deleted is such a name, so a deletion does not survive the merge.\<close>

theorem merged_children:
  assumes "mergeTxnDirectory lib repo latest p (TxnNode d (Some children)) = Inr merged" "tn_kind d = NodeDir" "distinct (map fst children)"
  shows "\<exists>latestNode entries cs. nodeAt lib repo latest p = Inr latestNode \<and> directoryEntries lib repo latestNode = Inr entries \<and>
    children_of_node merged = Some cs \<and>
    (\<forall>name. case map_of children name of
       None \<Rightarrow> from_latest lib repo latest p entries cs name
     | Some child \<Rightarrow>
         if \<not> tn_dirty (data_of_node child) then from_latest lib repo latest p entries cs name
         else if fmlookup entries name \<noteq> None \<and> \<not> tn_new (data_of_node child)
         then \<exists>child'. mergeTxnDirectory lib repo latest (path_Join [p, name]) child = Inr child' \<and> map_of cs name = Some child'
         else map_of cs name = Some child)"
proof -
  define candidates where "candidates = map (\<lambda>(name, child). (name, child, mergeTxnDirectory lib repo latest (path_Join [p, name]) child)) children"
  obtain latestNode entries nodes mine where m: "nodeAt lib repo latest p = Inr latestNode" "directoryEntries lib repo latestNode = Inr entries"
    "read_entries lib repo (sorted_entries entries) = Inr nodes" "merge_children candidates nodes = Inr mine"
    "children_of_node merged = Some (take_latest latest p nodes mine)"
    using assms(1,2) by (auto simp: and_then_Inr candidates_def split: if_splits)
  have look: "map_of candidates name = map_option (\<lambda>child. (child, mergeTxnDirectory lib repo latest (path_Join [p, name]) child)) (map_of children name)" for name
    unfolding candidates_def by (induction children) auto
  have "distinct (map fst candidates)" using assms(3) by (simp add: candidates_def split_beta comp_def)
  note mine = merge_children_map_of [OF m(4) this]
  have nodes: "map_of (sorted_entries entries) name = fmlookup entries name" for name by (simp add: map_of_sorted_entries)
  note read = read_entries_map_of [OF m(3), unfolded nodes]
  have latest: "from_latest lib repo latest p entries (take_latest latest p nodes mine) name" if "map_of mine name = None" for name
    using read [of name] that by (auto simp: from_latest_def take_latest_map_of split: option.splits)
  have "case map_of children name of
       None \<Rightarrow> from_latest lib repo latest p entries (take_latest latest p nodes mine) name
     | Some child \<Rightarrow>
         if \<not> tn_dirty (data_of_node child) then from_latest lib repo latest p entries (take_latest latest p nodes mine) name
         else if fmlookup entries name \<noteq> None \<and> \<not> tn_new (data_of_node child)
         then \<exists>child'. mergeTxnDirectory lib repo latest (path_Join [p, name]) child = Inr child' \<and> map_of (take_latest latest p nodes mine) name = Some child'
         else map_of (take_latest latest p nodes mine) name = Some child" for name
    using mine [of name] latest [of name] read [of name]
    by (auto simp: look take_latest_map_of takes_def split: option.splits if_splits)
  then show ?thesis using m by blast
qed

theorem merged_children_witness:
  "\<exists>repo root merged cs child. RevisionRoot example_lib repo 1 = Inr root \<and>
     mergeTxnDirectory example_lib repo root ''/'' (TxnNode life_dir (Some [])) = Inr merged \<and>
     children_of_node merged = Some cs \<and> map_of cs ''f'' = Some child"
proof -
  obtain repo begun tx0 tx repo' where life: "BeginTxn example_lib [] 0 repo = Inr (tx0, begun)"
    "first_repo example_lib begun" "(edit_step example_lib begun)\<^sup>*\<^sup>* tx0 tx" "Commit example_lib [] (\<lambda>_. None) fmempty begun tx = Inr (1, repo')"
    and tx: "tx_root tx = TxnNode life_dir (Some [(''f'', TxnNode example_file None)])" "tx_changes tx = life_changes" "tx_name tx = ''0-0''" "tx_base tx = 0"
    by (rule life_committed)
  have young: "repo_youngest begun = 0" "fmlookup (repo_files begun) 1 = None" using life(2) by (auto simp: first_repo_def)
  have printable: "printable_repo example_lib begun" by (rule created_printable [OF example_lib life(2)])
  have "tidy example_lib begun 1 [] (tx_root tx)"
    using edits_tidy [OF life(3) printable, of 1] begun_tidy(1) [OF life(1) printable] by (simp add: nonneg64_def)
  then have changed: "changed example_lib begun 1 (tx_root tx)" by (rule tidy_changed) (simp add: tx)
  obtain node items where r: "RevisionRoot example_lib repo' 1 = Inr \<lparr>root_revision = 1, root_node = node\<rparr>"
    and C: "committed_items example_lib begun repo' (tx_name tx) 1 items"
    and t: "becomes example_lib begun repo' (tx_name tx) 1 (set items) (tx_root tx) node"
    by (rule commit_read [OF example_lib _ _ _ _ _ _ _ life(4)])
      (use changed example_name life_fits in \<open>simp_all add: young tx\<close>)
  have load: "node_kind (tx_root tx) = NodeDir" "loadChildren example_lib begun (tx_root tx) = Inr [(''f'', TxnNode example_file None)]"
    by (simp_all add: tx loadChildren_def)
  obtain m where m: "directoryEntries example_lib repo' node = Inr m"
    "\<And>name. map_of [(''f'', TxnNode example_file None)] name = None \<Longrightarrow> fmlookup m name = None"
    "\<And>p child. map_of [(''f'', TxnNode example_file None)] p = Some child \<Longrightarrow>
       \<exists>e node'. fmlookup m p = Some e \<and> readNode example_lib repo' (de_id e) = Inr node' \<and>
         becomes example_lib begun repo' (tx_name tx) 1 (set items) child node'"
    by (rule becomes_step [OF C t load]) blast
  obtain e shown where e: "fmlookup m ''f'' = Some e" "readNode example_lib repo' (de_id e) = Inr shown"
    using m(3) [of "''f''"] by auto
  have "m = fmupd ''f'' e fmempty" by (rule fmap_ext) (use m(2) e(1) in auto)
  then have entries: "sorted_entries m = [(''f'', e)]" by (simp add: sorted_single)
  let ?root = "\<lparr>root_revision = 1, root_node = node\<rparr>"
  have kind: "nr_kind node = NodeDir" using r by (auto simp: RevisionRoot_def and_then_Inr split: if_splits)
  have at: "nodeAt example_lib repo' ?root ''/'' = Inr node" by (simp add: nodeAt_def findNode_def file_path ok_or_def)
  then obtain merged where merged: "mergeTxnDirectory example_lib repo' ?root ''/'' (TxnNode life_dir (Some [])) = Inr merged"
    by (simp add: kind m(1) entries e(2))
  have "\<exists>latestNode entries cs. nodeAt example_lib repo' ?root ''/'' = Inr latestNode \<and> directoryEntries example_lib repo' latestNode = Inr entries \<and>
    children_of_node merged = Some cs \<and> from_latest example_lib repo' ?root ''/'' entries cs ''f''"
    using merged_children [OF merged] by fastforce
  then show ?thesis using r merged at m(1) e(1) by (fastforce simp: from_latest_def)
qed

end
