(* ===== verification/Line_Lcs.thy ===== *)
theory Line_Lcs
  imports Go_Text "HOL-Library.Sublist"
begin

text \<open>
  The table both line comparisons of the repository fill from the back: the entry for two
  positions is a function of the two rests of lines, so the table is a recursion on them. \<open>key\<close>
  is what lines are compared by. Its value is the length of a longest common subsequence of the
  keys.
\<close>

fun lcs_table :: "('a \<Rightarrow> 'b) \<Rightarrow> 'a list \<Rightarrow> 'a list \<Rightarrow> nat" where
  "lcs_table key [] ys = 0"
| "lcs_table key (x # xs) [] = 0"
| "lcs_table key (x # xs) (y # ys) =
     (if key x = key y then lcs_table key xs ys + 1
      else if lcs_table key xs (y # ys) \<ge> lcs_table key (x # xs) ys then lcs_table key xs (y # ys)
      else lcs_table key (x # xs) ys)"

lemma lcs_table_Nil [simp]: "lcs_table key xs [] = 0"
  by (cases xs) simp_all

lemma subseq_Cons_tl: "subseq zs (x # xs) \<Longrightarrow> subseq (tl zs) xs"
  by (cases zs) (auto split: if_splits dest: subseq_Cons')

lemma subseq_other: "subseq (z # zs) (x # xs) \<Longrightarrow> z \<noteq> x \<Longrightarrow> subseq (z # zs) xs"
  by simp

lemma lcs_table_upper:
  "subseq zs (map key xs) \<Longrightarrow> subseq zs (map key ys) \<Longrightarrow> length zs \<le> lcs_table key xs ys"
proof (induction key xs ys arbitrary: zs rule: lcs_table.induct)
  case (3 key x xs y ys)
  show ?case
  proof (cases "key x = key y")
    case True
    have "subseq (tl zs) (map key xs)" "subseq (tl zs) (map key ys)"
      using "3.prems" by (auto intro: subseq_Cons_tl)
    from "3.IH"(1) [OF True this] True show ?thesis by simp
  next
    case False
    show ?thesis
    proof (cases zs)
      case (Cons z zs')
      have "subseq zs (map key xs) \<or> subseq zs (map key ys)"
        using "3.prems" False subseq_other unfolding Cons by (metis list.simps(9))
      then have "length zs \<le> lcs_table key xs (y # ys) \<or> length zs \<le> lcs_table key (x # xs) ys"
        using "3.IH"(2) [OF False, of zs] "3.IH"(3) [OF False, of zs] "3.prems" "3.IH"(4) [OF False, of zs]
        by fastforce
      then show ?thesis using False by auto
    qed simp
  qed
qed simp_all

end
