(* ===== verification/Text_Diff.thy ===== *)
theory Text_Diff
  imports Line_Lcs
begin

text \<open>
  Line differences, \<^verbatim>\<open>internal/diff/diff.go\<close>: the edit script between two files, its unified
  form, and the annotation carried across a change. Data are strings of bytes. \<open>ContextLines\<close> is an
  integer; twice its value is taken without the wrap-around of 64 bits.
\<close>

record diff_options =
  IgnoreAllSpace :: bool
  IgnoreSpaceChange :: bool
  IgnoreEOL :: bool
  ContextLines :: int
  ContextSet :: bool

definition no_options :: diff_options where
  "no_options = \<lparr>IgnoreAllSpace = False, IgnoreSpaceChange = False, IgnoreEOL = False,
     ContextLines = 0, ContextSet = False\<rparr>"

datatype OperationKind = Equal | Delete | Add

record operation =
  Kind :: OperationKind
  Line :: string

section \<open>Lines\<close>

fun split_after :: "string \<Rightarrow> string list" where
  "split_after [] = [[]]"
| "split_after (c # s) =
     (if c = CHR 0x0A then [c] # split_after s
      else case split_after s of [] \<Rightarrow> [[c]] | line # rest \<Rightarrow> (c # line) # rest)"

definition Lines :: "string \<Rightarrow> string list" where
  "Lines data =
     (if data = [] then []
      else let parts = split_after data in if last parts = [] then butlast parts else parts)"

definition splitLineEnding :: "string \<Rightarrow> string \<times> string" where
  "splitLineEnding line =
     (if HasSuffix line [CHR 0x0D, CHR 0x0A] then (TrimSuffix line [CHR 0x0D, CHR 0x0A], [CHR 0x0D, CHR 0x0A])
      else if HasSuffix line [CHR 0x0A] then (TrimSuffix line [CHR 0x0A], [CHR 0x0A])
      else if HasSuffix line [CHR 0x0D] then (TrimSuffix line [CHR 0x0D], [CHR 0x0D])
      else (line, []))"

definition normalize :: "diff_options \<Rightarrow> string \<Rightarrow> string" where
  "normalize options line =
     (let (body, ending0) = splitLineEnding line;
          ending = (if IgnoreEOL options then [] else ending0) in
      if IgnoreAllSpace options then join [] (Fields body) @ ending
      else if IgnoreSpaceChange options then join '' '' (Fields body) @ ending
      else body @ ending)"

section \<open>The edit script\<close>

text \<open>The entry of \<open>table\<close> where \<open>olds\<close> and \<open>news\<close> are the lines from the two indexes on.\<close>

definition table :: "diff_options \<Rightarrow> string list \<Rightarrow> string list \<Rightarrow> nat" where
  "table options = lcs_table (normalize options)"

fun script :: "diff_options \<Rightarrow> string list \<Rightarrow> string list \<Rightarrow> operation list" where
  "script options [] [] = []"
| "script options [] (n # ns) = \<lparr>Kind = Add, Line = n\<rparr> # script options [] ns"
| "script options (x # xs) [] = \<lparr>Kind = Delete, Line = x\<rparr> # script options xs []"
| "script options (x # xs) (n # ns) =
     (if normalize options x = normalize options n
      then \<lparr>Kind = Equal, Line = n\<rparr> # script options xs ns
      else if table options (x # xs) ns > table options xs (n # ns)
      then \<lparr>Kind = Add, Line = n\<rparr> # script options (x # xs) ns
      else \<lparr>Kind = Delete, Line = x\<rparr> # script options xs (n # ns))"

definition Operations :: "string \<Rightarrow> string \<Rightarrow> diff_options \<Rightarrow> operation list" where
  "Operations oldData newData options = script options (Lines oldData) (Lines newData)"

section \<open>Unified output\<close>

definition changes :: "operation list \<Rightarrow> nat list" where
  "changes operations = filter (\<lambda>i. Kind (operations ! i) \<noteq> Equal) [0..<length operations]"

fun extend_hunk :: "nat \<Rightarrow> nat \<Rightarrow> nat list \<Rightarrow> nat \<times> nat list" where
  "extend_hunk ctx prev [] = (prev, [])"
| "extend_hunk ctx prev (c # cs) =
     (if c - prev \<le> 2 * ctx + 1 then extend_hunk ctx c cs else (prev, c # cs))"

lemma extend_hunk_length: "extend_hunk ctx l cs = (l', cs') \<Longrightarrow> length cs' \<le> length cs"
  by (induction ctx l cs rule: extend_hunk.induct) (auto split: if_splits)

text \<open>The half-open index ranges of the hunks, for \<open>count\<close> operations.\<close>

function hunks :: "nat \<Rightarrow> nat \<Rightarrow> nat list \<Rightarrow> (nat \<times> nat) list" where
  "hunks ctx count [] = []"
| "hunks ctx count (c # cs) =
     (let (stop, rest) = extend_hunk ctx c cs in
      (c - ctx, min (stop + ctx + 1) count) # hunks ctx count rest)"
  by pat_completeness auto
termination
  by (relation "measure (\<lambda>(_, _, cs). length cs)") (auto dest: extend_hunk_length [OF sym])

definition linePositions :: "operation list \<Rightarrow> nat \<Rightarrow> nat \<times> nat" where
  "linePositions operations stop =
     (1 + length (filter (\<lambda>p. Kind p \<noteq> Add) (take stop operations)),
      1 + length (filter (\<lambda>p. Kind p \<noteq> Delete) (take stop operations)))"

definition formatRange :: "nat \<Rightarrow> nat \<Rightarrow> string" where
  "formatRange start count =
     (if count = 0 then itoa (int start - 1) @ '',0''
      else if count = 1 then itoa (int start)
      else itoa (int start) @ '','' @ itoa (int count))"

definition operation_text :: "string \<Rightarrow> operation \<Rightarrow> string" where
  "operation_text noun p =
     (case Kind p of Delete \<Rightarrow> ''-'' | Add \<Rightarrow> ''+'' | Equal \<Rightarrow> '' '') @ Line p @
     (if HasSuffix (Line p) [CHR 0x0A] then []
      else [CHR 0x0A, CHR 0x5C] @ '' No newline at end of '' @ noun @ [CHR 0x0A])"

definition hunk_text :: "string \<Rightarrow> string \<Rightarrow> operation list \<Rightarrow> nat \<times> nat \<Rightarrow> string" where
  "hunk_text marker noun operations hunk =
     (let (start, stop) = hunk;
          (oldStart, newStart) = linePositions operations start;
          body = take (stop - start) (drop start operations);
          oldCount = length (filter (\<lambda>p. Kind p \<noteq> Add) body);
          newCount = length (filter (\<lambda>p. Kind p \<noteq> Delete) body) in
      marker @ '' -'' @ formatRange oldStart oldCount @ '' +'' @ formatRange newStart newCount @
      '' '' @ marker @ [CHR 0x0A] @ concat (map (operation_text noun) body))"

definition context_of :: "diff_options \<Rightarrow> nat" where
  "context_of options = (if ContextSet options then nat (ContextLines options) else 3)"

definition unified ::
    "string \<Rightarrow> string \<Rightarrow> string \<Rightarrow> string \<Rightarrow> diff_options \<Rightarrow> bool \<Rightarrow> string \<Rightarrow> string \<Rightarrow> string" where
  "unified oldData newData oldLabel newLabel options headers marker noun =
     (let operations = Operations oldData newData options; cs = changes operations in
      if cs = [] then []
      else
        (if headers
         then ''--- '' @ oldLabel @ [CHR 0x0A] @ ''+++ '' @ newLabel @ [CHR 0x0A] else []) @
        concat (map (hunk_text marker noun operations)
          (hunks (context_of options) (length operations) cs)))"

definition Unified :: "string \<Rightarrow> string \<Rightarrow> string \<Rightarrow> string \<Rightarrow> diff_options \<Rightarrow> string" where
  "Unified oldData newData oldLabel newLabel options =
     unified oldData newData oldLabel newLabel options True ''@@'' ''file''"

definition UnifiedProperty :: "string \<Rightarrow> string \<Rightarrow> string" where
  "UnifiedProperty oldData newData =
     unified oldData newData [] [] no_options False ''##'' ''property''"

section \<open>Origins of lines\<close>

fun carry :: "int \<Rightarrow> operation list \<Rightarrow> int list \<Rightarrow> int list" where
  "carry revision [] origins = []"
| "carry revision (p # ps) origins =
     (case Kind p of
        Equal \<Rightarrow> (case origins of [] \<Rightarrow> revision | r # _ \<Rightarrow> r) # carry revision ps (tl origins)
      | Delete \<Rightarrow> carry revision ps (tl origins)
      | Add \<Rightarrow> revision # carry revision ps origins)"

definition CarryOrigins :: "string \<Rightarrow> string \<Rightarrow> int list \<Rightarrow> int \<Rightarrow> diff_options \<Rightarrow> int list" where
  "CarryOrigins oldData newData oldOrigins revision options =
     carry revision (Operations oldData newData options) oldOrigins"

section \<open>Lemmas\<close>

lemma split_after_not_Nil [simp]: "split_after s \<noteq> []"
  by (induction s) (auto split: list.split)

lemma concat_split_after: "concat (split_after s) = s"
  by (induction s) (auto split: list.split)

lemma concat_Lines: "concat (Lines data) = data"
proof (cases "data = []")
  case False
  let ?p = "split_after data"
  have "concat ?p = concat (butlast ?p) @ last ?p"
    by (metis append_butlast_last_id concat.simps concat_append append_Nil2 split_after_not_Nil)
  with False concat_split_after [of data] show ?thesis by (auto simp: Lines_def Let_def)
qed (simp add: Lines_def)

definition old_side :: "operation list \<Rightarrow> string list" where
  "old_side operations = map Line (filter (\<lambda>p. Kind p \<noteq> Add) operations)"

definition new_side :: "operation list \<Rightarrow> string list" where
  "new_side operations = map Line (filter (\<lambda>p. Kind p \<noteq> Delete) operations)"

lemma sides_simps [simp]:
  "old_side [] = []" "new_side [] = []"
  "old_side (p # ps) = (if Kind p = Add then [] else [Line p]) @ old_side ps"
  "new_side (p # ps) = (if Kind p = Delete then [] else [Line p]) @ new_side ps"
  by (simp_all add: old_side_def new_side_def)

lemma script_new: "new_side (script options xs ys) = ys"
  by (induction options xs ys rule: script.induct) simp_all

lemma script_old: "map (normalize options) (old_side (script options xs ys)) = map (normalize options) xs"
  by (induction options xs ys rule: script.induct) simp_all

lemma script_count: "length (filter (\<lambda>p. Kind p = Equal) (script options xs ys)) = table options xs ys"
  by (induction options xs ys rule: script.induct) (auto simp: table_def)

lemma normalize_none [simp]: "normalize no_options line = line"
  by (auto simp: normalize_def no_options_def splitLineEnding_def TrimSuffix_def HasSuffix_def split: if_splits)
    (metis append_take_drop_id)+

text \<open>Hunks: in order, apart from each other, and together they hold every change.\<close>

fun separated :: "nat \<Rightarrow> (nat \<times> nat) list \<Rightarrow> bool" where
  "separated low [] = True"
| "separated low ((a, b) # hs) = (low \<le> a \<and> a < b \<and> separated b hs)"

lemma extend_hunk_spec:
  assumes "extend_hunk ctx l cs = (l', cs')" "sorted_wrt (<) (l # cs)"
  shows "l \<le> l'" "sorted_wrt (<) cs'" "\<And>c. c \<in> set cs' \<Longrightarrow> l' + 2 * ctx + 1 < c" "set cs' \<subseteq> set cs"
    "l' \<in> insert l (set cs)" "\<And>c. c \<in> set cs \<Longrightarrow> c \<in> set cs' \<or> c \<le> l'"
proof -
  have "l \<le> l' \<and> sorted_wrt (<) cs' \<and> (\<forall>c \<in> set cs'. l' + 2 * ctx + 1 < c) \<and> set cs' \<subseteq> set cs \<and>
    l' \<in> insert l (set cs) \<and> (\<forall>c \<in> set cs. c \<in> set cs' \<or> c \<le> l')"
    using assms
  proof (induction ctx l cs rule: extend_hunk.induct)
    case (2 ctx l c cs)
    show ?case
    proof (cases "c - l \<le> 2 * ctx + 1")
      case True
      with 2 have "c \<le> l' \<and> sorted_wrt (<) cs' \<and> (\<forall>c \<in> set cs'. l' + 2 * ctx + 1 < c) \<and> set cs' \<subseteq> set cs \<and>
        l' \<in> insert c (set cs) \<and> (\<forall>c \<in> set cs. c \<in> set cs' \<or> c \<le> l')"
        by simp
      moreover have "l < c" using "2.prems"(2) by simp
      ultimately show ?thesis by auto
    next
      case False
      with "2.prems" have "l' = l" "cs' = c # cs" by simp_all
      with "2.prems"(2) False show ?thesis by auto
    qed
  qed simp
  then show "l \<le> l'" "sorted_wrt (<) cs'" "\<And>c. c \<in> set cs' \<Longrightarrow> l' + 2 * ctx + 1 < c" "set cs' \<subseteq> set cs"
    "l' \<in> insert l (set cs)" "\<And>c. c \<in> set cs \<Longrightarrow> c \<in> set cs' \<or> c \<le> l'"
    by blast+
qed

lemma extend_hunk_near:
  assumes "extend_hunk ctx l cs = (l', cs')" "l \<le> i + ctx" "i \<le> l' + ctx"
  shows "\<exists>c \<in> insert l (set cs). i \<le> c + ctx \<and> c \<le> i + ctx"
  using assms
proof (induction ctx l cs rule: extend_hunk.induct)
  case (2 ctx l c cs)
  show ?case
  proof (cases "i \<le> l + ctx")
    case False
    with "2.prems" have near: "c - l \<le> 2 * ctx + 1" by (auto split: if_splits)
    with False have "c \<le> i + ctx" by simp
    with "2.IH" [OF near] "2.prems" near show ?thesis by auto
  qed (use "2.prems" in auto)
qed auto

lemma hunks_spec:
  assumes "sorted_wrt (<) cs" "\<forall>c \<in> set cs. c < count" "\<forall>c \<in> set cs. low + ctx \<le> c \<or> low = 0"
  shows "separated low (hunks ctx count cs) \<and> (\<forall>(a, b) \<in> set (hunks ctx count cs). b \<le> count) \<and>
    (\<forall>c \<in> set cs. \<exists>(a, b) \<in> set (hunks ctx count cs). a \<le> c \<and> c < b)"
  using assms
proof (induction ctx count cs arbitrary: low rule: hunks.induct)
  case (2 ctx count c cs)
  obtain l rest where e: "extend_hunk ctx c cs = (l, rest)" by force
  note s = extend_hunk_spec [OF e "2.prems"(1)]
  let ?stop = "min (l + ctx + 1) count"
  have IH: "separated ?stop (hunks ctx count rest)" "\<forall>(a, b) \<in> set (hunks ctx count rest). b \<le> count"
    "\<forall>c \<in> set rest. \<exists>(a, b) \<in> set (hunks ctx count rest). a \<le> c \<and> c < b"
    using "2.IH" [OF e [symmetric] refl s(2), of ?stop] s(3,4) "2.prems"(2)
    by (force simp: subset_iff min_def)+
  have l: "l < count" "c \<le> l" using s(1,5) "2.prems"(2) by auto
  have c: "low \<le> c - ctx" using "2.prems"(3) by auto
  have h: "hunks ctx count (c # cs) = (c - ctx, ?stop) # hunks ctx count rest" by (simp add: e)
  have first: "c - ctx < ?stop" "x \<in> set (c # cs) \<Longrightarrow> x \<notin> set rest \<Longrightarrow> c - ctx \<le> x \<and> x < ?stop" for x
    using l s(6) [of x] "2.prems"(1,2) by (auto simp: min_def)
  show ?case unfolding h using IH c first by (auto simp del: hunks.simps) (metis (no_types, lifting) case_prodI2)?
qed simp

text \<open>What the hunks hold: the lines within the context of a change, and between two hunks at least
  one line is left out.\<close>

lemma hunks_near:
  assumes "sorted_wrt (<) cs" "\<forall>c \<in> set cs. c < count" "i < count"
  shows "(\<exists>(a, b) \<in> set (hunks ctx count cs). a \<le> i \<and> i < b) \<longleftrightarrow>
    (\<exists>c \<in> set cs. i \<le> c + ctx \<and> c \<le> i + ctx)"
  using assms
proof (induction ctx count cs rule: hunks.induct)
  case (2 ctx count c cs)
  obtain l rest where e: "extend_hunk ctx c cs = (l, rest)" by force
  note s = extend_hunk_spec [OF e "2.prems"(1)]
  have IH: "(\<exists>(a, b) \<in> set (hunks ctx count rest). a \<le> i \<and> i < b) \<longleftrightarrow>
      (\<exists>c \<in> set rest. i \<le> c + ctx \<and> c \<le> i + ctx)"
    using "2.IH" [OF e [symmetric] refl s(2) _ "2.prems"(3)] s(4) "2.prems"(2) by auto
  have h: "hunks ctx count (c # cs) = (c - ctx, min (l + ctx + 1) count) # hunks ctx count rest"
    by (simp add: e)
  have near: "\<exists>x \<in> set (c # cs). i \<le> x + ctx \<and> x \<le> i + ctx" if "c - ctx \<le> i" "i < l + ctx + 1"
  proof -
    have "c \<le> i + ctx" "i \<le> l + ctx" using that by linarith+
    then show ?thesis using extend_hunk_near [OF e, of i] by simp
  qed
  have far: "c - ctx \<le> i \<and> i < l + ctx + 1"
    if "x \<in> set (c # cs)" "x \<notin> set rest" "i \<le> x + ctx" "x \<le> i + ctx" for x
    using that s(1) s(6) [of x] "2.prems"(1) by auto
  have sub: "set rest \<subseteq> set (c # cs)" using s(4) by auto
  show ?case unfolding h list.set bex_simps prod.case IH
    using near far sub "2.prems"(3) by (auto simp del: hunks.simps)
qed simp

lemma hunks_start: "(a, b) \<in> set (hunks ctx count cs) \<Longrightarrow> sorted_wrt (<) cs \<Longrightarrow> \<exists>c \<in> set cs. a = c - ctx"
proof (induction ctx count cs rule: hunks.induct)
  case (2 ctx count c cs)
  obtain l rest where e: "extend_hunk ctx c cs = (l, rest)" by force
  note s = extend_hunk_spec [OF e "2.prems"(2)]
  from "2.prems"(1) consider "a = c - ctx" | "(a, b) \<in> set (hunks ctx count rest)"
    by (auto simp: e)
  then show ?case
  proof cases
    case 2
    then show ?thesis using "2.IH" [OF e [symmetric] refl 2 s(2)] s(4) by auto
  qed simp
qed simp

lemma hunks_apart:
  "sorted_wrt (<) cs \<Longrightarrow> sorted_wrt (\<lambda>(a, b) (c, d). b < c) (hunks ctx count cs)"
proof (induction ctx count cs rule: hunks.induct)
  case (2 ctx count c cs)
  obtain l rest where e: "extend_hunk ctx c cs = (l, rest)" by force
  note s = extend_hunk_spec [OF e "2.prems"(1)]
  have later: "l + ctx + 1 < a" if "(a, b) \<in> set (hunks ctx count rest)" for a b
    using hunks_start [OF that s(2)] s(3) by force
  have h: "hunks ctx count (c # cs) = (c - ctx, min (l + ctx + 1) count) # hunks ctx count rest"
    by (simp add: e)
  show ?case unfolding h using "2.IH" [OF e [symmetric] refl s(2)] later
    by (fastforce simp del: hunks.simps)
qed simp

lemma changes_sorted: "sorted_wrt (<) (changes operations)"
  unfolding changes_def by (rule sorted_wrt_filter) (simp add: sorted_wrt_upt)

lemma carry_length: "length (carry revision ps origins) = length (new_side ps)"
  by (induction revision ps origins rule: carry.induct) (auto split: OperationKind.split)

section \<open>Properties\<close>

text \<open>C29: the edit script turns the old file into the new one: its new side is the new file, its
  old side is the old file up to the white space the options ignore, no edit script keeps more lines, and
  a carried annotation has one origin per line of the new file.\<close>

theorem diff_script:
  fixes options oldData newData
  defines "ops \<equiv> Operations oldData newData options" and "key \<equiv> normalize options"
  shows "concat (new_side ops) = newData \<and>
    map key (old_side ops) = map key (Lines oldData) \<and>
    (\<forall>kept. subseq kept (map key (Lines oldData)) \<and> subseq kept (map key (Lines newData)) \<longrightarrow>
       length kept \<le> length (filter (\<lambda>p. Kind p = Equal) ops)) \<and>
    length (CarryOrigins oldData newData origins revision options) = length (Lines newData)"
  unfolding ops_def key_def Operations_def CarryOrigins_def
  by (auto simp: script_new script_old script_count concat_Lines carry_length table_def intro: lcs_table_upper)

theorem diff_script_witness:
  "concat (new_side (Operations ''ab'' ''ac'' no_options)) = ''ac'' \<and>
   length ([] :: string list) \<le> length (filter (\<lambda>p. Kind p = Equal) (Operations ''ab'' ''ac'' no_options))"
  using diff_script [of "''ab''" "''ac''" no_options] by simp



end
