(* ===== verification/Text_Diff3.thy ===== *)
theory Text_Diff3
  imports Line_Lcs
begin

text \<open>
  Three-way merging of texts, \<^verbatim>\<open>internal/diff3/diff3.go\<close>. Slices that would panic are \<open>None\<close>, as is
  the end of the fuel of the merge loop, which is one more than the number of hunks.
\<close>

record hunk =
  start :: nat
  stop :: nat
  lines :: "string list"

definition slice :: "'a list \<Rightarrow> nat \<Rightarrow> nat \<Rightarrow> 'a list option" where
  "slice xs lo hi = (if lo \<le> hi \<and> hi \<le> length xs then Some (take (hi - lo) (drop lo xs)) else None)"

section \<open>Differences\<close>

function splitLines :: "string \<Rightarrow> string list" where
  "splitLines contents =
     (case dropWhile (\<lambda>c. c \<noteq> CHR 0x0A) contents of
        [] \<Rightarrow> if contents = [] then [] else [contents]
      | nl # rest \<Rightarrow> (takeWhile (\<lambda>c. c \<noteq> CHR 0x0A) contents @ [nl]) # splitLines rest)"
  by pat_completeness auto
termination
  by (relation "measure length") (auto, metis length_Cons length_dropWhile_le Suc_le_lessD)

declare splitLines.simps [simp del]

text \<open>The entry of the table where \<open>base\<close> and \<open>target\<close> are the lines from the two positions on.\<close>

definition lengths :: "string list \<Rightarrow> string list \<Rightarrow> nat" where
  "lengths = lcs_table (\<lambda>line. line)"

text \<open>The inner loop: the position where the replaced lines end, the replacement, the lines left.\<close>

fun replacement_run ::
    "nat \<Rightarrow> string list \<Rightarrow> string list \<Rightarrow> string list \<Rightarrow> nat \<times> string list \<times> string list \<times> string list"
where
  "replacement_run left new [] [] = (left, new, [], [])"
| "replacement_run left new [] (t # ts) = replacement_run left (new @ [t]) [] ts"
| "replacement_run left new (b # bs) [] = replacement_run (left + 1) new bs []"
| "replacement_run left new (b # bs) (t # ts) =
     (if b = t then (left, new, b # bs, t # ts)
      else if lengths (b # bs) ts > lengths bs (t # ts)
      then replacement_run left (new @ [t]) (b # bs) ts
      else replacement_run (left + 1) new bs (t # ts))"

definition same_head :: "'a list \<Rightarrow> 'a list \<Rightarrow> bool" where
  "same_head xs ys \<longleftrightarrow> xs \<noteq> [] \<and> ys \<noteq> [] \<and> hd xs = hd ys"

lemma replacement_run_length:
  "replacement_run left new bs ts = (l, n, bs', ts') \<Longrightarrow> length bs' + length ts' \<le> length bs + length ts"
  by (induction left new bs ts rule: replacement_run.induct) (auto split: if_splits)

lemma replacement_run_less:
  assumes "replacement_run left new bs ts = (l, n, bs', ts')" "\<not> same_head bs ts" "bs \<noteq> [] \<or> ts \<noteq> []"
  shows "length bs' + length ts' < length bs + length ts"
  using assms
  by (cases bs; cases ts)
    (auto simp: same_head_def dest!: replacement_run_length split: if_splits)

function differences_from :: "nat \<Rightarrow> string list \<Rightarrow> string list \<Rightarrow> hunk list" where
  "differences_from left bs ts =
     (if bs = [] \<and> ts = [] then []
      else if same_head bs ts then differences_from (left + 1) (tl bs) (tl ts)
      else
        let (l, new, bs', ts') = replacement_run left [] bs ts in
        \<lparr>start = left, stop = l, lines = new\<rparr> # differences_from l bs' ts')"
  by pat_completeness auto
termination
  by (relation "measure (\<lambda>(_, bs, ts). length bs + length ts)")
    (auto simp: same_head_def neq_Nil_conv dest!: replacement_run_less [OF sym])

declare differences_from.simps [simp del]

definition differences :: "string list \<Rightarrow> string list \<Rightarrow> hunk list" where
  "differences base target = differences_from 0 base target"

section \<open>Merging\<close>

definition touches :: "hunk \<Rightarrow> nat \<Rightarrow> nat \<Rightarrow> bool" where
  "touches change first limit =
     (if first = limit then start change = first
      else if start change = stop change then start change \<ge> first \<and> start change < limit
      else start change < limit \<and> stop change > first)"

fun apply_from :: "string list \<Rightarrow> nat \<Rightarrow> nat \<Rightarrow> hunk list \<Rightarrow> string list option" where
  "apply_from base position limit [] = slice base position limit"
| "apply_from base position limit (h # hs) =
     Option.bind (slice base position (start h)) (\<lambda>a.
     Option.bind (apply_from base (stop h) limit hs) (\<lambda>r. Some (a @ lines h @ r)))"

text \<open>
  \<open>take_touching\<close> is one inner loop of the grouping: the hunks taken, those left, the new end.
  \<open>grow\<close> alternates the two loops until neither takes a hunk.
\<close>

fun take_touching :: "nat \<Rightarrow> nat \<Rightarrow> hunk list \<Rightarrow> hunk list \<times> hunk list \<times> nat" where
  "take_touching first e [] = ([], [], e)"
| "take_touching first e (h # hs) =
     (if touches h first e then
        (let (taken, rest, e') = take_touching first (max e (stop h)) hs in (h # taken, rest, e'))
      else ([], h # hs, e))"

lemma take_touching_parts: "take_touching first e hs = (taken, rest, e') \<Longrightarrow> hs = taken @ rest"
  by (induction first e hs arbitrary: taken rest e' rule: take_touching.induct)
    (auto split: if_splits prod.splits)

function grow ::
    "nat \<Rightarrow> nat \<Rightarrow> hunk list \<Rightarrow> hunk list \<Rightarrow> hunk list \<times> hunk list \<times> hunk list \<times> hunk list \<times> nat"
where
  "grow first e mine theirs =
     (let (tm, rm, e1) = take_touching first e mine;
          (tt, rt, e2) = take_touching first e1 theirs in
      if tm = [] \<and> tt = [] then ([], mine, [], theirs, e)
      else
        let (gm, rm', gt, rt', e3) = grow first e2 rm rt in (tm @ gm, rm', tt @ gt, rt', e3))"
  by pat_completeness auto
termination
  by (relation "measure (\<lambda>(_, _, mine, theirs). length mine + length theirs)")
    (auto dest!: take_touching_parts [OF sym])

declare grow.simps [simp del]

definition next_start :: "nat \<Rightarrow> hunk list \<Rightarrow> nat" where
  "next_start n hs = (case hs of [] \<Rightarrow> n | h # _ \<Rightarrow> min n (start h))"

definition conflict_text ::
    "string \<Rightarrow> string \<Rightarrow> string list \<Rightarrow> string list \<Rightarrow> string list \<Rightarrow> string" where
  "conflict_text oldLabel newLabel mine base theirs =
     ''<<<<<<< .mine'' @ [CHR 0x0A] @ concat mine @
     ''||||||| '' @ oldLabel @ [CHR 0x0A] @ concat base @
     ''======='' @ [CHR 0x0A] @ concat theirs @
     ''>>>>>>> '' @ newLabel @ [CHR 0x0A]"

definition group_text ::
    "string \<Rightarrow> string \<Rightarrow> hunk list \<Rightarrow> hunk list \<Rightarrow> string list \<Rightarrow> string list \<Rightarrow> string list \<Rightarrow> string \<times> bool" where
  "group_text oldLabel newLabel gm gt mineResult middle theirResult =
     (if gm = [] then (concat theirResult, False)
      else if gt = [] \<or> concat mineResult = concat theirResult then (concat mineResult, False)
      else (conflict_text oldLabel newLabel mineResult middle theirResult, True))"

fun merge_loop ::
    "nat \<Rightarrow> string \<Rightarrow> string \<Rightarrow> string list \<Rightarrow> nat \<Rightarrow> hunk list \<Rightarrow> hunk list \<Rightarrow> (string \<times> bool) option"
where
  "merge_loop 0 oldLabel newLabel base position mine theirs = None"
| "merge_loop (Suc n) oldLabel newLabel base position mine theirs =
     (if mine = [] \<and> theirs = [] then
        map_option (\<lambda>rest. (concat rest, False)) (slice base position (length base))
      else
        (let first = next_start (next_start (length base) mine) theirs;
             (gm, rm, gt, rt, e) = grow first first mine theirs in
         Option.bind (slice base position first) (\<lambda>before.
         Option.bind (apply_from base first e gm) (\<lambda>mineResult.
         Option.bind (apply_from base first e gt) (\<lambda>theirResult.
         Option.bind (slice base first e) (\<lambda>middle.
         Option.bind (merge_loop n oldLabel newLabel base e rm rt) (\<lambda>(rest, conflicted).
           let (text, conflict) = group_text oldLabel newLabel gm gt mineResult middle theirResult in
           Some (concat before @ text @ rest, conflict \<or> conflicted))))))))"

definition Merge3 :: "string \<Rightarrow> string \<Rightarrow> string \<Rightarrow> string \<Rightarrow> string \<Rightarrow> (string \<times> bool) option" where
  "Merge3 base mine theirs oldLabel newLabel =
     (let baseLines = splitLines base;
          mineHunks = differences baseLines (splitLines mine);
          theirHunks = differences baseLines (splitLines theirs) in
      merge_loop (length mineHunks + length theirHunks + 1) oldLabel newLabel baseLines 0 mineHunks theirHunks)"

section \<open>Hunks in order\<close>

text \<open>Hunks from \<open>p\<close> on, each ending before the next one starts, all within \<open>n\<close> lines.\<close>

fun chain :: "nat \<Rightarrow> hunk list \<Rightarrow> nat \<Rightarrow> bool" where
  "chain p [] n = True"
| "chain p (h # hs) n = (p \<le> start h \<and> start h \<le> stop h \<and> stop h \<le> n \<and> chain (Suc (stop h)) hs n)"

lemma chain_le: "chain p hs n \<Longrightarrow> q \<le> p \<Longrightarrow> chain q hs n"
  by (cases hs) auto

lemma chain_append:
  "chain p (xs @ ys) n \<Longrightarrow> chain p xs n \<and> chain p ys n"
proof (induction xs arbitrary: p)
  case (Cons h xs)
  then have "chain (Suc (stop h)) xs n" "chain (Suc (stop h)) ys n" by auto
  moreover have "p \<le> Suc (stop h)" using Cons.prems by simp
  ultimately show ?case using Cons.prems chain_le by auto
qed simp

lemma chain_hd: "chain p hs n \<Longrightarrow> hs = [] \<or> q \<le> start (hd hs) \<Longrightarrow> chain q hs n"
  by (cases hs) auto

lemma slice_append_simps [simp]:
  "slice xs lo hi = None \<longleftrightarrow> \<not> (lo \<le> hi \<and> hi \<le> length xs)"
  by (simp add: slice_def)

lemma slice_split:
  assumes "slice xs lo hi = Some a" "lo \<le> mid" "mid \<le> hi"
  shows "\<exists>b c. slice xs lo mid = Some b \<and> slice xs mid hi = Some c \<and> a = b @ c"
proof -
  have "take (hi - lo) (drop lo xs) = take (mid - lo) (drop lo xs) @ take (hi - mid) (drop mid xs)"
    using assms(2,3) take_add [of "mid - lo" "hi - mid" "drop lo xs"] by (simp add: add.commute)
  with assms show ?thesis by (auto simp: slice_def split: if_splits)
qed

lemma apply_from_total:
  assumes "chain p hs e" "p \<le> e" "e \<le> length base"
  shows "\<exists>r. apply_from base p e hs = Some r"
  using assms
proof (induction hs arbitrary: p)
  case (Cons h hs)
  then have "chain (stop h) hs e" by (auto intro: chain_le)
  with Cons obtain r where "apply_from base (stop h) e hs = Some r" by auto
  then show ?case using Cons.prems by (auto simp: slice_def)
qed (simp add: slice_def)

text \<open>Applying hunks up to a line between two of them, then the others, is applying them all.\<close>

lemma apply_from_append:
  assumes "apply_from base p n (xs @ ys) = Some r" "chain p xs e" "chain e ys n" "p \<le> e" "e \<le> n"
  shows "\<exists>a b. apply_from base p e xs = Some a \<and> apply_from base e n ys = Some b \<and> r = a @ b"
  using assms
proof (induction xs arbitrary: p r)
  case Nil
  show ?case
  proof (cases ys)
    case Nil
    with Nil.prems show ?thesis using slice_split [of base p n r e] by auto
  next
    case (Cons h hs)
    with Nil.prems obtain a r' where a: "slice base p (start h) = Some a"
        "apply_from base (stop h) n hs = Some r'" "r = a @ lines h @ r'"
      by (auto simp: Option.bind_eq_Some_conv)
    from slice_split [OF a(1), of e] Nil.prems Cons
    obtain b c where "slice base p e = Some b" "slice base e (start h) = Some c" "a = b @ c" by auto
    with a Cons show ?thesis by simp
  qed
next
  case (Cons h xs)
  then obtain a r' where a: "slice base p (start h) = Some a"
      "apply_from base (stop h) n (xs @ ys) = Some r'" "r = a @ lines h @ r'"
    by (auto simp: Option.bind_eq_Some_conv)
  have "chain (stop h) xs e" "stop h \<le> e" using Cons.prems(2) by (auto intro: chain_le)
  from Cons.IH [OF a(2) this(1) Cons.prems(3) this(2) Cons.prems(5)] a show ?case by fastforce
qed

lemma apply_from_prefix:
  assumes "apply_from base p n hs = Some r" "chain q hs n" "p \<le> q" "q \<le> n"
  shows "\<exists>a b. slice base p q = Some a \<and> apply_from base q n hs = Some b \<and> r = a @ b"
  using apply_from_append [of base p n "[]" hs r q] assms by simp

section \<open>The differences between two texts\<close>

lemma replacement_run_spec:
  assumes "replacement_run left new bs ts = (l, new', bs', ts')"
  shows "\<exists>n1. l = left + length n1 \<and> bs = n1 @ bs'"
    and "\<exists>n2. new' = new @ n2 \<and> ts = n2 @ ts'"
    and "bs' = [] \<and> ts' = [] \<or> same_head bs' ts'"
  using assms
  by (induction left new bs ts rule: replacement_run.induct)
    (auto simp: same_head_def split: if_splits)

lemma differences_from_start:
  "differences_from left bs ts = [] \<or> left \<le> start (hd (differences_from left bs ts))"
proof (induction left bs ts rule: differences_from.induct)
  case (1 left bs ts)
  consider "bs = []" "ts = []" | (same) "\<not> (bs = [] \<and> ts = [])" "same_head bs ts"
    | (diff) "\<not> (bs = [] \<and> ts = [])" "\<not> same_head bs ts"
    by blast
  then show ?case
  proof cases
    case same
    with "1.IH"(1) [OF same] show ?thesis by (auto simp: differences_from.simps [of left])
  next
    case diff
    then show ?thesis
      by (cases "replacement_run left [] bs ts") (simp add: differences_from.simps [of left])
  qed (simp add: differences_from.simps)
qed

lemma differences_from_spec:
  assumes "length pre = left"
  shows "chain left (differences_from left bs ts) (left + length bs) \<and>
    apply_from (pre @ bs) left (left + length bs) (differences_from left bs ts) = Some ts"
  using assms
proof (induction left bs ts arbitrary: pre rule: differences_from.induct)
  case (1 left bs ts)
  consider (nil) "bs = []" "ts = []" | (same) "same_head bs ts" | (diff) "\<not> (bs = [] \<and> ts = [])" "\<not> same_head bs ts"
    by blast
  then show ?case
  proof cases
    case nil
    then show ?thesis using "1.prems" by (simp add: differences_from.simps slice_def)
  next
    case same
    then obtain b bs' ts' where bt: "bs = b # bs'" "ts = b # ts'" by (auto simp: same_head_def neq_Nil_conv)
    let ?d = "differences_from (Suc left) bs' ts'"
    have d: "differences_from left bs ts = ?d" using same bt by (simp add: differences_from.simps [of left])
    have IH: "chain (Suc left) ?d (left + length bs)"
      "apply_from (pre @ bs) (Suc left) (left + length bs) ?d = Some ts'"
      using "1.IH"(1) [of "pre @ [b]"] same bt "1.prems" by auto
    obtain x where x: "apply_from (pre @ bs) left (left + length bs) ?d = Some x"
      using apply_from_total [of left ?d "left + length bs" "pre @ bs"] IH(1) "1.prems" chain_le [OF IH(1), of left] by fastforce
    have "slice (pre @ bs) left (Suc left) = Some [b]" using "1.prems" by (simp add: slice_def bt)
    with apply_from_prefix [OF x IH(1)] IH(2) bt have "x = ts" by auto
    with x IH(1) d show ?thesis by (auto intro: chain_le)
  next
    case diff
    obtain l new bs' ts' where r: "replacement_run left [] bs ts = (l, new, bs', ts')" by (metis surj_pair)
    note s = replacement_run_spec [OF r]
    from s(1) obtain gone where g: "l = left + length gone" "bs = gone @ bs'" by blast
    from s(2) have t: "ts = new @ ts'" by simp
    let ?d = "differences_from l bs' ts'"
    have d: "differences_from left bs ts = \<lparr>start = left, stop = l, lines = new\<rparr> # ?d"
      using diff r by (simp add: differences_from.simps [of left])
    have IH: "chain l ?d (l + length bs')" "apply_from ((pre @ gone) @ bs') l (l + length bs') ?d = Some ts'"
      using "1.IH"(2) [OF diff(1) diff(2) r [symmetric] refl refl refl, of "pre @ gone"] g "1.prems" by auto
    have "chain (Suc l) ?d (l + length bs')"
    proof (cases ?d)
      case (Cons h hs)
      from s(3) have "?d = [] \<or> Suc l \<le> start (hd ?d)"
      proof
        assume "bs' = [] \<and> ts' = []"
        then show ?thesis by (simp add: differences_from.simps [of l])
      next
        assume sh: "same_head bs' ts'"
        then have "?d = differences_from (Suc l) (tl bs') (tl ts')"
          by (auto simp: differences_from.simps [of l] same_head_def)
        then show ?thesis using differences_from_start [of "Suc l" "tl bs'" "tl ts'"] by simp
      qed
      then show ?thesis using IH(1) by (rule chain_hd [rotated])
    qed simp
    with IH g t d "1.prems" show ?thesis by (simp add: slice_def add.assoc)
  qed
qed

section \<open>Groups of hunks\<close>

lemma touches_mono:
  "touches h a e \<Longrightarrow> start h \<le> stop h \<Longrightarrow> a \<le> e \<Longrightarrow> e \<le> e' \<Longrightarrow> touches h a e'"
  by (auto simp: touches_def split: if_splits)

lemma not_touches_after:
  "\<not> touches h a e \<Longrightarrow> a \<le> start h \<Longrightarrow> start h \<le> stop h \<Longrightarrow> a \<le> e \<Longrightarrow> e \<le> start h"
  by (auto simp: touches_def split: if_splits)

text \<open>What a group is: the hunks taken touch it and end in it, the hunks left start after it.\<close>

definition grouped :: "nat \<Rightarrow> nat \<Rightarrow> hunk list \<Rightarrow> hunk list \<Rightarrow> bool" where
  "grouped a e taken rest \<longleftrightarrow>
     (\<forall>h \<in> set taken. touches h a e \<and> stop h \<le> e) \<and> (rest = [] \<or> \<not> touches (hd rest) a e)"

lemma take_touching_spec:
  assumes "take_touching a e hs = (taken, rest, e')" "chain a hs n" "a \<le> e" "e \<le> n"
  shows "e \<le> e' \<and> e' \<le> n \<and> grouped a e' taken rest \<and> chain a taken n \<and> chain a rest n \<and>
    (taken = [] \<longrightarrow> e' = e)"
  using assms
proof (induction a e hs arbitrary: taken rest e' rule: take_touching.induct)
  case (1 a e)
  then show ?case by (simp add: grouped_def)
next
  case (2 a e h hs)
  show ?case
  proof (cases "touches h a e")
    case True
    obtain t r x where t: "take_touching a (max e (stop h)) hs = (t, r, x)" by (metis surj_pair)
    with True "2.prems"(1) have r: "taken = h # t" "rest = r" "e' = x" by simp_all
    have ch: "chain (Suc (stop h)) hs n" "a \<le> start h" "start h \<le> stop h" "stop h \<le> n"
      using "2.prems"(2) by auto
    have IH: "max e (stop h) \<le> x \<and> x \<le> n \<and> grouped a x t r \<and> chain a t n \<and> chain a r n"
      using "2.IH" [OF True t] ch "2.prems"(3,4) chain_le [OF ch(1), of a] by auto
    moreover have "touches h a x" using touches_mono [OF True ch(3)] "2.prems"(3) IH by simp
    moreover have "chain (Suc (stop h)) t n" using take_touching_parts [OF t] ch(1) chain_append by blast
    ultimately show ?thesis using r ch by (auto simp: grouped_def)
  next
    case False
    with "2.prems" show ?thesis by (auto simp: grouped_def)
  qed
qed

lemma grouped_mono:
  assumes "grouped a e taken rest" "chain a taken n" "a \<le> e" "e \<le> e'" "h \<in> set taken"
  shows "touches h a e' \<and> stop h \<le> e'"
proof -
  have "start h \<le> stop h" using assms(2,5) by (induction taken arbitrary: a) auto
  with assms touches_mono show ?thesis by (fastforce simp: grouped_def)
qed

lemma grow_spec:
  assumes "grow a e mine theirs = (gm, rm, gt, rt, e')" "chain a mine n" "chain a theirs n" "a \<le> e" "e \<le> n"
  shows "mine = gm @ rm \<and> theirs = gt @ rt \<and> e \<le> e' \<and> e' \<le> n \<and> grouped a e' gm rm \<and> grouped a e' gt rt"
  using assms
proof (induction a e mine theirs arbitrary: gm rm gt rt e' rule: grow.induct)
  case (1 a e mine theirs)
  obtain tm r1 e1 where t1: "take_touching a e mine = (tm, r1, e1)" by (metis surj_pair)
  obtain tt r2 e2 where t2: "take_touching a e1 theirs = (tt, r2, e2)" by (metis surj_pair)
  have s1: "e \<le> e1 \<and> e1 \<le> n \<and> grouped a e1 tm r1 \<and> chain a tm n \<and> chain a r1 n \<and> (tm = [] \<longrightarrow> e1 = e)"
    by (rule take_touching_spec [OF t1 "1.prems"(2,4,5)])
  have s2: "e1 \<le> e2 \<and> e2 \<le> n \<and> grouped a e2 tt r2 \<and> chain a tt n \<and> chain a r2 n \<and> (tt = [] \<longrightarrow> e2 = e1)"
    using take_touching_spec [OF t2 "1.prems"(3)] s1 "1.prems"(4) by simp
  note parts = take_touching_parts [OF t1] take_touching_parts [OF t2]
  have eq: "(gm, rm, gt, rt, e') =
      (if tm = [] \<and> tt = [] then ([], mine, [], theirs, e)
       else let (gm, rm', gt, rt', e3) = grow a e2 r1 r2 in (tm @ gm, rm', tt @ gt, rt', e3))"
    using "1.prems"(1) by (simp only: grow.simps [of a e mine theirs] t1 t2 Let_def prod.case)
  show ?case
  proof (cases "tm = [] \<and> tt = []")
    case True
    then have "gm = []" "rm = mine" "gt = []" "rt = theirs" "e' = e" "e1 = e" "e2 = e"
      using eq s1 s2 by simp_all
    with True parts s1 s2 "1.prems"(5) show ?thesis by (auto simp: grouped_def)
  next
    case False
    obtain gm' rm' gt' rt' e3 where g: "grow a e2 r1 r2 = (gm', rm', gt', rt', e3)" by (metis surj_pair)
    have r: "gm = tm @ gm'" "rm = rm'" "gt = tt @ gt'" "rt = rt'" "e' = e3"
      using eq False by (auto simp: g)
    have IH: "r1 = gm' @ rm' \<and> r2 = gt' @ rt' \<and> e2 \<le> e3 \<and> e3 \<le> n \<and> grouped a e3 gm' rm' \<and> grouped a e3 gt' rt'"
      using "1.IH" [OF t1 [symmetric] refl refl t2 [symmetric] refl refl False] g s1 s2 "1.prems"(4)
      by fastforce
    have "touches h a e3 \<and> stop h \<le> e3" if "h \<in> set tm" for h
      using grouped_mono [of a e1 tm r1 n e3 h] s1 s2 IH "1.prems"(4) that by simp
    moreover have "touches h a e3 \<and> stop h \<le> e3" if "h \<in> set tt" for h
      using grouped_mono [of a e2 tt r2 n e3 h] s1 s2 IH "1.prems"(4) that by simp
    ultimately show ?thesis using r IH parts s1 s2 by (auto simp: grouped_def)
  qed
qed

lemma chain_within:
  "chain q (xs @ ys) n \<Longrightarrow> \<forall>h \<in> set xs. stop h \<le> e \<Longrightarrow> chain q xs e"
  by (induction xs arbitrary: q) auto

lemma chain_later:
  assumes "chain q xs n" "xs = [] \<or> \<not> touches (hd xs) q e" "q \<le> e"
  shows "chain e xs n"
  using assms not_touches_after [of "hd xs" q e] by (cases xs) auto

lemma next_start_chain:
  assumes "chain p hs n" "p \<le> m" "m \<le> n"
  shows "p \<le> next_start m hs" "next_start m hs \<le> m" "q \<le> next_start m hs \<Longrightarrow> chain q hs n"
    "next_start m hs = m \<or> hs \<noteq> [] \<and> next_start m hs = start (hd hs)"
    "hs \<noteq> [] \<Longrightarrow> next_start m hs \<le> start (hd hs)"
proof -
  have "p \<le> next_start m hs \<and> next_start m hs \<le> m \<and> (\<forall>q \<le> next_start m hs. chain q hs n) \<and>
    (next_start m hs = m \<or> hs \<noteq> [] \<and> next_start m hs = start (hd hs)) \<and>
    (hs \<noteq> [] \<longrightarrow> next_start m hs \<le> start (hd hs))"
    using assms by (cases hs) (simp_all add: next_start_def min_def)
  then show "p \<le> next_start m hs" "next_start m hs \<le> m" "q \<le> next_start m hs \<Longrightarrow> chain q hs n"
    "next_start m hs = m \<or> hs \<noteq> [] \<and> next_start m hs = start (hd hs)"
    "hs \<noteq> [] \<Longrightarrow> next_start m hs \<le> start (hd hs)"
    by blast+
qed

lemma touches_start: "start h = a \<Longrightarrow> start h \<le> stop h \<Longrightarrow> a \<le> e \<Longrightarrow> touches h a e"
  by (auto simp: touches_def)

text \<open>A group starts with the first hunk of all, so it is never empty and what is left comes later.\<close>

lemma first_group:
  assumes f: "first = next_start (next_start n mine) theirs"
    and c: "chain p mine n" "chain p theirs n" "p \<le> n" and ne: "mine \<noteq> [] \<or> theirs \<noteq> []"
    and g: "grow first first mine theirs = (gm, rm, gt, rt, e)"
  shows "mine = gm @ rm" "theirs = gt @ rt" "p \<le> first" "first \<le> e" "e \<le> n" "gm \<noteq> [] \<or> gt \<noteq> []"
    "chain first gm e" "chain first gt e" "chain e rm n" "chain e rt n"
    "grouped first e gm rm" "grouped first e gt rt" "chain first mine n" "chain first theirs n"
proof -
  note m = next_start_chain [OF c(1) c(3) order_refl]
  note t = next_start_chain [OF c(2) m(1) m(2), folded f]
  have le: "p \<le> first" "first \<le> n" using t(1,2) m(2) by simp_all
  have cf: "chain first mine n" "chain first theirs n" using m(3) [OF t(2)] t(3) [OF order_refl] by simp_all
  then show "chain first mine n" "chain first theirs n" by simp_all
  have s: "mine = gm @ rm \<and> theirs = gt @ rt \<and> first \<le> e \<and> e \<le> n \<and> grouped first e gm rm \<and> grouped first e gt rt"
    by (rule grow_spec [OF g cf]) (use le in auto)
  then show "mine = gm @ rm" "theirs = gt @ rt" "p \<le> first" "first \<le> e" "e \<le> n"
    "grouped first e gm rm" "grouped first e gt rt"
    using le by simp_all
  have ch: "chain first (gm @ rm) n" "chain first (gt @ rt) n" using s cf by simp_all
  show "chain first gm e" by (rule chain_within [OF ch(1)]) (use s in \<open>simp add: grouped_def\<close>)
  show "chain first gt e" by (rule chain_within [OF ch(2)]) (use s in \<open>simp add: grouped_def\<close>)
  show "chain e rm n"
    by (rule chain_later [of first]) (use s chain_append [OF ch(1)] in \<open>simp_all add: grouped_def\<close>)
  show "chain e rt n"
    by (rule chain_later [of first]) (use s chain_append [OF ch(2)] in \<open>simp_all add: grouped_def\<close>)
  show "gm \<noteq> [] \<or> gt \<noteq> []"
  proof (rule ccontr)
    assume none: "\<not> (gm \<noteq> [] \<or> gt \<noteq> [])"
    then have r: "grouped first e [] mine" "grouped first e [] theirs" using s by auto
    have fe: "first \<le> e" using s by blast
    have ok: "start (hd xs) \<le> stop (hd xs)" if "chain first xs n" "xs \<noteq> []" for xs
      using that by (cases xs) auto
    have le_n: "start (hd xs) \<le> n" if "chain first xs n" "xs \<noteq> []" for xs
      using that by (cases xs) auto
    consider (ours) "mine \<noteq> []" "first = start (hd mine)" | (other) "theirs \<noteq> []" "first = start (hd theirs)"
    proof (cases "theirs \<noteq> [] \<and> first = start (hd theirs)")
      case False
      then have "first = next_start n mine" using t(4) by blast
      moreover have "mine \<noteq> []"
      proof
        assume "mine = []"
        then have "theirs \<noteq> []" "first = n" using ne calculation by (simp_all add: next_start_def)
        with t(5) le_n [OF cf(2)] False show False by simp
      qed
      ultimately have "first = start (hd mine)" using m(4,5) le_n [OF cf(1)] by auto
      with that \<open>mine \<noteq> []\<close> show ?thesis by blast
    qed (use that in blast)
    then show False
    proof cases
      case ours
      have "touches (hd mine) first e" by (rule touches_start) (use ours ok [OF cf(1)] fe in simp_all)
      with ours r show False by (simp add: grouped_def)
    next
      case other
      have "touches (hd theirs) first e" by (rule touches_start) (use other ok [OF cf(2)] fe in simp_all)
      with other r show False by (simp add: grouped_def)
    qed
  qed
qed

section \<open>The merge loop\<close>

lemma apply_group:
  assumes "apply_from base p n (taken @ rest) = Some out" "chain first (taken @ rest) n" "chain first taken e"
    "chain e rest n" "p \<le> first" "first \<le> e" "e \<le> n"
  shows "\<exists>before result after. slice base p first = Some before \<and> apply_from base first e taken = Some result \<and>
    apply_from base e n rest = Some after \<and> out = before @ result @ after"
proof -
  obtain before b where b: "slice base p first = Some before" "apply_from base first n (taken @ rest) = Some b" "out = before @ b"
    using apply_from_prefix [OF assms(1,2,5)] assms(6,7) by auto
  from apply_from_append [OF b(2) assms(3,4,6,7)] b show ?thesis by auto
qed

lemma merge_step:
  assumes f: "first = next_start (next_start (length base) mine) theirs"
    and c: "chain p mine (length base)" "chain p theirs (length base)" "p \<le> length base"
    and ne: "mine \<noteq> [] \<or> theirs \<noteq> []"
    and g: "grow first first mine theirs = (gm, rm, gt, rt, e)"
  shows "\<exists>before mineResult theirResult middle. slice base p first = Some before \<and>
    apply_from base first e gm = Some mineResult \<and> apply_from base first e gt = Some theirResult \<and>
    slice base first e = Some middle \<and>
    merge_loop (Suc k) oldLabel newLabel base p mine theirs =
      map_option (\<lambda>(rest, conflicted).
          (concat before @ fst (group_text oldLabel newLabel gm gt mineResult middle theirResult) @ rest,
           snd (group_text oldLabel newLabel gm gt mineResult middle theirResult) \<or> conflicted))
        (merge_loop k oldLabel newLabel base e rm rt)"
proof -
  note grp = first_group [OF f c ne g]
  have s: "\<exists>a. slice base p first = Some a" "\<exists>a. slice base first e = Some a"
    using grp(3-5) by (simp_all add: slice_def)
  obtain mr where mr: "apply_from base first e gm = Some mr"
    using apply_from_total [OF grp(7) grp(4) grp(5)] by blast
  obtain tr where tr: "apply_from base first e gt = Some tr"
    using apply_from_total [OF grp(8) grp(4) grp(5)] by blast
  obtain before middle where bm: "slice base p first = Some before" "slice base first e = Some middle"
    using s by blast
  have not_both: "(mine = [] \<and> theirs = []) = False" using ne by blast
  obtain written conflict where gt: "group_text oldLabel newLabel gm gt mr middle tr = (written, conflict)"
    by (metis surj_pair)
  have "merge_loop (Suc k) oldLabel newLabel base p mine theirs =
      Option.bind (merge_loop k oldLabel newLabel base e rm rt)
        (\<lambda>(rest, conflicted). Some (concat before @ written @ rest, conflict \<or> conflicted))"
    unfolding merge_loop.simps(2) Let_def not_both if_False f [symmetric] g prod.case bm mr tr
      Option.bind.simps gt by (rule refl)
  then show ?thesis
    using bm mr tr gt by (cases "merge_loop k oldLabel newLabel base e rm rt") auto
qed

lemma merge_loop_total:
  "chain p mine (length base) \<Longrightarrow> chain p theirs (length base) \<Longrightarrow> p \<le> length base \<Longrightarrow>
     length mine + length theirs < k \<Longrightarrow>
     \<exists>r. merge_loop k oldLabel newLabel base p mine theirs = Some r"
proof (induction k arbitrary: p mine theirs)
  case (Suc k)
  show ?case
  proof (cases "mine \<noteq> [] \<or> theirs \<noteq> []")
    case True
    define first where f: "first = next_start (next_start (length base) mine) theirs"
    obtain gm rm gt rt e where g: "grow first first mine theirs = (gm, rm, gt, rt, e)" by (metis surj_pair)
    note grp = first_group [OF f Suc.prems(1-3) True g]
    have "length rm + length rt < k" using grp(1,2,6) Suc.prems(4) by (cases gm; cases gt) auto
    from Suc.IH [OF grp(9,10,5) this] merge_step [OF f Suc.prems(1-3) True g, of k oldLabel newLabel]
    show ?thesis by fastforce
  qed (use Suc.prems in \<open>auto simp: slice_def\<close>)
qed simp

lemma grouped_same:
  assumes "gm @ rm = gt @ rt" "grouped first e gm rm" "grouped first e gt rt"
  shows "gm = gt \<and> rm = rt"
proof -
  have no: False if "grouped first e xs (u # us')" "grouped first e (xs @ u # us) zs" for xs u us us' zs
    using that by (simp add: grouped_def)
  from assms(1) obtain us where us: "gm = gt @ us \<and> us @ rm = rt \<or> gm @ us = gt \<and> rm = us @ rt"
    by (auto simp: append_eq_append_conv2)
  show ?thesis
  proof (cases us)
    case Nil
    with us show ?thesis by auto
  next
    case (Cons u us')
    from us show ?thesis
    proof
      assume "gm = gt @ us \<and> us @ rm = rt"
      then have "grouped first e gt (u # us' @ rm)" "grouped first e (gt @ u # us') rm" using assms(2,3) Cons by auto
      from no [OF this] show ?thesis by simp
    next
      assume "gm @ us = gt \<and> rm = us @ rt"
      then have "grouped first e gm (u # us' @ rt)" "grouped first e (gm @ u # us') rt" using assms(2,3) Cons by auto
      from no [OF this] show ?thesis by simp
    qed
  qed
qed

text \<open>When one side is the base, or both are the same, the loop writes the other side.\<close>

lemma merge_loop_one:
  assumes "chain p hs (length base)" "p \<le> length base" "apply_from base p (length base) hs = Some out"
    "mine = hs \<and> theirs = [] \<or> mine = [] \<and> theirs = hs \<or> mine = hs \<and> theirs = hs" "length mine + length theirs < k"
  shows "merge_loop k oldLabel newLabel base p mine theirs = Some (concat out, False)"
  using assms
proof (induction k arbitrary: p hs mine theirs out)
  case (Suc k)
  show ?case
  proof (cases "mine \<noteq> [] \<or> theirs \<noteq> []")
    case True
    have c: "chain p mine (length base)" "chain p theirs (length base)" using Suc.prems(1,4) by auto
    define first where f: "first = next_start (next_start (length base) mine) theirs"
    obtain gm rm gt rt e where g: "grow first first mine theirs = (gm, rm, gt, rt, e)" by (metis surj_pair)
    note grp = first_group [OF f c Suc.prems(2) True g]
    have same: "gm = gt \<and> rm = rt" if "mine = theirs"
      using grouped_same [of gm rm gt rt first e] grp(1,2,11,12) that by metis
    define taken rest where "taken = (if mine = [] then gt else gm)" and "rest = (if mine = [] then rt else rm)"
    have t: "hs = taken @ rest" "taken \<noteq> []"
      "gm = taken \<and> rm = rest \<and> gt = [] \<and> rt = [] \<or> gm = [] \<and> rm = [] \<and> gt = taken \<and> rt = rest \<or>
       gm = taken \<and> rm = rest \<and> gt = taken \<and> rt = rest"
      and ch: "chain first (taken @ rest) (length base)" "chain first taken e" "chain e rest (length base)"
    proof -
      have mg: "mine = [] \<longleftrightarrow> gm = [] \<and> rm = []" "theirs = [] \<longleftrightarrow> gt = [] \<and> rt = []"
        using grp(1,2) by simp_all
      have "hs = taken @ rest \<and> taken \<noteq> [] \<and>
        (gm = taken \<and> rm = rest \<and> gt = [] \<and> rt = [] \<or> gm = [] \<and> rm = [] \<and> gt = taken \<and> rt = rest \<or>
         gm = taken \<and> rm = rest \<and> gt = taken \<and> rt = rest) \<and>
        chain first (taken @ rest) (length base) \<and> chain first taken e \<and> chain e rest (length base)"
        using Suc.prems(4)
      proof (elim disjE conjE)
        assume a: "mine = hs" "theirs = []"
        then have "mine \<noteq> []" using True by simp
        then have tr: "taken = gm" "rest = rm" by (simp_all add: taken_def rest_def)
        have "gt = [] \<and> rt = []" using a(2) mg(2) by blast
        moreover from this have "gm \<noteq> []" using grp(6) by blast
        ultimately show ?thesis unfolding tr using a(1) grp(1,7,9,13) by (metis (full_types))
      next
        assume a: "mine = []" "theirs = hs"
        then have tr: "taken = gt" "rest = rt" by (simp_all add: taken_def rest_def)
        have "gm = [] \<and> rm = []" using a(1) mg(1) by blast
        moreover from this have "gt \<noteq> []" using grp(6) by blast
        ultimately show ?thesis unfolding tr using a(2) grp(2,8,10,14) by (metis (full_types))
      next
        assume a: "mine = hs" "theirs = hs"
        then have "mine \<noteq> []" using True by simp
        then have tr: "taken = gm" "rest = rm" by (simp_all add: taken_def rest_def)
        have "gm = gt \<and> rm = rt" using same a by blast
        moreover from this have "gm \<noteq> []" using grp(6) by blast
        ultimately show ?thesis unfolding tr using a(1) grp(1,7,9,13) by (metis (full_types))
      qed
      then show "hs = taken @ rest" "taken \<noteq> []"
        "gm = taken \<and> rm = rest \<and> gt = [] \<and> rt = [] \<or> gm = [] \<and> rm = [] \<and> gt = taken \<and> rt = rest \<or>
         gm = taken \<and> rm = rest \<and> gt = taken \<and> rt = rest"
        "chain first (taken @ rest) (length base)" "chain first taken e" "chain e rest (length base)"
        by blast+
    qed
    from apply_group [OF Suc.prems(3) [unfolded t(1)] ch grp(3-5)]
    obtain before result after where r: "slice base p first = Some before" "apply_from base first e taken = Some result"
      "apply_from base e (length base) rest = Some after" "out = before @ result @ after" by blast
    have "length rm + length rt < k" using grp(1,2,6) Suc.prems(5) by (cases gm; cases gt) auto
    with Suc.IH [OF ch(3) grp(5) r(3), of rm rt] t(3)
    have IH: "merge_loop k oldLabel newLabel base e rm rt = Some (concat after, False)" by blast
    obtain mr tr middle where m: "apply_from base first e gm = Some mr" "apply_from base first e gt = Some tr"
      "merge_loop (Suc k) oldLabel newLabel base p mine theirs =
         Some (concat before @ fst (group_text oldLabel newLabel gm gt mr middle tr) @ concat after,
           snd (group_text oldLabel newLabel gm gt mr middle tr))"
      using merge_step [OF f c Suc.prems(2) True g, of k oldLabel newLabel] r(1) IH by auto
    have "group_text oldLabel newLabel gm gt mr middle tr = (concat result, False)"
      using t(2,3) m(1,2) r(2) by (auto simp: group_text_def)
    with m(3) r(4) show ?thesis by simp
  next
    case False
    with Suc.prems show ?thesis by auto
  qed
qed simp

section \<open>Properties\<close>

lemma concat_splitLines [simp]: "concat (splitLines s) = s"
proof (induction s rule: splitLines.induct)
  case (1 s)
  show ?case
  proof (cases "dropWhile (\<lambda>c. c \<noteq> CHR 0x0A) s")
    case Nil
    show ?thesis unfolding splitLines.simps [of s] Nil by simp
  next
    case (Cons nl rest)
    have "concat (splitLines rest) = rest" by (rule 1 [OF Cons])
    then show ?thesis
      using takeWhile_dropWhile_id [of "\<lambda>c. c \<noteq> CHR 0x0A" s] unfolding splitLines.simps [of s] Cons by simp
  qed
qed

lemma differences_self: "differences_from left bs bs = []"
proof (induction bs arbitrary: left)
  case (Cons b bs)
  then show ?case by (simp add: differences_from.simps [of left] same_head_def)
qed (simp add: differences_from.simps)

lemma differences_spec:
  "chain 0 (differences base target) (length base)"
  "apply_from base 0 (length base) (differences base target) = Some target"
  using differences_from_spec [of "[]" 0 base target] by (simp_all add: differences_def)

text \<open>C31: merging never indexes out of range and always comes to an end, whatever the three texts
  are.\<close>

theorem merge_total: "\<exists>contents conflicted. Merge3 base mine theirs oldLabel newLabel = Some (contents, conflicted)"
proof -
  let ?b = "splitLines base"
  have "\<exists>r. Merge3 base mine theirs oldLabel newLabel = Some r"
    unfolding Merge3_def Let_def
    by (rule merge_loop_total) (simp_all add: differences_spec)
  then show ?thesis by (metis surj_pair)
qed

text \<open>C32: a side that did not change never gets in the way: when one side is the base the merge is
  the other side, and when both sides agree it is that side; none of these is a conflict.\<close>

theorem merge_sides:
  "Merge3 base mine base oldLabel newLabel = Some (mine, False) \<and>
   Merge3 base base theirs oldLabel newLabel = Some (theirs, False) \<and>
   Merge3 base mine mine oldLabel newLabel = Some (mine, False)"
proof -
  let ?b = "splitLines base" and ?d = "\<lambda>text. differences (splitLines base) (splitLines text)"
  have self: "?d base = []" by (simp add: differences_def differences_self)
  have one: "merge_loop (length xs + length ys + 1) oldLabel newLabel ?b 0 xs ys = Some (side, False)"
    if "xs = ?d side \<and> ys = [] \<or> xs = [] \<and> ys = ?d side \<or> xs = ?d side \<and> ys = ?d side" for xs ys side
    using merge_loop_one [OF differences_spec(1) le0 differences_spec(2) that, of "length xs + length ys + 1" oldLabel newLabel]
    by simp
  show ?thesis
    unfolding Merge3_def Let_def self
    using one [of "?d mine" mine "[]"] one [of "[]" theirs "?d theirs"] one [of "?d mine" mine "?d mine"]
    by simp
qed

end
