(* ===== verification/Svn_Uri.thy ===== *)
theory Svn_Uri
  imports Svn_Dirent
begin

text \<open>
  URLs, \<^verbatim>\<open>svn/path/uri.go\<close>: recognising, canonicalising, splitting, escaping and the conversion
  between file URLs and local paths. The lemmas show that unescaping undoes escaping, that
  escaping commutes with the split into components, and from that the idempotence of
  \<open>URICanonicalize\<close> on ASCII URLs and the round trip of file URLs.
\<close>

section \<open>Escapes\<close>

definition isURISafe :: "char \<Rightarrow> bool" where
  "isURISafe c \<longleftrightarrow>
     (CHR ''a'' \<le> c \<and> c \<le> CHR ''z'') \<or> (CHR ''A'' \<le> c \<and> c \<le> CHR ''Z'') \<or>
     (CHR ''0'' \<le> c \<and> c \<le> CHR ''9'') \<or> c \<in> set ''-._~!$&'' \<or> c = CHR 0x27 \<or> c \<in> set ''()*+,;=:@/''"

definition upper_hex :: string where "upper_hex = ''0123456789ABCDEF''"

definition uri_encode_char :: "char \<Rightarrow> string" where
  "uri_encode_char c =
     (if isURISafe c then [c]
      else [CHR ''%'', upper_hex ! (of_char c div 16), upper_hex ! (of_char c mod 16)])"

definition URIEncode :: "string \<Rightarrow> string" where
  "URIEncode s = concat (map uri_encode_char s)"

definition fromHex :: "char \<Rightarrow> nat option" where
  "fromHex c =
     (if CHR ''0'' \<le> c \<and> c \<le> CHR ''9'' then Some (of_char c - 48)
      else if CHR ''a'' \<le> c \<and> c \<le> CHR ''f'' then Some (of_char c - 97 + 10)
      else if CHR ''A'' \<le> c \<and> c \<le> CHR ''F'' then Some (of_char c - 65 + 10)
      else None)"

fun URIDecode :: "string \<Rightarrow> string option" where
  "URIDecode [] = Some []"
| "URIDecode (c # s) =
     (if c \<noteq> CHR ''%'' then map_option (\<lambda>t. c # t) (URIDecode s)
      else case s of
          a # b # rest \<Rightarrow>
            (case (fromHex a, fromHex b) of
               (Some high, Some low) \<Rightarrow>
                 map_option (\<lambda>t. char_of (16 * high + low) # t) (URIDecode rest)
             | _ \<Rightarrow> None)
        | _ \<Rightarrow> None)"

text \<open>The lenient decoding in \<open>normalizeURIEscapes\<close>: what is not an escape stays.\<close>

fun decode_escapes :: "string \<Rightarrow> string" where
  "decode_escapes [] = []"
| "decode_escapes (c # s) =
     (case s of
        a # b # rest \<Rightarrow>
          (case (fromHex a, fromHex b) of
             (Some high, Some low) \<Rightarrow>
               if c = CHR ''%'' then char_of (16 * high + low) # decode_escapes rest
               else c # decode_escapes s
           | _ \<Rightarrow> c # decode_escapes s)
      | _ \<Rightarrow> c # decode_escapes s)"

definition normalizeURIEscapes :: "string \<Rightarrow> string" where
  "normalizeURIEscapes s = URIEncode (decode_escapes s)"

section \<open>Canonical URLs\<close>

definition IsURL :: "string \<Rightarrow> bool" where
  "IsURL s \<longleftrightarrow>
     (case Index s ''://'' of
        None \<Rightarrow> False
      | Some separator \<Rightarrow>
          separator \<noteq> 0 \<and>
          list_all (\<lambda>(index, c). is_letter c \<or>
              (index > 0 \<and> (is_digit c \<or> c = CHR ''+'' \<or> c = CHR ''-'' \<or> c = CHR ''.'')))
            (enumerate 0 (take separator s)))"

definition default_port :: "string \<Rightarrow> string option" where
  "default_port scheme =
     (if scheme = ''http'' then Some ''80''
      else if scheme = ''https'' then Some ''443''
      else if scheme = ''svn'' then Some ''3690''
      else None)"

definition port_separator :: "string \<Rightarrow> nat option" where
  "port_separator hostPort =
     (if HasPrefix hostPort ''['' then
        (case IndexByte hostPort CHR '']'' of
           None \<Rightarrow> None
         | Some bracket \<Rightarrow>
             if bracket + 1 < length hostPort \<and> hostPort ! (bracket + 1) = CHR '':''
             then Some (bracket + 1) else None)
      else if count_list hostPort CHR '':'' = 1 then IndexByte hostPort CHR '':''
      else None)"

definition strip_port :: "string \<Rightarrow> string \<Rightarrow> string" where
  "strip_port scheme hostPort =
     (case default_port scheme of
        None \<Rightarrow> hostPort
      | Some port \<Rightarrow>
          (case port_separator hostPort of
             None \<Rightarrow> hostPort
           | Some separator \<Rightarrow>
               let candidate = drop (separator + 1) hostPort in
               if candidate = [] \<or> candidate = port then take separator hostPort else hostPort))"

definition canonicalAuthority :: "(string \<Rightarrow> string) \<Rightarrow> string \<Rightarrow> string \<Rightarrow> string" where
  "canonicalAuthority unicode_lower scheme authority =
     (let (userInfo, hostPort) =
        (case LastIndexByte authority CHR ''@'' of
           None \<Rightarrow> ([], authority)
         | Some at \<Rightarrow> (take (at + 1) authority, drop (at + 1) authority))
      in userInfo @ strip_port scheme (ToLower unicode_lower hostPort))"

text \<open>The authority and the raw path behind \<open>://\<close>.\<close>

definition split_authority :: "string \<Rightarrow> string \<times> string" where
  "split_authority remainder =
     (case IndexByte remainder CHR ''/'' of
        None \<Rightarrow> (remainder, [])
      | Some index \<Rightarrow> (take index remainder, drop index remainder))"

definition URICanonicalize :: "(string \<Rightarrow> string) \<Rightarrow> string \<Rightarrow> string" where
  "URICanonicalize unicode_lower s =
     (case Index s ''://'' of
        None \<Rightarrow> []
      | Some separator \<Rightarrow>
          if separator < 1 then []
          else
            let scheme = ToLower unicode_lower (take separator s);
                (authority, rawPath) = split_authority (drop (separator + 3) s);
                decodedPath = normalizeURIEscapes rawPath;
                canonicalPath = canonicalComponents decodedPath (HasPrefix decodedPath ''/'')
            in scheme @ ''://'' @ canonicalAuthority unicode_lower scheme authority @
               (if canonicalPath = ''/'' then [] else canonicalPath))"

definition URIIsCanonical :: "(string \<Rightarrow> string) \<Rightarrow> string \<Rightarrow> bool" where
  "URIIsCanonical unicode_lower s \<longleftrightarrow> IsURL s \<and> s = URICanonicalize unicode_lower s"

definition URIIsRoot :: "(string \<Rightarrow> string) \<Rightarrow> string \<Rightarrow> bool" where
  "URIIsRoot unicode_lower s \<longleftrightarrow>
     (let s' = URICanonicalize unicode_lower s in
      case Index s' ''://'' of
        None \<Rightarrow> False
      | Some separator \<Rightarrow>
          if CHR ''/'' \<in> set (drop (separator + 3) s') then False
          else take separator s' \<noteq> ''file'' \<or> drop (separator + 3) s' = [])"

definition uriRoot :: "string \<Rightarrow> string" where
  "uriRoot s =
     (case Index s ''://'' of
        None \<Rightarrow> []
      | Some separator \<Rightarrow>
          (case IndexByte (drop (separator + 3) s) CHR ''/'' of
             None \<Rightarrow> s
           | Some slash \<Rightarrow> take (separator + 3 + slash) s))"

definition URIJoin :: "(string \<Rightarrow> string) \<Rightarrow> string \<Rightarrow> string list \<Rightarrow> string" where
  "URIJoin unicode_lower base parts =
     URICanonicalize unicode_lower
       (foldl (\<lambda>result component.
            if IsURL component then URICanonicalize unicode_lower component
            else joinCanonical result [URIEncode (RelpathCanonicalize component)])
          (URICanonicalize unicode_lower base) parts)"

definition URIDirname :: "(string \<Rightarrow> string) \<Rightarrow> string \<Rightarrow> string" where
  "URIDirname unicode_lower s =
     (let s' = URICanonicalize unicode_lower s in fst (splitPath s' (uriRoot s')))"

definition URIBasename :: "(string \<Rightarrow> string) \<Rightarrow> string \<Rightarrow> string" where
  "URIBasename unicode_lower s =
     (let s' = URICanonicalize unicode_lower s in
      case URIDecode (snd (splitPath s' (uriRoot s'))) of None \<Rightarrow> [] | Some decoded \<Rightarrow> decoded)"

definition URISplit :: "(string \<Rightarrow> string) \<Rightarrow> string \<Rightarrow> string \<times> string" where
  "URISplit unicode_lower s = (URIDirname unicode_lower s, URIBasename unicode_lower s)"

definition URISkipAncestor :: "(string \<Rightarrow> string) \<Rightarrow> string \<Rightarrow> string \<Rightarrow> string option" where
  "URISkipAncestor unicode_lower parent child =
     (let parent' = URICanonicalize unicode_lower parent; child' = URICanonicalize unicode_lower child in
      if uriRoot parent' \<noteq> uriRoot child' then None
      else case skipAncestor parent' child' of
          None \<Rightarrow> None
        | Some remainder \<Rightarrow> URIDecode remainder)"

definition URIIsAncestor :: "(string \<Rightarrow> string) \<Rightarrow> string \<Rightarrow> string \<Rightarrow> bool" where
  "URIIsAncestor unicode_lower parent child \<longleftrightarrow> URISkipAncestor unicode_lower parent child \<noteq> None"

definition URIIsChild :: "(string \<Rightarrow> string) \<Rightarrow> string \<Rightarrow> string \<Rightarrow> string \<times> bool" where
  "URIIsChild unicode_lower parent child =
     (case URISkipAncestor unicode_lower parent child of
        None \<Rightarrow> ([], False) | Some remainder \<Rightarrow> (remainder, remainder \<noteq> []))"

definition URILongestAncestor :: "(string \<Rightarrow> string) \<Rightarrow> string \<Rightarrow> string \<Rightarrow> string option" where
  "URILongestAncestor unicode_lower first second =
     longestAncestor (URICanonicalize unicode_lower first) (URICanonicalize unicode_lower second)
       (URIDirname unicode_lower) (\<lambda>a b. uriRoot a = uriRoot b)"

definition URICondense :: "(string \<Rightarrow> string) \<Rightarrow> string list \<Rightarrow> bool \<Rightarrow> (string \<times> string list) option" where
  "URICondense unicode_lower targets removeRedundant =
     condense targets (URICanonicalize unicode_lower) (URILongestAncestor unicode_lower)
       (URISkipAncestor unicode_lower) removeRedundant"

section \<open>File URLs\<close>

datatype uri_error = NotFileURL | BadEscape | HostNotLocal | NotAbsolute

definition URIToDirent :: "(string \<Rightarrow> string) \<Rightarrow> bool \<Rightarrow> string \<Rightarrow> uri_error + string" where
  "URIToDirent unicode_lower windows s =
     (let canonical = URICanonicalize unicode_lower s in
      if \<not> HasPrefix canonical ''file://'' then Inl NotFileURL
      else
        let (host, rawPath) = split_authority (drop (length ''file://'') canonical) in
        case URIDecode rawPath of
          None \<Rightarrow> Inl BadEscape
        | Some decoded \<Rightarrow>
            if host \<noteq> [] \<and> host \<noteq> ''localhost'' then
              (if \<not> windows then Inl HostNotLocal
               else Inr (DirentCanonicalize unicode_lower windows (''//'' @ host @ decoded)))
            else
              let decoded1 = (if windows \<and> length decoded \<ge> 3 \<and> decoded ! 0 = CHR ''/'' \<and>
                                 isDrive (tl decoded) then tl decoded else decoded);
                  decoded2 = (if decoded1 = [] then ''/'' else decoded1)
              in Inr (DirentCanonicalize unicode_lower windows decoded2))"

text \<open>\<open>strings.SplitN(s, "/", 3)\<close> on the part of a UNC path behind the slashes.\<close>

definition unc_url :: "string \<Rightarrow> string" where
  "unc_url rest =
     (let parts = split CHR ''/'' rest; server = parts ! 0; share = parts ! 1;
          path = (if length parts > 2 then ''/'' @ join ''/'' (drop 2 parts) else []) in
      ''file://'' @ server @ ''/'' @ share @ path)"

definition DirentToFileURL :: "(string \<Rightarrow> string) \<Rightarrow> bool \<Rightarrow> string \<Rightarrow> uri_error + string" where
  "DirentToFileURL unicode_lower windows path =
     (let path' = DirentCanonicalize unicode_lower windows path in
      if \<not> DirentIsAbsolute windows path' then Inl NotAbsolute
      else if windows then
        (if isUNC path' then Inr (URICanonicalize unicode_lower (unc_url (drop 2 path')))
         else Inr (URICanonicalize unicode_lower (''file:///'' @ path')))
      else Inr (URICanonicalize unicode_lower (''file://'' @ URIEncode path')))"

section \<open>Escaping and components\<close>

lemma fromHex_upper: "n < 16 \<Longrightarrow> fromHex (upper_hex ! n) = Some n"
proof -
  assume "n < 16"
  moreover have "\<forall>n\<in>{0..<16}. fromHex (upper_hex ! n) = Some n" by code_simp
  ultimately show ?thesis by simp
qed

lemma char_nibbles: "of_char c div 16 < (16 :: nat)" "char_of (16 * (of_char c div 16) + of_char c mod 16 :: nat) = c"
proof -
  have "of_char c mod (256 :: nat) = of_char c" by (rule of_char_mod_256)
  then have "of_char c < (256 :: nat)" by (metis mod_less_divisor zero_less_numeral)
  then show "of_char c div 16 < (16 :: nat)" by (simp add: less_mult_imp_div_less)
  show "char_of (16 * (of_char c div 16) + of_char c mod 16 :: nat) = c" by simp
qed

lemma URIEncode_simps [simp]:
  "URIEncode [] = []" "URIEncode (c # s) = uri_encode_char c @ URIEncode s"
  "URIEncode (s @ t) = URIEncode s @ URIEncode t"
  by (simp_all add: URIEncode_def)

lemma percent_not_safe [simp]: "\<not> isURISafe CHR ''%''"
  by code_simp

lemma slash_safe [simp]: "isURISafe CHR ''/''" "isURISafe CHR ''.''"
  by code_simp+

lemma URIDecode_encode [simp]: "URIDecode (URIEncode s) = Some s"
proof (induction s)
  case (Cons c s)
  show ?case
  proof (cases "isURISafe c")
    case True
    then have "c \<noteq> CHR ''%''" by auto
    with True Cons show ?thesis by (simp add: uri_encode_char_def)
  next
    case False
    with Cons char_nibbles [of c] show ?thesis
      by (simp add: uri_encode_char_def fromHex_upper)
  qed
qed simp

lemma fromHex_not: "fromHex c = None \<or> c \<noteq> CHR ''%''"
  by (auto simp: fromHex_def)

lemma decode_escapes_other: "c \<noteq> CHR ''%'' \<Longrightarrow> decode_escapes (c # s) = c # decode_escapes s"
  by (auto split: list.splits option.splits)

lemma decode_escapes_encode [simp]: "decode_escapes (URIEncode s) = s"
proof (induction s)
  case (Cons c s)
  show ?case
  proof (cases "isURISafe c")
    case True
    then have "c \<noteq> CHR ''%''" by auto
    with True Cons show ?thesis by (simp add: uri_encode_char_def decode_escapes_other del: decode_escapes.simps)
  next
    case False
    with Cons char_nibbles [of c] show ?thesis
      by (simp add: uri_encode_char_def fromHex_upper)
  qed
qed simp

lemma uri_encode_char_slash: "CHR ''/'' \<in> set (uri_encode_char c) \<longleftrightarrow> c = CHR ''/''"
proof -
  have "\<forall>n\<in>{0..<16}. upper_hex ! n \<noteq> CHR ''/''" by code_simp
  then have "n < 16 \<Longrightarrow> upper_hex ! n \<noteq> CHR ''/''" for n by simp
  then have "n < 16 \<Longrightarrow> CHR ''/'' \<noteq> upper_hex ! n" for n by metis
  with char_nibbles(1) [of c] show ?thesis by (auto simp: uri_encode_char_def)
qed

lemma URIEncode_slash: "CHR ''/'' \<in> set (URIEncode s) \<longleftrightarrow> CHR ''/'' \<in> set s"
  by (induction s) (auto simp: uri_encode_char_slash)

lemma URIEncode_Nil [simp]: "URIEncode s = [] \<longleftrightarrow> s = []"
  by (cases s) (simp_all add: uri_encode_char_def)

lemma URIEncode_inj: "URIEncode s = URIEncode t \<longleftrightarrow> s = t"
  by (metis URIDecode_encode option.inject)

lemma split_append_no_sep:
  "sep \<notin> set a \<Longrightarrow> split sep (a @ s) = (a @ hd (split sep s)) # tl (split sep s)"
proof (induction a)
  case Nil
  then show ?case by (cases "split sep s") auto
qed auto

lemma split_encode: "split CHR ''/'' (URIEncode s) = map URIEncode (split CHR ''/'' s)"
proof (induction s)
  case (Cons c s)
  show ?case
  proof (cases "c = CHR ''/''")
    case True
    with Cons show ?thesis by (simp add: uri_encode_char_def)
  next
    case False
    then have "CHR ''/'' \<notin> set (uri_encode_char c)" by (simp add: uri_encode_char_slash)
    from split_append_no_sep [OF this] Cons False show ?thesis
      by (cases "split CHR ''/'' s") (simp_all)
  qed
qed simp

lemma URIEncode_dot: "URIEncode s = ''.'' \<longleftrightarrow> s = ''.''"
proof -
  have "URIEncode ''.'' = ''.''" by (simp add: uri_encode_char_def)
  then show ?thesis by (metis URIEncode_inj)
qed

lemma components_encode: "components (URIEncode s) = map URIEncode (components s)"
  by (simp add: components_def split_encode filter_map URIEncode_dot o_def)

lemma join_encode: "join ''/'' (map URIEncode cs) = URIEncode (join ''/'' cs)"
  by (induction "''/''" cs rule: join.induct) (simp_all add: uri_encode_char_def)

lemma HasPrefix_slash: "HasPrefix s ''/'' \<longleftrightarrow> (\<exists>r. s = CHR ''/'' # r)"
  by (auto simp: HasPrefix_iff)

lemma HasPrefix_encode: "HasPrefix (URIEncode s) ''/'' \<longleftrightarrow> HasPrefix s ''/''"
proof (cases s)
  case (Cons c r)
  have "CHR ''/'' \<noteq> CHR ''%''" by simp
  then show ?thesis by (auto simp: Cons HasPrefix_slash uri_encode_char_def)
qed simp

text \<open>The path of a canonical URL: the escaped form of the canonical decoded path.\<close>

definition uri_path :: "string \<Rightarrow> string" where
  "uri_path rawPath =
     (let cs = components (decode_escapes rawPath) in
      if HasPrefix (decode_escapes rawPath) ''/'' then
        (if cs = [] then [] else ''/'' @ URIEncode (join ''/'' cs))
      else URIEncode (join ''/'' cs))"

lemma uri_path_eq:
  "(let decodedPath = normalizeURIEscapes rawPath;
        canonicalPath = canonicalComponents decodedPath (HasPrefix decodedPath ''/'')
    in if canonicalPath = ''/'' then [] else canonicalPath) = uri_path rawPath"
proof -
  have "URIEncode (join ''/'' (components d)) \<noteq> ''/''" for d
  proof
    assume "URIEncode (join ''/'' (components d)) = ''/''"
    then have "join ''/'' (components d) = ''/''"
      using URIEncode_inj [of _ "''/''"] by (simp add: uri_encode_char_def)
    then show False using join_no_leading [OF components_wf, of d] by simp
  qed
  then show ?thesis
    by (simp add: normalizeURIEscapes_def canonicalComponents_eq HasPrefix_encode components_encode
        join_encode uri_path_def Let_def join_wf_Nil)
qed

lemma uri_path_idem:
  assumes "HasPrefix rawPath ''/'' \<or> rawPath = []"
  shows "uri_path (uri_path rawPath) = uri_path rawPath"
    and "uri_path rawPath = [] \<or> HasPrefix (uri_path rawPath) ''/''"
proof -
  let ?cs = "components (decode_escapes rawPath)"
  have shape: "uri_path rawPath = (if ?cs = [] then [] else URIEncode (''/'' @ join ''/'' ?cs))"
  proof (cases "rawPath = []")
    case True
    then show ?thesis by (simp add: uri_path_def components_def)
  next
    case False
    then obtain r where "rawPath = CHR ''/'' # r" using assms by (auto simp: HasPrefix_slash)
    then have "HasPrefix (decode_escapes rawPath) ''/''" by (simp add: decode_escapes_other del: decode_escapes.simps)
    then show ?thesis by (simp add: uri_path_def Let_def uri_encode_char_def)
  qed
  show "uri_path rawPath = [] \<or> HasPrefix (uri_path rawPath) ''/''"
    by (simp add: shape uri_encode_char_def)
  show "uri_path (uri_path rawPath) = uri_path rawPath"
  proof (cases "?cs = []")
    case True
    then show ?thesis by (simp add: shape) (simp add: uri_path_def components_def)
  next
    case False
    have "components (''/'' @ join ''/'' ?cs) = ?cs" by simp
    with False show ?thesis
      unfolding shape by (simp add: uri_path_def Let_def del: URIEncode_simps) (simp add: uri_encode_char_def)
  qed
qed

section \<open>Canonical authorities\<close>

lemma char_le: "c \<le> d \<longleftrightarrow> of_char c \<le> (of_char d :: nat)"
  by (simp add: less_eq_char_def)

lemma of_char_lower:
  "(of_char (ascii_lower c) :: nat) =
     (if 65 \<le> (of_char c :: nat) \<and> of_char c \<le> (90 :: nat) then of_char c + 32 else of_char c)"
  by (simp add: ascii_lower_def char_le)

lemma char_eq_nat: "c = d \<longleftrightarrow> of_char c = (of_char d :: nat)" for c d :: char
  by simp

lemma ascii_lower_props [simp]:
  "ascii_lower (ascii_lower c) = ascii_lower c"
  "is_ascii c \<Longrightarrow> is_ascii (ascii_lower c)"
  "ascii_lower c = CHR ''/'' \<longleftrightarrow> c = CHR ''/''"
  "ascii_lower c = CHR '':'' \<longleftrightarrow> c = CHR '':''"
  "ascii_lower c = CHR ''@'' \<longleftrightarrow> c = CHR ''@''"
  unfolding char_eq_nat is_ascii_def of_char_lower by simp_all

lemma ascii_lower_image [simp]:
  "CHR ''/'' \<in> ascii_lower ` A \<longleftrightarrow> CHR ''/'' \<in> A" "CHR ''@'' \<in> ascii_lower ` A \<longleftrightarrow> CHR ''@'' \<in> A"
  using ascii_lower_props(3,5) by (metis imageE imageI)+

lemma ToLower_ascii: "list_all is_ascii s \<Longrightarrow> ToLower ul s = map ascii_lower s"
  by (simp add: ToLower_def)

lemma list_all_lower: "list_all is_ascii s \<Longrightarrow> list_all is_ascii (map ascii_lower s)"
  by (induction s) simp_all

lemma strip_port_prefix: "\<exists>k. strip_port scheme h = take k h"
  by (auto simp: strip_port_def Let_def split: option.splits intro: exI [of _ "length h"])

lemma strip_port_idem: "strip_port scheme (strip_port scheme h) = strip_port scheme h"
proof (cases "strip_port scheme h = h")
  case False
  then obtain port k where k: "default_port scheme = Some port" "port_separator h = Some k"
      "strip_port scheme h = take k h"
    by (auto simp: strip_port_def Let_def split: option.splits if_splits)
  have "port_separator (take k h) = None"
  proof (cases "HasPrefix h ''[''")
    case True
    with k(2) obtain b where b: "IndexByte h CHR '']'' = Some b" "k = b + 1"
      by (auto simp: port_separator_def split: option.splits if_splits)
    then obtain x y where xy: "h = x @ CHR '']'' # y" "b = length x" "CHR '']'' \<notin> set x"
      using IndexByte_Some by blast
    with True have "take k h = x @ [CHR '']'']" "HasPrefix (x @ [CHR '']'']) ''[''"
      using b(2) by (cases x; simp)+
    with xy show ?thesis
      by (simp add: port_separator_def IndexByte_first)
  next
    case False
    with k(2) have "IndexByte h CHR '':'' = Some k" by (auto simp: port_separator_def split: if_splits)
    then obtain x y where xy: "h = x @ CHR '':'' # y" "k = length x" "CHR '':'' \<notin> set x"
      using IndexByte_Some by blast
    with False have "\<not> HasPrefix x ''[''" by (cases x) auto
    with xy show ?thesis by (simp add: port_separator_def count_list_0_iff)
  qed
  with k show ?thesis by (simp add: strip_port_def)
qed simp

lemma canonicalAuthority_split:
  assumes "userInfo = [] \<or> last userInfo = CHR ''@''" "CHR ''@'' \<notin> set hostPort"
    and "list_all is_ascii hostPort"
  shows "canonicalAuthority ul scheme (userInfo @ hostPort) =
     userInfo @ strip_port scheme (map ascii_lower hostPort)"
proof (cases "userInfo = []")
  case True
  with assms(2,3) show ?thesis
    by (simp add: canonicalAuthority_def LastIndexByte_none ToLower_ascii)
next
  case False
  with assms(1) obtain u where u: "userInfo = u @ [CHR ''@'']" by (metis append_butlast_last_id)
  have "LastIndexByte (userInfo @ hostPort) CHR ''@'' = Some (length u)"
    using LastIndexByte_last [OF assms(2), of u] by (simp add: u)
  with assms(3) show ?thesis by (simp add: canonicalAuthority_def ToLower_ascii u)
qed

lemma authority_cases:
  obtains userInfo hostPort where "authority = userInfo @ hostPort"
    "userInfo = [] \<or> last userInfo = CHR ''@''" "CHR ''@'' \<notin> set hostPort"
proof (cases "LastIndexByte authority CHR ''@''")
  case None
  then have "CHR ''@'' \<notin> set authority" by (simp add: LastIndexByte_None_iff)
  then show thesis using that [of "[]" authority] by simp
next
  case (Some i)
  then obtain a b where "authority = a @ CHR ''@'' # b" "CHR ''@'' \<notin> set b"
    using LastIndexByte_Some by blast
  then show thesis using that [of "a @ [CHR ''@'']" b] by simp
qed

lemma lower_take: "map ascii_lower (take k (map ascii_lower h)) = take k (map ascii_lower h)"
  by (simp add: take_map [symmetric] o_def)

lemma canonicalAuthority_idem:
  assumes "list_all is_ascii authority" "CHR ''/'' \<notin> set authority"
  shows "canonicalAuthority ul scheme (canonicalAuthority ul scheme authority) =
      canonicalAuthority ul scheme authority"
    and "CHR ''/'' \<notin> set (canonicalAuthority ul scheme authority)"
    and "list_all is_ascii (canonicalAuthority ul scheme authority)"
proof -
  obtain u h where uh: "authority = u @ h" "u = [] \<or> last u = CHR ''@''" "CHR ''@'' \<notin> set h"
    by (rule authority_cases)
  have c: "canonicalAuthority ul scheme authority = u @ strip_port scheme (map ascii_lower h)"
    using uh assms(1) canonicalAuthority_split [OF uh(2,3)] by simp
  obtain k where k: "strip_port scheme (map ascii_lower h) = take k (map ascii_lower h)"
    using strip_port_prefix by blast
  have "CHR ''@'' \<notin> set (take k (map ascii_lower h))" "CHR ''/'' \<notin> set (take k (map ascii_lower h))"
    using uh assms(2) in_set_takeD [of _ k "map ascii_lower h"] by fastforce+
  moreover have "list_all is_ascii (take k (map ascii_lower h))"
    using uh(1) assms(1) by (auto simp: list_all_iff dest!: in_set_takeD)
  ultimately show "canonicalAuthority ul scheme (canonicalAuthority ul scheme authority) =
      canonicalAuthority ul scheme authority"
    "CHR ''/'' \<notin> set (canonicalAuthority ul scheme authority)"
    "list_all is_ascii (canonicalAuthority ul scheme authority)"
    using uh assms canonicalAuthority_split [OF uh(2), of "take k (map ascii_lower h)" ul scheme]
      strip_port_idem [of scheme "map ascii_lower h"]
    unfolding c k by (simp_all add: k lower_take)
qed

section \<open>Canonical URLs\<close>

lemma HasPrefix_drop_separator:
  "HasPrefix (drop j s) ''://'' \<longleftrightarrow>
     j + 2 < length s \<and> s ! j = CHR '':'' \<and> s ! (j + 1) = CHR ''/'' \<and> s ! (j + 2) = CHR ''/''"
proof
  assume "HasPrefix (drop j s) ''://''"
  then obtain r where r: "drop j s = CHR '':'' # CHR ''/'' # CHR ''/'' # r"
    by (auto simp: HasPrefix_iff)
  then have "length (drop j s) = 3 + length r" by simp
  then have len: "j + 2 < length s" by simp
  have "s ! (j + k) = drop j s ! k" if "k < 3" for k using len that by simp
  from this [of 0] this [of 1] this [of 2] r len
  show "j + 2 < length s \<and> s ! j = CHR '':'' \<and> s ! (j + 1) = CHR ''/'' \<and> s ! (j + 2) = CHR ''/''"
    by simp
next
  assume s: "j + 2 < length s \<and> s ! j = CHR '':'' \<and> s ! (j + 1) = CHR ''/'' \<and> s ! (j + 2) = CHR ''/''"
  then have "drop j s = s ! j # s ! Suc j # s ! Suc (Suc j) # drop (Suc (Suc (Suc j))) s"
    using drop_eq_Cons_nth [of j s] drop_eq_Cons_nth [of "Suc j" s] drop_eq_Cons_nth [of "Suc (Suc j)" s]
    by simp
  with s show "HasPrefix (drop j s) ''://''" by simp
qed

lemma Index_separator_lower:
  assumes "Index s ''://'' = Some i"
  shows "Index (map ascii_lower (take i s) @ ''://'' @ rest) ''://'' = Some i"
proof -
  let ?t = "map ascii_lower (take i s) @ ''://'' @ rest"
  have i: "i + 2 < length s" "s ! i = CHR '':''" "s ! (i + 1) = CHR ''/''" "s ! (i + 2) = CHR ''/''"
    and first: "\<forall>j < i. \<not> HasPrefix (drop j s) ''://''"
    using assms by (simp_all add: Index_eq_Some HasPrefix_drop_separator)
  have len: "length (map ascii_lower (take i s)) = i" using i(1) by simp
  have same: "(?t ! k = CHR '':'' \<longleftrightarrow> s ! k = CHR '':'') \<and> (?t ! k = CHR ''/'' \<longleftrightarrow> s ! k = CHR ''/'')"
    if "k < i + 3" for k
  proof (cases "k < i")
    case True
    then show ?thesis using i(1) by (simp add: nth_append)
  next
    case False
    with that have "k = i \<or> k = i + 1 \<or> k = i + 2" by auto
    with i len show ?thesis by (auto simp: nth_append)
  qed
  have "\<not> HasPrefix (drop j ?t) ''://''" if "j < i" for j
    using first that i(1) same [of j] same [of "j + 1"] same [of "j + 2"]
    unfolding HasPrefix_drop_separator by auto
  moreover have "HasPrefix (drop i ?t) ''://''"
    using len by (simp)
  ultimately show ?thesis using len i(1) unfolding Index_eq_Some by simp
qed

lemma split_authority_append:
  "CHR ''/'' \<notin> set a \<Longrightarrow> p = [] \<or> HasPrefix p ''/'' \<Longrightarrow> split_authority (a @ p) = (a, p)"
  by (auto simp: split_authority_def HasPrefix_slash IndexByte_first IndexByte_none)

lemma split_authority_cases:
  "case split_authority s of (a, p) \<Rightarrow>
     s = a @ p \<and> CHR ''/'' \<notin> set a \<and> (p = [] \<or> HasPrefix p ''/'')"
proof (cases "IndexByte s CHR ''/''")
  case None
  moreover from None have "CHR ''/'' \<notin> set s" by (simp add: IndexByte_None_iff)
  ultimately show ?thesis unfolding split_authority_def by simp
next
  case (Some i)
  from IndexByte_Some [OF this] Some show ?thesis by (auto simp: split_authority_def)
qed

lemma URICanonicalize_eq:
  assumes "Index s ''://'' = Some i" "0 < i" "list_all is_ascii s"
    and "split_authority (drop (i + 3) s) = (authority, rawPath)"
  shows "URICanonicalize ul s = map ascii_lower (take i s) @ ''://'' @
     canonicalAuthority ul (map ascii_lower (take i s)) authority @ uri_path rawPath"
proof -
  have "list_all is_ascii (take i s)" using assms(3) by (auto simp: list_all_iff dest: in_set_takeD)
  then show ?thesis
    using assms uri_path_eq [of rawPath]
    by (simp add: URICanonicalize_def ToLower_ascii Let_def)
qed

lemma URICanonicalize_canonical:
  assumes "list_all is_ascii s"
  shows "URICanonicalize ul (URICanonicalize ul s) = URICanonicalize ul s"
proof (cases "Index s ''://''")
  case None
  then show ?thesis by (simp add: URICanonicalize_def)
next
  case (Some i)
  show ?thesis
  proof (cases "i = 0")
    case True
    with Some show ?thesis by (simp add: URICanonicalize_def)
  next
    case False
    obtain a p where ap: "split_authority (drop (i + 3) s) = (a, p)" by fastforce
    with split_authority_cases [of "drop (i + 3) s"] have
        ap': "drop (i + 3) s = a @ p" "CHR ''/'' \<notin> set a" "p = [] \<or> HasPrefix p ''/''"
      by auto
    let ?scheme = "map ascii_lower (take i s)"
    let ?a = "canonicalAuthority ul ?scheme a" and ?p = "uri_path p"
    have asc: "list_all is_ascii (take i s)" "list_all is_ascii a"
      using assms ap'(1) by (auto simp: list_all_iff dest: in_set_takeD)
        (metis UnI1 in_set_dropD set_append)
    have eq: "URICanonicalize ul s = ?scheme @ ''://'' @ ?a @ ?p"
      using URICanonicalize_eq [OF Some _ assms ap] False by simp
    note a = canonicalAuthority_idem [OF asc(2) ap'(2), of ul ?scheme]
    have p: "uri_path ?p = ?p" "?p = [] \<or> HasPrefix ?p ''/''"
      using uri_path_idem [of p] ap'(3) by blast+
    have i: "i < length s" using Some by (simp add: Index_eq_Some HasPrefix_drop_separator)
    have idx: "Index (?scheme @ ''://'' @ ?a @ ?p) ''://'' = Some i"
      using Index_separator_lower [OF Some, of "?a @ ?p"] .
    have "take i (?scheme @ ''://'' @ ?a @ ?p) = ?scheme" "drop (i + 3) (?scheme @ ''://'' @ ?a @ ?p) = ?a @ ?p"
      using i by simp_all
    moreover have "split_authority (?a @ ?p) = (?a, ?p)"
      using a(2) p(2) by (rule split_authority_append)
    moreover have "ToLower ul ?scheme = ?scheme"
      using asc(1) list_all_lower by (simp add: ToLower_ascii o_def)
    ultimately show ?thesis
      unfolding eq using idx False a(1) p(1) uri_path_eq [of ?p]
      by (simp add: URICanonicalize_def Let_def)
  qed
qed

section \<open>File URLs\<close>

lemma file_url_canonical:
  assumes "p = [] \<or> HasPrefix p ''/''"
  shows "URICanonicalize ul (''file://'' @ p) = ''file://'' @ uri_path p"
proof -
  have "Index (''file://'' @ p) ''://'' = Some 4" by simp
  moreover have "split_authority p = ([], p)"
    using split_authority_append [of "[]" p] assms by simp
  moreover have "ToLower ul ''file'' = ''file''" "ToLower ul [] = []"
    by (simp_all add: ToLower_def) code_simp
  ultimately show ?thesis
    using uri_path_eq [of p]
    by (simp add: URICanonicalize_def Let_def canonicalAuthority_def LastIndexByte_def strip_port_def
        default_port_def)
qed

lemma uri_path_dirent:
  assumes "wf_components cs"
  shows "uri_path (URIEncode (''/'' @ join ''/'' cs)) =
     (if cs = [] then [] else URIEncode (''/'' @ join ''/'' cs))"
proof -
  have "components (''/'' @ join ''/'' cs) = cs" using assms by simp
  then show ?thesis
    by (simp add: uri_path_def Let_def del: URIEncode_simps) (simp add: uri_encode_char_def)
qed

lemma file_url_roundtrip:
  assumes "DirentIsAbsolute False (DirentCanonicalize ul False path)"
  shows "\<exists>url. DirentToFileURL ul False path = Inr url \<and>
     URIToDirent ul False url = Inr (DirentCanonicalize ul False path)"
proof -
  let ?cs = "components path"
  have v: "DirentCanonicalize ul False path = ''/'' @ join ''/'' ?cs"
    using assms join_no_leading [OF components_wf, of path]
    by (auto simp: DirentIsAbsolute_def DirentCanonicalize_posix posix_root_def print_path_def split: if_splits)
  let ?e = "URIEncode (''/'' @ join ''/'' ?cs)"
  have e: "HasPrefix ?e ''/''" unfolding HasPrefix_encode by simp
  let ?url = "''file://'' @ uri_path ?e"
  have url: "DirentToFileURL ul False path = Inr ?url"
    using assms file_url_canonical [of ?e ul] e by (simp add: DirentToFileURL_def v Let_def)
  have p: "uri_path ?e = [] \<or> HasPrefix (uri_path ?e) ''/''" "uri_path (uri_path ?e) = uri_path ?e"
    using uri_path_idem [of ?e] e by blast+
  then have canonical: "URICanonicalize ul ?url = ?url"
    using file_url_canonical [OF p(1), of ul] by simp
  have decoded: "URIDecode (uri_path ?e) = Some (if ?cs = [] then [] else ''/'' @ join ''/'' ?cs)"
    unfolding uri_path_dirent [OF components_wf] by (simp del: URIEncode_simps)
  have "split_authority (uri_path ?e) = ([], uri_path ?e)"
    using split_authority_append [of "[]" "uri_path ?e"] p(1) by simp
  then have "URIToDirent ul False ?url = Inr (DirentCanonicalize ul False (''/'' @ join ''/'' ?cs))"
    unfolding URIToDirent_def canonical Let_def using decoded by simp
  moreover have "DirentCanonicalize ul False (''/'' @ join ''/'' ?cs) = ''/'' @ join ''/'' ?cs"
    using DirentCanonicalize_print [of "''/''" ?cs ul] by (simp add: print_path_def)
  ultimately show ?thesis using url v by simp
qed

section \<open>Properties\<close>

text \<open>C19: unescaping undoes escaping for every byte string, and an escaped string contains a
  slash only where the original does.\<close>

theorem uri_escape_roundtrip:
  "URIDecode (URIEncode s) = Some s \<and> normalizeURIEscapes (URIEncode s) = URIEncode s \<and>
   split CHR ''/'' (URIEncode s) = map URIEncode (split CHR ''/'' s)"
  by (simp add: normalizeURIEscapes_def split_encode)

text \<open>C20: canonicalising an ASCII URL a second time changes nothing.\<close>

theorem uri_canonical_idempotent:
  assumes "list_all is_ascii s"
  shows "URICanonicalize ul (URICanonicalize ul s) = URICanonicalize ul s"
  by (rule URICanonicalize_canonical [OF assms])

theorem uri_canonical_idempotent_witness:
  "URICanonicalize id ''H://A:80//b?'' = ''h://a:80/b%3F'' \<and>
   URICanonicalize id ''h://a:80/b%3F'' = ''h://a:80/b%3F''"
proof -
  have c: "URICanonicalize id ''H://A:80//b?'' = ''h://a:80/b%3F''"
    by code_simp
  have "list_all is_ascii ''H://A:80//b?''" by code_simp
  from uri_canonical_idempotent [OF this, of id] c show ?thesis by simp
qed

text \<open>on POSIX an absolute local path turned into a file URL and back is the canonical path.\<close>

theorem file_url_back:
  assumes "DirentIsAbsolute False (DirentCanonicalize ul False path)"
  shows "\<exists>url. DirentToFileURL ul False path = Inr url \<and>
     URIToDirent ul False url = Inr (DirentCanonicalize ul False path)"
  by (rule file_url_roundtrip [OF assms])

theorem file_url_back_witness:
  "\<exists>url. DirentToFileURL id False ''/a b//c%'' = Inr url \<and> URIToDirent id False url = Inr ''/a b/c%''"
proof -
  have c: "DirentCanonicalize id False ''/a b//c%'' = ''/a b/c%''" by code_simp
  have "DirentIsAbsolute False (DirentCanonicalize id False ''/a b//c%'')" unfolding c by code_simp
  from file_url_back [OF this] show ?thesis unfolding c .
qed

end
