(* ===== verification/Svn_Skel.thy ===== *)
theory Svn_Skel
  imports Go_Maps
begin

text \<open>
  Skeletons, \<^verbatim>\<open>svn/skel/skel.go\<close>: nested lists of atoms, written and parsed. A node pointer is
  \<open>NilNode\<close>, an atom or a list; bytes are characters, a property map is a finite map. The parser
  is a function of the bytes left; it carries a fuel that twice the length of the input covers, as
  a lemma shows. The main lemma is the round trip of \<open>MarshalBinary\<close> and \<open>Parse\<close>.
\<close>

definition maxSize :: nat where "maxSize = 67108864"
definition maxDepth :: nat where "maxDepth = 64"

datatype node = NilNode | Atom string | Lst "node list"

datatype skel_error =
    InvalidSize nat
  | TrailingData
  | NilSkeleton
  | NilChild
  | TooDeep
  | TooLarge
  | UnexpectedEndSkel
  | UnterminatedList
  | InvalidExplicitAtom
  | InvalidAtomLength
  | TruncatedAtom
  | InvalidProplist
  | OutOfFuel

section \<open>Characters\<close>

definition isName :: "char \<Rightarrow> bool" where
  "isName c \<longleftrightarrow> (CHR ''A'' \<le> c \<and> c \<le> CHR ''Z'') \<or> (CHR ''a'' \<le> c \<and> c \<le> CHR ''z'')"

definition isSpace :: "char \<Rightarrow> bool" where
  "isSpace c \<longleftrightarrow> c = CHR 0x09 \<or> c = CHR 0x0A \<or> c = CHR 0x0C \<or> c = CHR 0x0D \<or> c = CHR '' ''"

definition isParen :: "char \<Rightarrow> bool" where
  "isParen c \<longleftrightarrow> c = CHR ''('' \<or> c = CHR '')'' \<or> c = CHR ''['' \<or> c = CHR '']''"

definition useImplicit :: "string \<Rightarrow> bool" where
  "useImplicit atom \<longleftrightarrow>
     \<not> (atom = [] \<or> length atom \<ge> 100 \<or> \<not> isName (hd atom)) \<and>
     list_all (\<lambda>c. \<not> (isSpace c \<or> isParen c)) (tl atom)"

section \<open>Nodes and property lists\<close>

definition IsAtom :: "node \<Rightarrow> bool" where
  "IsAtom node \<longleftrightarrow> (case node of Atom _ \<Rightarrow> True | _ \<Rightarrow> False)"

definition IsList :: "node \<Rightarrow> bool" where
  "IsList node \<longleftrightarrow> (case node of Lst _ \<Rightarrow> True | _ \<Rightarrow> False)"

fun children :: "node \<Rightarrow> node list" where
  "children (Lst cs) = cs"
| "children _ = []"

fun atom_of :: "node \<Rightarrow> string" where
  "atom_of (Atom a) = a"
| "atom_of _ = []"

definition IsValidProplist :: "node \<Rightarrow> bool" where
  "IsValidProplist node \<longleftrightarrow>
     (if \<not> IsList node \<or> odd (length (children node)) then False
      else list_all IsAtom (children node))"

definition PropsToProplist :: "props \<Rightarrow> node" where
  "PropsToProplist properties =
     Lst (concat (map (\<lambda>(key, v). [Atom key, Atom v]) (sorted_entries properties)))"

fun pairs_to_props :: "node list \<Rightarrow> props \<Rightarrow> props" where
  "pairs_to_props (key # v # rest) properties =
     pairs_to_props rest (fmupd (atom_of key) (atom_of v) properties)"
| "pairs_to_props _ properties = properties"

definition ProplistToProps :: "node \<Rightarrow> skel_error + props" where
  "ProplistToProps node =
     (if \<not> IsValidProplist node then Inl InvalidProplist
      else Inr (pairs_to_props (children node) fmempty))"

section \<open>Writing\<close>

fun write_node :: "nat \<Rightarrow> node \<Rightarrow> skel_error + string"
  and write_children :: "nat \<Rightarrow> node list \<Rightarrow> skel_error + string"
where
  "write_node depth NilNode = Inl NilChild"
| "write_node depth (Lst cs) =
     (if depth > maxDepth then Inl TooDeep
      else case write_children (depth + 1) cs of
          Inl e \<Rightarrow> Inl e
        | Inr s \<Rightarrow> Inr (''('' @ s @ '')''))"
| "write_node depth (Atom a) =
     (if depth > maxDepth then Inl TooDeep
      else if useImplicit a then Inr a
      else Inr (utoa (length a) @ '' '' @ a))"
| "write_children depth [] = Inr []"
| "write_children depth (c # cs) =
     (case write_node depth c of
        Inl e \<Rightarrow> Inl e
      | Inr s \<Rightarrow>
          (case write_children depth cs of
             Inl e \<Rightarrow> Inl e
           | Inr rest \<Rightarrow> Inr (if cs = [] then s else s @ '' '' @ rest)))"

definition MarshalBinary :: "node \<Rightarrow> skel_error + string" where
  "MarshalBinary node =
     (if node = NilNode then Inl NilSkeleton
      else case write_node 0 node of
          Inl e \<Rightarrow> Inl e
        | Inr output \<Rightarrow> if length output > maxSize then Inl TooLarge else Inr output)"

section \<open>Parsing\<close>

definition skipSpace :: "string \<Rightarrow> string" where
  "skipSpace rest = dropWhile isSpace rest"

text \<open>Called on a non-empty rest whose first character is a name character.\<close>

definition parseImplicit :: "string \<Rightarrow> node \<times> string" where
  "parseImplicit rest =
     (let stop = (\<lambda>c. \<not> (isSpace c \<or> isParen c)) in
      (Atom (hd rest # takeWhile stop (tl rest)), dropWhile stop (tl rest)))"

definition parseExplicit :: "string \<Rightarrow> skel_error + node \<times> string" where
  "parseExplicit rest =
     (let digits = takeWhile is_digit rest; rest1 = dropWhile is_digit rest in
      if digits = [] \<or> rest1 = [] \<or> \<not> isSpace (hd rest1) then Inl InvalidExplicitAtom
      else case parse_uint 64 digits of
          None \<Rightarrow> Inl InvalidAtomLength
        | Some len \<Rightarrow>
            if len > maxSize then Inl InvalidAtomLength
            else
              let rest2 = tl rest1 in
              if length rest2 < len then Inl TruncatedAtom
              else Inr (Atom (take len rest2), drop len rest2))"

fun parse :: "nat \<Rightarrow> nat \<Rightarrow> string \<Rightarrow> skel_error + node \<times> string"
  and parseList :: "nat \<Rightarrow> nat \<Rightarrow> node list \<Rightarrow> string \<Rightarrow> skel_error + node \<times> string"
where
  "parse 0 depth rest = Inl OutOfFuel"
| "parse (Suc n) depth rest =
     (if depth > maxDepth then Inl TooDeep
      else if rest = [] then Inl UnexpectedEndSkel
      else if hd rest = CHR ''('' then parseList n depth [] (tl rest)
      else if isName (hd rest) then Inr (parseImplicit rest)
      else parseExplicit rest)"
| "parseList 0 depth acc rest = Inl OutOfFuel"
| "parseList (Suc n) depth acc rest =
     (let rest1 = skipSpace rest in
      if rest1 = [] then Inl UnterminatedList
      else if hd rest1 = CHR '')'' then Inr (Lst acc, tl rest1)
      else case parse n (depth + 1) rest1 of
          Inl e \<Rightarrow> Inl e
        | Inr (child, rest2) \<Rightarrow> parseList n depth (acc @ [child]) rest2)"

definition Parse :: "string \<Rightarrow> skel_error + node" where
  "Parse data =
     (if data = [] \<or> length data > maxSize then Inl (InvalidSize (length data))
      else case parse (2 * length data + 1) 0 data of
          Inl e \<Rightarrow> Inl e
        | Inr (node, rest) \<Rightarrow> if skipSpace rest \<noteq> [] then Inl TrailingData else Inr node)"

text \<open>\<open>Read\<close>: at most one byte more than the limit is taken from the reader.\<close>

definition Read :: "string \<Rightarrow> skel_error + node" where
  "Read input = Parse (take (maxSize + 1) input)"

section \<open>The fuel is enough\<close>

lemma skipSpace_length: "length (skipSpace rest) \<le> length rest"
  by (simp add: skipSpace_def length_dropWhile_le)

lemma parseExplicit_shrinks:
  "parseExplicit rest = Inr (node, rest') \<Longrightarrow> length rest' < length rest"
proof -
  assume p: "parseExplicit rest = Inr (node, rest')"
  then obtain len where "rest' = drop len (tl (dropWhile is_digit rest))" "dropWhile is_digit rest \<noteq> []"
    by (auto simp: parseExplicit_def Let_def split: if_splits option.splits)
  then have "length rest' < length (dropWhile is_digit rest)" by (cases "dropWhile is_digit rest") auto
  then show ?thesis using length_dropWhile_le [of is_digit rest] by simp
qed

lemma parse_shrinks:
  "parse n depth rest = Inr (node, rest') \<Longrightarrow> length rest' < length rest"
  "parseList n depth acc rest = Inr (node, rest') \<Longrightarrow> length rest' < length rest"
proof (induction n depth rest and n depth acc rest arbitrary: node rest' and node rest' rule: parse_parseList.induct)
  case (2 n depth rest)
  have "length (dropWhile f (tl rest)) < length rest" if "rest \<noteq> []" for f
    using that length_dropWhile_le [of f "tl rest"] by (cases rest) auto
  with 2 show ?case
    by (auto simp: parseImplicit_def Let_def split: if_splits dest: parseExplicit_shrinks)
next
  case (4 n depth acc rest)
  have le: "length (skipSpace rest) \<le> length rest" by (rule skipSpace_length)
  show ?case
  proof (cases "skipSpace rest = [] \<or> hd (skipSpace rest) = CHR '')''")
    case True
    with 4 le show ?thesis by (cases "skipSpace rest") (auto simp: Let_def split: if_splits)
  next
    case False
    with "4.prems" obtain child rest2 where
        c: "parse n (depth + 1) (skipSpace rest) = Inr (child, rest2)"
        "parseList n depth (acc @ [child]) rest2 = Inr (node, rest')"
      by (auto simp: Let_def split: sum.splits)
    have "length rest2 < length (skipSpace rest)" using "4.IH"(1) [OF refl _ _ c(1)] False by simp
    moreover have "length rest' < length rest2"
      using "4.IH"(2) [OF refl _ _ c(1)] False c(2) by simp
    ultimately show ?thesis using le by simp
  qed
qed (auto split: if_splits)

lemma parseExplicit_fuel: "parseExplicit rest \<noteq> Inl OutOfFuel"
  by (auto simp: parseExplicit_def Let_def split: option.splits)

lemma parse_fuel:
  "2 * length rest < n \<Longrightarrow> parse n depth rest \<noteq> Inl OutOfFuel"
  "2 * length rest + 1 < n \<Longrightarrow> parseList n depth acc rest \<noteq> Inl OutOfFuel"
proof (induction n depth rest and n depth acc rest rule: parse_parseList.induct)
  case (2 n depth rest)
  then show ?case by (cases rest) (auto simp: parseExplicit_fuel)
next
  case (4 n depth acc rest)
  have le: "length (skipSpace rest) \<le> length rest" by (rule skipSpace_length)
  show ?case
  proof (cases "skipSpace rest = [] \<or> hd (skipSpace rest) = CHR '')''")
    case False
    then have p: "parse n (depth + 1) (skipSpace rest) \<noteq> Inl OutOfFuel"
      using "4.IH"(1) [OF refl] "4.prems" le by simp
    moreover have "parseList n depth (acc @ [child]) rest2 \<noteq> Inl OutOfFuel"
      if c: "parse n (depth + 1) (skipSpace rest) = Inr (child, rest2)" for child rest2
      using "4.IH"(2) [OF refl _ _ c] False "4.prems" le parse_shrinks(1) [OF c] by simp
    ultimately show ?thesis using False by (auto simp: Let_def split: sum.split)
  qed (auto simp: Let_def)
qed simp_all

section \<open>Round trip\<close>

definition ends_atom :: "string \<Rightarrow> bool" where
  "ends_atom rest \<longleftrightarrow> rest = [] \<or> isSpace (hd rest) \<or> isParen (hd rest)"

lemma char_classes:
  "isName c \<Longrightarrow> \<not> isSpace c" "isName c \<Longrightarrow> c \<noteq> CHR '')'' \<and> c \<noteq> CHR ''(''"
  "is_digit c \<Longrightarrow> \<not> isSpace c" "is_digit c \<Longrightarrow> c \<noteq> CHR '')'' \<and> c \<noteq> CHR ''(''" "is_digit c \<Longrightarrow> \<not> isName c"
  by (auto simp: isName_def isSpace_def is_digit_def less_eq_char_def)

lemma isSpace_simps [simp]: "isSpace CHR '' ''" "\<not> isSpace CHR '')''" "\<not> isSpace CHR ''(''" "isParen CHR '')''"
  by (simp_all add: isSpace_def isParen_def)

lemma write_node_start:
  "write_node depth node = Inr s \<Longrightarrow> s \<noteq> [] \<and> \<not> isSpace (hd s) \<and> hd s \<noteq> CHR '')''"
proof (cases node)
  case (Atom a)
  assume "write_node depth node = Inr s"
  with Atom have "useImplicit a \<and> s = a \<or> s = utoa (length a) @ '' '' @ a" by (auto split: if_splits)
  then show ?thesis using char_classes hd_utoa [of "length a"] by (auto simp: useImplicit_def)
next
  case (Lst cs)
  assume "write_node depth node = Inr s"
  with Lst show ?thesis by (auto split: if_splits sum.splits)
qed simp

lemma parseImplicit_atom:
  assumes "useImplicit a" "ends_atom rest"
  shows "parseImplicit (a @ rest) = (Atom a, rest)"
proof -
  obtain c cs where a: "a = c # cs" using assms(1) by (cases a) (auto simp: useImplicit_def)
  have cs: "\<forall>x\<in>set cs. \<not> (isSpace x \<or> isParen x)" using assms(1) by (auto simp: useImplicit_def a list_all_iff)
  show ?thesis
  proof (cases rest)
    case Nil
    with cs show ?thesis by (simp add: parseImplicit_def a Let_def takeWhile_eq_all_conv dropWhile_eq_Nil_conv)
  next
    case (Cons d ds)
    with assms(2) have d: "isSpace d \<or> isParen d" by (simp add: ends_atom_def)
    then have "takeWhile (\<lambda>c. \<not> (isSpace c \<or> isParen c)) (cs @ d # ds) = cs"
      "dropWhile (\<lambda>c. \<not> (isSpace c \<or> isParen c)) (cs @ d # ds) = d # ds"
      using takeWhile_dropWhile_append_stop [where P = "\<lambda>c. \<not> (isSpace c \<or> isParen c)", OF cs] by auto
    then show ?thesis by (simp add: parseImplicit_def a Let_def Cons)
  qed
qed

lemma parseExplicit_atom:
  assumes "length a \<le> maxSize"
  shows "parseExplicit (utoa (length a) @ '' '' @ a @ rest) = Inr (Atom a, rest)"
proof -
  have d: "\<forall>x\<in>set (utoa (length a)). is_digit x" by (metis list_all_iff utoa_all_digits)
  have "takeWhile is_digit (utoa (length a) @ CHR '' '' # a @ rest) = utoa (length a)"
    "dropWhile is_digit (utoa (length a) @ CHR '' '' # a @ rest) = CHR '' '' # a @ rest"
    using takeWhile_dropWhile_append_stop [where P = is_digit, OF d] by simp_all
  moreover have "parse_uint 64 (utoa (length a)) = Some (length a)"
    using assms by (intro parse_uint_utoa) (simp add: maxSize_def)
  ultimately show ?thesis using assms by (simp add: parseExplicit_def)
qed

lemma parseList_space: "parseList n depth acc (CHR '' '' # rest) = parseList n depth acc rest"
  by (cases n) (simp_all add: skipSpace_def)

lemma parse_write:
  "write_node depth node = Inr s \<Longrightarrow> length s \<le> maxSize \<Longrightarrow> ends_atom rest \<Longrightarrow>
     2 * length (s @ rest) < n \<Longrightarrow> parse n depth (s @ rest) = Inr (node, rest)"
  "write_children (depth + 1) cs = Inr s \<Longrightarrow> length s \<le> maxSize \<Longrightarrow>
     2 * length (s @ CHR '')'' # rest) + 1 < n \<Longrightarrow>
     parseList n depth acc (s @ CHR '')'' # rest) = Inr (Lst (acc @ cs), rest)"
proof (induction depth node and "depth + 1" cs arbitrary: s rest n and depth s rest n acc
    rule: write_node_write_children.induct)
  case (1 depth)
  then show ?case by simp
next
  case (2 depth cs)
  then obtain t where t: "depth \<le> maxDepth" "write_children (depth + 1) cs = Inr t" "s = ''('' @ t @ '')''"
    by (auto split: if_splits sum.splits)
  obtain m where "n = Suc m" using "2.prems"(4) by (cases n) auto
  then show ?case
    using "2.hyps" [OF _ refl t(2), of rest m "[]"] "2.prems" t by auto
next
  case (3 depth a)
  obtain m where m: "n = Suc m" using "3.prems"(4) by (cases n) auto
  show ?case
  proof (cases "useImplicit a")
    case True
    then have "a \<noteq> []" "isName (hd a)" by (auto simp: useImplicit_def)
    with 3 True m show ?thesis
      using parseImplicit_atom [OF True "3.prems"(3)] char_classes(2) by (auto split: if_splits)
  next
    case False
    with "3.prems"(1) have s: "s = utoa (length a) @ '' '' @ a" "depth \<le> maxDepth" by (auto split: if_splits)
    then have "length a \<le> maxSize" using "3.prems"(2) by simp
    from parseExplicit_atom [OF this, of rest] show ?thesis
      using hd_utoa [of "length a"] char_classes(4,5) s(2) by (auto simp: m s(1))
  qed
next
  case (4 depth)
  then obtain m where "n = Suc m" by (cases n) auto
  with 4 show ?case by (simp add: skipSpace_def)
next
  case (5 c cs depth)
  obtain m where m: "n = Suc m" using "5.prems"(3) by (cases n) auto
  obtain s1 s2 where w: "write_node (depth + 1) c = Inr s1" "write_children (depth + 1) cs = Inr s2"
      "s = (if cs = [] then s1 else s1 @ '' '' @ s2)"
    using "5.prems"(1) by (auto split: sum.splits)
  let ?tail = "(if cs = [] then [] else '' '' @ s2) @ CHR '')'' # rest"
  have s: "s @ CHR '')'' # rest = s1 @ ?tail" using w(3) by simp
  have start: "s1 \<noteq> []" "\<not> isSpace (hd s1)" "hd s1 \<noteq> CHR '')''" using write_node_start [OF w(1)] by simp_all
  have len: "length s1 \<le> maxSize" "length s2 \<le> maxSize \<or> cs = []" using w(3) "5.prems"(2) by (auto split: if_splits)
  have skip: "skipSpace (s1 @ ?tail) = s1 @ ?tail"
    using start by (cases s1) (simp_all add: skipSpace_def)
  have "ends_atom ?tail" by (simp add: ends_atom_def)
  then have child: "parse m (depth + 1) (s1 @ ?tail) = Inr (c, ?tail)"
    using "5.hyps"(1) [OF w(1) len(1), of ?tail m] "5.prems"(3) m s by simp
  have "parseList m depth (acc @ [c]) ?tail = Inr (Lst ((acc @ [c]) @ cs), rest)"
  proof (cases "cs = []")
    case True
    obtain k where "m = Suc k" using "5.prems"(3) m start(1) s by (cases m) auto
    with True show ?thesis by (simp add: skipSpace_def)
  next
    case False
    then have "2 * length (s2 @ CHR '')'' # rest) + 1 < m"
      using "5.prems"(3) m w(3) by simp
    then show ?thesis
      using "5.hyps"(2) [OF w(1) refl w(2), of rest m "acc @ [c]"] False len(2)
      by (simp add: parseList_space)
  qed
  with child skip start show ?case
    unfolding s m by (simp add: Let_def)
qed

lemma Parse_MarshalBinary:
  assumes "MarshalBinary node = Inr s"
  shows "Parse s = Inr node"
proof -
  have w: "write_node 0 node = Inr s" "length s \<le> maxSize"
    using assms by (auto simp: MarshalBinary_def split: if_splits sum.splits)
  then have "parse (2 * length s + 1) 0 (s @ []) = Inr (node, [])"
    by (intro parse_write(1)) (simp_all add: ends_atom_def)
  with w write_node_start [OF w(1)] show ?thesis by (simp add: Parse_def skipSpace_def)
qed

section \<open>Property lists\<close>

lemma pairs_to_props_fold:
  "pairs_to_props (concat (map (\<lambda>(key, v). [Atom key, Atom v]) es)) m = fold (\<lambda>(k, v). fmupd k v) es m"
  by (induction es arbitrary: m) auto

lemma ProplistToProps_back: "ProplistToProps (PropsToProplist properties) = Inr properties"
proof -
  have "IsValidProplist (PropsToProplist properties)"
    by (auto simp: IsValidProplist_def IsList_def PropsToProplist_def list_all_iff IsAtom_def
        length_concat o_def case_prod_beta sum_list_triv)
  then show ?thesis
    by (simp add: ProplistToProps_def PropsToProplist_def pairs_to_props_fold fold_fmupd_sorted_entries)
qed

section \<open>Properties\<close>

text \<open>C21: parsing what was marshalled gives the node back, for every node \<open>MarshalBinary\<close> accepts;
  and the fuel of the parser is enough on every input.\<close>

theorem skel_roundtrip:
  "(\<forall>s. MarshalBinary node = Inr s \<longrightarrow> Parse s = Inr node) \<and> Parse data \<noteq> Inl OutOfFuel"
proof -
  have "Parse data \<noteq> Inl OutOfFuel"
    using parse_fuel(1) [of data "2 * length data + 1" 0] unfolding Parse_def
    by (auto simp del: parse.simps split: sum.split)
  then show ?thesis using Parse_MarshalBinary by blast
qed

theorem skel_roundtrip_witness:
  "Parse ''(a (0  5 b(c d) 2 1e)'' = Inr (Lst [Atom ''a'', Lst [Atom [], Atom ''b(c d''], Atom ''1e''])"
proof -
  have "write_node 0 (Lst [Atom ''a'', Lst [Atom [], Atom ''b(c d''], Atom ''1e'']) =
      Inr ''(a (0  5 b(c d) 2 1e)''"
    by code_simp
  then have "MarshalBinary (Lst [Atom ''a'', Lst [Atom [], Atom ''b(c d''], Atom ''1e'']) =
      Inr ''(a (0  5 b(c d) 2 1e)''"
    by (simp add: MarshalBinary_def maxSize_def)
  with skel_roundtrip [of "Lst [Atom ''a'', Lst [Atom [], Atom ''b(c d''], Atom ''1e'']"] show ?thesis
    by blast
qed

text \<open>A property map turned into a property-list skeleton and back is unchanged.\<close>

theorem proplist_roundtrip:
  "ProplistToProps (PropsToProplist properties) = Inr properties"
  by (rule ProplistToProps_back)

end
