(* ===== verification/Rasvn_Wire.thy ===== *)
theory Rasvn_Wire
  imports Go_Strings
begin

text \<open>
  The items of the svn protocol, \<^verbatim>\<open>rasvn/marshal.go\<close>: numbers, words, strings and lists, decoded
  from a stream and encoded onto one. The stream is the list of bytes left; the decoder carries a
  fuel, which a lemma shows is never used up. Encoding and decoding are a \<open>prefix_codec\<close>, so that a
  sequence of items is read back item by item.
\<close>

definition MaxStringLength :: nat where "MaxStringLength = 67108864"
definition MaxNestingDepth :: nat where "MaxNestingDepth = 64"
definition maxWordLength :: nat where "maxWordLength = 31"

text \<open>The \<open>Item\<close> struct with its tag; an unknown tag can only be built by hand.\<close>

datatype item = Number u64 | Word string | Str string | ItemList "item list" | OtherItem byte

datatype wire_error =
    WireEOF
  | NestedTooDeeply
  | UnexpectedByte char
  | UnterminatedNumber
  | NumberTooLarge
  | StringTooLong nat
  | ShortString
  | NoTrailingWhitespace
  | NumberNotFollowed
  | UnterminatedWord
  | WordTooLong
  | WordNotFollowed
  | UnterminatedItemList
  | InvalidWord string
  | UnknownItemKind byte
  | WireOutOfFuel

section \<open>Characters\<close>

definition isAlpha :: "char \<Rightarrow> bool" where
  "isAlpha c \<longleftrightarrow> (CHR ''A'' \<le> c \<and> c \<le> CHR ''Z'') \<or> (CHR ''a'' \<le> c \<and> c \<le> CHR ''z'')"

definition isWhitespace :: "char \<Rightarrow> bool" where
  "isWhitespace c \<longleftrightarrow> c = CHR '' '' \<or> c = CHR 0x0A"

definition validWord :: "string \<Rightarrow> bool" where
  "validWord word \<longleftrightarrow>
     \<not> (length word = 0 \<or> length word > maxWordLength \<or> \<not> isAlpha (hd word)) \<and>
     list_all (\<lambda>c. isAlpha c \<or> is_digit c \<or> c = CHR ''-'') (tl word)"

section \<open>Decoding\<close>

definition readNonWhitespace :: "string \<Rightarrow> wire_error + char \<times> string" where
  "readNonWhitespace input =
     (case dropWhile isWhitespace input of [] \<Rightarrow> Inl WireEOF | c # rest \<Rightarrow> Inr (c, rest))"

definition requireWhitespace :: "string \<Rightarrow> wire_error + string" where
  "requireWhitespace input =
     (case input of
        [] \<Rightarrow> Inl NoTrailingWhitespace
      | c # rest \<Rightarrow> if \<not> isWhitespace c then Inl NoTrailingWhitespace else Inr rest)"

text \<open>What follows the digits: a colon and the bytes of a string, or whitespace.\<close>

definition decode_number_end :: "string \<Rightarrow> char \<Rightarrow> string \<Rightarrow> wire_error + item \<times> string" where
  "decode_number_end digits c rest =
     (case parse_uint 64 digits of
        None \<Rightarrow> Inl NumberTooLarge
      | Some number \<Rightarrow>
          if c = CHR '':'' then
            (if number > MaxStringLength then Inl (StringTooLong number)
             else if length rest < number then Inl ShortString
             else case requireWhitespace (drop number rest) of
                 Inl e \<Rightarrow> Inl e
               | Inr rest' \<Rightarrow> Inr (Str (take number rest), rest'))
          else if \<not> isWhitespace c then Inl NumberNotFollowed
          else Inr (Number (of_nat number), rest))"

fun decodeNumberOrString :: "string \<Rightarrow> string \<Rightarrow> wire_error + item \<times> string" where
  "decodeNumberOrString digits [] = Inl UnterminatedNumber"
| "decodeNumberOrString digits (c # rest) =
     (if is_digit c then
        (if length digits = 20 then Inl NumberTooLarge
         else decodeNumberOrString (digits @ [c]) rest)
      else decode_number_end digits c rest)"

fun decodeWord :: "string \<Rightarrow> string \<Rightarrow> wire_error + item \<times> string" where
  "decodeWord word [] = Inl UnterminatedWord"
| "decodeWord word (c # rest) =
     (if isAlpha c \<or> is_digit c \<or> c = CHR ''-'' then
        (if length word = maxWordLength then Inl WordTooLong
         else decodeWord (word @ [c]) rest)
      else if \<not> isWhitespace c then Inl WordNotFollowed
      else Inr (Word word, rest))"

fun decode_item :: "nat \<Rightarrow> nat \<Rightarrow> char \<Rightarrow> string \<Rightarrow> wire_error + item \<times> string"
  and decodeList :: "nat \<Rightarrow> nat \<Rightarrow> item list \<Rightarrow> string \<Rightarrow> wire_error + item \<times> string"
where
  "decode_item 0 depth first rest = Inl WireOutOfFuel"
| "decode_item (Suc n) depth first rest =
     (if depth \<ge> MaxNestingDepth then Inl NestedTooDeeply
      else if is_digit first then decodeNumberOrString [first] rest
      else if isAlpha first then decodeWord [first] rest
      else if first = CHR ''('' then decodeList n depth [] rest
      else Inl (UnexpectedByte first))"
| "decodeList 0 depth acc rest = Inl WireOutOfFuel"
| "decodeList (Suc n) depth acc rest =
     (case readNonWhitespace rest of
        Inl e \<Rightarrow> Inl UnterminatedItemList
      | Inr (first, rest1) \<Rightarrow>
          if first = CHR '')'' then
            (case requireWhitespace rest1 of
               Inl e \<Rightarrow> Inl e | Inr rest2 \<Rightarrow> Inr (ItemList acc, rest2))
          else
            (case decode_item n (depth + 1) first rest1 of
               Inl e \<Rightarrow> Inl e
             | Inr (v, rest2) \<Rightarrow> decodeList n depth (acc @ [v]) rest2))"

definition Decode :: "string \<Rightarrow> wire_error + item \<times> string" where
  "Decode input =
     (case readNonWhitespace input of
        Inl e \<Rightarrow> Inl e
      | Inr (first, rest) \<Rightarrow> decode_item (2 * length rest + 2) 0 first rest)"

section \<open>Encoding\<close>

fun encode_item :: "nat \<Rightarrow> item \<Rightarrow> wire_error + string"
  and encode_items :: "nat \<Rightarrow> item list \<Rightarrow> wire_error + string"
where
  "encode_item depth (Number n) =
     (if depth \<ge> MaxNestingDepth then Inl NestedTooDeeply else Inr (utoa (unat n) @ '' ''))"
| "encode_item depth (Word w) =
     (if depth \<ge> MaxNestingDepth then Inl NestedTooDeeply
      else if \<not> validWord w then Inl (InvalidWord w)
      else Inr (w @ '' ''))"
| "encode_item depth (Str s) =
     (if depth \<ge> MaxNestingDepth then Inl NestedTooDeeply
      else if length s > MaxStringLength then Inl (StringTooLong (length s))
      else Inr (utoa (length s) @ '':'' @ s @ '' ''))"
| "encode_item depth (ItemList items) =
     (if depth \<ge> MaxNestingDepth then Inl NestedTooDeeply
      else case encode_items (depth + 1) items of
          Inl e \<Rightarrow> Inl e
        | Inr s \<Rightarrow> Inr (''( '' @ s @ '') ''))"
| "encode_item depth (OtherItem k) =
     (if depth \<ge> MaxNestingDepth then Inl NestedTooDeeply else Inl (UnknownItemKind k))"
| "encode_items depth [] = Inr []"
| "encode_items depth (i # items) =
     (case encode_item depth i of
        Inl e \<Rightarrow> Inl e
      | Inr s \<Rightarrow>
          (case encode_items depth items of Inl e \<Rightarrow> Inl e | Inr t \<Rightarrow> Inr (s @ t)))"

definition Encode :: "item \<Rightarrow> wire_error + string" where
  "Encode i = encode_item 0 i"

section \<open>The decoder always returns\<close>

lemma readNonWhitespace_shrinks: "readNonWhitespace input = Inr (c, rest) \<Longrightarrow> length rest < length input"
proof -
  assume "readNonWhitespace input = Inr (c, rest)"
  then have "dropWhile isWhitespace input = c # rest" by (auto simp: readNonWhitespace_def split: list.splits)
  then show ?thesis using length_dropWhile_le [of isWhitespace input] by simp
qed

lemma requireWhitespace_shrinks: "requireWhitespace input = Inr rest \<Longrightarrow> length rest < length input"
  by (auto simp: requireWhitespace_def split: list.splits if_splits)

lemma decodeNumberOrString_shrinks:
  "decodeNumberOrString digits input = Inr (i, rest) \<Longrightarrow> length rest < length input"
  by (induction digits input rule: decodeNumberOrString.induct)
    (auto simp: decode_number_end_def dest!: requireWhitespace_shrinks
      split: if_splits option.splits sum.splits)

lemma decodeWord_shrinks: "decodeWord word input = Inr (i, rest) \<Longrightarrow> length rest < length input"
  by (induction word input rule: decodeWord.induct) (auto split: if_splits)

lemma decode_shrinks:
  "decode_item n depth first rest = Inr (i, rest') \<Longrightarrow> length rest' < length rest"
  "decodeList n depth acc rest = Inr (i, rest') \<Longrightarrow> length rest' < length rest"
proof (induction n depth first rest and n depth acc rest arbitrary: i rest' and i rest'
    rule: decode_item_decodeList.induct)
  case (2 n depth first rest)
  then show ?case
    by (auto split: if_splits dest: decodeNumberOrString_shrinks decodeWord_shrinks)
next
  case (4 n depth acc rest)
  then obtain first rest1 where r: "readNonWhitespace rest = Inr (first, rest1)" by (auto split: sum.splits)
  show ?case
  proof (cases "first = CHR '')''")
    case True
    with "4.prems" r show ?thesis
      using readNonWhitespace_shrinks [OF r] by (auto split: sum.splits dest: requireWhitespace_shrinks)
  next
    case False
    with "4.prems" r obtain v rest2 where d: "decode_item n (depth + 1) first rest1 = Inr (v, rest2)"
        "decodeList n depth (acc @ [v]) rest2 = Inr (i, rest')"
      by (auto split: sum.splits)
    have "length rest2 < length rest1" by (rule "4.IH"(1) [OF r refl False d(1)])
    moreover have "length rest' < length rest2" by (rule "4.IH"(2) [OF r refl False d(1) refl d(2)])
    ultimately show ?thesis using readNonWhitespace_shrinks [OF r] by simp
  qed
qed simp_all

lemma simple_fuel:
  "requireWhitespace input \<noteq> Inl WireOutOfFuel" "decodeWord word input \<noteq> Inl WireOutOfFuel"
  "decodeNumberOrString digits input \<noteq> Inl WireOutOfFuel"
proof -
  show r: "requireWhitespace input \<noteq> Inl WireOutOfFuel" for input
    by (auto simp: requireWhitespace_def split: list.splits)
  show "decodeWord word input \<noteq> Inl WireOutOfFuel"
    by (induction word input rule: decodeWord.induct) auto
  show "decodeNumberOrString digits input \<noteq> Inl WireOutOfFuel"
    by (induction digits input rule: decodeNumberOrString.induct)
      (auto simp: decode_number_end_def r split: option.splits sum.splits)
qed

lemma decode_fuel:
  "2 * length rest + 1 < n \<Longrightarrow> decode_item n depth first rest \<noteq> Inl WireOutOfFuel"
  "2 * length rest < n \<Longrightarrow> decodeList n depth acc rest \<noteq> Inl WireOutOfFuel"
proof (induction n depth first rest and n depth acc rest rule: decode_item_decodeList.induct)
  case (2 n depth first rest)
  then show ?case by (auto simp: simple_fuel)
next
  case (4 n depth acc rest)
  show ?case
  proof (cases "readNonWhitespace rest")
    case (Inr p)
    obtain first rest1 where p: "p = (first, rest1)" by (cases p)
    note r = Inr [unfolded p] and len = readNonWhitespace_shrinks [OF Inr [unfolded p]]
    show ?thesis
    proof (cases "first = CHR '')''")
      case True
      with r show ?thesis using simple_fuel(1) [of rest1] by (auto split: sum.split)
    next
      case False
      then have "decode_item n (depth + 1) first rest1 \<noteq> Inl WireOutOfFuel"
        using "4.IH"(1) [OF r refl False] "4.prems" len by simp
      moreover have "decodeList n depth (acc @ [v]) rest2 \<noteq> Inl WireOutOfFuel"
        if d: "decode_item n (depth + 1) first rest1 = Inr (v, rest2)" for v rest2
        using "4.IH"(2) [OF r refl False d refl] "4.prems" len decode_shrinks(1) [OF d] by simp
      ultimately show ?thesis using r False by (auto split: sum.split)
    qed
  qed simp
qed simp_all

lemma Decode_fuel: "Decode input \<noteq> Inl WireOutOfFuel"
  using decode_fuel(1)
  by (auto simp: Decode_def readNonWhitespace_def simp del: decode_item.simps split: list.split)

section \<open>Round trip\<close>

lemma digit_not:
  "is_digit c \<Longrightarrow> \<not> isAlpha c" "is_digit c \<Longrightarrow> \<not> isWhitespace c" "isAlpha c \<Longrightarrow> \<not> isWhitespace c"
  "isAlpha c \<Longrightarrow> \<not> is_digit c" "is_digit c \<Longrightarrow> c \<noteq> CHR '')''" "isAlpha c \<Longrightarrow> c \<noteq> CHR '')''"
  by (auto simp: isAlpha_def isWhitespace_def is_digit_def less_eq_char_def)

lemma isWhitespace_simps [simp]:
  "isWhitespace CHR '' ''" "\<not> isWhitespace CHR ''(''" "\<not> isWhitespace CHR '')''" "\<not> isAlpha CHR '' ''"
  "\<not> isAlpha CHR ''(''" "\<not> is_digit CHR ''(''" "\<not> isWhitespace CHR '':''"
  by (simp_all add: isWhitespace_def isAlpha_def is_digit_def less_eq_char_def)

lemma decodeNumberOrString_digits:
  "list_all is_digit ds \<Longrightarrow> length (pre @ ds) \<le> 20 \<Longrightarrow> \<not> is_digit c \<Longrightarrow>
     decodeNumberOrString pre (ds @ c # rest) = decode_number_end (pre @ ds) c rest"
  by (induction ds arbitrary: pre) auto

lemma decodeWord_chars:
  "list_all (\<lambda>c. isAlpha c \<or> is_digit c \<or> c = CHR ''-'') cs \<Longrightarrow> length (pre @ cs) \<le> maxWordLength \<Longrightarrow>
     decodeWord pre (cs @ CHR '' '' # rest) = Inr (Word (pre @ cs), rest)"
  by (induction cs arbitrary: pre) auto

lemma decode_utoa:
  assumes "n < 2 ^ 64" "\<not> is_digit c"
  shows "decodeNumberOrString [hd (utoa n)] (tl (utoa n) @ c # rest) = decode_number_end (utoa n) c rest"
proof -
  have "n < 10 ^ 20" using assms(1) by simp
  then have "length (utoa n) \<le> 20" by (rule utoa_length) simp
  moreover obtain d ds where "utoa n = d # ds" by (cases "utoa n") auto
  moreover have "list_all is_digit (utoa n)" by simp
  ultimately show ?thesis
    using decodeNumberOrString_digits [of ds "[d]" c rest] assms(2) by simp
qed

lemma decode_encode:
  "encode_item depth i = Inr s \<Longrightarrow>
     s \<noteq> [] \<and> \<not> isWhitespace (hd s) \<and> hd s \<noteq> CHR '')'' \<and>
     (\<forall>rest n. 2 * length (tl s @ rest) + 1 < n \<longrightarrow>
        decode_item n depth (hd s) (tl s @ rest) = Inr (i, rest))"
  "encode_items (depth + 1) items = Inr s \<Longrightarrow>
     2 * length (s @ '') '' @ rest) < n \<Longrightarrow>
     decodeList n depth acc (s @ '') '' @ rest) = Inr (ItemList (acc @ items), rest)"
proof (induction depth i and "depth + 1" items arbitrary: s and depth s n acc rest
    rule: encode_item_encode_items.induct)
  case (1 depth v)
  have lt: "unat v < 2 ^ 64" using unsigned_less [of v] by simp
  have s: "s = utoa (unat v) @ '' ''" "\<not> depth \<ge> MaxNestingDepth" using 1 by (auto split: if_splits)
  have "decode_number_end (utoa (unat v)) CHR '' '' rest = Inr (Number v, rest)" for rest
    using parse_uint_utoa [OF lt] by (simp add: decode_number_end_def)
  moreover obtain d ds where d: "utoa (unat v) = d # ds" "is_digit d"
    using hd_utoa [of "unat v"] by (cases "utoa (unat v)") auto
  ultimately have "decode_item n depth (hd s) (tl s @ rest) = Inr (Number v, rest)" if "0 < n" for n rest
    using decode_utoa [OF lt, of "CHR '' ''" rest] that s by (cases n) (auto simp: d)
  with s d digit_not show ?case by auto
next
  case (2 depth w)
  have s: "s = w @ '' ''" "\<not> depth \<ge> MaxNestingDepth" "validWord w" using 2 by (auto split: if_splits)
  then obtain c cs where c: "w = c # cs" "isAlpha c" "length (c # cs) \<le> maxWordLength"
      "list_all (\<lambda>c. isAlpha c \<or> is_digit c \<or> c = CHR ''-'') cs"
    by (cases w) (auto simp: validWord_def)
  have "decode_item n depth (hd s) (tl s @ rest) = Inr (Word w, rest)" if "0 < n" for n rest
    using decodeWord_chars [OF c(4), of "[c]" rest] that s c digit_not(4) by (cases n) auto
  with s c digit_not show ?case by auto
next
  case (3 depth t)
  have s: "s = utoa (length t) @ '':'' @ t @ '' ''" "\<not> depth \<ge> MaxNestingDepth" "length t \<le> MaxStringLength"
    using 3 by (auto split: if_splits)
  then have lt: "length t < 2 ^ 64" by (simp add: MaxStringLength_def)
  have "decode_number_end (utoa (length t)) CHR '':'' (t @ CHR '' '' # rest) = Inr (Str t, rest)" for rest
    using parse_uint_utoa [OF lt] s(3) by (simp add: decode_number_end_def requireWhitespace_def)
  moreover obtain d ds where d: "utoa (length t) = d # ds" "is_digit d"
    using hd_utoa [of "length t"] by (cases "utoa (length t)") auto
  ultimately have "decode_item n depth (hd s) (tl s @ rest) = Inr (Str t, rest)" if "0 < n" for n rest
    using decode_utoa [OF lt, of "CHR '':''" "t @ CHR '' '' # rest"] that s by (cases n) (auto simp: d)
  with s d digit_not show ?case by auto
next
  case (4 depth items)
  then obtain t where t: "\<not> depth \<ge> MaxNestingDepth" "encode_items (depth + 1) items = Inr t" "s = ''( '' @ t @ '') ''"
    by (auto split: if_splits sum.splits)
  have "decode_item n depth (hd s) (tl s @ rest) = Inr (ItemList items, rest)"
    if n: "2 * length (tl s @ rest) + 1 < n" for n rest
  proof -
    obtain m where m: "n = Suc m" using n by (cases n) auto
    have skip: "decodeList m depth [] (CHR '' '' # t @ '') '' @ rest) = decodeList m depth [] (t @ '') '' @ rest)"
      by (cases m) (simp_all add: readNonWhitespace_def)
    have "2 * length (t @ '') '' @ rest) < m" using n t(3) m by simp
    then have "decodeList m depth [] (t @ '') '' @ rest) = Inr (ItemList ([] @ items), rest)"
      by (rule 4(1) [OF t(1) refl t(2)])
    with skip t m show ?thesis by simp
  qed
  with t show ?case by simp
next
  case (6 depth)
  then show ?case by (cases n) (simp_all add: readNonWhitespace_def requireWhitespace_def)
next
  case (7 i items)
  then obtain s1 s2 where w: "encode_item (depth + 1) i = Inr s1" "encode_items (depth + 1) items = Inr s2"
      "s = s1 @ s2"
    by (auto split: sum.splits)
  obtain m where m: "n = Suc m" using 7 by (cases n) auto
  let ?tail = "s2 @ '') '' @ rest"
  have i: "s1 \<noteq> []" "\<not> isWhitespace (hd s1)" "hd s1 \<noteq> CHR '')''"
      "\<And>rest n. 2 * length (tl s1 @ rest) + 1 < n \<Longrightarrow>
         decode_item n (depth + 1) (hd s1) (tl s1 @ rest) = Inr (i, rest)"
    using 7(1) [OF w(1)] by blast+
  obtain c cs where c: "s1 = c # cs" using i(1) by (cases s1) auto
  have "readNonWhitespace (s @ '') '' @ rest) = Inr (c, cs @ ?tail)"
    using i(2) c w(3) by (simp add: readNonWhitespace_def)
  moreover have "decode_item m (depth + 1) c (cs @ ?tail) = Inr (i, ?tail)"
    using i(4) [of ?tail m] 7(4) c w(3) m by simp
  moreover have "decodeList m depth (acc @ [i]) ?tail = Inr (ItemList ((acc @ [i]) @ items), rest)"
    using 7(2) [OF w(1) refl w(2), where n = m and acc = "acc @ [i]" and rest = rest] 7(4) c w(3) m by simp
  ultimately show ?case using i(3) c by (simp add: m)
qed (auto split: if_splits)

text \<open>Encoding and decoding as a codec: a stream of items is read item by item.\<close>

definition encodable :: "item \<Rightarrow> bool" where
  "encodable i \<longleftrightarrow> (\<exists>s. Encode i = Inr s)"

definition encoded :: "item \<Rightarrow> string" where
  "encoded i = (case Encode i of Inl e \<Rightarrow> [] | Inr s \<Rightarrow> s)"

lemma Decode_Encode:
  assumes "Encode i = Inr s"
  shows "Decode (s @ rest) = Inr (i, rest)"
proof -
  have d: "s \<noteq> []" "\<not> isWhitespace (hd s)"
      "\<And>rest n. 2 * length (tl s @ rest) + 1 < n \<Longrightarrow>
         decode_item n 0 (hd s) (tl s @ rest) = Inr (i, rest)"
    using decode_encode(1) [OF assms [unfolded Encode_def]] by blast+
  obtain c cs where c: "s = c # cs" using d(1) by (cases s) auto
  have "readNonWhitespace (s @ rest) = Inr (c, cs @ rest)"
    using d(2) c by (simp add: readNonWhitespace_def)
  then show ?thesis using d(3) c by (simp add: Decode_def del: decode_item.simps)
qed

interpretation item: prefix_codec encodable encoded Decode
  by unfold_locales (auto simp: encodable_def encoded_def Decode_Encode)

section \<open>Properties\<close>

text \<open>C23: a sequence of items that can be encoded is read back item by item, whatever follows it
  on the connection.\<close>

theorem item_stream_roundtrip:
  assumes "list_all encodable items"
  shows "decode_count Decode (length items) (concat (map encoded items) @ rest) = Inr (items, rest)"
  by (rule item.decode_count_enc [OF assms])

theorem item_stream_roundtrip_witness:
  "decode_count Decode 2 (''( success ( 2 3:a b ) ) 7 '' @ ''tail'') =
     Inr ([ItemList [Word ''success'', ItemList [Number 2, Str ''a b'']], Number 7], ''tail'')"
proof -
  let ?i = "ItemList [Word ''success'', ItemList [Number 2, Str ''a b'']]"
  have e: "Encode ?i = Inr ''( success ( 2 3:a b ) ) ''" "Encode (Number 7) = Inr ''7 ''"
    by (simp_all add: Encode_def MaxNestingDepth_def MaxStringLength_def utoa.simps [of 2] utoa.simps [of 3]
        utoa.simps [of 7]) code_simp+
  have "list_all encodable [?i, Number 7]" by (simp add: encodable_def e)
  from item_stream_roundtrip [OF this, of "''tail''"] show ?thesis by (simp add: encoded_def e numeral_2_eq_2)
qed

text \<open>Decoding always comes to an end: the decoder never runs out of fuel, and what it leaves
  unread is strictly shorter than what it was given.\<close>

theorem item_decode_terminates:
  "Decode input \<noteq> Inl WireOutOfFuel \<and>
   (\<forall>i rest. Decode input = Inr (i, rest) \<longrightarrow> length rest < length input)"
proof -
  have "length rest < length input" if "Decode input = Inr (i, rest)" for i rest
    using that decode_shrinks(1) readNonWhitespace_shrinks
    by (fastforce simp: Decode_def simp del: decode_item.simps split: sum.splits)
  then show ?thesis using Decode_fuel by blast
qed

theorem item_decode_terminates_witness:
  "Decode ''( ) x'' = Inr (ItemList [], ''x'') \<and> length ''x'' < length ''( ) x''"
proof -
  have d: "Decode ''( ) x'' = Inr (ItemList [], ''x'')" by code_simp
  with item_decode_terminates [of "''( ) x''"] show ?thesis by blast
qed

end
