(* ===== verification/Rasvn_Tuple.thy ===== *)
theory Rasvn_Tuple
  imports Rasvn_Wire
begin

text \<open>
  Tuples of the svn protocol, \<^verbatim>\<open>rasvn/marshal.go\<close>: items parsed and built under a pattern, one
  letter per value, parentheses for nested lists, \<open>?\<close> for an optional tail and \<open>!\<close> for an open
  tuple. A destination pointer is its type, parsing gives the values stored, in the order of the
  destinations; a nil slice is an empty list. What \<open>buildTuple\<close> is given of type \<open>any\<close> is a
  \<open>tuple_arg\<close>. The recursion over the pattern carries a fuel, one more than its length.
\<close>

datatype dest = DString | DBytes | DRevnum | DUint64 | DBool | DTriState | DItems | DOther

datatype TriState = TriStateUnknown | TriStateFalse | TriStateTrue

datatype tuple_value =
    VString string | VBytes string | VRevnum int | VUint64 u64 | VBool bool | VTriState TriState
  | VItems "item list"

datatype tuple_arg =
    AString string | APString "string option" | ABytes string | APBytes "string option"
  | ARevnum int | AUint64 u64 | ABool bool | AItems "item list" | APItems "item list option" | AOther

datatype tuple_error =
    UnmatchedClose | InvalidBang | EndedBeforeRequired char | ItemNotAList | UnterminatedGroup
  | MissingDestination char | NotAString | NotAWord | NotARevision | NotANumber | NotABoolean
  | WrongDestination char | UnknownPattern char | UnsupportedOptional
  | ConsumedMismatch | MissingValue char | RequiredAbsent char | NegativeRevision int
  | ValueMismatch char | TupleOutOfFuel

section \<open>Parsing\<close>

definition assignTupleValue :: "item \<Rightarrow> char \<Rightarrow> dest list \<Rightarrow> tuple_error + tuple_value \<times> dest list" where
  "assignTupleValue i code dests =
     (case dests of
        [] \<Rightarrow> Inl (MissingDestination code)
      | d # rest \<Rightarrow>
          if code = CHR ''c'' then
            (case i of
               Str s \<Rightarrow> if d \<noteq> DString then Inl (WrongDestination code) else Inr (VString s, rest)
             | _ \<Rightarrow> Inl NotAString)
          else if code = CHR ''s'' then
            (case i of
               Str s \<Rightarrow> if d \<noteq> DBytes then Inl (WrongDestination code) else Inr (VBytes s, rest)
             | _ \<Rightarrow> Inl NotAString)
          else if code = CHR ''w'' then
            (case i of
               Word w \<Rightarrow> if d \<noteq> DString then Inl (WrongDestination code) else Inr (VString w, rest)
             | _ \<Rightarrow> Inl NotAWord)
          else if code = CHR ''r'' then
            (case i of
               Number n \<Rightarrow>
                 if unat n \<ge> 2 ^ 63 then Inl NotARevision
                 else if d \<noteq> DRevnum then Inl (WrongDestination code)
                 else Inr (VRevnum (int (unat n)), rest)
             | _ \<Rightarrow> Inl NotARevision)
          else if code = CHR ''n'' then
            (case i of
               Number n \<Rightarrow> if d \<noteq> DUint64 then Inl (WrongDestination code) else Inr (VUint64 n, rest)
             | _ \<Rightarrow> Inl NotANumber)
          else if code = CHR ''b'' \<or> code = CHR ''B'' \<or> code = CHR ''3'' then
            (if i \<noteq> Word ''true'' \<and> i \<noteq> Word ''false'' then Inl NotABoolean
             else if code = CHR ''b'' then
               (if d \<noteq> DBool then Inl (WrongDestination code) else Inr (VBool (i = Word ''true''), rest))
             else if code = CHR ''B'' then
               (if d \<noteq> DUint64 then Inl (WrongDestination code)
                else Inr (VUint64 (if i = Word ''true'' then 1 else 0), rest))
             else
               (if d \<noteq> DTriState then Inl (WrongDestination code)
                else Inr (VTriState (if i = Word ''true'' then TriStateTrue else TriStateFalse), rest)))
          else if code = CHR ''l'' then
            (case i of
               ItemList l \<Rightarrow> if d \<noteq> DItems then Inl (WrongDestination code) else Inr (VItems l, rest)
             | _ \<Rightarrow> Inl ItemNotAList)
          else Inl (UnknownPattern code))"

fun missing_value :: "dest \<Rightarrow> tuple_error + tuple_value" where
  "missing_value DString = Inr (VString [])"
| "missing_value DBytes = Inr (VBytes [])"
| "missing_value DRevnum = Inr (VRevnum (- 1))"
| "missing_value DUint64 = Inr (VUint64 (- 1))"
| "missing_value DBool = Inr (VBool False)"
| "missing_value DTriState = Inr (VTriState TriStateUnknown)"
| "missing_value DItems = Inr (VItems [])"
| "missing_value DOther = Inl UnsupportedOptional"

definition set_missing_one :: "char \<Rightarrow> dest list \<Rightarrow> tuple_error + tuple_value \<times> dest list" where
  "set_missing_one code dests =
     (case dests of
        [] \<Rightarrow> Inl (MissingDestination code)
      | d # rest \<Rightarrow>
          (case missing_value d of Inl e \<Rightarrow> Inl e | Inr v \<Rightarrow> Inr (v, rest)))"

text \<open>The group of an absent list: every letter up to the closing parenthesis is missing.\<close>

fun set_missing_group :: "nat \<Rightarrow> string \<Rightarrow> dest list \<Rightarrow> tuple_error + string \<times> dest list \<times> tuple_value list" where
  "set_missing_group depth [] dests = Inr ([], dests, [])"
| "set_missing_group depth (code # pattern) dests =
     (if depth = 0 then Inr (code # pattern, dests, [])
      else if code = CHR ''('' then set_missing_group (depth + 1) pattern dests
      else if code = CHR '')'' then set_missing_group (depth - 1) pattern dests
      else if code \<noteq> CHR ''?'' then
        (case set_missing_one code dests of
           Inl e \<Rightarrow> Inl e
         | Inr (v, dests1) \<Rightarrow>
             (case set_missing_group depth pattern dests1 of
                Inl e \<Rightarrow> Inl e
              | Inr (pattern2, dests2, vs) \<Rightarrow> Inr (pattern2, dests2, v # vs)))
      else set_missing_group depth pattern dests)"

definition setMissingTupleValue ::
    "char \<Rightarrow> string \<Rightarrow> dest list \<Rightarrow> tuple_error + string \<times> dest list \<times> tuple_value list" where
  "setMissingTupleValue code pattern dests =
     (if code = CHR ''('' then set_missing_group 1 pattern dests
      else case set_missing_one code dests of
          Inl e \<Rightarrow> Inl e
        | Inr (v, rest) \<Rightarrow> Inr (pattern, rest, [v]))"

text \<open>
  \<open>parseTupleItems\<close> from the current place in the pattern: the items and destinations left, and
  the flags \<open>optional\<close> and \<open>nested\<close>. The result is what is left of the pattern and of the
  destinations, and the values stored.
\<close>

fun parseTupleItems ::
    "nat \<Rightarrow> item list \<Rightarrow> string \<Rightarrow> dest list \<Rightarrow> bool \<Rightarrow> bool \<Rightarrow>
      tuple_error + string \<times> dest list \<times> tuple_value list"
where
  "parseTupleItems 0 items pattern dests optional nested = Inl TupleOutOfFuel"
| "parseTupleItems (Suc n) items [] dests optional nested =
     (if nested then Inl UnterminatedGroup else Inr ([], dests, []))"
| "parseTupleItems (Suc n) items (code # pattern) dests optional nested =
     (if code = CHR ''?'' then parseTupleItems n items pattern dests True nested
      else if code = CHR '')'' then
        (if nested then Inr (pattern, dests, []) else Inl UnmatchedClose)
      else if code = CHR ''!'' then
        (if pattern = [] then Inr ([], dests, []) else Inl InvalidBang)
      else
        case items of
          [] \<Rightarrow>
            if \<not> optional then Inl (EndedBeforeRequired code)
            else (case setMissingTupleValue code pattern dests of
                Inl e \<Rightarrow> Inl e
              | Inr (pattern1, dests1, vs) \<Rightarrow>
                  (case parseTupleItems n [] pattern1 dests1 optional nested of
                     Inl e \<Rightarrow> Inl e
                   | Inr (pattern2, dests2, us) \<Rightarrow> Inr (pattern2, dests2, vs @ us)))
        | i # items' \<Rightarrow>
            if code = CHR ''('' then
              (case i of
                 ItemList l \<Rightarrow>
                   (case parseTupleItems n l pattern dests False True of
                      Inl e \<Rightarrow> Inl e
                    | Inr (pattern1, dests1, vs) \<Rightarrow>
                        (case parseTupleItems n items' pattern1 dests1 False nested of
                           Inl e \<Rightarrow> Inl e
                         | Inr (pattern2, dests2, us) \<Rightarrow> Inr (pattern2, dests2, vs @ us)))
               | _ \<Rightarrow> Inl ItemNotAList)
            else
              (case assignTupleValue i code dests of
                 Inl e \<Rightarrow> Inl e
               | Inr (v, dests1) \<Rightarrow>
                   (case parseTupleItems n items' pattern dests1 optional nested of
                      Inl e \<Rightarrow> Inl e
                    | Inr (pattern2, dests2, us) \<Rightarrow> Inr (pattern2, dests2, v # us))))"

definition ParseTuple :: "item list \<Rightarrow> string \<Rightarrow> dest list \<Rightarrow> tuple_error + tuple_value list" where
  "ParseTuple items pattern dests =
     (let pattern' = (if pattern \<noteq> [] \<and> hd pattern = CHR ''!'' then tl pattern else pattern) in
      case parseTupleItems (length pattern' + 1) items pattern' dests False False of
        Inl e \<Rightarrow> Inl e
      | Inr (_, rest, vs) \<Rightarrow> if rest \<noteq> [] then Inl ConsumedMismatch else Inr vs)"

section \<open>Building\<close>

text \<open>\<open>None\<close> in the result is a value that is absent.\<close>

definition tupleItem :: "char \<Rightarrow> tuple_arg \<Rightarrow> tuple_error + item option" where
  "tupleItem code a =
     (if code = CHR ''c'' then
        (case a of
           AString s \<Rightarrow> Inr (Some (Str s))
         | APString p \<Rightarrow> Inr (map_option Str p)
         | _ \<Rightarrow> Inl (ValueMismatch code))
      else if code = CHR ''s'' then
        (case a of
           ABytes s \<Rightarrow> Inr (Some (Str s))
         | APBytes p \<Rightarrow> Inr (map_option Str p)
         | _ \<Rightarrow> Inl (ValueMismatch code))
      else if code = CHR ''w'' then
        (case a of AString w \<Rightarrow> Inr (Some (Word w)) | _ \<Rightarrow> Inl (ValueMismatch code))
      else if code = CHR ''r'' then
        (case a of
           ARevnum n \<Rightarrow>
             if n = - 1 then Inr None
             else if n < 0 then Inl (NegativeRevision n)
             else Inr (Some (Number (word_of_int n)))
         | _ \<Rightarrow> Inl (ValueMismatch code))
      else if code = CHR ''n'' then
        (case a of AUint64 n \<Rightarrow> Inr (Some (Number n)) | _ \<Rightarrow> Inl (ValueMismatch code))
      else if code = CHR ''b'' then
        (case a of
           ABool b \<Rightarrow> Inr (Some (Word (if b then ''true'' else ''false'')))
         | _ \<Rightarrow> Inl (ValueMismatch code))
      else if code = CHR ''l'' then
        (case a of
           AItems l \<Rightarrow> Inr (Some (ItemList l))
         | APItems p \<Rightarrow> Inr (map_option ItemList p)
         | _ \<Rightarrow> Inl (ValueMismatch code))
      else Inl (ValueMismatch code))"

fun buildTupleItems ::
    "nat \<Rightarrow> string \<Rightarrow> tuple_arg list \<Rightarrow> bool \<Rightarrow> bool \<Rightarrow>
      tuple_error + item list \<times> bool \<times> string \<times> tuple_arg list"
where
  "buildTupleItems 0 pattern args optional nested = Inl TupleOutOfFuel"
| "buildTupleItems (Suc n) [] args optional nested =
     (if nested then Inl UnterminatedGroup else Inr ([], True, [], args))"
| "buildTupleItems (Suc n) (code # pattern) args optional nested =
     (if code = CHR ''?'' then buildTupleItems n pattern args True nested
      else if code = CHR '')'' then
        (if \<not> nested then Inl UnmatchedClose else Inr ([], True, pattern, args))
      else if code = CHR ''!'' then
        (if pattern = [] then Inr ([], False, [], args) else Inl InvalidBang)
      else if code = CHR ''('' then
        (case buildTupleItems n pattern args False True of
           Inl e \<Rightarrow> Inl e
         | Inr (nestedItems, present, pattern1, args1) \<Rightarrow>
             (case buildTupleItems n pattern1 args1 False nested of
                Inl e \<Rightarrow> Inl e
              | Inr (items, p, pattern2, args2) \<Rightarrow>
                  Inr ((if present \<or> \<not> optional then [ItemList nestedItems] else []) @ items,
                       p, pattern2, args2)))
      else
        case args of
          [] \<Rightarrow> Inl (MissingValue code)
        | a # args1 \<Rightarrow>
            (case tupleItem code a of
               Inl e \<Rightarrow> Inl e
             | Inr None \<Rightarrow>
                 if \<not> optional then Inl (RequiredAbsent code)
                 else buildTupleItems n pattern args1 optional nested
             | Inr (Some i) \<Rightarrow>
                 (case buildTupleItems n pattern args1 optional nested of
                    Inl e \<Rightarrow> Inl e
                  | Inr (items, p, pattern2, args2) \<Rightarrow> Inr (i # items, p, pattern2, args2))))"

definition buildTuple :: "string \<Rightarrow> tuple_arg list \<Rightarrow> tuple_error + item list \<times> bool" where
  "buildTuple pattern args =
     (let wrapped = \<not> (pattern \<noteq> [] \<and> hd pattern = CHR ''!'');
          pattern' = (if wrapped then pattern else tl pattern) in
      case buildTupleItems (length pattern' + 1) pattern' args False False of
        Inl e \<Rightarrow> Inl e
      | Inr (items, _, _, rest) \<Rightarrow>
          if rest \<noteq> [] then Inl ConsumedMismatch else Inr (items, wrapped))"

datatype write_error = TupleError tuple_error | WireError wire_error

fun encode_all :: "item list \<Rightarrow> wire_error + string" where
  "encode_all [] = Inr []"
| "encode_all (i # items) =
     (case Encode i of
        Inl e \<Rightarrow> Inl e
      | Inr s \<Rightarrow> (case encode_all items of Inl e \<Rightarrow> Inl e | Inr t \<Rightarrow> Inr (s @ t)))"

definition WriteTuple :: "string \<Rightarrow> tuple_arg list \<Rightarrow> write_error + string" where
  "WriteTuple pattern args =
     (case buildTuple pattern args of
        Inl e \<Rightarrow> Inl (TupleError e)
      | Inr (items, wrapped) \<Rightarrow>
          (case (if wrapped then Encode (ItemList items) else encode_all items) of
             Inl e \<Rightarrow> Inl (WireError e)
           | Inr s \<Rightarrow> Inr s))"

section \<open>The fuel is enough\<close>

lemma set_missing_group_shrinks:
  "set_missing_group depth pattern dests = Inr (pattern', dests', vs) \<Longrightarrow> length pattern' \<le> length pattern"
  by (induction pattern arbitrary: depth dests pattern' dests' vs)
    (fastforce split: if_splits sum.splits intro: le_SucI)+

lemma setMissingTupleValue_shrinks:
  "setMissingTupleValue code pattern dests = Inr (pattern', dests', vs) \<Longrightarrow> length pattern' \<le> length pattern"
  by (auto simp: setMissingTupleValue_def dest: set_missing_group_shrinks split: if_splits sum.splits)

lemma parseTupleItems_shrinks:
  "parseTupleItems n items pattern dests optional nested = Inr (pattern', dests', vs) \<Longrightarrow>
     length pattern' \<le> length pattern"
proof (induction n arbitrary: items pattern dests optional nested pattern' dests' vs)
  case (Suc n)
  show ?case
    using Suc.prems
    by (cases pattern)
      (auto split: if_splits sum.splits list.splits item.splits
        dest!: Suc.IH setMissingTupleValue_shrinks)
qed simp

lemma set_missing_group_fuel:
  "set_missing_group depth pattern dests \<noteq> Inl TupleOutOfFuel"
proof -
  have "set_missing_one code ds \<noteq> Inl TupleOutOfFuel" for code ds
    by (auto simp: set_missing_one_def split: list.splits sum.splits elim: missing_value.elims)
  then show ?thesis
    by (induction pattern arbitrary: depth dests) (auto split: sum.splits)
qed

lemma setMissingTupleValue_fuel: "setMissingTupleValue code pattern dests \<noteq> Inl TupleOutOfFuel"
  by (auto simp: setMissingTupleValue_def set_missing_one_def set_missing_group_fuel
      split: list.splits sum.splits elim: missing_value.elims)

lemma assignTupleValue_fuel: "assignTupleValue i code dests \<noteq> Inl TupleOutOfFuel"
  by (auto simp: assignTupleValue_def split: list.splits item.splits)

lemma parseTupleItems_fuel:
  "length pattern < n \<Longrightarrow> parseTupleItems n items pattern dests optional nested \<noteq> Inl TupleOutOfFuel"
proof (induction n arbitrary: items pattern dests optional nested)
  case (Suc n)
  show ?case
  proof (cases pattern)
    case Nil
    then show ?thesis by simp
  next
    case (Cons code p)
    then have n: "length p < n" using Suc.prems by simp
    note IH = Suc.IH [OF n] Suc.IH [OF le_less_trans [OF parseTupleItems_shrinks n]]
      Suc.IH [OF le_less_trans [OF setMissingTupleValue_shrinks n]]
    show ?thesis
      unfolding Cons
      by (auto simp: IH(1) setMissingTupleValue_fuel assignTupleValue_fuel dest: IH(2,3)
          split: sum.splits list.splits item.splits)
  qed
qed simp

lemma buildTupleItems_shrinks:
  "buildTupleItems n pattern args optional nested = Inr (items, p, pattern', args') \<Longrightarrow>
     length pattern' \<le> length pattern"
proof (induction n arbitrary: pattern args optional nested items p pattern' args')
  case (Suc n)
  show ?case
    using Suc.prems
    by (cases pattern)
      (auto split: if_splits sum.splits list.splits option.splits dest!: Suc.IH)
qed simp

lemma tupleItem_fuel: "tupleItem code a \<noteq> Inl TupleOutOfFuel"
  by (simp add: tupleItem_def split: tuple_arg.splits)

lemma buildTupleItems_fuel:
  "length pattern < n \<Longrightarrow> buildTupleItems n pattern args optional nested \<noteq> Inl TupleOutOfFuel"
proof (induction n arbitrary: pattern args optional nested)
  case (Suc n)
  show ?case
  proof (cases pattern)
    case Nil
    then show ?thesis by simp
  next
    case (Cons code p)
    then have n: "length p < n" using Suc.prems by simp
    note IH = Suc.IH [OF n]
    have after: "buildTupleItems n q as o1 o2 \<noteq> Inl TupleOutOfFuel"
      if "buildTupleItems n p args False True = Inr (its, b, q, as)" for its b q as o1 o2
      by (rule Suc.IH [OF le_less_trans [OF buildTupleItems_shrinks [OF that] n]])
    show ?thesis
    proof (cases "code = CHR ''(''")
      case True
      then show ?thesis
        using IH [of args False True]
        by (auto simp: Cons after split: sum.splits)
    next
      case False
      then show ?thesis
        by (cases args) (auto simp: Cons IH tupleItem_fuel split: sum.split option.split)
    qed
  qed
qed simp

section \<open>Tuples that survive the round trip\<close>

text \<open>
  The patterns the protocol's own commands are written in: required values, optional values
  \<open>(?x)\<close> in a list of their own, and nested lists. \<open>stored\<close> is the type of destination and the
  value that arrives there for an argument; \<open>stored_opt\<close> adds the arguments that say the value
  is absent.
\<close>

datatype tpat = Req char | Opt char | Group "tpat list"

fun show_pat :: "tpat \<Rightarrow> string" and show_pats :: "tpat list \<Rightarrow> string" where
  "show_pat (Req c) = [c]"
| "show_pat (Opt c) = ''(?'' @ [c] @ '')''"
| "show_pat (Group ps) = ''('' @ show_pats ps @ '')''"
| "show_pats [] = []"
| "show_pats (p # ps) = show_pat p @ show_pats ps"

fun leaves :: "tpat \<Rightarrow> (bool \<times> char) list" and leaves_list :: "tpat list \<Rightarrow> (bool \<times> char) list" where
  "leaves (Req c) = [(False, c)]"
| "leaves (Opt c) = [(True, c)]"
| "leaves (Group ps) = leaves_list ps"
| "leaves_list [] = []"
| "leaves_list (p # ps) = leaves p @ leaves_list ps"

definition stored :: "char \<Rightarrow> tuple_arg \<Rightarrow> (dest \<times> tuple_value) option" where
  "stored code a =
     (if code = CHR ''c'' then
        (case a of AString s \<Rightarrow> Some (DString, VString s)
         | APString (Some s) \<Rightarrow> Some (DString, VString s) | _ \<Rightarrow> None)
      else if code = CHR ''s'' then
        (case a of ABytes s \<Rightarrow> Some (DBytes, VBytes s)
         | APBytes (Some s) \<Rightarrow> Some (DBytes, VBytes s) | _ \<Rightarrow> None)
      else if code = CHR ''w'' then
        (case a of AString s \<Rightarrow> Some (DString, VString s) | _ \<Rightarrow> None)
      else if code = CHR ''r'' then
        (case a of ARevnum n \<Rightarrow> if 0 \<le> n \<and> n < 2 ^ 63 then Some (DRevnum, VRevnum n) else None
         | _ \<Rightarrow> None)
      else if code = CHR ''n'' then
        (case a of AUint64 n \<Rightarrow> Some (DUint64, VUint64 n) | _ \<Rightarrow> None)
      else if code = CHR ''b'' then
        (case a of ABool b \<Rightarrow> Some (DBool, VBool b) | _ \<Rightarrow> None)
      else if code = CHR ''l'' then
        (case a of AItems l \<Rightarrow> Some (DItems, VItems l)
         | APItems (Some l) \<Rightarrow> Some (DItems, VItems l) | _ \<Rightarrow> None)
      else None)"

definition absent :: "char \<Rightarrow> tuple_arg \<Rightarrow> (dest \<times> tuple_value) option" where
  "absent code a =
     (if code = CHR ''c'' \<and> a = APString None then Some (DString, VString [])
      else if code = CHR ''s'' \<and> a = APBytes None then Some (DBytes, VBytes [])
      else if code = CHR ''r'' \<and> a = ARevnum (- 1) then Some (DRevnum, VRevnum (- 1))
      else if code = CHR ''l'' \<and> a = APItems None then Some (DItems, VItems [])
      else None)"

definition stored_leaf :: "bool \<times> char \<Rightarrow> tuple_arg \<Rightarrow> (dest \<times> tuple_value) option" where
  "stored_leaf l a =
     (case stored (snd l) a of
        Some r \<Rightarrow> Some r
      | None \<Rightarrow> if fst l then absent (snd l) a else None)"

fun carries :: "(bool \<times> char) list \<Rightarrow> tuple_arg list \<Rightarrow> (dest \<times> tuple_value) list \<Rightarrow> bool" where
  "carries [] [] [] = True"
| "carries (l # ls) (a # args) (dv # dvs) = (stored_leaf l a = Some dv \<and> carries ls args dvs)"
| "carries _ _ _ = False"

lemma stored_item:
  assumes "stored code a = Some (d, v)"
  shows "\<exists>i. tupleItem code a = Inr (Some i) \<and> (\<forall>ds. assignTupleValue i code (d # ds) = Inr (v, ds))"
proof -
  have "unat (word_of_int n :: u64) < 2 ^ 63 \<and> int (unat (word_of_int n :: u64)) = n" if "0 \<le> n" "n < 2 ^ 63" for n
    using that by (simp add: unsigned_of_int take_bit_int_eq_self nat_less_iff)
  then show ?thesis
    using assms
    by (cases a) (auto simp: stored_def tupleItem_def assignTupleValue_def not_le
        split: if_splits option.splits)
qed

lemma absent_item:
  assumes "absent code a = Some (d, v)"
  shows "tupleItem code a = Inr None \<and> missing_value d = Inr v"
  using assms by (auto simp: absent_def tupleItem_def split: if_splits)

lemma stored_letter:
  "stored code a \<noteq> None \<Longrightarrow> code \<in> set ''cswrnbl''" "absent code a \<noteq> None \<Longrightarrow> code \<in> set ''cswrnbl''"
  by (auto simp: stored_def absent_def split: if_splits)

lemma carries_appendE:
  assumes "carries (ls @ ms) args dvs"
  obtains args1 args2 dvs1 dvs2 where "args = args1 @ args2" "dvs = dvs1 @ dvs2"
    "carries ls args1 dvs1" "carries ms args2 dvs2"
  using assms
proof (induction ls arbitrary: args dvs thesis)
  case Nil
  then show ?case by (metis append_Nil carries.simps(1) append_Nil)
next
  case (Cons l ls)
  obtain a as dv ds where e: "args = a # as" "dvs = dv # ds" "stored_leaf l a = Some dv" "carries (ls @ ms) as ds"
    using Cons.prems(2) by (cases args; cases dvs) auto
  from Cons.IH [OF _ e(4)] obtain args1 args2 dvs1 dvs2 where
      "as = args1 @ args2" "ds = dvs1 @ dvs2" "carries ls args1 dvs1" "carries ms args2 dvs2"
    by blast
  then show ?case using Cons.prems(1) [of "a # args1" args2 "dv # dvs1" dvs2] e by simp
qed

text \<open>
  What a piece of pattern does on both sides: in front of any continuation, building turns \<open>args\<close>
  into \<open>items\<close>, and parsing turns those items into the values \<open>dvs\<close> names.
\<close>

definition crosses :: "string \<Rightarrow> tuple_arg list \<Rightarrow> (dest \<times> tuple_value) list \<Rightarrow> item list \<Rightarrow> bool" where
  "crosses pat args dvs items \<longleftrightarrow>
     (\<forall>tail args2 nested items2 p pat2 args3.
        (\<forall>n > length tail. buildTupleItems n tail args2 False nested = Inr (items2, p, pat2, args3)) \<longrightarrow>
        (\<forall>n > length (pat @ tail). buildTupleItems n (pat @ tail) (args @ args2) False nested =
           Inr (items @ items2, p, pat2, args3))) \<and>
     (\<forall>tail dests2 nested items2 pat2 dests3 vs.
        (\<forall>n > length tail. parseTupleItems n items2 tail dests2 False nested = Inr (pat2, dests3, vs)) \<longrightarrow>
        (\<forall>n > length (pat @ tail). parseTupleItems n (items @ items2) (pat @ tail)
           (map fst dvs @ dests2) False nested = Inr (pat2, dests3, map snd dvs @ vs)))"

lemma crosses_Nil: "crosses [] [] [] []"
  by (simp add: crosses_def)

lemma crosses_append:
  assumes "crosses p args dvs items" "crosses q args' dvs' items'"
  shows "crosses (p @ q) (args @ args') (dvs @ dvs') (items @ items')"
  using assms unfolding crosses_def append_assoc map_append by meson

lemma crosses_letter:
  assumes "stored code a = Some (d, v)"
  shows "\<exists>i. crosses [code] [a] [(d, v)] [i]"
proof -
  obtain i where i: "tupleItem code a = Inr (Some i)" "\<And>ds. assignTupleValue i code (d # ds) = Inr (v, ds)"
    using stored_item [OF assms] by blast
  have c: "code \<noteq> CHR ''?''" "code \<noteq> CHR '')''" "code \<noteq> CHR ''!''" "code \<noteq> CHR ''(''"
    using stored_letter(1) [of code a] assms by auto
  have "crosses [code] [a] [(d, v)] [i]"
    unfolding crosses_def
  proof (intro conjI allI impI)
    fix tail args2 nested items2 p pat2 args3 n
    assume "\<forall>n > length tail. buildTupleItems n tail args2 False nested = Inr (items2, p, pat2, args3)"
      and "n > length ([code] @ tail)"
    then show "buildTupleItems n ([code] @ tail) ([a] @ args2) False nested = Inr ([i] @ items2, p, pat2, args3)"
      by (cases n) (simp_all add: c i)
  next
    fix tail dests2 nested items2 pat2 dests3 vs n
    assume "\<forall>n > length tail. parseTupleItems n items2 tail dests2 False nested = Inr (pat2, dests3, vs)"
      and "n > length ([code] @ tail)"
    then show "parseTupleItems n ([i] @ items2) ([code] @ tail) (map fst [(d, v)] @ dests2) False nested =
        Inr (pat2, dests3, map snd [(d, v)] @ vs)"
      by (cases n) (simp_all add: c i)
  qed
  then show ?thesis by blast
qed

lemma all_Suc_greater: "(\<forall>n > Suc m. P n) \<longleftrightarrow> (\<forall>n > m. P (Suc n))"
  by (metis Suc_less_eq Suc_lessE)

lemma crosses_group:
  assumes "crosses pat args dvs items"
  shows "crosses (''('' @ pat @ '')'') args dvs [ItemList items]"
proof -
  have b: "buildTupleItems n (pat @ '')'' @ tail) (args @ args2) False True = Inr (items, True, tail, args2)"
    if "n > Suc (length pat + length tail)" for n tail args2
  proof -
    have "\<forall>n > length ('')'' @ tail). buildTupleItems n ('')'' @ tail) args2 False True = Inr ([], True, tail, args2)"
      by (simp add: all_Suc_greater)
    with conjunct1 [OF assms [unfolded crosses_def]]
    have "\<forall>n > length (pat @ '')'' @ tail). buildTupleItems n (pat @ '')'' @ tail) (args @ args2) False True = Inr (items @ [], True, tail, args2)"
      by blast
    with that show ?thesis by simp
  qed
  have p: "parseTupleItems n items (pat @ '')'' @ tail) (map fst dvs @ dests2) False True =
      Inr (tail, dests2, map snd dvs)"
    if "n > Suc (length pat + length tail)" for n tail dests2
  proof -
    have "\<forall>n > length ('')'' @ tail). parseTupleItems n [] ('')'' @ tail) dests2 False True = Inr (tail, dests2, [])"
      by (simp add: all_Suc_greater)
    with conjunct2 [OF assms [unfolded crosses_def]]
    have "\<forall>n > length (pat @ '')'' @ tail). parseTupleItems n (items @ []) (pat @ '')'' @ tail) (map fst dvs @ dests2) False True = Inr (tail, dests2, map snd dvs @ [])"
      by blast
    with that show ?thesis by simp
  qed
  show ?thesis
    unfolding crosses_def
  proof (intro conjI allI impI)
    fix tail args2 nested items2 q pat2 args3 n
    assume "\<forall>n > length tail. buildTupleItems n tail args2 False nested = Inr (items2, q, pat2, args3)"
      and "n > length ((''('' @ pat @ '')'') @ tail)"
    then show "buildTupleItems n ((''('' @ pat @ '')'') @ tail) (args @ args2) False nested =
        Inr ([ItemList items] @ items2, q, pat2, args3)"
      using b [where n = "n - 1" and tail = tail and ?args2.0 = args2] by (cases n) simp_all
  next
    fix tail dests2 nested items2 pat2 dests3 vs n
    assume "\<forall>n > length tail. parseTupleItems n items2 tail dests2 False nested = Inr (pat2, dests3, vs)"
      and "n > length ((''('' @ pat @ '')'') @ tail)"
    then show "parseTupleItems n ([ItemList items] @ items2) ((''('' @ pat @ '')'') @ tail)
        (map fst dvs @ dests2) False nested = Inr (pat2, dests3, map snd dvs @ vs)"
      using p [where n = "n - 1" and tail = tail and ?dests2.0 = dests2] by (cases n) simp_all
  qed
qed

lemma crosses_opt:
  assumes "stored_leaf (True, code) a = Some (d, v)"
  shows "\<exists>i. crosses (''(?'' @ [code] @ '')'') [a] [(d, v)] [i]"
proof (cases "stored code a")
  case (Some r)
  with assms have s: "stored code a = Some (d, v)" by (simp add: stored_leaf_def)
  obtain i where i: "tupleItem code a = Inr (Some i)" "\<And>ds. assignTupleValue i code (d # ds) = Inr (v, ds)"
    using stored_item [OF s] by blast
  have c: "code \<noteq> CHR ''?''" "code \<noteq> CHR '')''" "code \<noteq> CHR ''!''" "code \<noteq> CHR ''(''"
    using stored_letter(1) [of code a] s by auto
  have "crosses (''(?'' @ [code] @ '')'') [a] [(d, v)] [ItemList [i]]"
    unfolding crosses_def by (simp add: all_Suc_greater c i)
  then show ?thesis by blast
next
  case None
  with assms have s: "absent code a = Some (d, v)" by (simp add: stored_leaf_def)
  note i = absent_item [OF s]
  have c: "code \<noteq> CHR ''?''" "code \<noteq> CHR '')''" "code \<noteq> CHR ''!''" "code \<noteq> CHR ''(''"
    using stored_letter(2) [of code a] s by auto
  have "crosses (''(?'' @ [code] @ '')'') [a] [(d, v)] [ItemList []]"
    unfolding crosses_def
    by (simp add: all_Suc_greater c i setMissingTupleValue_def set_missing_one_def)
  then show ?thesis by blast
qed

lemma crosses_show:
  "carries (leaves p) args dvs \<Longrightarrow> \<exists>items. crosses (show_pat p) args dvs items"
  "carries (leaves_list ps) args dvs \<Longrightarrow> \<exists>items. crosses (show_pats ps) args dvs items"
proof (induction p and ps arbitrary: args dvs and args dvs rule: show_pat_show_pats.induct)
  case (1 c)
  then obtain a d v where "args = [a]" "dvs = [(d, v)]" "stored_leaf (False, c) a = Some (d, v)"
    by (cases args; cases dvs; cases "tl args"; cases "tl dvs") (auto elim: carries.elims)
  then show ?case using crosses_letter [of c a d v] by (auto simp: stored_leaf_def split: option.splits)
next
  case (2 c)
  then obtain a d v where "args = [a]" "dvs = [(d, v)]" "stored_leaf (True, c) a = Some (d, v)"
    by (cases args; cases dvs; cases "tl args"; cases "tl dvs") (auto elim: carries.elims)
  then show ?case using crosses_opt [of c a d v] by auto
next
  case (3 ps)
  then show ?case using crosses_group by fastforce
next
  case 4
  then show ?case using crosses_Nil by (cases args; cases dvs) auto
next
  case (5 p ps)
  from 5(3) obtain args1 args2 dvs1 dvs2 where "args = args1 @ args2" "dvs = dvs1 @ dvs2"
      "carries (leaves p) args1 dvs1" "carries (leaves_list ps) args2 dvs2"
    by (auto elim: carries_appendE)
  then show ?case using 5(1) [of args1 dvs1] 5(2) [of args2 dvs2] crosses_append by fastforce
qed

lemma tuple_crosses:
  assumes "carries (leaves_list ps) args dvs"
  shows "\<exists>items. buildTuple (show_pats ps) args = Inr (items, True) \<and>
    ParseTuple items (show_pats ps) (map fst dvs) = Inr (map snd dvs)"
proof -
  obtain items where c: "crosses (show_pats ps) args dvs items" using crosses_show(2) [OF assms] by blast
  have h: "\<not> (show_pats ps \<noteq> [] \<and> hd (show_pats ps) = CHR ''!'')"
    using assms
  proof (cases ps)
    case (Cons p ps')
    then obtain a args' dv dvs' where "carries (leaves p @ leaves_list ps') args dvs" using assms by simp
    then show ?thesis
      using stored_letter(1) Cons
      by (cases p; cases args; cases dvs) (auto simp: stored_leaf_def split: option.splits)
  qed simp
  have "\<forall>n > length ([] :: string). buildTupleItems n [] [] False False = Inr ([], True, [], [])"
    "\<forall>n > length ([] :: string). parseTupleItems n [] [] [] False False = Inr ([], [], [])"
    by (auto simp: gr0_conv_Suc)
  with c have "\<forall>n > length (show_pats ps). buildTupleItems n (show_pats ps) args False False = Inr (items, True, [], [])"
    and "\<forall>n > length (show_pats ps). parseTupleItems n items (show_pats ps) (map fst dvs) False False =
      Inr ([], [], map snd dvs)"
    unfolding crosses_def by (metis append_Nil2)+
  with h show ?thesis by (auto simp: buildTuple_def ParseTuple_def Let_def)
qed

section \<open>Properties\<close>

text \<open>C24: a tuple written by \<open>WriteTuple\<close> is decoded and parsed back under the same pattern to
  the values it was written from, absent optional values as the values that stand for them.\<close>

theorem tuple_roundtrip:
  assumes "carries (leaves_list ps) args dvs" and "WriteTuple (show_pats ps) args = Inr s"
  shows "\<exists>items. Decode (s @ rest) = Inr (ItemList items, rest) \<and>
    ParseTuple items (show_pats ps) (map fst dvs) = Inr (map snd dvs)"
proof -
  obtain items where "buildTuple (show_pats ps) args = Inr (items, True)"
      "ParseTuple items (show_pats ps) (map fst dvs) = Inr (map snd dvs)"
    using tuple_crosses [OF assms(1)] by blast
  moreover from this assms(2) have "Encode (ItemList items) = Inr s"
    by (simp add: WriteTuple_def split: sum.splits)
  ultimately show ?thesis using Decode_Encode by blast
qed

theorem tuple_roundtrip_witness:
  "\<exists>items. Decode (''( update ( 7 ( ) ) ) '' @ ''tail'') = Inr (ItemList items, ''tail'') \<and>
    ParseTuple items ''w(r(?c))'' [DString, DRevnum, DString] = Inr [VString ''update'', VRevnum 7, VString []]"
proof -
  let ?ps = "[Req CHR ''w'', Group [Req CHR ''r'', Opt CHR ''c'']]"
  have c: "carries (leaves_list ?ps) [AString ''update'', ARevnum 7, APString None]
      [(DString, VString ''update''), (DRevnum, VRevnum 7), (DString, VString [])]"
    by (simp add: stored_leaf_def stored_def absent_def)
  have b: "buildTuple ''w(r(?c))'' [AString ''update'', ARevnum 7, APString None] =
      Inr ([Word ''update'', ItemList [Number 7, ItemList []]], True)"
    by code_simp
  have "WriteTuple (show_pats ?ps) [AString ''update'', ARevnum 7, APString None] = Inr ''( update ( 7 ( ) ) ) ''"
    by (simp add: WriteTuple_def b Encode_def MaxNestingDepth_def utoa.simps [of 7]) code_simp
  from tuple_roundtrip [OF c this, of "''tail''"] show ?thesis
    by (simp del: Decode_def ParseTuple_def)
qed

text \<open>Parsing and building stop on every pattern, well formed or not: neither recursion
  reaches the end of its fuel.\<close>

theorem tuple_total:
  "ParseTuple items pattern dests \<noteq> Inl TupleOutOfFuel \<and> buildTuple pattern args \<noteq> Inl TupleOutOfFuel"
proof
  let ?p = "if pattern \<noteq> [] \<and> hd pattern = CHR ''!'' then tl pattern else pattern"
  have "parseTupleItems (length ?p + 1) items ?p dests False False \<noteq> Inl TupleOutOfFuel"
    by (rule parseTupleItems_fuel) simp
  then show "ParseTuple items pattern dests \<noteq> Inl TupleOutOfFuel"
    unfolding ParseTuple_def Let_def
    by (cases "parseTupleItems (length ?p + 1) items ?p dests False False") (simp_all split: prod.split)
next
  let ?p = "if \<not> (pattern \<noteq> [] \<and> hd pattern = CHR ''!'') then pattern else tl pattern"
  have "buildTupleItems (length ?p + 1) ?p args False False \<noteq> Inl TupleOutOfFuel"
    by (rule buildTupleItems_fuel) simp
  then show "buildTuple pattern args \<noteq> Inl TupleOutOfFuel"
    unfolding buildTuple_def Let_def
    by (cases "buildTupleItems (length ?p + 1) ?p args False False") (simp_all split: prod.split)
qed

end
