(* ===== verification/Spec2Isabelle.thy ===== *)
theory Spec2Isabelle
  imports Delta_Stream Delta_Tree Delta_Pathdriver Props_Subst Fsfs_Merge Svn_Mergeinfo Text_Diff Text_Diff3 Svn_Uri Svn_Skel Svn_Hashfile Rasvn_Tuple
begin

text \<open>
  Verification of go-svn, a Subversion client and server library in Go.

  \<^bold>\<open>The program.\<close> A change between two file versions is a \<^emph>\<open>delta\<close>: a sequence of windows of copy
  and insert operations, computed by the xdelta matcher, carried in the svndiff format (plain, zlib
  or LZ4 sections) and applied on the other side. A change between two trees is an \<^emph>\<open>edit\<close>: calls on
  editor interfaces, which editors wrapping editors filter, cancel or fan out. Paths, URLs, checksums,
  property lists, hash files and merge tracking are the shared vocabulary. A repository keeps every
  revision in a file of records: \<^emph>\<open>node revisions\<close>, their contents as \<^emph>\<open>representations\<close>, the changed
  paths, and two indexes over them. A transaction works on a tree of nodes in memory and is merged
  with the revisions committed meanwhile and written as the next revision file. Working copies and
  the network protocols are built on these parts.

  \<^bold>\<open>The theories\<close>, each with the definitions of its part first and its lemmas after them:

    \<^item> \<^verbatim>\<open>Go_Prelude\<close>, \<^verbatim>\<open>Go_Strings\<close>, \<^verbatim>\<open>Go_Text\<close>, \<^verbatim>\<open>Go_Maps\<close>, \<^verbatim>\<open>Go_Path\<close>: what the source uses of Go:
      slices and indices with their panics, the functions of \<^verbatim>\<open>strings\<close>, \<^verbatim>\<open>strconv\<close>, \<^verbatim>\<open>path\<close> and
      \<^verbatim>\<open>encoding/hex\<close>, white space, maps in sorted order.
    \<^item> \<^verbatim>\<open>Delta_Varint\<close> (\<^verbatim>\<open>delta/varint.go\<close>), \<^verbatim>\<open>Delta_Window\<close> (\<^verbatim>\<open>window.go\<close>, \<^verbatim>\<open>apply.go\<close>), \<^verbatim>\<open>Delta_Xdelta\<close>
      (\<^verbatim>\<open>xdelta.go\<close>), \<^verbatim>\<open>Delta_Svndiff\<close> (\<^verbatim>\<open>svndiff_read.go\<close>, \<^verbatim>\<open>svndiff_write.go\<close>), \<^verbatim>\<open>Delta_Stream\<close>
      (\<^verbatim>\<open>txstream.go\<close>, the appliers of \<^verbatim>\<open>apply.go\<close>), \<^verbatim>\<open>Lz4_Block\<close> (\<^verbatim>\<open>internal/lz4/lz4.go\<close>): each operation
      is correct against a description of what a window stands for, and \<^verbatim>\<open>delta_end_to_end\<close>
      composes them: a delta computed, encoded, decoded and applied gives the target file.
    \<^item> \<^verbatim>\<open>Delta_Editor\<close> (\<^verbatim>\<open>delta/editor.go\<close>, \<^verbatim>\<open>noop.go\<close>, \<^verbatim>\<open>compose.go\<close>, \<^verbatim>\<open>cancel.go\<close>, \<^verbatim>\<open>depthfilter.go\<close>): the
      editor interfaces as datatypes and a codatatype of state-passing functions; each wrapper is
      related to driving what it wraps, by what a depth admits, by a look at the contexts before every
      call, by the effect on each part. \<^verbatim>\<open>Delta_Tree\<close> (\<^verbatim>\<open>inmem.go\<close>): the editor that builds a tree,
      its pointers as indices, against a function on trees. \<^verbatim>\<open>Delta_Pathdriver\<close> (\<^verbatim>\<open>pathdriver.go\<close>): the
      calls that drive an editor to a list of paths.
    \<^item> \<^verbatim>\<open>Svn_Checksum\<close>, \<^verbatim>\<open>Svn_Kind\<close> (\<^verbatim>\<open>svn/checksum.go\<close>, \<^verbatim>\<open>kind.go\<close>, \<^verbatim>\<open>revision.go\<close>); \<^verbatim>\<open>Svn_Path\<close>,
      \<^verbatim>\<open>Svn_Dirent\<close>, \<^verbatim>\<open>Svn_Uri\<close> (\<^verbatim>\<open>svn/path/*.go\<close>): canonical forms as lists of components, and the
      operations on them.
    \<^item> \<^verbatim>\<open>Svn_Skel\<close> (\<^verbatim>\<open>svn/skel/skel.go\<close>), \<^verbatim>\<open>Svn_Hashfile\<close> (\<^verbatim>\<open>svn/hashfile/hashfile.go\<close>), \<^verbatim>\<open>Rasvn_Wire\<close> and
      \<^verbatim>\<open>Rasvn_Tuple\<close> (\<^verbatim>\<open>rasvn/marshal.go\<close>): the text and wire formats, with their round trips.
    \<^item> \<^verbatim>\<open>Svn_Mergeinfo\<close> (\<^verbatim>\<open>mergeinfo/mergeinfo.go\<close>), \<^verbatim>\<open>Text_Diff\<close> (\<^verbatim>\<open>internal/diff/diff.go\<close>),
      \<^verbatim>\<open>Text_Diff3\<close> (\<^verbatim>\<open>internal/diff3/diff3.go\<close>) over \<^verbatim>\<open>Line_Lcs\<close>: the algorithms on revision ranges and
      on lines. \<^verbatim>\<open>Props_Subst\<close> (\<^verbatim>\<open>props/subst.go\<close>): the byte machine for keywords and line endings, as two
      passes over the text.
    \<^item> The repository back end \<^verbatim>\<open>fs/fsfs\<close>. The code: \<^verbatim>\<open>Fsfs_Base\<close> (errors and their sequencing),
      \<^verbatim>\<open>Fsfs_Index\<close> (\<^verbatim>\<open>revfile.go\<close> and the index part of \<^verbatim>\<open>commit.go\<close>: a revision file is written with
      its indexes and read back, validated), \<^verbatim>\<open>Fsfs_Noderev\<close> (\<^verbatim>\<open>id.go\<close>, \<^verbatim>\<open>noderev.go\<close>, \<^verbatim>\<open>changes.go\<close>),
      \<^verbatim>\<open>Fsfs_Read\<close> (\<^verbatim>\<open>representation.go\<close>, \<^verbatim>\<open>root.go\<close>, \<^verbatim>\<open>tree.go\<close>), \<^verbatim>\<open>Fsfs_Txn\<close> (\<^verbatim>\<open>txn.go\<close>,
      \<^verbatim>\<open>txnroot.go\<close>, \<^verbatim>\<open>txnpersist.go\<close>, \<^verbatim>\<open>merge.go\<close>), \<^verbatim>\<open>Fsfs_Commit\<close> (\<^verbatim>\<open>commit.go\<close>, \<^verbatim>\<open>create.go\<close>). A
      repository is a record of its revision files, their properties and counters; a transaction is a
      record with its tree of nodes, its changes and the files it is persisted in; every operation
      takes both and returns an error or a value with the new state.
    \<^item> The proofs about it: \<^verbatim>\<open>Fsfs_Record\<close> (a record of a stored item reads as what was written),
      \<^verbatim>\<open>Fsfs_Build\<close> (the items a commit writes), \<^verbatim>\<open>Fsfs_Committed\<close> (the committed tree is the tree of the
      transaction), \<^verbatim>\<open>Fsfs_Edits\<close> (every operation keeps a transaction committable, and what it
      changes), \<^verbatim>\<open>Fsfs_Life\<close> (from an empty repository through any edits to the next revision: the
      revision answers as the transaction did), \<^verbatim>\<open>Fsfs_Merge\<close> (a merged directory, name by name).

  \<^bold>\<open>Conventions.\<close> Errors and panics are values of a sum or option type. Bytes are 8-bit words where
  the code computes with them and characters where it treats them as text. Sizes and offsets the
  code keeps in 64 bits are integers where every sum is bounded by a check made before it, words
  or \<open>wrap_int\<close> where the code relies on the width or the sum can pass it (the decoders, the source
  view of a text delta). zlib, MD5 and SHA-1, the Unicode part of lower-casing, dates and the current
  directory are parameters, with their documented behaviour as hypotheses where a theorem needs it.
  Recursive decoders carry fuel of the length of their input, and lemmas show that it never runs out.
  The loops that need not end (\<^verbatim>\<open>ToRevs\<close>, the application of a delta from an arbitrary reader, the
  walks along predecessors) are partial functions, whose value \<open>None\<close> is a loop that runs forever;
  inside a read of the repository that value is the error \<open>NeverReturns\<close>, which
  \<open>Fsfs_Read\<close> rules out together with \<open>None\<close>. A commit theorem asks that the revision file fits its
  indexes, and that a copied node is the one found under the path it was created at
  (\<open>sound_source\<close>), since the code looks for it there.

  \<^bold>\<open>Not modelled.\<close> Code whose substance is input and output: the SQLite store of working copies, HTTP
  and socket sessions, external hooks, the command line, and the tests. Of the repository back end:
  the physical layout and packed shards, caches, locks, revision properties after the commit, and
  the atomic renames on disk. A failed allocation is not modelled either: \<open>make\<close> with the target
  length of a window panics in Go when the length is beyond what can be allocated. The sums of line
  numbers and context lines in differences are unbounded.
\<close>

end
